(* ===== verification/Prelude.thy ===== *)
theory Prelude
  imports Main "HOL-Library.Word" "HOL-Library.Finite_Map" "HOL-Library.Multiset" "HOL-Library.Sublist"
begin

text \<open>
  Vocabulary shared by every component.

  The machine integers of the Rust sources are words of their width (\<open>u32\<close>, \<open>u64\<close>, and
  \<open>usize\<close>/\<open>isize\<close> on a 64-bit target). Lengths and indices of vectors are natural numbers:
  a \<^verbatim>\<open>Vec\<close> never holds more than \<^verbatim>\<open>isize::MAX\<close> bytes, so index arithmetic on them
  does not wrap. A panic of the source (failed \<^verbatim>\<open>assert!\<close>, \<^verbatim>\<open>expect\<close>, \<^verbatim>\<open>unwrap\<close>,
  \<^verbatim>\<open>panic!\<close>, \<^verbatim>\<open>unreachable!\<close>, a slice out of range) is a value \<open>Inl _\<close> of the
  sum type \<open>panic + 'a\<close>. The release build is modelled: \<^verbatim>\<open>debug_assert!\<close> is compiled
  out, and integer addition wraps.
\<close>

section \<open>Types\<close>

type_synonym u32 = "32 word"
type_synonym u64 = "64 word"
type_synonym usize = "64 word"
type_synonym isize = "64 word"

text \<open>What stopped the task: the constructors name the Rust construct that fails.\<close>

datatype panic =
    SliceOutOfRange
  | AssertFailed
  | ExpectFailed
  | ExplicitPanic
  | Unreachable
  | DanglingPointer

text \<open>\<open>DanglingPointer\<close> is no panic: it stands for the undefined behaviour of dereferencing a raw
  pointer to freed memory. No theorem lets it happen.\<close>

type_synonym 'a outcome = "panic + 'a"

text \<open>A loop whose body may panic: the panic ends the loop.\<close>

fun fold_outcome :: "('a \<Rightarrow> 's \<Rightarrow> 's outcome) \<Rightarrow> 'a list \<Rightarrow> 's \<Rightarrow> 's outcome" where
  "fold_outcome f [] s = Inr s"
| "fold_outcome f (x # xs) s = (case f x s of Inl p \<Rightarrow> Inl p | Inr s' \<Rightarrow> fold_outcome f xs s')"

lemma fold_outcome_append:
  "fold_outcome f (xs @ ys) s = (case fold_outcome f xs s of Inl p \<Rightarrow> Inl p | Inr s' \<Rightarrow> fold_outcome f ys s')"
  by (induction xs arbitrary: s) (auto split: sum.splits)

text \<open>The sequence \<^verbatim>\<open>a; b\<close> of statements that may panic.\<close>

definition obind :: "'e + 'a \<Rightarrow> ('a \<Rightarrow> 'e + 'b) \<Rightarrow> 'e + 'b" where
  "obind x f = (case x of Inl p \<Rightarrow> Inl p | Inr a \<Rightarrow> f a)"

lemma obind_simps [simp]: "obind (Inl p) f = Inl p" "obind (Inr a) f = f a"
  by (simp_all add: obind_def)

lemma obind_eq_Inr: "obind x f = Inr b \<longleftrightarrow> (\<exists>a. x = Inr a \<and> f a = Inr b)"
  by (cases x) simp_all

text \<open>\<^verbatim>\<open>if c { return Err(err) }\<close>, and \<^verbatim>\<open>assert!(c)\<close>.\<close>

definition reject_if :: "bool \<Rightarrow> 'e \<Rightarrow> 'e + 'a \<Rightarrow> 'e + 'a" where
  "reject_if c err x = (if c then Inl err else x)"

lemma reject_if_eq_Inr: "reject_if c err x = Inr b \<longleftrightarrow> \<not> c \<and> x = Inr b"
  by (simp add: reject_if_def)

definition assert_then :: "bool \<Rightarrow> 'a outcome \<Rightarrow> 'a outcome" where
  "assert_then c x = (if c then x else Inl AssertFailed)"

lemma assert_then_simps [simp]: "assert_then True x = x" "assert_then False x = Inl AssertFailed"
  by (simp_all add: assert_then_def)

section \<open>Named collections\<close>

named_theorems path_simps \<open>rewriting of paths, prefixes and their lengths\<close>
named_theorems inv_intros \<open>preservation of component invariants\<close>

section \<open>Vectors\<close>

text \<open>\<^verbatim>\<open>iter().position(p)\<close>: the index of the first element that satisfies the predicate.\<close>

fun position :: "('a \<Rightarrow> bool) \<Rightarrow> 'a list \<Rightarrow> nat option" where
  "position p [] = None"
| "position p (x # xs) = (if p x then Some 0 else map_option Suc (position p xs))"

lemma position_None: "position p xs = None \<longleftrightarrow> (\<forall>x\<in>set xs. \<not> p x)"
  by (induction xs) auto

lemma position_SomeD:
  "position p xs = Some i \<Longrightarrow> i < length xs \<and> p (xs ! i) \<and> (\<forall>j<i. \<not> p (xs ! j))"
proof (induction xs arbitrary: i)
  case Nil
  then show ?case by simp
next
  case (Cons x xs)
  show ?case
  proof (cases "p x")
    case True
    with Cons.prems show ?thesis by simp
  next
    case False
    with Cons.prems obtain k where k: "position p xs = Some k" "i = Suc k" by auto
    with Cons.IH[OF k(1)] False show ?thesis by (auto simp: nth_Cons split: nat.splits)
  qed
qed

lemma position_less: "position p xs = Some i \<Longrightarrow> i < length xs"
  by (drule position_SomeD) simp

lemma size_list_member: "x \<in> set xs \<Longrightarrow> f x < size_list f xs"
  by (induction xs) auto

lemma size_list_position: "position p xs = Some i \<Longrightarrow> f (xs ! i) < size_list f xs"
  by (rule size_list_member) (simp add: position_less)

text \<open>\<^verbatim>\<open>Vec::remove(i)\<close> and \<^verbatim>\<open>Vec::insert(i, x)\<close>, for indices in range.\<close>

definition vec_remove :: "nat \<Rightarrow> 'a list \<Rightarrow> 'a list" where
  "vec_remove i xs = take i xs @ drop (Suc i) xs"

definition vec_insert :: "nat \<Rightarrow> 'a \<Rightarrow> 'a list \<Rightarrow> 'a list" where
  "vec_insert i x xs = take i xs @ x # drop i xs"

lemma vec_insert_remove: "i < length xs \<Longrightarrow> vec_insert i x (vec_remove i xs) = xs[i := x]"
  by (simp add: vec_insert_def vec_remove_def upd_conv_take_nth_drop min_def)

lemma set_vec_remove_subset: "set (vec_remove i xs) \<subseteq> set xs"
  unfolding vec_remove_def using set_take_subset set_drop_subset by fastforce

lemma mset_vec_remove:
  "i < length xs \<Longrightarrow> mset (vec_remove i xs) = mset xs - {#xs ! i#}"
  by (subst (2) id_take_nth_drop [of i xs]) (auto simp: vec_remove_def)

lemma map_vec_remove: "map f (vec_remove i xs) = vec_remove i (map f xs)"
  by (simp add: vec_remove_def take_map drop_map)

lemma distinct_vec_remove: "distinct xs \<Longrightarrow> distinct (vec_remove i xs)"
  by (auto simp: vec_remove_def dest: set_take_disj_set_drop_if_distinct)
     (metis disjoint_iff le_SucI order_refl set_take_disj_set_drop_if_distinct)

lemma in_set_vec_remove:
  "distinct xs \<Longrightarrow> i < length xs \<Longrightarrow> set (vec_remove i xs) = set xs - {xs ! i}"
  by (metis distinct_remove1_removeAll distinct_vec_remove mset_vec_remove mset_remove1
      set_mset_mset set_removeAll)

lemma vec_remove_filter:
  "distinct (map f xs) \<Longrightarrow> position (\<lambda>x. f x = k) xs = Some i \<Longrightarrow>
     vec_remove i xs = filter (\<lambda>x. f x \<noteq> k) xs"
proof (induction xs arbitrary: i)
  case (Cons x xs)
  show ?case
  proof (cases "f x = k")
    case True
    with Cons.prems have "filter (\<lambda>x. f x \<noteq> k) xs = xs"
      by (auto simp: filter_id_conv rev_image_eqI)
    with True Cons.prems show ?thesis by (auto simp: vec_remove_def)
  next
    case False
    with Cons show ?thesis by (auto simp: vec_remove_def)
  qed
qed simp

section \<open>Common prefixes\<close>

text \<open>The number of leading elements two sequences share.\<close>

fun lcp_len :: "'a list \<Rightarrow> 'a list \<Rightarrow> nat" where
  "lcp_len (x # xs) (y # ys) = (if x = y then Suc (lcp_len xs ys) else 0)"
| "lcp_len _ _ = 0"

lemma lcp_len_Nil [simp]: "lcp_len [] ys = 0" "lcp_len xs [] = 0"
  by simp_all

lemma lcp_len_le: "lcp_len xs ys \<le> length xs" "lcp_len xs ys \<le> length ys"
  by (induction xs ys rule: lcp_len.induct) auto

lemma take_lcp_len: "take (lcp_len xs ys) xs = take (lcp_len xs ys) ys"
  by (induction xs ys rule: lcp_len.induct) auto

lemma le_lcp_len_iff:
  "n \<le> lcp_len xs ys \<longleftrightarrow> n \<le> length xs \<and> n \<le> length ys \<and> take n xs = take n ys"
  by (induction xs ys arbitrary: n rule: lcp_len.induct) (auto simp: take_Cons split: nat.splits)

lemma nth_lcp_len_less: "i < lcp_len xs ys \<Longrightarrow> xs ! i = ys ! i"
  by (metis nth_take take_lcp_len)

lemma lcp_len_diff:
  "lcp_len xs ys < length xs \<Longrightarrow> lcp_len xs ys < length ys
    \<Longrightarrow> xs ! lcp_len xs ys \<noteq> ys ! lcp_len xs ys"
  by (induction xs ys rule: lcp_len.induct) auto

lemma lcp_len_unique:
  assumes "n \<le> length xs" "n \<le> length ys" "take n xs = take n ys"
    and "n < length xs \<Longrightarrow> n < length ys \<Longrightarrow> xs ! n \<noteq> ys ! n"
  shows "lcp_len xs ys = n"
proof (rule antisym)
  show "n \<le> lcp_len xs ys" using assms(1-3) by (simp add: le_lcp_len_iff)
  show "lcp_len xs ys \<le> n"
  proof (rule ccontr)
    assume "\<not> lcp_len xs ys \<le> n"
    then have "n < lcp_len xs ys" by simp
    then show False
      using assms(4) nth_lcp_len_less lcp_len_le order.strict_trans2 by metis
  qed
qed

lemma lcp_len_append [path_simps]: "lcp_len xs (xs @ ys) = length xs"
  by (induction xs) auto

lemma prefix_iff_lcp_len: "prefix xs ys \<longleftrightarrow> lcp_len xs ys = length xs"
  by (induction xs ys rule: lcp_len.induct) auto

section \<open>Word arithmetic of the Rust standard library\<close>

definition sat_sub :: "'l::len word \<Rightarrow> 'l word \<Rightarrow> 'l word" where
  "sat_sub a b = (if a < b then 0 else a - b)"

definition sat_add :: "'l::len word \<Rightarrow> 'l word \<Rightarrow> 'l word" where
  "sat_add a b = (if a + b < a then - 1 else a + b)"

lemma unat_sat_sub: "unat (sat_sub a b) = unat a - unat b"
  by (auto simp: sat_sub_def word_less_nat_alt unat_sub_if')

lemma unat_sat_add:
  fixes a b :: "'l::len word"
  shows "unat (sat_add a b) = min (unat a + unat b) (2 ^ LENGTH('l) - 1)"
proof -
  have "a + b < a \<longleftrightarrow> unat a + unat b \<ge> 2 ^ LENGTH('l)"
    using unsigned_less [of a, where ?'a = nat] unsigned_less [of b, where ?'a = nat]
    by (auto simp: word_less_nat_alt unat_plus_if' simp del: unsigned_less)
  moreover have "unat (- 1 :: 'l word) = 2 ^ LENGTH('l) - 1"
    by (simp add: unsigned_minus_1_eq_mask mask_eq_exp_minus_1)
  ultimately show ?thesis
    by (auto simp: sat_add_def unat_plus_if' min_def)
qed

text \<open>
  \<^verbatim>\<open>isize::saturating_sub\<close> and \<^verbatim>\<open>usize::saturating_add_signed\<close>: the exact integer
  result, clamped to the type's range.
\<close>

definition isize_sat_sub :: "isize \<Rightarrow> isize \<Rightarrow> isize" where
  "isize_sat_sub a b = word_of_int (max (- (2 ^ 63)) (min (2 ^ 63 - 1) (sint a - sint b)))"

definition sat_add_signed :: "usize \<Rightarrow> isize \<Rightarrow> usize" where
  "sat_add_signed a b = word_of_int (max 0 (min (2 ^ 64 - 1) (uint a + sint b)))"

lemma sint_isize_sat_sub:
  "sint (isize_sat_sub a b) = max (- (2 ^ 63)) (min (2 ^ 63 - 1) (sint a - sint b))"
proof -
  have "signed_take_bit 63 (max (- (2 ^ 63)) (min (2 ^ 63 - 1) (sint a - sint b)))
      = (max (- (2 ^ 63)) (min (2 ^ 63 - 1) (sint a - sint b)) :: int)"
    by (rule signed_take_bit_int_eq_self) auto
  then show ?thesis by (simp add: isize_sat_sub_def sint_sbintrunc')
qed

lemma uint_sat_add_signed:
  "uint (sat_add_signed a b) = max 0 (min (2 ^ 64 - 1) (uint a + sint b))"
  by (simp add: sat_add_signed_def uint_word_of_int)

end
