(* ===== verification/VerifiedTrie.thy ===== *)
theory VerifiedTrie
  imports Prelude
begin

text \<open>
  The L0 radix tree of \<^verbatim>\<open>radixtree/src/verified.rs\<close>: a forest of nodes, each with a
  compressed edge label (\<^verbatim>\<open>value\<close>), one payload per label element and a vector of boxed
  children. The executable functions are translated with their explicit \<^verbatim>\<open>offset\<close> into
  the key. On top of the well-formedness the source proves, this theory proves what the tree
  computes: \<^verbatim>\<open>prefix_len\<close> is the length of the longest stored prefix and \<^verbatim>\<open>insert\<close>
  adds exactly the prefixes of the key.
\<close>

section \<open>Data structure\<close>

datatype vnode = VNode (vvalue: "u64 list") (vpayload: "u64 list") (vchildren: "vnode list")

record radix_tree_map =
  roots :: "vnode list"

fun wf_node :: "vnode \<Rightarrow> bool" where
  "wf_node (VNode v p cs) \<longleftrightarrow>
     length v > 0 \<and> length v = length p \<and> (\<forall>c\<in>set cs. wf_node c)"

definition all_wf :: "vnode list \<Rightarrow> bool" where
  "all_wf cs \<longleftrightarrow> (\<forall>c\<in>set cs. wf_node c)"

definition well_formed :: "radix_tree_map \<Rightarrow> bool" where
  "well_formed t \<longleftrightarrow> all_wf (roots t)"

definition rtm_new :: radix_tree_map where
  "rtm_new = \<lparr>roots = []\<rparr>"

section \<open>prefix_len\<close>

text \<open>The test of the child scans: a non-empty label whose first element is the target.\<close>

definition starts_with :: "u64 \<Rightarrow> vnode \<Rightarrow> bool" where
  "starts_with k c \<longleftrightarrow> length (vvalue c) > 0 \<and> vvalue c ! 0 = k"

text \<open>The \<^verbatim>\<open>while matched < vlen\<close> loop of \<^verbatim>\<open>node_prefix_len\<close>.\<close>

function match_edge :: "u64 list \<Rightarrow> u64 list \<Rightarrow> nat \<Rightarrow> nat \<Rightarrow> nat" where
  "match_edge value query offset matched =
     (if matched < length value \<and> offset + matched < length query
      then if value ! matched \<noteq> query ! (offset + matched) then matched
           else match_edge value query offset (matched + 1)
      else matched)"
  by pat_completeness auto
termination
  by (relation "measure (\<lambda>(v, q, off, m). length v - m)") auto

declare match_edge.simps [simp del]

function forest_prefix_len :: "vnode list \<Rightarrow> u64 list \<Rightarrow> nat \<Rightarrow> nat"
  and node_prefix_len :: "vnode \<Rightarrow> u64 list \<Rightarrow> nat \<Rightarrow> nat" where
  "forest_prefix_len forest query offset =
     (if offset \<ge> length query then offset
      else case position (starts_with (query ! offset)) forest of
             Some i \<Rightarrow> node_prefix_len (forest ! i) query offset
           | None \<Rightarrow> offset)"
| "node_prefix_len (VNode v p cs) query offset =
     (let matched = match_edge v query offset 1
      in if matched < length v then offset + matched
         else forest_prefix_len cs query (offset + matched))"
  by pat_completeness auto
termination
  by (relation "measure (case_sum (\<lambda>(f, q, off). size_list size f) (\<lambda>(n, q, off). size n))")
     (auto intro: size_list_position)

declare forest_prefix_len.simps [simp del] node_prefix_len.simps [simp del]

definition rtm_prefix_len :: "radix_tree_map \<Rightarrow> u64 list \<Rightarrow> nat" where
  "rtm_prefix_len t query = forest_prefix_len (roots t) query 0"

section \<open>insert\<close>

text \<open>The two pushes of the copy loop, element by element.\<close>

definition make_leaf :: "u64 list \<Rightarrow> u64 list \<Rightarrow> nat \<Rightarrow> vnode" where
  "make_leaf key payload offset =
     VNode (map (\<lambda>j. key ! j) [offset..<length key]) (map (\<lambda>j. payload ! j) [offset..<length key]) []"

text \<open>The \<^verbatim>\<open>while common < limit\<close> loop of \<^verbatim>\<open>node_insert\<close>.\<close>

function common_edge :: "u64 list \<Rightarrow> u64 list \<Rightarrow> nat \<Rightarrow> nat \<Rightarrow> nat \<Rightarrow> nat" where
  "common_edge value key offset limit common =
     (if common < limit
      then if value ! common \<noteq> key ! (offset + common) then common
           else common_edge value key offset limit (common + 1)
      else common)"
  by pat_completeness auto
termination
  by (relation "measure (\<lambda>(v, k, off, l, c). l - c)") auto

declare common_edge.simps [simp del]

text \<open>\<^verbatim>\<open>node.payload.set(j, payload[offset + j])\<close> for every \<^verbatim>\<open>j < vlen\<close>.\<close>

definition overwrite_payload :: "u64 list \<Rightarrow> u64 list \<Rightarrow> nat \<Rightarrow> nat \<Rightarrow> u64 list" where
  "overwrite_payload p payload offset vlen =
     foldl (\<lambda>p j. p[j := payload ! (offset + j)]) p [0..<vlen]"

definition split_point :: "u64 list \<Rightarrow> u64 list \<Rightarrow> nat \<Rightarrow> nat" where
  "split_point v key offset =
     (let vlen = length v;
          remaining = length key - offset;
          limit = (if vlen < remaining then vlen else remaining)
      in common_edge v key offset limit 1)"

text \<open>Case 3: the node keeps the common part, its rest and the rest of the key become children.\<close>

definition split_node :: "vnode \<Rightarrow> u64 list \<Rightarrow> u64 list \<Rightarrow> nat \<Rightarrow> nat \<Rightarrow> vnode" where
  "split_node n key payload offset common =
     (let v = vvalue n; p = vpayload n; vlen = length v;
          suffix = VNode (map (\<lambda>j. v ! j) [common..<vlen]) (map (\<lambda>j. p ! j) [common..<vlen])
                     (vchildren n);
          children = [suffix]
      in VNode (take common v) (take common p)
           (if offset + common < length key
            then children @ [make_leaf key payload (offset + common)] else children))"

function forest_insert :: "vnode list \<Rightarrow> u64 list \<Rightarrow> u64 list \<Rightarrow> nat \<Rightarrow> vnode list"
  and node_insert :: "vnode \<Rightarrow> u64 list \<Rightarrow> u64 list \<Rightarrow> nat \<Rightarrow> vnode" where
  "forest_insert forest key payload offset =
     (case position (starts_with (key ! offset)) forest of
        None \<Rightarrow> forest @ [make_leaf key payload offset]
      | Some found \<Rightarrow>
          vec_insert found (node_insert (forest ! found) key payload offset)
            (vec_remove found forest))"
| "node_insert (VNode v p cs) key payload offset =
     (if split_point v key offset = length v \<and> offset + split_point v key offset = length key
      then VNode v (overwrite_payload p payload offset (length v)) cs
      else if split_point v key offset = length v
      then VNode v p (forest_insert cs key payload (offset + split_point v key offset))
      else split_node (VNode v p cs) key payload offset (split_point v key offset))"
  by pat_completeness auto
termination
  by (relation "measure (case_sum (\<lambda>(f, k, p, off). size_list size f) (\<lambda>(n, k, p, off). size n))")
     (auto intro: size_list_position)

declare forest_insert.simps [simp del] node_insert.simps [simp del]

definition rtm_insert :: "radix_tree_map \<Rightarrow> u64 list \<Rightarrow> u64 list \<Rightarrow> radix_tree_map" where
  "rtm_insert t key payload = t\<lparr>roots := forest_insert (roots t) key payload 0\<rparr>"

section \<open>Specification: the stored prefixes\<close>

text \<open>
  A sequence is a path of a node when it is a prefix of the label, or continues past the label
  into one of the children. The paths of the forest are all stored prefixes.
\<close>

fun node_path :: "vnode \<Rightarrow> u64 list \<Rightarrow> bool" where
  "node_path (VNode v p cs) xs \<longleftrightarrow>
     prefix xs v \<or> (prefix v xs \<and> (\<exists>c\<in>set cs. node_path c (drop (length v) xs)))"

definition forest_path :: "vnode list \<Rightarrow> u64 list \<Rightarrow> bool" where
  "forest_path f xs \<longleftrightarrow> xs = [] \<or> (\<exists>c\<in>set f. node_path c xs)"

definition stored :: "radix_tree_map \<Rightarrow> u64 list set" where
  "stored t = {xs. forest_path (roots t) xs}"

text \<open>
  The invariant the comments state beyond \<^verbatim>\<open>wf\<close>: the children of a node (and the roots) have
  distinct first key elements.
\<close>

definition head_of :: "vnode \<Rightarrow> u64" where
  "head_of c = hd (vvalue c)"

fun node_ok :: "vnode \<Rightarrow> bool" where
  "node_ok (VNode v p cs) \<longleftrightarrow>
     v \<noteq> [] \<and> length v = length p \<and> distinct (map head_of cs) \<and> (\<forall>c\<in>set cs. node_ok c)"

definition forest_ok :: "vnode list \<Rightarrow> bool" where
  "forest_ok f \<longleftrightarrow> distinct (map head_of f) \<and> (\<forall>c\<in>set f. node_ok c)"

lemma node_ok_wf: "node_ok c \<Longrightarrow> wf_node c"
  by (induction c) auto

lemma node_ok_forest: "node_ok (VNode v p cs) \<Longrightarrow> forest_ok cs"
  by (simp add: forest_ok_def)

lemma node_ok_value: "node_ok c \<Longrightarrow> vvalue c \<noteq> []"
  by (cases c) simp

lemma starts_with_iff: "starts_with k c \<longleftrightarrow> vvalue c \<noteq> [] \<and> head_of c = k"
  by (auto simp: starts_with_def head_of_def hd_conv_nth)

lemma node_path_Nil [simp]: "node_path c []"
  by (cases c) simp

lemma forest_path_Nil [simp]: "forest_path f []"
  by (simp add: forest_path_def)

lemma node_path_head:
  assumes "node_path c (x # xs)" "vvalue c \<noteq> []"
  shows "starts_with x c"
  using assms by (cases c) (auto simp: starts_with_iff head_of_def prefix_def Cons_eq_append_conv)

lemma node_path_extend:
  "prefix v xs \<Longrightarrow> v \<noteq> xs \<Longrightarrow>
     node_path (VNode v p cs) xs \<longleftrightarrow> forest_path cs (drop (length v) xs)"
  by (auto simp: forest_path_def prefix_def)

lemma node_path_short:
  "\<not> prefix v xs \<Longrightarrow> node_path (VNode v p cs) xs \<longleftrightarrow> prefix xs v"
  by auto

section \<open>The loops compute common prefixes\<close>

lemma match_edge_lcp:
  "match_edge v q off m = m + lcp_len (drop m v) (drop (off + m) q)"
proof (induction v q off m rule: match_edge.induct)
  case (1 v q off m)
  show ?case
  proof (cases "m < length v \<and> off + m < length q")
    case True
    then have "drop m v = v ! m # drop (Suc m) v"
      and "drop (off + m) q = q ! (off + m) # drop (Suc (off + m)) q"
      by (auto simp: Cons_nth_drop_Suc)
    with True 1 show ?thesis by (subst match_edge.simps) auto
  next
    case False
    then show ?thesis by (subst match_edge.simps) auto
  qed
qed

lemma common_edge_lcp:
  "limit = min (length v) (length k - off) \<Longrightarrow>
     common_edge v k off limit c = c + lcp_len (drop c v) (drop (off + c) k)"
proof (induction v k off limit c rule: common_edge.induct)
  case (1 v k off limit c)
  show ?case
  proof (cases "c < limit")
    case True
    with 1(2) have "drop c v = v ! c # drop (Suc c) v"
      and "drop (off + c) k = k ! (off + c) # drop (Suc (off + c)) k"
      by (auto simp: Cons_nth_drop_Suc)
    with True 1 show ?thesis by (subst common_edge.simps) auto
  next
    case False
    with 1(2) show ?thesis by (subst common_edge.simps) auto
  qed
qed

lemma lcp_step:
  assumes "starts_with (q ! off) (VNode v p cs)" "off < length q"
  shows "lcp_len v (drop off q) = 1 + lcp_len (drop 1 v) (drop (off + 1) q)"
proof -
  from assms obtain v' where "v = q ! off # v'"
    by (cases v) (auto simp: starts_with_def)
  with assms(2) show ?thesis by (simp add: Cons_nth_drop_Suc [symmetric])
qed

lemma match_edge_eq:
  "starts_with (q ! off) (VNode v p cs) \<Longrightarrow> off < length q \<Longrightarrow>
     match_edge v q off 1 = lcp_len v (drop off q)"
  by (simp only: match_edge_lcp lcp_step)

lemma split_point_eq:
  "starts_with (key ! off) (VNode v p cs) \<Longrightarrow> off < length key \<Longrightarrow>
     split_point v key off = lcp_len v (drop off key)"
  unfolding split_point_def Let_def
  by (subst common_edge_lcp) (auto simp only: lcp_step min_def split: if_splits)

lemma prefix_take_lcp:
  "n \<le> length w \<Longrightarrow> prefix (take n w) v \<longleftrightarrow> n \<le> lcp_len v w"
  by (auto simp: le_lcp_len_iff take_is_prefix prefix_def)
     (metis append_take_drop_id)

section \<open>prefix_len returns the longest stored prefix\<close>

lemma forest_path_other:
  assumes "forest_ok f" "position (starts_with x) f = Some i"
  shows "forest_path f (x # xs) \<longleftrightarrow> node_path (f ! i) (x # xs)"
proof -
  from position_SomeD[OF assms(2)] have i: "i < length f" "starts_with x (f ! i)" by auto
  have "c = f ! i" if "c \<in> set f" "node_path c (x # xs)" for c
  proof -
    from that assms(1) have "starts_with x c"
      by (intro node_path_head) (auto simp: forest_ok_def node_ok_value)
    with i(2) have "head_of c = head_of (f ! i)" by (simp add: starts_with_iff)
    moreover obtain j where "j < length f" "c = f ! j" using \<open>c \<in> set f\<close> by (auto simp: in_set_conv_nth)
    ultimately show ?thesis
      using assms(1) i(1) by (auto simp: forest_ok_def distinct_conv_nth)
  qed
  with i(1) show ?thesis by (auto simp: forest_path_def)
qed

lemma forest_path_none:
  assumes "forest_ok f" "position (starts_with x) f = None"
  shows "\<not> forest_path f (x # xs)"
  using assms node_path_head node_ok_value
  by (fastforce simp: forest_path_def forest_ok_def position_None)

lemma prefix_len_bounds:
  "off \<le> length q \<Longrightarrow> off \<le> forest_prefix_len f q off \<and> forest_prefix_len f q off \<le> length q"
  "off < length q \<Longrightarrow> starts_with (q ! off) c \<Longrightarrow>
     off < node_prefix_len c q off \<and> node_prefix_len c q off \<le> length q"
proof (induction f q off and c q off rule: forest_prefix_len_node_prefix_len.induct)
  case (1 f q off)
  show ?case
  proof (cases "position (starts_with (q ! off)) f")
    case None
    with 1 show ?thesis by (simp add: forest_prefix_len.simps [of f])
  next
    case (Some i)
    with 1 position_SomeD[OF Some] show ?thesis
      by (cases "off < length q") (auto simp: forest_prefix_len.simps [of f] less_imp_le)
  qed
next
  case (2 v p cs q off)
  let ?m = "lcp_len v (drop off q)"
  have m: "match_edge v q off (Suc 0) = ?m" using match_edge_eq[of q off v p cs] 2 by simp
  have "off + ?m \<le> length q" using lcp_len_le(2)[of v "drop off q"] 2(2) by simp
  moreover have "0 < ?m" using lcp_step 2 by simp
  ultimately show ?case
    using 2(1)[of ?m] m by (cases "?m < length v") (auto simp: Let_def node_prefix_len.simps)
qed

lemma prefix_len_correct:
  "forest_ok f \<Longrightarrow> off \<le> length q \<Longrightarrow> n \<le> length q - off \<Longrightarrow>
     forest_path f (take n (drop off q)) \<longleftrightarrow> off + n \<le> forest_prefix_len f q off"
  "node_ok c \<Longrightarrow> off < length q \<Longrightarrow> starts_with (q ! off) c \<Longrightarrow> n \<le> length q - off \<Longrightarrow>
     node_path c (take n (drop off q)) \<longleftrightarrow> off + n \<le> node_prefix_len c q off"
proof (induction f q off and c q off arbitrary: n and n rule: forest_prefix_len_node_prefix_len.induct)
  case (1 f q off)
  show ?case
  proof (cases "n = 0 \<or> off = length q")
    case True
    with 1 prefix_len_bounds(1)[of off q f] show ?thesis by (auto simp: forest_prefix_len.simps)
  next
    case False
    with 1 have off: "off < length q" by auto
    then have tk: "take n (drop off q) = q ! off # take (n - 1) (drop (Suc off) q)"
      using False by (cases n) (auto simp: Cons_nth_drop_Suc [symmetric])
    show ?thesis
    proof (cases "position (starts_with (q ! off)) f")
      case None
      with off 1 False show ?thesis
        by (simp add: tk forest_path_none forest_prefix_len.simps)
    next
      case (Some i)
      then have i: "starts_with (q ! off) (f ! i)" "node_ok (f ! i)"
        using position_SomeD[OF Some] 1(2) by (auto simp: forest_ok_def)
      have "forest_path f (take n (drop off q)) \<longleftrightarrow> node_path (f ! i) (take n (drop off q))"
        unfolding tk by (rule forest_path_other[OF 1(2) Some])
      with 1 off Some i show ?thesis by (simp add: forest_prefix_len.simps [of f])
    qed
  qed
next
  case (2 v p cs q off)
  let ?w = "drop off q"
  let ?m = "lcp_len v ?w"
  have m: "match_edge v q off (Suc 0) = ?m" using match_edge_eq[of q off v p cs] 2 by simp
  have nw: "n \<le> length ?w" using 2 by simp
  have len: "node_prefix_len (VNode v p cs) q off =
      (if ?m < length v then off + ?m else forest_prefix_len cs q (off + ?m))"
    by (simp add: node_prefix_len.simps m Let_def)
  show ?case
  proof (cases "?m < length v")
    case True
    then have "\<not> prefix v ?w" by (simp add: prefix_iff_lcp_len)
    then have "\<not> prefix v (take n ?w)" using prefix_order.trans take_is_prefix by blast
    with True show ?thesis by (simp add: len prefix_take_lcp[OF nw])
  next
    case False
    then have mv: "?m = length v" using lcp_len_le(1)[of v ?w] by simp
    then have pv: "prefix v ?w" by (simp add: prefix_iff_lcp_len)
    then have vw: "off + length v \<le> length q"
      using prefix_length_le[OF pv] 2(3) by simp
    have bound: "off + length v \<le> forest_prefix_len cs q (off + length v)"
      using prefix_len_bounds(1)[OF vw] by simp
    show ?thesis
    proof (cases "n \<le> length v")
      case True
      with bound show ?thesis by (simp add: len mv prefix_take_lcp[OF nw])
    next
      case nv: False
      then have "prefix v (take n ?w)" using pv by (auto simp: prefix_def)
      moreover have "v \<noteq> take n ?w" using nv nw by auto
      ultimately have "node_path (VNode v p cs) (take n ?w) \<longleftrightarrow>
          forest_path cs (drop (length v) (take n ?w))" by (rule node_path_extend)
      moreover have "drop (length v) (take n ?w) = take (n - length v) (drop (off + length v) q)"
        by (simp add: drop_take add.commute)
      ultimately show ?thesis
        using 2(1)[of ?m "n - length v"] node_ok_forest[OF 2(2)] 2(5) nv False vw
        by (simp add: len mv m)
    qed
  qed
qed

section \<open>insert adds the prefixes of the key\<close>

lemma make_leaf_eq: "make_leaf key payload off =
    VNode (drop off key) (map (\<lambda>j. payload ! j) [off..<length key]) []"
proof -
  have "map (\<lambda>j. key ! j) [off..<length key] = drop off key"
    by (rule nth_equalityI) auto
  then show ?thesis by (simp add: make_leaf_def)
qed

lemma map_nth_upt: "map (\<lambda>j. xs ! j) [i..<length xs] = drop i xs"
  by (rule nth_equalityI) auto

lemma forest_insert_Some:
  assumes "position (starts_with (key ! off)) f = Some i"
  shows "forest_insert f key payload off = f[i := node_insert (f ! i) key payload off]"
  using assms by (simp add: forest_insert.simps [of f] vec_insert_remove position_less)

lemma forest_insert_None:
  assumes "position (starts_with (key ! off)) f = None"
  shows "forest_insert f key payload off = f @ [make_leaf key payload off]"
  using assms by (subst forest_insert.simps) simp

lemma forest_path_update:
  assumes "i < length f" "\<And>xs. node_path c xs \<longleftrightarrow> node_path (f ! i) xs \<or> P xs"
  shows "forest_path (f[i := c]) xs \<longleftrightarrow> forest_path f xs \<or> P xs \<or> xs = []"
proof -
  have "(\<exists>d\<in>set (f[i := c]). node_path d xs) \<longleftrightarrow> (\<exists>d\<in>set f. node_path d xs) \<or> P xs"
  proof -
    have "f[i := c] = take i f @ c # drop (Suc i) f" by (rule upd_conv_take_nth_drop[OF assms(1)])
    moreover have "f = take i f @ f ! i # drop (Suc i) f" by (rule id_take_nth_drop[OF assms(1)])
    ultimately show ?thesis using assms(2)
      by (metis (no_types, lifting) Un_iff insert_iff list.simps(15) set_append)
  qed
  then show ?thesis by (auto simp: forest_path_def)
qed

lemma node_path_append:
  "node_path (VNode (u @ s) p cs) (u @ ys) \<longleftrightarrow> node_path (VNode s p' cs) ys"
  by simp

lemma node_path_leaf: "node_path (VNode t p []) ys \<longleftrightarrow> prefix ys t"
  by simp

lemma prefix_outside: "\<not> prefix u xs \<Longrightarrow> prefix xs (u @ t) \<longleftrightarrow> prefix xs u"
  by (auto simp: prefix_append)

lemma node_path_outside:
  "\<not> prefix u xs \<Longrightarrow> node_path (VNode u p cs) xs \<longleftrightarrow> prefix xs u"
  "\<not> prefix u xs \<Longrightarrow> node_path (VNode (u @ s) p cs) xs \<longleftrightarrow> prefix xs u"
  by (auto simp: prefix_append dest: append_prefixD)

lemma node_path_inside:
  "node_path (VNode u p cs) (u @ ys) \<longleftrightarrow> forest_path cs ys"
  by (cases ys) (auto simp: forest_path_def)

lemma split_node_path:
  assumes "common = lcp_len v (drop off key)" "common < length v" "off \<le> length key"
  shows "node_path (split_node (VNode v p cs) key payload off common) xs \<longleftrightarrow>
     node_path (VNode v p cs) xs \<or> prefix xs (drop off key)"
proof -
  define u s t where "u = take common v" and "s = drop common v" and "t = drop (off + common) key"
  have v: "v = u @ s" by (simp add: u_def s_def)
  have w: "drop off key = u @ t"
    using append_take_drop_id[of common "drop off key"] take_lcp_len[of v "drop off key"] assms(1)
    by (simp add: u_def t_def add.commute)
  have len: "length s = length v - common" by (simp add: s_def)
  let ?leaf = "if t \<noteq> [] then [make_leaf key payload (off + common)] else []"
  have split: "split_node (VNode v p cs) key payload off common =
      VNode u (take common p) (VNode s (map (\<lambda>j. p ! j) [common..<length v]) cs # ?leaf)"
    using assms(2) by (simp add: split_node_def Let_def u_def s_def t_def map_nth_upt not_le)
  show ?thesis
  proof (cases "prefix u xs")
    case True
    then obtain ys where xs: "xs = u @ ys" by (auto simp: prefix_def)
    have "forest_path (VNode s (map (\<lambda>j. p ! j) [common..<length v]) cs # ?leaf) ys \<longleftrightarrow>
        node_path (VNode s p cs) ys \<or> prefix ys t"
      by (auto simp: forest_path_def make_leaf_eq t_def)
    then show ?thesis
      unfolding split xs w by (subst v) (simp only: node_path_inside node_path_append [of u s p cs ys p] same_prefix_prefix)
  next
    case False
    then show ?thesis
      unfolding split w by (subst (2) v) (simp only: node_path_outside prefix_outside disj_absorb not_False_eq_True)
  qed
qed

lemma insert_path:
  "forest_ok f \<Longrightarrow> off < length key \<Longrightarrow>
     forest_path (forest_insert f key payload off) xs \<longleftrightarrow> forest_path f xs \<or> prefix xs (drop off key)"
  "node_ok c \<Longrightarrow> off < length key \<Longrightarrow> starts_with (key ! off) c \<Longrightarrow>
     node_path (node_insert c key payload off) xs \<longleftrightarrow> node_path c xs \<or> prefix xs (drop off key)"
proof (induction f key payload off and c key payload off arbitrary: xs and xs
    rule: forest_insert_node_insert.induct)
  case (1 f key payload off)
  show ?case
  proof (cases "position (starts_with (key ! off)) f")
    case None
    then show ?thesis by (auto simp: forest_insert_None forest_path_def make_leaf_eq)
  next
    case (Some i)
    with position_SomeD[OF Some] 1(2) have i: "i < length f" "starts_with (key ! off) (f ! i)"
      "node_ok (f ! i)" by (auto simp: forest_ok_def)
    with 1(1)[OF Some] 1(3) show ?thesis
      by (auto simp: forest_insert_Some[OF Some] forest_path_update)
  qed
next
  case (2 v p cs key payload off)
  let ?m = "lcp_len v (drop off key)"
  have m: "split_point v key off = ?m" by (rule split_point_eq[OF 2(4,3)])
  show ?case
  proof (cases "?m = length v")
    case True
    then have pv: "prefix v (drop off key)" by (simp add: prefix_iff_lcp_len)
    then obtain t where t: "drop off key = v @ t" by (auto simp: prefix_def)
    then have t': "t = drop (off + length v) key"
      by (metis add.commute append_eq_conv_conj drop_drop)
    show ?thesis
    proof (cases "t = []")
      case True
      with t' 2(3) have "off + length v = length key"
        using t by (metis add.commute append_Nil2 le_add_diff_inverse length_drop less_imp_le)
      with True t \<open>?m = length v\<close> show ?thesis by (auto simp: node_insert.simps m)
    next
      case False
      with t' have off: "off + length v < length key" by simp
      then have ins: "node_insert (VNode v p cs) key payload off =
          VNode v p (forest_insert cs key payload (off + length v))"
        by (simp add: node_insert.simps m True)
      have IH: "forest_path (forest_insert cs key payload (off + length v)) ys \<longleftrightarrow>
          forest_path cs ys \<or> prefix ys t" for ys
        using 2(1)[of ys] node_ok_forest[OF 2(2)] off t' True m by simp
      show ?thesis
      proof (cases "prefix v xs")
        case True
        then obtain ys where "xs = v @ ys" by (auto simp: prefix_def)
        then show ?thesis by (simp only: ins t node_path_inside IH same_prefix_prefix)
      next
        case False
        then show ?thesis by (simp only: ins t node_path_outside prefix_outside disj_absorb not_False_eq_True)
      qed
    qed
  next
    case False
    with lcp_len_le(1)[of v "drop off key"] have "?m < length v" by simp
    with 2(3) False show ?thesis by (simp add: node_insert.simps m split_node_path del: node_path.simps)
  qed
qed

section \<open>insert keeps the invariants\<close>

lemma length_overwrite_payload [simp]: "length (overwrite_payload p payload off n) = length p"
proof -
  have "length (foldl (\<lambda>p j. p[j := payload ! (off + j)]) p js) = length p" for js
    by (induction js arbitrary: p) auto
  then show ?thesis by (simp add: overwrite_payload_def)
qed

lemma make_leaf_ok: "off < length key \<Longrightarrow> node_ok (make_leaf key payload off)"
  by (simp add: make_leaf_eq)

lemma head_make_leaf: "off < length key \<Longrightarrow> head_of (make_leaf key payload off) = key ! off"
  by (simp add: make_leaf_eq head_of_def hd_drop_conv_nth)

lemma split_node_ok:
  assumes "common = lcp_len v (drop off key)" "common < length v" "0 < common"
    and "node_ok (VNode v p cs)"
  shows "node_ok (split_node (VNode v p cs) key payload off common)"
    and "head_of (split_node (VNode v p cs) key payload off common) = hd v"
proof -
  let ?s = "drop common v"
  have p: "length p = length v" using assms(4) by simp
  have diff: "key ! (off + common) \<noteq> v ! common" if "off + common < length key"
  proof -
    have "common < length (drop off key)" using that by simp
    with lcp_len_diff[of v "drop off key"] assms(1,2) have "v ! common \<noteq> drop off key ! common"
      by simp
    with that show ?thesis by simp
  qed
  have split: "split_node (VNode v p cs) key payload off common =
      VNode (take common v) (take common p)
        (VNode ?s (drop common p) cs #
          (if off + common < length key then [make_leaf key payload (off + common)] else []))"
    by (simp add: split_node_def Let_def map_nth_upt p map_nth_upt[of p, unfolded p])
  show "node_ok (split_node (VNode v p cs) key payload off common)"
    using assms(2-4) diff
    by (auto simp: split make_leaf_ok head_make_leaf)
       (auto simp: head_of_def hd_drop_conv_nth)
  show "head_of (split_node (VNode v p cs) key payload off common) = hd v"
    using assms(2,3) by (simp add: split head_of_def)
qed

lemma insert_ok:
  "forest_ok f \<Longrightarrow> off < length key \<Longrightarrow> forest_ok (forest_insert f key payload off)"
  "node_ok c \<Longrightarrow> off < length key \<Longrightarrow> starts_with (key ! off) c \<Longrightarrow>
     node_ok (node_insert c key payload off) \<and> head_of (node_insert c key payload off) = head_of c"
proof (induction f key payload off and c key payload off rule: forest_insert_node_insert.induct)
  case (1 f key payload off)
  show ?case
  proof (cases "position (starts_with (key ! off)) f")
    case None
    then have "key ! off \<notin> head_of ` set f"
      using 1(2) by (auto simp: position_None starts_with_iff forest_ok_def node_ok_value)
    with None 1 show ?thesis
      by (auto simp: forest_insert_None forest_ok_def make_leaf_ok head_make_leaf)
  next
    case (Some i)
    with position_SomeD[OF Some] 1(2) have i: "i < length f" "starts_with (key ! off) (f ! i)"
      "node_ok (f ! i)" by (auto simp: forest_ok_def)
    let ?c = "node_insert (f ! i) key payload off"
    have c: "node_ok ?c" "head_of ?c = head_of (f ! i)" using 1(1)[OF Some] i 1(3) by auto
    then have "map head_of (f[i := ?c]) = map head_of f"
      using i(1) by (simp add: map_update) (metis list_update_id nth_map)
    with c 1(2) i(1) show ?thesis
      by (auto simp: forest_insert_Some[OF Some] forest_ok_def dest!: set_update_subset_insert [THEN subsetD])
  qed
next
  case (2 v p cs key payload off)
  let ?m = "lcp_len v (drop off key)"
  have m: "split_point v key off = ?m" by (rule split_point_eq[OF 2(4,3)])
  have m0: "0 < ?m" using lcp_step[OF 2(4,3)] by simp
  show ?case
  proof (cases "?m = length v")
    case True
    show ?thesis
    proof (cases "off + length v = length key")
      case True
      with 2(2) \<open>?m = length v\<close> show ?thesis by (simp add: node_insert.simps m head_of_def)
    next
      case False
      have "off + ?m \<le> length key" using lcp_len_le(2)[of v "drop off key"] 2(3) by simp
      with False True have "off + length v < length key" by simp
      with 2(1) True False m node_ok_forest[OF 2(2)] have
        "forest_ok (forest_insert cs key payload (off + length v))" by simp
      with 2(2) True False show ?thesis
        by (simp add: node_insert.simps m head_of_def forest_ok_def)
    qed
  next
    case False
    with lcp_len_le(1)[of v "drop off key"] have "?m < length v" by simp
    with False split_node_ok[OF refl this m0 2(2)] show ?thesis
      by (simp add: node_insert.simps m head_of_def del: node_ok.simps)
  qed
qed

lemma insert_wf:
  "all_wf f \<Longrightarrow> off < length key \<Longrightarrow> all_wf (forest_insert f key payload off)"
  "wf_node c \<Longrightarrow> off < length key \<Longrightarrow> starts_with (key ! off) c \<Longrightarrow>
     wf_node (node_insert c key payload off)"
proof (induction f key payload off and c key payload off rule: forest_insert_node_insert.induct)
  case (1 f key payload off)
  show ?case
  proof (cases "position (starts_with (key ! off)) f")
    case None
    with 1 show ?thesis
      by (auto simp: forest_insert_None all_wf_def node_ok_wf make_leaf_ok)
  next
    case (Some i)
    with position_SomeD[OF Some] 1 show ?thesis
      by (auto simp: forest_insert_Some all_wf_def dest!: set_update_subset_insert [THEN subsetD])
  qed
next
  case (2 v p cs key payload off)
  let ?m = "lcp_len v (drop off key)"
  have m: "split_point v key off = ?m" by (rule split_point_eq[OF 2(4,3)])
  have m0: "0 < ?m" using lcp_step[OF 2(4,3)] by simp
  have "?m \<le> length v" "off + ?m \<le> length key"
    using lcp_len_le[of v "drop off key"] 2(3) by auto
  with 2 m m0 show ?case
    by (auto simp: node_insert.simps split_node_def Let_def make_leaf_eq all_wf_def)
qed

section \<open>Properties of the map\<close>

definition rtm_ok :: "radix_tree_map \<Rightarrow> bool" where
  "rtm_ok t \<longleftrightarrow> forest_ok (roots t)"

lemma rtm_ok_new [simp]: "rtm_ok rtm_new"
  by (simp add: rtm_ok_def rtm_new_def forest_ok_def)

lemma rtm_ok_insert [inv_intros]: "rtm_ok t \<Longrightarrow> key \<noteq> [] \<Longrightarrow> rtm_ok (rtm_insert t key payload)"
  by (simp add: rtm_ok_def rtm_insert_def insert_ok(1))

lemma stored_new [path_simps]: "stored rtm_new = {[]}"
  by (auto simp: stored_def rtm_new_def forest_path_def)

lemma stored_insert [path_simps]:
  "rtm_ok t \<Longrightarrow> key \<noteq> [] \<Longrightarrow> stored (rtm_insert t key payload) = stored t \<union> {xs. prefix xs key}"
  using insert_path(1)[of "roots t" 0 key payload]
  by (auto simp: rtm_ok_def stored_def rtm_insert_def)

lemma stored_take_iff:
  "rtm_ok t \<Longrightarrow> n \<le> length q \<Longrightarrow> take n q \<in> stored t \<longleftrightarrow> n \<le> rtm_prefix_len t q"
  using prefix_len_correct(1)[of "roots t" 0 q n]
  by (simp add: rtm_ok_def stored_def rtm_prefix_len_def)

lemma rtm_prefix_len_le: "rtm_prefix_len t q \<le> length q"
  using prefix_len_bounds(1)[of 0 q "roots t"] by (simp add: rtm_prefix_len_def)

text \<open>A sequence of insertions, oldest first.\<close>

definition insert_all :: "(u64 list \<times> u64 list) list \<Rightarrow> radix_tree_map \<Rightarrow> radix_tree_map" where
  "insert_all kvs t = fold (\<lambda>(k, p) t. rtm_insert t k p) kvs t"

lemma insert_all_stored:
  "rtm_ok t \<Longrightarrow> \<forall>kv\<in>set kvs. fst kv \<noteq> [] \<Longrightarrow>
     rtm_ok (insert_all kvs t) \<and>
     stored (insert_all kvs t) = stored t \<union> {xs. \<exists>k\<in>fst ` set kvs. prefix xs k}"
proof (induction kvs arbitrary: t)
  case Nil
  then show ?case by (simp add: insert_all_def)
next
  case (Cons kv kvs)
  let ?t = "rtm_insert t (fst kv) (snd kv)"
  have "insert_all (kv # kvs) t = insert_all kvs ?t" by (simp add: insert_all_def split_beta)
  moreover have "rtm_ok ?t" "stored ?t = stored t \<union> {xs. prefix xs (fst kv)}"
    using Cons.prems by (simp_all add: stored_insert rtm_ok_insert)
  ultimately show ?case using Cons.IH[of ?t] Cons.prems(2) by auto
qed

text \<open>C35: \<^verbatim>\<open>prefix_len\<close> returns the length of the longest stored prefix of the query: a
  prefix of the query is stored exactly when it is no longer than the result.\<close>

theorem rtm_prefix_len_longest:
  assumes "rtm_ok t" "n \<le> length q"
  shows "take n q \<in> stored t \<longleftrightarrow> n \<le> rtm_prefix_len t q"
  using assms by (rule stored_take_iff)

lemma rtm_prefix_len_longest_witness:
  "take 2 [1, 2, 9] \<in> stored (rtm_insert rtm_new [1, 2, 3] [7, 7, 7])"
proof -
  have "rtm_ok (rtm_insert rtm_new [1, 2, 3] [7, 7, 7])" by (simp add: inv_intros)
  moreover have "2 \<le> rtm_prefix_len (rtm_insert rtm_new [1, 2, 3] [7, 7, 7]) [1, 2, 9]"
    by code_simp
  ultimately show ?thesis by (subst rtm_prefix_len_longest) simp_all
qed

text \<open>\<^verbatim>\<open>insert\<close> of a non-empty key adds exactly the prefixes of the key to the stored
  sequences, and keeps the tree's invariant (non-empty labels with one payload per element,
  siblings with distinct first elements).\<close>

theorem rtm_insert_adds_prefixes:
  assumes "rtm_ok t" "key \<noteq> []"
  shows "rtm_ok (rtm_insert t key payload) \<and>
    stored (rtm_insert t key payload) = stored t \<union> {xs. prefix xs key}"
  using assms by (simp add: stored_insert rtm_ok_insert)

lemma rtm_insert_adds_prefixes_witness:
  "stored (rtm_insert rtm_new [4, 5] [0, 1]) = {[]} \<union> {xs. prefix xs [4, 5]}"
  using rtm_insert_adds_prefixes [of rtm_new "[4, 5]" "[0, 1]"] by (simp add: stored_new)

text \<open>C36: the contract the source states for \<^verbatim>\<open>insert\<close>: \<^verbatim>\<open>well_formed\<close> alone (without distinct
  first elements) is preserved by inserting a non-empty key.\<close>

theorem rtm_insert_well_formed:
  assumes "well_formed t" "key \<noteq> []"
  shows "well_formed (rtm_insert t key payload)"
  using assms insert_wf(1)[of "roots t" 0 key payload]
  by (simp add: well_formed_def rtm_insert_def)

lemma rtm_insert_well_formed_witness:
  "well_formed (rtm_insert \<lparr>roots = [VNode [1, 2] [0, 0] [], VNode [1] [0] []]\<rparr> [1, 3] [5, 6])"
  by (rule rtm_insert_well_formed) (simp_all add: well_formed_def all_wf_def)

text \<open>after any sequence of insertions into the empty tree, \<^verbatim>\<open>prefix_len\<close> is the longest
  common prefix of the query with one of the inserted keys.\<close>

theorem rtm_prefix_len_build:
  assumes "\<forall>kv\<in>set kvs. fst kv \<noteq> []"
  shows "rtm_prefix_len (insert_all kvs rtm_new) q = Max (insert 0 ((\<lambda>kv. lcp_len (fst kv) q) ` set kvs))"
proof -
  let ?t = "insert_all kvs rtm_new" and ?L = "insert 0 ((\<lambda>kv. lcp_len (fst kv) q) ` set kvs)"
  from insert_all_stored[OF _ assms, of rtm_new]
  have ok: "rtm_ok ?t" and st: "stored ?t = {[]} \<union> {xs. \<exists>k\<in>fst ` set kvs. prefix xs k}"
    by (auto simp: stored_new)
  have key: "n \<le> rtm_prefix_len ?t q \<longleftrightarrow> (\<exists>l\<in>?L. n \<le> l)" if "n \<le> length q" for n
    using stored_take_iff[OF ok that] that
    by (auto simp: st prefix_take_lcp) 
  have "rtm_prefix_len ?t q \<le> Max ?L"
    using key[OF rtm_prefix_len_le] by (meson Max_ge_iff finite.insertI finite_imageI finite_set insert_not_empty order_refl)
  moreover have "l \<le> rtm_prefix_len ?t q" if "l \<in> ?L" for l
    using that key[of l] lcp_len_le(2)[of _ q] by (cases "l = 0") auto
  ultimately show ?thesis by (intro antisym) simp_all
qed

lemma rtm_prefix_len_build_witness:
  "rtm_prefix_len (insert_all [([1, 2, 3], [0, 0, 0]), ([1, 2, 4, 5], [0, 0, 0, 0])] rtm_new) [1, 2, 4, 6] = 3"
  by (subst rtm_prefix_len_build) (simp_all add: max_def)

end
