(* ===== verification/ReqIdTrie.thy ===== *)
theory ReqIdTrie
  imports Prelude "HOL-Library.AList"
begin

text \<open>
  The request-id trie of \<^verbatim>\<open>radixtree/src/req_id_hash.rs\<close>: one hash per edge, the set of
  request ids that claim the path in every node, and a global index from hashes to claiming
  requests. A \<^verbatim>\<open>HashMap\<close> of child nodes is an association list without repeated keys; the
  index is a finite map given as a partial function; a \<^verbatim>\<open>HashSet\<close> is a set. The theory
  proves that the trie and its index implement a map from request ids to their hash sequences, and
  states that contract as a locale for the clients of the trie.
\<close>

section \<open>Data\<close>

datatype trie_node = TrieNode (children: "(u64 \<times> trie_node) list") (owners: "u64 set")

definition default_node :: trie_node where
  "default_node = TrieNode [] {}"

record req_id_hash =
  root :: trie_node
  hash_owners :: "u64 \<rightharpoonup> u64 set"
  epoch :: u64

definition req_id_new :: req_id_hash where
  "req_id_new = \<lparr>root = default_node, hash_owners = Map.empty, epoch = 0\<rparr>"

section \<open>Operations\<close>

text \<open>The first loop of \<^verbatim>\<open>insert_hashes\<close>: walk down, create missing nodes, add the owner.\<close>

fun claim_path :: "trie_node \<Rightarrow> u64 list \<Rightarrow> u64 \<Rightarrow> trie_node" where
  "claim_path n [] rid = n"
| "claim_path (TrieNode cs os) (h # hs) rid =
     (let c = (case map_of cs h of Some c \<Rightarrow> c | None \<Rightarrow> default_node);
          c' = TrieNode (children c) (insert rid (owners c))
      in TrieNode (AList.update h (claim_path c' hs rid) cs) os)"

definition index_add :: "u64 \<Rightarrow> u64 \<Rightarrow> (u64 \<rightharpoonup> u64 set) \<Rightarrow> (u64 \<rightharpoonup> u64 set)" where
  "index_add rid h ho = ho(h \<mapsto> insert rid (case ho h of Some s \<Rightarrow> s | None \<Rightarrow> {}))"

definition insert_hashes :: "req_id_hash \<Rightarrow> u64 list \<Rightarrow> u64 \<Rightarrow> req_id_hash" where
  "insert_hashes t hashes rid =
     (if hashes = [] then t
      else \<lparr>root = claim_path (root t) hashes rid,
            hash_owners = fold (index_add rid) hashes (hash_owners t),
            epoch = epoch t + 1\<rparr>)"

fun strip_owner_along_path :: "trie_node \<Rightarrow> u64 list \<Rightarrow> u64 \<Rightarrow> trie_node" where
  "strip_owner_along_path n [] rid = n"
| "strip_owner_along_path (TrieNode cs os) (h # hs) rid =
     (case map_of cs h of
        None \<Rightarrow> TrieNode cs os
      | Some c \<Rightarrow>
          TrieNode (AList.update h
            (strip_owner_along_path (TrieNode (children c) (owners c - {rid})) hs rid) cs) os)"

fun prune_empty :: "trie_node \<Rightarrow> u64 list \<Rightarrow> trie_node" where
  "prune_empty n [] = n"
| "prune_empty (TrieNode cs os) (h # hs) =
     (case map_of cs h of
        None \<Rightarrow> TrieNode cs os
      | Some c \<Rightarrow>
          (let c' = prune_empty c hs
           in if owners c' = {} \<and> children c' = [] then TrieNode (AList.delete h cs) os
              else TrieNode (AList.update h c' cs) os))"

definition index_del :: "u64 \<Rightarrow> u64 \<Rightarrow> (u64 \<rightharpoonup> u64 set) \<Rightarrow> (u64 \<rightharpoonup> u64 set)" where
  "index_del rid h ho =
     (case ho h of
        None \<Rightarrow> ho
      | Some s \<Rightarrow> if s - {rid} = {} then ho(h := None) else ho(h \<mapsto> s - {rid}))"

definition remove_by_hashes :: "req_id_hash \<Rightarrow> u64 list \<Rightarrow> u64 \<Rightarrow> req_id_hash" where
  "remove_by_hashes t hashes rid =
     (if hashes = [] then t
      else \<lparr>root = prune_empty (strip_owner_along_path (root t) hashes rid) hashes,
            hash_owners = fold (index_del rid) hashes (hash_owners t),
            epoch = epoch t + 1\<rparr>)"

fun trie_get :: "trie_node \<Rightarrow> u64 list \<Rightarrow> nat" where
  "trie_get n [] = 0"
| "trie_get n (h # hs) =
     (case map_of (children n) h of Some c \<Rightarrow> Suc (trie_get c hs) | None \<Rightarrow> 0)"

definition req_id_get :: "req_id_hash \<Rightarrow> u64 list \<Rightarrow> nat" where
  "req_id_get t hashes = trie_get (root t) hashes"

definition owners_of :: "req_id_hash \<Rightarrow> u64 \<Rightarrow> u64 set" where
  "owners_of t h = (case hash_owners t h of Some s \<Rightarrow> s | None \<Rightarrow> {})"

definition evict_orphan_hash :: "req_id_hash \<Rightarrow> u64 \<Rightarrow> req_id_hash" where
  "evict_orphan_hash t h =
     (if map_of (children (root t)) h = None then t
      else \<lparr>root = TrieNode (AList.delete h (children (root t))) (owners (root t)),
            hash_owners = (hash_owners t)(h := None),
            epoch = epoch t + 1\<rparr>)"

definition distinct_hashes :: "req_id_hash \<Rightarrow> nat" where
  "distinct_hashes t = card (dom (hash_owners t))"

section \<open>Owners along a path\<close>

fun node_at :: "trie_node \<Rightarrow> u64 list \<Rightarrow> trie_node option" where
  "node_at n [] = Some n"
| "node_at n (h # p) = (case map_of (children n) h of Some c \<Rightarrow> node_at c p | None \<Rightarrow> None)"

definition owners_at :: "trie_node \<Rightarrow> u64 list \<Rightarrow> u64 set" where
  "owners_at n p = (case node_at n p of Some m \<Rightarrow> owners m | None \<Rightarrow> {})"

lemma owners_at_Nil [simp]: "owners_at n [] = owners n"
  by (simp add: owners_at_def)

lemma owners_at_Cons:
  "owners_at n (h # p) = (case map_of (children n) h of Some c \<Rightarrow> owners_at c p | None \<Rightarrow> {})"
  by (simp add: owners_at_def split: option.splits)

lemma owners_at_default [simp]: "owners_at default_node p = {}"
  by (cases p) (simp_all add: owners_at_Cons default_node_def)

lemma owners_at_with_owners:
  "p \<noteq> [] \<Longrightarrow> owners_at (TrieNode (children c) s) p = owners_at c p"
  by (cases p) (simp_all add: owners_at_Cons)

lemma claim_path_owners:
  "owners_at (claim_path n hs rid) p =
     (if p \<noteq> [] \<and> prefix p hs then insert rid (owners_at n p) else owners_at n p)"
proof (induction n hs rid arbitrary: p rule: claim_path.induct)
  case (1 n rid)
  then show ?case by simp
next
  case (2 cs os h hs rid)
  define c where "c = (case map_of cs h of Some c \<Rightarrow> c | None \<Rightarrow> default_node)"
  show ?case
  proof (cases p)
    case Nil
    then show ?thesis by (simp add: Let_def)
  next
    case (Cons k q)
    have c: "owners_at c q = owners_at (TrieNode cs os) (h # q)"
      by (simp add: owners_at_Cons c_def split: option.splits)
    show ?thesis
    proof (cases "k = h")
      case True
      from 2[OF c_def refl, of q] have "owners_at (claim_path (TrieNode cs os) (h # hs) rid) (h # q) =
          (if prefix q hs then insert rid (owners_at c q) else owners_at c q)"
        by (cases q) (auto simp: Let_def c_def [symmetric] owners_at_Cons update_conv' split: option.splits)
      with c True Cons show ?thesis by simp
    next
      case False
      with Cons show ?thesis by (simp add: Let_def owners_at_Cons update_conv')
    qed
  qed
qed

lemma strip_owner_owners:
  "owners_at (strip_owner_along_path n hs rid) p =
     (if p \<noteq> [] \<and> prefix p hs then owners_at n p - {rid} else owners_at n p)"
proof (induction n hs rid arbitrary: p rule: strip_owner_along_path.induct)
  case (1 n rid)
  then show ?case by simp
next
  case (2 cs os h hs rid)
  show ?case
  proof (cases "map_of cs h")
    case None
    then show ?thesis by (cases p) (auto simp: owners_at_Cons)
  next
    case (Some c)
    show ?thesis
    proof (cases p)
      case Nil
      with Some show ?thesis by simp
    next
      case (Cons k q)
      with Some 2[OF Some, of q] show ?thesis
        by (cases q) (auto simp: owners_at_Cons update_conv' split: option.splits)
    qed
  qed
qed

lemma owners_at_empty_node: "owners c = {} \<Longrightarrow> children c = [] \<Longrightarrow> owners_at c p = {}"
  by (cases p) (simp_all add: owners_at_Cons)

lemma prune_owners:
  "owners_at (prune_empty n hs) p = owners_at n p"
proof (induction n hs arbitrary: p rule: prune_empty.induct)
  case (1 n)
  then show ?case by simp
next
  case (2 cs os h hs)
  show ?case
  proof (cases "map_of cs h")
    case None
    then show ?thesis by simp
  next
    case (Some c)
    have IH: "owners_at (prune_empty c hs) q = owners_at c q" for q by (rule 2[OF Some])
    let ?c = "prune_empty c hs"
    show ?thesis
    proof (cases p)
      case Nil
      with Some show ?thesis by (simp add: Let_def)
    next
      case (Cons k q)
      have "owners ?c = {} \<Longrightarrow> children ?c = [] \<Longrightarrow> owners_at c q = {}"
        using IH[of q] by (simp add: owners_at_empty_node)
      with Some Cons IH show ?thesis
        by (auto simp: Let_def owners_at_Cons update_conv' delete_conv')
    qed
  qed
qed

section \<open>No dead nodes\<close>

text \<open>
  The pruning invariant: keys are not repeated, and every node below the root is claimed or has
  children, hence some claimed node below it.
\<close>

definition live :: "trie_node \<Rightarrow> bool" where
  "live n \<longleftrightarrow> owners n \<noteq> {} \<or> children n \<noteq> []"

fun trie_ok :: "trie_node \<Rightarrow> bool" where
  "trie_ok (TrieNode cs os) \<longleftrightarrow>
     distinct (map fst cs) \<and> (\<forall>x\<in>set cs. live (snd x) \<and> trie_ok (snd x))"

lemma trie_ok_update:
  "trie_ok (TrieNode cs os) \<Longrightarrow> live c \<Longrightarrow> trie_ok c \<Longrightarrow> trie_ok (TrieNode (AList.update h c cs) os)"
proof -
  have "set (AList.update h c cs) \<subseteq> insert (h, c) (set cs)" by (induction cs) auto
  then show "trie_ok (TrieNode cs os) \<Longrightarrow> live c \<Longrightarrow> trie_ok c \<Longrightarrow> ?thesis"
    by (auto simp: distinct_update)
qed

lemma trie_ok_delete: "trie_ok (TrieNode cs os) \<Longrightarrow> trie_ok (TrieNode (AList.delete h cs) os)"
  by (simp add: distinct_delete) (auto simp: AList.delete_eq)

lemma trie_ok_child: "trie_ok n \<Longrightarrow> map_of (children n) h = Some c \<Longrightarrow> live c \<and> trie_ok c"
  by (cases n) (auto dest!: map_of_SomeD)

lemma trie_ok_owners: "trie_ok (TrieNode (children c) s) \<longleftrightarrow> trie_ok c"
  by (cases c) simp

lemma trie_ok_default [simp]: "trie_ok default_node"
  by (simp add: default_node_def)

lemma owners_claim_path [simp]: "owners (claim_path n hs rid) = owners n"
  using claim_path_owners[of n hs rid "[]"] by simp

lemma update_update [simp]: "AList.update k v (AList.update k w al) = AList.update k v al"
  by (induction al) auto

lemma delete_update [simp]: "AList.delete k (AList.update k w al) = AList.delete k al"
  by (induction al) auto

lemma claim_path_ok: "trie_ok n \<Longrightarrow> trie_ok (claim_path n hs rid)"
proof (induction n hs rid rule: claim_path.induct)
  case (1 n rid)
  then show ?case by simp
next
  case (2 cs os h hs rid)
  define c where "c = (case map_of cs h of Some c \<Rightarrow> c | None \<Rightarrow> default_node)"
  let ?c = "claim_path (TrieNode (children c) (insert rid (owners c))) hs rid"
  have "trie_ok c" using trie_ok_child[OF 2(2), of h] by (auto simp: c_def split: option.splits)
  then have "trie_ok ?c" using 2(1)[OF c_def refl] by (simp add: trie_ok_owners del: trie_ok.simps)
  moreover have "live ?c" by (simp add: live_def)
  ultimately show ?case
    using trie_ok_update[OF 2(2)] by (simp add: Let_def c_def [symmetric] del: trie_ok.simps)
qed

lemma strip_prune_ok: "trie_ok n \<Longrightarrow> trie_ok (prune_empty (strip_owner_along_path n hs rid) hs)"
proof (induction n hs rid rule: strip_owner_along_path.induct)
  case (1 n rid)
  then show ?case by simp
next
  case (2 cs os h hs rid)
  show ?case
  proof (cases "map_of cs h")
    case None
    with 2 show ?thesis by simp
  next
    case (Some c)
    let ?c = "prune_empty (strip_owner_along_path (TrieNode (children c) (owners c - {rid})) hs rid) hs"
    have "trie_ok c" using trie_ok_child[OF 2(2), of h] Some by simp
    then have "trie_ok ?c" using 2(1)[OF Some] by (simp add: trie_ok_owners del: trie_ok.simps)
    with Some 2(2) show ?thesis
      by (auto simp: Let_def update_conv' live_def trie_ok_delete trie_ok_update simp del: trie_ok.simps)
  qed
qed

lemma trie_ok_claimed: "trie_ok n \<Longrightarrow> live n \<Longrightarrow> \<exists>q. owners_at n q \<noteq> {}"
proof (induction n)
  case (TrieNode cs os)
  show ?case
  proof (cases "os = {}")
    case False
    then have "owners_at (TrieNode cs os) [] \<noteq> {}" by simp
    then show ?thesis by blast
  next
    case True
    with TrieNode.prems obtain h c cs' where cs: "cs = (h, c) # cs'" by (cases cs) (auto simp: live_def)
    with TrieNode.IH[of "(h, c)" c] TrieNode.prems obtain q where "owners_at c q \<noteq> {}" by auto
    with cs have "owners_at (TrieNode cs os) (h # q) \<noteq> {}" by (simp add: owners_at_Cons)
    then show ?thesis by blast
  qed
qed

text \<open>In a pruned trie the length \<^verbatim>\<open>get\<close> returns is determined by the claims.\<close>

lemma trie_get_claimed:
  "trie_ok n \<Longrightarrow> k \<le> trie_get n hs \<longleftrightarrow>
     k = 0 \<or> (k \<le> length hs \<and> (\<exists>q. owners_at n (take k hs @ q) \<noteq> {}))"
proof (induction n hs arbitrary: k rule: trie_get.induct)
  case (1 n)
  then show ?case by auto
next
  case (2 n h hs)
  show ?case
  proof (cases k)
    case 0
    then show ?thesis by simp
  next
    case (Suc j)
    show ?thesis
    proof (cases "map_of (children n) h")
      case None
      with Suc show ?thesis by (simp add: owners_at_Cons)
    next
      case (Some c)
      with trie_ok_child[OF 2(2) Some] have c: "trie_ok c" "live c" by auto
      with 2(1)[OF Some c(1), of j] trie_ok_claimed[OF c] Suc Some show ?thesis
        by (cases j) (auto simp: owners_at_Cons)
    qed
  qed
qed

section \<open>The trie implements a map from requests to hash sequences\<close>

definition index_of :: "(u64 \<rightharpoonup> u64 list) \<Rightarrow> u64 \<Rightarrow> u64 set" where
  "index_of m h = {rid. \<exists>hs. m rid = Some hs \<and> h \<in> set hs}"

text \<open>
  The relation between the abstract map and the trie. \<open>E\<close> holds evicted hashes: a subtree below
  the root that was dropped although requests still claim it. \<open>claims_rel\<close> is the exact relation.
\<close>

definition claims_upto :: "u64 set \<Rightarrow> (u64 \<rightharpoonup> u64 list) \<Rightarrow> req_id_hash \<Rightarrow> bool" where
  "claims_upto E m t \<longleftrightarrow>
     trie_ok (root t) \<and> owners (root t) = {} \<and>
     (\<forall>h p. owners_at (root t) (h # p) =
        (if h \<in> E then {} else {rid. \<exists>hs. m rid = Some hs \<and> prefix (h # p) hs})) \<and>
     (\<forall>h. hash_owners t h =
        (if h \<in> E \<or> index_of m h = {} then None else Some (index_of m h))) \<and>
     (\<forall>rid. m rid \<noteq> Some [])"

definition claims_rel :: "(u64 \<rightharpoonup> u64 list) \<Rightarrow> req_id_hash \<Rightarrow> bool" where
  "claims_rel = claims_upto {}"

lemma claims_uptoD:
  assumes "claims_upto E m t"
  shows "trie_ok (root t)" "owners (root t) = {}" "m rid \<noteq> Some []"
    "owners_at (root t) (h # p) = (if h \<in> E then {} else {rid. \<exists>hs. m rid = Some hs \<and> prefix (h # p) hs})"
    "hash_owners t h = (if h \<in> E \<or> index_of m h = {} then None else Some (index_of m h))"
  using assms by (auto simp: claims_upto_def)

lemma claims_upto_owners_at:
  "claims_upto E m t \<Longrightarrow> p \<noteq> [] \<Longrightarrow> hd p \<notin> E \<Longrightarrow>
     owners_at (root t) p = {rid. \<exists>hs. m rid = Some hs \<and> prefix p hs}"
  by (cases p) (simp_all add: claims_uptoD)

lemma index_add_fold:
  "fold (index_add rid) hs ho h =
     (if h \<in> set hs then Some (insert rid (case ho h of Some s \<Rightarrow> s | None \<Rightarrow> {})) else ho h)"
  by (induction hs arbitrary: ho) (auto simp: index_add_def split: option.splits)

lemma index_del_fold:
  "fold (index_del rid) hs ho h =
     (if h \<in> set hs
      then (case ho h of None \<Rightarrow> None | Some s \<Rightarrow> if s - {rid} = {} then None else Some (s - {rid}))
      else ho h)"
proof (induction hs arbitrary: ho)
  case (Cons x xs)
  then show ?case by (cases "x = h") (auto simp: index_del_def split: option.splits if_splits)
qed simp

lemma index_of_upd:
  "m rid = None \<Longrightarrow> index_of (m(rid \<mapsto> hs)) h = (if h \<in> set hs then insert rid (index_of m h) else index_of m h)"
  by (auto simp: index_of_def split: if_splits)

lemma index_of_del:
  "m rid = Some hs \<Longrightarrow> index_of (m(rid := None)) h = (if h \<in> set hs then index_of m h - {rid} else index_of m h)"
  by (auto simp: index_of_def split: if_splits)

lemma claims_rel_new: "claims_rel Map.empty req_id_new"
  by (simp add: claims_rel_def claims_upto_def req_id_new_def index_of_def) (simp add: default_node_def)

lemma claims_rel_insert:
  assumes "claims_rel m t" "hs \<noteq> []" "m rid = None"
  shows "claims_rel (m(rid \<mapsto> hs)) (insert_hashes t hs rid)"
proof -
  note D = claims_uptoD[OF assms(1)[unfolded claims_rel_def]]
  have "owners_at (claim_path (root t) hs rid) (h # p) =
      {r. \<exists>hs'. (m(rid \<mapsto> hs)) r = Some hs' \<and> prefix (h # p) hs'}" for h p
    using assms(3) by (auto simp: claim_path_owners D)
  moreover have "fold (index_add rid) hs (hash_owners t) h =
      (if index_of (m(rid \<mapsto> hs)) h = {} then None else Some (index_of (m(rid \<mapsto> hs)) h))" for h
    using assms(3) by (auto simp: index_add_fold index_of_upd D)
  ultimately show ?thesis
    using assms(2) D(1-3) by (simp add: claims_rel_def claims_upto_def insert_hashes_def claim_path_ok)
qed

lemma claims_upto_remove:
  assumes "claims_upto E m t" "m rid = Some hs"
  shows "claims_upto E (m(rid := None)) (remove_by_hashes t hs rid)"
proof -
  note D = claims_uptoD[OF assms(1)]
  have hs: "hs \<noteq> []" using D(3) assms(2) by auto
  have "owners_at (prune_empty (strip_owner_along_path (root t) hs rid) hs) (h # p) =
      (if h \<in> E then {} else {r. \<exists>hs'. (m(rid := None)) r = Some hs' \<and> prefix (h # p) hs'})" for h p
    using assms(2) by (auto simp: prune_owners strip_owner_owners D)
  moreover have "fold (index_del rid) hs (hash_owners t) h =
      (if h \<in> E \<or> index_of (m(rid := None)) h = {} then None else Some (index_of (m(rid := None)) h))" for h
    using assms(2) by (auto simp: index_del_fold index_of_del D)
  moreover have "owners (prune_empty (strip_owner_along_path (root t) hs rid) hs) = {}"
    using prune_owners[of _ hs "[]"] strip_owner_owners[of "root t" hs rid "[]"] D(2) by simp
  ultimately show ?thesis
    using assms hs D(1,3) by (simp add: claims_upto_def remove_by_hashes_def strip_prune_ok)
qed

lemma prefix_take_iff_lcp: "prefix (take k q @ r) hs \<Longrightarrow> k \<le> length q \<Longrightarrow> k \<le> lcp_len hs q"
  by (auto simp: le_lcp_len_iff prefix_def)

lemma lcp_prefix_take: "k \<le> lcp_len hs q \<Longrightarrow> prefix (take k q) hs"
  by (metis le_lcp_len_iff take_is_prefix)

lemma upto_get:
  assumes "claims_upto E m t" "q \<noteq> []" "hd q \<notin> E"
  shows "k \<le> req_id_get t q \<longleftrightarrow> k = 0 \<or> (\<exists>rid hs. m rid = Some hs \<and> k \<le> lcp_len hs q)"
proof (cases k)
  case (Suc j)
  have own: "owners_at (root t) (take k q @ r) = {rid. \<exists>hs. m rid = Some hs \<and> prefix (take k q @ r) hs}" for r
    using claims_upto_owners_at[OF assms(1), of "take k q @ r"] assms(2,3) Suc by (cases q) auto
  have "k \<le> req_id_get t q \<longleftrightarrow> k \<le> length q \<and> (\<exists>r. owners_at (root t) (take k q @ r) \<noteq> {})"
    using trie_get_claimed[of "root t" k q] claims_uptoD(1)[OF assms(1)] Suc by (simp add: req_id_get_def)
  also have "\<dots> \<longleftrightarrow> (\<exists>rid hs. m rid = Some hs \<and> k \<le> lcp_len hs q)"
  proof
    assume "\<exists>rid hs. m rid = Some hs \<and> k \<le> lcp_len hs q"
    then obtain rid hs where hs: "m rid = Some hs" "k \<le> lcp_len hs q" by blast
    then have "k \<le> length q" "prefix (take k q @ []) hs"
      using lcp_len_le(2)[of hs q] by (auto intro: lcp_prefix_take)
    with hs(1) show "k \<le> length q \<and> (\<exists>r. owners_at (root t) (take k q @ r) \<noteq> {})" unfolding own by blast
  qed (auto simp: own intro: prefix_take_iff_lcp)
  finally show ?thesis using Suc by simp
qed simp

lemma claims_rel_get:
  assumes "claims_rel m t"
  shows "k \<le> req_id_get t q \<longleftrightarrow> k = 0 \<or> (\<exists>rid hs. m rid = Some hs \<and> k \<le> lcp_len hs q)"
proof (cases "q = []")
  case True
  then show ?thesis by (auto simp: req_id_get_def)
next
  case False
  then show ?thesis using upto_get[OF assms[unfolded claims_rel_def] False] by simp
qed

lemma claims_upto_owners: "claims_upto E m t \<Longrightarrow> owners_of t h = (if h \<in> E then {} else index_of m h)"
  by (simp add: claims_uptoD owners_of_def)

lemma claims_upto_evict:
  assumes "claims_upto E m t"
  shows "claims_upto E m (evict_orphan_hash t h) \<or> claims_upto (insert h E) m (evict_orphan_hash t h)"
proof (cases "map_of (children (root t)) h = None")
  case True
  with assms show ?thesis by (simp add: evict_orphan_hash_def)
next
  case False
  note D = claims_uptoD[OF assms]
  let ?r = "TrieNode (AList.delete h (children (root t))) (owners (root t))"
  have "owners_at ?r (k # p) = (if k = h then {} else owners_at (root t) (k # p))" for k p
    by (simp add: owners_at_Cons delete_conv')
  moreover have "trie_ok ?r" using D(1) by (cases "root t") (simp add: trie_ok_delete del: trie_ok.simps)
  moreover have "evict_orphan_hash t h =
      \<lparr>root = ?r, hash_owners = (hash_owners t)(h := None), epoch = epoch t + 1\<rparr>"
    using False by (simp only: evict_orphan_hash_def if_False)
  ultimately have "claims_upto (insert h E) m (evict_orphan_hash t h)"
    unfolding claims_upto_def using D by simp
  then show ?thesis ..
qed

lemma claims_upto_settle:
  assumes "claims_upto E m t" "\<And>h. h \<in> E \<Longrightarrow> index_of m h = {}"
  shows "claims_rel m t"
proof -
  have "{rid. \<exists>hs. m rid = Some hs \<and> prefix (h # p) hs} = {}" if "h \<in> E" for h p
    using assms(2)[OF that] set_mono_prefix[of "h # p"] by (fastforce simp: index_of_def)
  with assms show ?thesis by (auto simp: claims_rel_def claims_upto_def)
qed

section \<open>The contract as an interface\<close>

text \<open>
  What the owner of a prefix index relies on: the index implements a map from request ids to
  non-empty hash sequences, \<open>get\<close> is the longest prefix some request shares with the query, and
  the owners of a hash are the requests whose sequence contains it.
\<close>

locale claim_index =
  fixes new :: 't
    and ins :: "'t \<Rightarrow> u64 list \<Rightarrow> u64 \<Rightarrow> 't"
    and rem :: "'t \<Rightarrow> u64 list \<Rightarrow> u64 \<Rightarrow> 't"
    and get :: "'t \<Rightarrow> u64 list \<Rightarrow> nat"
    and owns :: "'t \<Rightarrow> u64 \<Rightarrow> u64 set"
    and rel :: "(u64 \<rightharpoonup> u64 list) \<Rightarrow> 't \<Rightarrow> bool"
  assumes rel_new: "rel Map.empty new"
    and rel_ins: "rel m t \<Longrightarrow> hs \<noteq> [] \<Longrightarrow> m rid = None \<Longrightarrow> rel (m(rid \<mapsto> hs)) (ins t hs rid)"
    and rel_rem: "rel m t \<Longrightarrow> m rid = Some hs \<Longrightarrow> rel (m(rid := None)) (rem t hs rid)"
    and rel_get: "rel m t \<Longrightarrow>
      k \<le> get t q \<longleftrightarrow> k = 0 \<or> (\<exists>rid hs. m rid = Some hs \<and> k \<le> lcp_len hs q)"
    and rel_owns: "rel m t \<Longrightarrow> owns t h = {rid. \<exists>hs. m rid = Some hs \<and> h \<in> set hs}"
begin

text \<open>Dropping a request's claim when there is one, and replacing it.\<close>

lemma drop_claim:
  assumes "rel m t"
  shows "rel (m(rid := None)) (case m rid of None \<Rightarrow> t | Some hs \<Rightarrow> rem t hs rid)"
  using assms rel_rem[OF assms] by (cases "m rid") (simp_all add: fun_upd_idem)

lemma replace_claim:
  assumes "rel m t" "hs \<noteq> []"
  shows "rel (m(rid \<mapsto> hs)) (ins (case m rid of None \<Rightarrow> t | Some hs' \<Rightarrow> rem t hs' rid) hs rid)"
  using rel_ins[OF drop_claim[OF assms(1), of rid] assms(2), of rid] by simp

lemma get_Max:
  assumes "rel m t"
  shows "get t q = Max (insert 0 ((\<lambda>hs. lcp_len hs q) ` ran m))"
proof -
  let ?L = "insert 0 ((\<lambda>hs. lcp_len hs q) ` ran m)"
  have fin: "finite ?L" by (simp add: finite_ran)
  have le: "k \<le> get t q \<longleftrightarrow> (\<exists>l\<in>?L. k \<le> l)" for k
    using rel_get[OF assms, of k q] by (auto simp: ran_def)
  have "l \<le> get t q" if "l \<in> ?L" for l using that le by blast
  moreover have "get t q \<le> Max ?L" using le[of "get t q"] fin by (simp add: Max_ge_iff)
  ultimately show ?thesis using fin by (intro antisym) simp_all
qed

end

text \<open>The hashes of a set are claimed only by requests that are no longer alive.\<close>

definition owned_by_dead :: "(u64 \<Rightarrow> bool) \<Rightarrow> u64 set \<Rightarrow> (u64 \<rightharpoonup> u64 list) \<Rightarrow> bool" where
  "owned_by_dead alive E m \<longleftrightarrow> (\<forall>h\<in>E. \<forall>rid hs. m rid = Some hs \<and> h \<in> set hs \<longrightarrow> \<not> alive rid)"

text \<open>
  An index from which hashes are also evicted. The relation \<open>upto E\<close> tolerates evicted hashes
  \<open>E\<close>; it becomes exact again once no request claims a hash of \<open>E\<close>.
\<close>

locale evictable_index = claim_index +
  fixes evict :: "'t \<Rightarrow> u64 \<Rightarrow> 't"
    and upto :: "u64 set \<Rightarrow> (u64 \<rightharpoonup> u64 list) \<Rightarrow> 't \<Rightarrow> bool"
  assumes rel_upto: "rel m t \<longleftrightarrow> upto {} m t"
    and upto_rem: "upto E m t \<Longrightarrow> m rid = Some hs \<Longrightarrow> upto E (m(rid := None)) (rem t hs rid)"
    and upto_evict: "upto E m t \<Longrightarrow> upto E m (evict t h) \<or> upto (insert h E) m (evict t h)"
    and upto_owns: "upto E m t \<Longrightarrow>
      owns t h = (if h \<in> E then {} else {rid. \<exists>hs. m rid = Some hs \<and> h \<in> set hs})"
    and upto_settle: "upto E m t \<Longrightarrow>
      (\<And>h. h \<in> E \<Longrightarrow> {rid. \<exists>hs. m rid = Some hs \<and> h \<in> set hs} = {}) \<Longrightarrow> rel m t"
begin

lemma evict_unless_alive:
  assumes "upto E m t" "owned_by_dead alive E m"
  obtains E' where "upto E' m (if \<exists>rid\<in>owns t h. alive rid then t else evict t h)"
    "owned_by_dead alive E' m"
proof (cases "\<exists>rid\<in>owns t h. alive rid")
  case True
  with assms that[of E] show ?thesis by simp
next
  case False
  have "owned_by_dead alive (insert h E) m"
    using False assms by (auto simp: upto_owns owned_by_dead_def split: if_splits)
  with upto_evict[OF assms(1), of h] assms(2) False that show ?thesis by auto
qed

lemma upto_drop:
  "upto E m t \<Longrightarrow> upto E (m(rid := None)) (case m rid of None \<Rightarrow> t | Some hs \<Rightarrow> rem t hs rid)"
  using upto_rem by (cases "m rid") (simp_all add: fun_upd_idem)

lemma dead_drop: "owned_by_dead alive E m \<Longrightarrow> owned_by_dead alive E (m(rid := None))"
  by (auto simp: owned_by_dead_def)

lemma settle_alive:
  assumes "upto E m t" "owned_by_dead alive E m" "\<And>rid. m rid \<noteq> None \<Longrightarrow> alive rid"
  shows "rel m t"
  by (rule upto_settle[OF assms(1)]) (use assms(2,3) in \<open>auto simp: owned_by_dead_def\<close>)

end

interpretation req_id: evictable_index req_id_new insert_hashes remove_by_hashes req_id_get owners_of
    claims_rel evict_orphan_hash claims_upto
proof unfold_locales
  show "claims_rel m t \<Longrightarrow> owners_of t h = {rid. \<exists>hs. m rid = Some hs \<and> h \<in> set hs}" for m t h
    using claims_upto_owners[of "{}" m t h] by (simp add: claims_rel_def index_of_def)
  show "claims_rel m t \<Longrightarrow> m rid = Some hs \<Longrightarrow> claims_rel (m(rid := None)) (remove_by_hashes t hs rid)"
    for m t rid hs by (simp add: claims_rel_def claims_upto_remove)
qed (simp_all add: claims_rel_new claims_rel_insert claims_rel_get claims_upto_remove
       claims_upto_evict claims_upto_owners index_of_def claims_upto_settle,
     simp_all add: claims_rel_def)

section \<open>Properties\<close>

text \<open>what \<^verbatim>\<open>get\<close> returns does not depend on the history of the trie: after any run of
  claims and releases that leaves the requests \<open>m\<close> claimed, the result is the longest prefix the
  query shares with a claimed sequence (0 when nothing is claimed).\<close>

theorem req_id_get_longest:
  assumes "claims_rel m t"
  shows "req_id_get t q = Max (insert 0 ((\<lambda>hs. lcp_len hs q) ` ran m))"
  using assms by (rule req_id.get_Max)

lemma req_id_get_longest_witness:
  "req_id_get (insert_hashes req_id_new [10, 20, 30] 1) [10, 20, 99] = 2"
proof -
  have "claims_rel [1 \<mapsto> [10, 20, 30]] (insert_hashes req_id_new [10, 20, 30] 1)"
    by (rule req_id.rel_ins[OF req_id.rel_new]) simp_all
  from req_id_get_longest[OF this, of "[10, 20, 99]"] show ?thesis by (simp add: max_def)
qed

text \<open>releasing a claim undoes it: after \<^verbatim>\<open>insert_hashes\<close> of a request that held no claim
  and \<^verbatim>\<open>remove_by_hashes\<close> of the same sequence, the trie answers every \<^verbatim>\<open>get\<close> and
  \<^verbatim>\<open>owners_of\<close> as before, and its index is unchanged.\<close>

theorem insert_remove_roundtrip:
  assumes "claims_rel m t" "m rid = None"
  shows "let t' = remove_by_hashes (insert_hashes t hs rid) hs rid in
     req_id_get t' q = req_id_get t q \<and> owners_of t' h = owners_of t h \<and>
     hash_owners t' = hash_owners t"
proof (cases "hs = []")
  case True
  then show ?thesis by (simp add: insert_hashes_def remove_by_hashes_def)
next
  case False
  let ?t = "remove_by_hashes (insert_hashes t hs rid) hs rid"
  have m: "m(rid := None) = m" using assms(2) by (simp add: fun_upd_idem)
  have r: "claims_rel m ?t"
    using req_id.rel_rem[OF req_id.rel_ins[OF assms(1) False assms(2)], of rid hs] m by simp
  have "k \<le> req_id_get ?t q \<longleftrightarrow> k \<le> req_id_get t q" for k
    by (simp add: req_id.rel_get[OF r] req_id.rel_get[OF assms(1)])
  then have "req_id_get ?t q = req_id_get t q" by (meson order_refl antisym)
  then show ?thesis
    using req_id.rel_owns[OF r, of h] req_id.rel_owns[OF assms(1), of h] r assms(1)
    by (auto simp: claims_rel_def claims_upto_def)
qed

lemma insert_remove_roundtrip_witness:
  "hash_owners (remove_by_hashes (insert_hashes req_id_new [3, 4] 8) [3, 4] 8) = hash_owners req_id_new"
  using insert_remove_roundtrip [OF req_id.rel_new, where rid = 8 and hs = "[3, 4]"] by (simp add: Let_def)

text \<open>\<^verbatim>\<open>insert_hashes\<close> is idempotent up to the epoch: registering the same claim again
  leaves the index as it is and every \<^verbatim>\<open>get\<close> with its result.\<close>

theorem insert_hashes_idem:
  "owners_at (root (insert_hashes (insert_hashes t hs rid) hs rid)) p =
     owners_at (root (insert_hashes t hs rid)) p \<and>
   hash_owners (insert_hashes (insert_hashes t hs rid) hs rid) = hash_owners (insert_hashes t hs rid)"
  by (auto simp: insert_hashes_def claim_path_owners index_add_fold intro!: ext split: option.splits)

end
