(* ===== verification/EngineTypes.thy ===== *)
theory EngineTypes
  imports Prelude
begin

text \<open>
  What an engine reports after one forward step: \<^verbatim>\<open>RequestStepOutput\<close> and
  \<^verbatim>\<open>EngineStepOutput\<close> of \<^verbatim>\<open>router/src/engine/client.rs\<close>. The engine's state string is
  a string; \<^verbatim>\<open>BackendBlockHash\<close> (\<^verbatim>\<open>[u64; 1]\<close> or \<^verbatim>\<open>[u64; 4]\<close>) is the list of its words.
\<close>

type_synonym backend_block_hash = "u64 list"

record request_step_output =
  request_id :: u64
  new_token_ids :: "u32 list"
  state :: string
  is_finished :: bool
  hit_token_cnt :: u64
  prev_computed_tokens :: u32

record engine_step_output =
  prefill_tokens :: usize
  prefill_token_budget :: usize
  latency :: u64
  outputs :: "request_step_output list"
  new_block_hashes :: "backend_block_hash list"
  evicted_block_hashes :: "backend_block_hash list"
  evicted_block_ids :: "u64 list"
  cur_used_block_ids :: "u64 \<rightharpoonup> u64 list"
  new_block_hashes_ids :: "u64 \<rightharpoonup> u64 list"
  op_exec_log :: "string option"
  preempted_ids :: "u64 list"
  aborted_requests :: "u64 list"
  step_id :: u64

text \<open>A step that reports nothing, and one that reports only outputs, for concrete runs.\<close>

definition empty_step :: engine_step_output where
  "empty_step = \<lparr>prefill_tokens = 0, prefill_token_budget = 0, latency = 0, outputs = [],
     new_block_hashes = [], evicted_block_hashes = [], evicted_block_ids = [],
     cur_used_block_ids = Map.empty, new_block_hashes_ids = Map.empty, op_exec_log = None,
     preempted_ids = [], aborted_requests = [], step_id = 0\<rparr>"

definition output_of :: "u64 \<Rightarrow> string \<Rightarrow> bool \<Rightarrow> request_step_output" where
  "output_of rid st fin = \<lparr>request_id = rid, new_token_ids = [], state = st, is_finished = fin,
     hit_token_cnt = 0, prev_computed_tokens = 0\<rparr>"

text \<open>The classification of the state string shared by the consumers of a step.\<close>

definition is_prefill :: "request_step_output \<Rightarrow> bool" where
  "is_prefill out \<longleftrightarrow> state out = ''PREFILL''"

definition is_decode :: "request_step_output \<Rightarrow> bool" where
  "is_decode out \<longleftrightarrow> state out = ''DECODE'' \<or> state out = ''RUNNING''"

lemma prefill_not_decode [simp]: "is_prefill out \<Longrightarrow> \<not> is_decode out"
  by (auto simp: is_prefill_def is_decode_def)

end
