(* ===== verification/SchedSnapshot.thy ===== *)
theory SchedSnapshot
  imports EngineTypes "HOL-Library.AList"
begin

text \<open>
  The per-request progress snapshot of \<^verbatim>\<open>router/src/scheduler/simulator/sched.rs\<close>: a FCFS
  queue of admitted requests and the running requests by id. The \<^verbatim>\<open>HashMap\<close> of running
  requests is an association list, since the simulator iterates it.
\<close>

record req_progress =
  rp_id :: u64
  input_length :: u32
  processed_tokens :: u32

definition req_new :: "u64 \<Rightarrow> u32 \<Rightarrow> req_progress" where
  "req_new rid len = \<lparr>rp_id = rid, input_length = len, processed_tokens = 0\<rparr>"

definition is_prefilling :: "req_progress \<Rightarrow> bool" where
  "is_prefilling r \<longleftrightarrow> processed_tokens r < input_length r"

definition prefill_remaining :: "req_progress \<Rightarrow> u32" where
  "prefill_remaining r = sat_sub (input_length r) (processed_tokens r)"

record sched_snapshot =
  waiting :: "req_progress list"
  running :: "(u64 \<times> req_progress) list"

definition sched_new :: sched_snapshot where
  "sched_new = \<lparr>waiting = [], running = []\<rparr>"

section \<open>Queue operations\<close>

definition admit :: "sched_snapshot \<Rightarrow> req_progress \<Rightarrow> sched_snapshot" where
  "admit s req = s\<lparr>waiting := waiting s @ [req]\<rparr>"

text \<open>The result of \<^verbatim>\<open>promote_to_running\<close> is ignored by its callers; it is the pair's second part.\<close>

definition promote_to_running ::
    "sched_snapshot \<Rightarrow> u64 \<Rightarrow> sched_snapshot \<times> req_progress option" where
  "promote_to_running s rid =
     (case position (\<lambda>r. rp_id r = rid) (waiting s) of
        None \<Rightarrow> (s, None)
      | Some pos \<Rightarrow>
          (let req = waiting s ! pos
           in (s\<lparr>waiting := vec_remove pos (waiting s), running := AList.update rid req (running s)\<rparr>,
               Some req)))"

definition preempt :: "sched_snapshot \<Rightarrow> u64 \<Rightarrow> sched_snapshot" where
  "preempt s rid =
     (case map_of (running s) rid of
        None \<Rightarrow> s
      | Some req \<Rightarrow>
          s\<lparr>running := AList.delete rid (running s),
            waiting := req\<lparr>processed_tokens := 0\<rparr> # waiting s\<rparr>)"

definition drop_request :: "sched_snapshot \<Rightarrow> u64 \<Rightarrow> sched_snapshot" where
  "drop_request s rid =
     s\<lparr>running := AList.delete rid (running s),
       waiting := filter (\<lambda>r. rp_id r \<noteq> rid) (waiting s)\<rparr>"

definition is_in_flight :: "sched_snapshot \<Rightarrow> u64 \<Rightarrow> bool" where
  "is_in_flight s rid \<longleftrightarrow>
     map_of (running s) rid \<noteq> None \<or> (\<exists>r\<in>set (waiting s). rp_id r = rid)"

definition sched_in_flight_count :: "sched_snapshot \<Rightarrow> nat" where
  "sched_in_flight_count s = length (waiting s) + length (running s)"

section \<open>sync\<close>

text \<open>\<^verbatim>\<open>running.get_mut(&rid)\<close> with the assignment of its caller.\<close>

definition update_running :: "u64 \<Rightarrow> (req_progress \<Rightarrow> req_progress) \<Rightarrow> sched_snapshot \<Rightarrow> sched_snapshot" where
  "update_running rid f s =
     (case map_of (running s) rid of
        None \<Rightarrow> s
      | Some req \<Rightarrow> s\<lparr>running := AList.update rid (f req) (running s)\<rparr>)"

definition ensure_running :: "u64 \<Rightarrow> sched_snapshot \<Rightarrow> sched_snapshot" where
  "ensure_running rid s =
     (if map_of (running s) rid = None then fst (promote_to_running s rid) else s)"

definition sync_prefill :: "usize \<Rightarrow> request_step_output \<Rightarrow> sched_snapshot \<Rightarrow> sched_snapshot" where
  "sync_prefill chunk out s =
     update_running (request_id out)
       (\<lambda>r. r\<lparr>processed_tokens :=
          min (prev_computed_tokens out + ucast chunk) (max (input_length r) 1)\<rparr>)
       (ensure_running (request_id out) s)"

definition sync_decode :: "request_step_output \<Rightarrow> sched_snapshot \<Rightarrow> sched_snapshot" where
  "sync_decode out s =
     (let rid = request_id out;
          s1 = (if map_of (running s) rid = None
                then update_running rid (\<lambda>r. r\<lparr>processed_tokens := input_length r\<rparr>)
                       (fst (promote_to_running s rid))
                else s)
      in update_running rid (\<lambda>r. r\<lparr>processed_tokens := sat_add (processed_tokens r) 1\<rparr>) s1)"

text \<open>The body of the loop over the outputs; \<open>seen\<close> is \<^verbatim>\<open>prefill_seen\<close>.\<close>

definition sync_output ::
    "usize \<Rightarrow> usize \<Rightarrow> request_step_output \<Rightarrow> sched_snapshot \<times> usize \<Rightarrow> sched_snapshot \<times> usize" where
  "sync_output per_chunk remainder out = (\<lambda>(s, seen).
     let (s1, seen1) =
           (if is_prefill out
            then (sync_prefill (if seen < remainder then per_chunk + 1 else per_chunk) out s, seen + 1)
            else if is_decode out then (sync_decode out s, seen)
            else (s, seen))
     in (if is_finished out then drop_request s1 (request_id out) else s1, seen1))"

definition sync :: "sched_snapshot \<Rightarrow> engine_step_output \<Rightarrow> sched_snapshot" where
  "sync s m =
     (let prefill_count = of_nat (length (filter is_prefill (outputs m)));
          (per_chunk, remainder) =
            (if prefill_count > 0
             then (prefill_tokens m div prefill_count, prefill_tokens m mod prefill_count)
             else (0, 0));
          (s1, seen) = fold (sync_output per_chunk remainder) (outputs m) (s, 0);
          s2 = fold (\<lambda>rid s. preempt s rid) (preempted_ids m) s1
      in fold (\<lambda>rid s. drop_request s rid) (aborted_requests m) s2)"

section \<open>The requests in flight\<close>

definition in_flight :: "sched_snapshot \<Rightarrow> u64 set" where
  "in_flight s = fst ` set (running s) \<union> rp_id ` set (waiting s)"

lemma is_in_flight_iff: "is_in_flight s rid \<longleftrightarrow> rid \<in> in_flight s"
  by (auto simp: is_in_flight_def in_flight_def map_of_eq_None_iff)

text \<open>
  The snapshot's invariant: ids are not repeated, neither within nor across the two queues, and
  running entries are filed under their own id.
\<close>

definition sched_ok :: "sched_snapshot \<Rightarrow> bool" where
  "sched_ok s \<longleftrightarrow>
     distinct (map fst (running s)) \<and> (\<forall>x\<in>set (running s). rp_id (snd x) = fst x) \<and>
     distinct (map rp_id (waiting s)) \<and> fst ` set (running s) \<inter> rp_id ` set (waiting s) = {}"

lemma sched_ok_new [simp]: "sched_ok sched_new" "in_flight sched_new = {}"
  by (simp_all add: sched_ok_def sched_new_def in_flight_def)

lemma fst_set_delete: "fst ` set (AList.delete k al) = fst ` set al - {k}"
  by (induction al) auto

lemma fst_set_update: "fst ` set (AList.update k v al) = insert k (fst ` set al)"
  by (simp add: dom_update)

lemma set_alist_update: "set (AList.update k v al) \<subseteq> insert (k, v) (set al)"
  by (induction al) auto

lemma set_alist_delete: "set (AList.delete k al) \<subseteq> set al"
  by (auto simp: AList.delete_eq)

lemma admit_ok [inv_intros]: "sched_ok s \<Longrightarrow> rp_id r \<notin> in_flight s \<Longrightarrow> sched_ok (admit s r)"
  by (auto simp: sched_ok_def admit_def in_flight_def)

lemma in_flight_admit [simp]: "in_flight (admit s r) = insert (rp_id r) (in_flight s)"
  by (auto simp: admit_def in_flight_def)

lemma drop_ok [inv_intros]: "sched_ok s \<Longrightarrow> sched_ok (drop_request s rid)"
  using set_alist_delete[of rid "running s"]
  by (auto simp: sched_ok_def drop_request_def distinct_delete distinct_map_filter)

lemma in_flight_drop [simp]: "in_flight (drop_request s rid) = in_flight s - {rid}"
  by (auto simp: drop_request_def in_flight_def fst_set_delete)

lemma preempt_ok [inv_intros]:
  assumes "sched_ok s" shows "sched_ok (preempt s rid)"
proof (cases "map_of (running s) rid")
  case (Some req)
  then have "(rid, req) \<in> set (running s)" by (rule map_of_SomeD)
  with assms have id: "rp_id req = rid" and mem: "rid \<in> fst ` set (running s)"
    by (auto simp: sched_ok_def) force
  have "\<forall>x\<in>set (AList.delete rid (running s)). rp_id (snd x) = fst x"
    using assms set_alist_delete by (fastforce simp: sched_ok_def)
  with assms Some id mem show ?thesis
    by (auto simp: sched_ok_def preempt_def distinct_delete fst_set_delete)
qed (use assms in \<open>simp add: preempt_def\<close>)

lemma in_flight_preempt [simp]:
  assumes "sched_ok s" shows "in_flight (preempt s rid) = in_flight s"
proof (cases "map_of (running s) rid")
  case (Some req)
  then have "(rid, req) \<in> set (running s)" by (rule map_of_SomeD)
  with assms have id: "rp_id req = rid" and mem: "rid \<in> fst ` set (running s)"
    by (auto simp: sched_ok_def) force
  with Some show ?thesis by (auto simp: preempt_def in_flight_def fst_set_delete)
qed (simp add: preempt_def)

lemma promote_None: "rid \<notin> rp_id ` set (waiting s) \<Longrightarrow> promote_to_running s rid = (s, None)"
proof -
  assume "rid \<notin> rp_id ` set (waiting s)"
  then have "position (\<lambda>r. rp_id r = rid) (waiting s) = None" by (auto simp: position_None)
  then show ?thesis by (simp add: promote_to_running_def)
qed

lemma promote_Some:
  assumes "sched_ok s" "rid \<in> rp_id ` set (waiting s)"
  obtains req where "req \<in> set (waiting s)" "rp_id req = rid"
    "promote_to_running s rid =
      (s\<lparr>waiting := filter (\<lambda>r. rp_id r \<noteq> rid) (waiting s), running := AList.update rid req (running s)\<rparr>, Some req)"
proof -
  have "position (\<lambda>r. rp_id r = rid) (waiting s) \<noteq> None"
    using assms(2) by (auto simp: position_None)
  then obtain i where pos: "position (\<lambda>r. rp_id r = rid) (waiting s) = Some i" by blast
  note i = position_SomeD[OF pos]
  have d: "distinct (map rp_id (waiting s))" using assms(1) by (simp add: sched_ok_def)
  from vec_remove_filter[OF d pos]
  have "vec_remove i (waiting s) = filter (\<lambda>r. rp_id r \<noteq> rid) (waiting s)" .
  with i pos that[of "waiting s ! i"] show ?thesis by (simp add: promote_to_running_def Let_def)
qed

lemma ensure_running_ok:
  assumes "sched_ok s"
  shows "sched_ok (ensure_running rid s) \<and> in_flight (ensure_running rid s) = in_flight s"
proof (cases "map_of (running s) rid = None \<and> rid \<in> rp_id ` set (waiting s)")
  case True
  then have "rid \<in> rp_id ` set (waiting s)" by simp
  then obtain req where req: "req \<in> set (waiting s)" "rp_id req = rid"
    "promote_to_running s rid =
      (s\<lparr>waiting := filter (\<lambda>r. rp_id r \<noteq> rid) (waiting s), running := AList.update rid req (running s)\<rparr>, Some req)"
    by (rule promote_Some[OF assms])
  have "\<forall>x\<in>set (AList.update rid req (running s)). rp_id (snd x) = fst x"
    using assms set_alist_update[of rid req "running s"] req(2) by (auto simp: sched_ok_def)
  with True assms req show ?thesis
    by (auto simp: ensure_running_def sched_ok_def in_flight_def distinct_update fst_set_update
        distinct_map_filter)
next
  case False
  with assms show ?thesis by (auto simp: ensure_running_def promote_None)
qed

lemma update_running_ok:
  assumes "sched_ok s" "\<And>r. rp_id (f r) = rp_id r"
  shows "sched_ok (update_running rid f s) \<and> in_flight (update_running rid f s) = in_flight s"
proof (cases "map_of (running s) rid")
  case (Some req)
  then have "(rid, req) \<in> set (running s)" by (rule map_of_SomeD)
  with assms(1) have id: "rp_id req = rid" and mem: "rid \<in> fst ` set (running s)"
    by (auto simp: sched_ok_def) force
  have "\<forall>x\<in>set (AList.update rid (f req) (running s)). rp_id (snd x) = fst x"
    using assms set_alist_update[of rid "f req" "running s"] id by (auto simp: sched_ok_def)
  with Some mem assms(1) show ?thesis
    by (auto simp: update_running_def sched_ok_def in_flight_def distinct_update fst_set_update)
qed (use assms in \<open>simp add: update_running_def\<close>)

lemma sync_prefill_ok:
  "sched_ok s \<Longrightarrow> sched_ok (sync_prefill c out s) \<and> in_flight (sync_prefill c out s) = in_flight s"
  unfolding sync_prefill_def
  using update_running_ok[of "ensure_running (request_id out) s"] ensure_running_ok by simp

lemma sync_decode_alt: "sync_decode out s =
    update_running (request_id out) (\<lambda>r. r\<lparr>processed_tokens := sat_add (processed_tokens r) 1\<rparr>)
      (if map_of (running s) (request_id out) = None
       then update_running (request_id out) (\<lambda>r. r\<lparr>processed_tokens := input_length r\<rparr>)
              (ensure_running (request_id out) s)
       else s)"
  by (simp add: sync_decode_def ensure_running_def Let_def)

lemma sync_decode_ok:
  "sched_ok s \<Longrightarrow> sched_ok (sync_decode out s) \<and> in_flight (sync_decode out s) = in_flight s"
  unfolding sync_decode_alt
  using update_running_ok ensure_running_ok by simp

lemma sync_output_ok:
  assumes "sched_ok (fst p)"
  shows "sched_ok (fst (sync_output pc rm out p)) \<and>
    in_flight (fst (sync_output pc rm out p)) =
      in_flight (fst p) - (if is_finished out then {request_id out} else {})"
  using assms sync_prefill_ok[of "fst p" _ out] sync_decode_ok[of "fst p" out]
  by (auto simp: sync_output_def split_beta Let_def drop_ok)

lemma sync_outputs_ok:
  "sched_ok (fst p) \<Longrightarrow>
     sched_ok (fst (fold (sync_output pc rm) outs p)) \<and>
     in_flight (fst (fold (sync_output pc rm) outs p)) =
       in_flight (fst p) - request_id ` set (filter is_finished outs)"
proof (induction outs arbitrary: p)
  case (Cons out outs)
  from Cons.IH[OF conjunct1[OF sync_output_ok[OF Cons.prems, of pc rm out]]]
    sync_output_ok[OF Cons.prems, of pc rm out]
  show ?case by (auto split: if_splits)
qed simp

lemma fold_preempt_ok:
  "sched_ok s \<Longrightarrow>
     sched_ok (fold (\<lambda>rid s. preempt s rid) rids s) \<and>
     in_flight (fold (\<lambda>rid s. preempt s rid) rids s) = in_flight s"
  by (induction rids arbitrary: s) (simp_all add: preempt_ok)

lemma fold_drop_ok:
  "sched_ok s \<Longrightarrow>
     sched_ok (fold (\<lambda>rid s. drop_request s rid) rids s) \<and>
     in_flight (fold (\<lambda>rid s. drop_request s rid) rids s) = in_flight s - set rids"
  by (induction rids arbitrary: s) (auto simp: drop_ok)

text \<open>The requests a step ends: finished outputs and engine-side aborts.\<close>

definition ended_by :: "engine_step_output \<Rightarrow> u64 set" where
  "ended_by m = request_id ` set (filter is_finished (outputs m)) \<union> set (aborted_requests m)"

lemma sync_ok:
  assumes "sched_ok s"
  shows "sched_ok (sync s m) \<and> in_flight (sync s m) = in_flight s - ended_by m"
proof -
  have ok: "sched_ok (fst (s, 0 :: usize))" using assms by simp
  show ?thesis
    using sync_outputs_ok[OF ok, of _ _ "outputs m"]
    by (auto simp: sync_def Let_def split_beta ended_by_def fold_preempt_ok fold_drop_ok)
qed

section \<open>Properties\<close>

text \<open>absorbing one engine step keeps the snapshot's invariant (no id in two places, running
  entries filed under their id), and changes the set of requests in flight exactly by the requests
  the step ends: nothing is lost by promotion or preemption, nothing is invented.\<close>

theorem sync_in_flight:
  assumes "sched_ok s"
  shows "sched_ok (sync s m) \<and> in_flight (sync s m) = in_flight s - ended_by m"
  using assms by (rule sync_ok)

lemma sync_in_flight_witness:
  "in_flight (sync (admit (admit sched_new (req_new 1 100)) (req_new 2 50))
     (empty_step\<lparr>outputs := [output_of 1 ''PREFILL'' False, output_of 2 ''DECODE'' True]\<rparr>)) = {1}"
proof -
  have "sched_ok (admit (admit sched_new (req_new 1 100)) (req_new 2 50))"
    by (intro admit_ok) (simp_all add: req_new_def)
  from sync_in_flight[OF this, of "empty_step\<lparr>outputs :=
      [output_of 1 ''PREFILL'' False, output_of 2 ''DECODE'' True]\<rparr>"]
  show ?thesis by (auto simp add: ended_by_def empty_step_def output_of_def req_new_def)
qed

text \<open>a preempted running request goes to the front of the waiting queue with no progress,
  before everything that was already waiting, and stays in flight.\<close>

theorem preempt_front:
  assumes "map_of (running s) rid = Some req"
  shows "waiting (preempt s rid) = req\<lparr>processed_tokens := 0\<rparr> # waiting s \<and>
    map_of (running (preempt s rid)) rid = None \<and>
    (\<forall>r. r \<noteq> rid \<longrightarrow> map_of (running (preempt s rid)) r = map_of (running s) r)"
  using assms by (simp add: preempt_def delete_conv')

lemma preempt_front_witness:
  "waiting (preempt \<lparr>waiting = [req_new 7 9], running = [(3, req_new 3 5)]\<rparr> 3) = [req_new 3 5, req_new 7 9]"
  using preempt_front [of "\<lparr>waiting = [req_new 7 9], running = [(3, req_new 3 5)]\<rparr>" 3 "req_new 3 5"]
  by (simp add: req_new_def)

end
