(* ===== verification/Predictor.thy ===== *)
theory Predictor
  imports EngineTypes Complex_Main
begin

text \<open>
  The cost oracle of the latency simulator: the features of a forward step
  (\<^verbatim>\<open>simulator/batch.rs\<close>), their reconstruction from an engine step
  (\<^verbatim>\<open>batch_from_step\<close> of \<^verbatim>\<open>simulator/mod.rs\<close>), and the online correction of
  \<^verbatim>\<open>simulator/predictor.rs\<close>. Latencies are real numbers: the rounding of \<^verbatim>\<open>f32\<close> is not
  modelled. The offline predictor is a parameter, a function from features to a latency.
\<close>

record batch =
  num_tokens :: usize
  num_tokens_rounded :: usize
  num_prefill_tokens :: "usize list"
  num_prefill_computed_tokens :: "usize list"
  num_decode_computed_tokens :: "usize list"
  batch_size :: usize

definition round_up :: "usize \<Rightarrow> usize \<Rightarrow> usize" where
  "round_up n bs = ((n + bs - 1) div bs) * bs"

definition batch_from_step :: "engine_step_output \<Rightarrow> usize \<Rightarrow> batch" where
  "batch_from_step m block_size =
     (let prefill_computed = map (\<lambda>out. ucast (prev_computed_tokens out)) (filter is_prefill (outputs m));
          decode_computed = map (\<lambda>out. ucast (prev_computed_tokens out)) (filter is_decode (outputs m));
          prefill_count = length prefill_computed;
          per = prefill_tokens m div of_nat prefill_count;
          remainder = prefill_tokens m mod of_nat prefill_count;
          prefill = (if prefill_count > 0
                     then map (\<lambda>i. if of_nat i < remainder then per + 1 else per) [0..<prefill_count]
                     else []);
          n = prefill_tokens m + of_nat (length decode_computed)
      in \<lparr>num_tokens = n, num_tokens_rounded = round_up n (max block_size 1),
          num_prefill_tokens = prefill, num_prefill_computed_tokens = prefill_computed,
          num_decode_computed_tokens = decode_computed, batch_size = of_nat (length (outputs m))\<rparr>)"

section \<open>Online correction\<close>

record linreg =
  w0 :: real
  w1 :: real
  learning_rate :: real
  warmup_remaining :: usize
  outlier_threshold :: real

definition linreg_new :: "real \<Rightarrow> usize \<Rightarrow> real \<Rightarrow> linreg" where
  "linreg_new rate warmup threshold =
     \<lparr>w0 = 1, w1 = 0, learning_rate = rate, warmup_remaining = warmup, outlier_threshold = threshold\<rparr>"

definition linreg_correct :: "linreg \<Rightarrow> real \<Rightarrow> real" where
  "linreg_correct c raw = w0 c * raw + w1 c"

definition linreg_calibrate :: "linreg \<Rightarrow> real \<Rightarrow> real \<Rightarrow> linreg" where
  "linreg_calibrate c raw actual =
     (if warmup_remaining c > 0 then c\<lparr>warmup_remaining := warmup_remaining c - 1\<rparr>
      else let corrected = w0 c * raw + w1 c;
               err = actual - corrected
           in if \<bar>err\<bar> > outlier_threshold c then c
              else c\<lparr>w0 := w0 c + learning_rate c * err * raw,
                     w1 := w1 c + learning_rate c * err\<rparr>)"

text \<open>\<^verbatim>\<open>RegressionalPredictor\<close>: the offline predictor followed by the correction.\<close>

definition reg_predict :: "(batch \<Rightarrow> real) \<Rightarrow> linreg \<Rightarrow> batch \<Rightarrow> real" where
  "reg_predict inner c b = linreg_correct c (inner b)"

definition reg_calibrate :: "(batch \<Rightarrow> real) \<Rightarrow> linreg \<Rightarrow> batch \<Rightarrow> real \<Rightarrow> linreg" where
  "reg_calibrate inner c b actual = linreg_calibrate c (inner b) actual"

section \<open>Even split of the prefill tokens\<close>

lemma sum_list_even_split:
  "sum_list (map (\<lambda>i. if i < r then Suc p else p) [0..<k]) = k * p + min r (k :: nat)"
  by (induction k) (auto simp: min_def)

lemma unat_of_nat_len: "k < 2 ^ 64 \<Longrightarrow> unat (of_nat k :: usize) = k"
  by (simp add: unsigned_of_nat take_bit_nat_eq_self)

lemma even_split_words:
  fixes n :: usize
  assumes "0 < k" "k < 2 ^ 64"
  shows "sum_list (map (\<lambda>i. unat (if of_nat i < n mod of_nat k then n div of_nat k + 1 else n div of_nat k)) [0..<k])
    = unat n"
proof -
  let ?p = "unat n div k" and ?r = "unat n mod k"
  have p: "unat (n div of_nat k) = ?p" and r: "unat (n mod of_nat k) = ?r"
    using assms by (simp_all add: unat_div unat_mod unat_of_nat_len)
  have "unat (if of_nat i < n mod of_nat k then n div of_nat k + 1 else n div of_nat k)
      = (if i < ?r then Suc ?p else ?p)" if "i < k" for i
  proof -
    have i: "unat (of_nat i :: usize) = i" using that assms by (simp add: unat_of_nat_len)
    have lt: "of_nat i < n mod of_nat k \<longleftrightarrow> i < ?r" by (simp add: word_less_nat_alt i r)
    have "Suc ?p < 2 ^ 64" if "i < ?r"
    proof -
      have "0 < ?r" "?r < k" using that assms by auto
      then have "2 \<le> k" by simp
      then have "?p \<le> unat n div 2" by (simp add: div_le_mono2)
      then show ?thesis using unsigned_less[of n, where ?'a = nat] by simp
    qed
    then show ?thesis using lt p by (auto simp: unat_plus_if')
  qed
  then have "map (\<lambda>i. unat (if of_nat i < n mod of_nat k then n div of_nat k + 1 else n div of_nat k)) [0..<k]
      = map (\<lambda>i. if i < ?r then Suc ?p else ?p) [0..<k]" by simp
  moreover have "?r \<le> k" using assms by (simp add: less_imp_le)
  ultimately show ?thesis by (simp only: sum_list_even_split min_absorb1) simp
qed

section \<open>Properties\<close>

lemma linreg_error_step:
  assumes "warmup_remaining c = 0" "\<bar>actual - linreg_correct c raw\<bar> \<le> outlier_threshold c"
  shows "actual - linreg_correct (linreg_calibrate c raw actual) raw =
    (1 - learning_rate c * (raw^2 + 1)) * (actual - linreg_correct c raw)"
  using assms
  by (simp add: linreg_calibrate_def linreg_correct_def Let_def power2_eq_square algebra_simps)

text \<open>one calibration after the warm-up, on a sample that is not an outlier, does not
  increase the correction's error on that sample when the learning rate is at most
  \<open>2 / (raw^2 + 1)\<close>.\<close>

theorem calibrate_reduces_error:
  assumes "warmup_remaining c = 0" "\<bar>actual - linreg_correct c raw\<bar> \<le> outlier_threshold c"
    and "0 \<le> learning_rate c" "learning_rate c * (raw^2 + 1) \<le> 2"
  shows "\<bar>actual - linreg_correct (linreg_calibrate c raw actual) raw\<bar> \<le> \<bar>actual - linreg_correct c raw\<bar>"
proof -
  have "0 \<le> learning_rate c * (raw^2 + 1)" using assms(3) by simp
  then have "\<bar>1 - learning_rate c * (raw^2 + 1)\<bar> \<le> 1" using assms(4) by linarith
  then show ?thesis
    using linreg_error_step[OF assms(1,2)] by (simp add: abs_mult mult_left_le_one_le)
qed

lemma calibrate_reduces_error_witness:
  "\<bar>3 - linreg_correct (linreg_calibrate (linreg_new (1/10) 0 50) 2 3) 2\<bar> \<le> \<bar>3 - linreg_correct (linreg_new (1/10) 0 50) 2\<bar>"
  by (rule calibrate_reduces_error) (simp_all add: linreg_new_def linreg_correct_def)

text \<open>the reconstructed batch accounts for every prefill token of the step exactly once, has
  one prefill entry per \<^verbatim>\<open>PREFILL\<close> output and one decode entry per decoding output.\<close>

theorem batch_from_step_tokens:
  assumes "length (outputs m) < 2 ^ 64" "filter is_prefill (outputs m) \<noteq> []"
  shows "sum_list (map unat (num_prefill_tokens (batch_from_step m bs))) = unat (prefill_tokens m) \<and>
    length (num_prefill_tokens (batch_from_step m bs)) = length (filter is_prefill (outputs m)) \<and>
    length (num_prefill_computed_tokens (batch_from_step m bs)) = length (filter is_prefill (outputs m)) \<and>
    length (num_decode_computed_tokens (batch_from_step m bs)) = length (filter is_decode (outputs m))"
proof -
  let ?k = "length (filter is_prefill (outputs m))"
  have "?k < 2 ^ 64" "0 < ?k"
    using assms(2) le_less_trans[OF length_filter_le assms(1)] by simp_all
  then show ?thesis
    using even_split_words[of ?k "prefill_tokens m"] by (simp add: batch_from_step_def Let_def comp_def cong del: if_weak_cong)
qed

lemma batch_from_step_tokens_witness:
  "sum_list (map unat (num_prefill_tokens (batch_from_step
     (empty_step\<lparr>prefill_tokens := 7, outputs := [output_of 1 ''PREFILL'' False, output_of 2 ''PREFILL'' False]\<rparr>) 16))) = 7"
  by (subst batch_from_step_tokens [THEN conjunct1])
     (simp_all add: empty_step_def output_of_def is_prefill_def)

end
