(* ===== verification/Rollout.thy ===== *)
theory Rollout
  imports SchedSnapshot Predictor
begin

text \<open>
  The discrete-event rollout of \<^verbatim>\<open>simulator/rollout.rs\<close> and the schedule loop of
  \<^verbatim>\<open>simulator/pctx.rs\<close>: one slot is one simulated engine step. The token budget, an
  \<^verbatim>\<open>i64\<close> that only decreases from a \<^verbatim>\<open>u32\<close> by one per request or by a scheduled chunk, is
  an integer; token counts keep their width. \<open>predict\<close> is the regressor. The theory shows that a slot keeps to
  the budget and that the markers of a rollout are those of the candidate's life.
\<close>

record rollout_slot =
  slot_batch :: batch
  predicted_lat_ms :: real
  prefill_rids :: "u64 list"
  decode_rids :: "u64 list"

definition composition_known :: "rollout_slot \<Rightarrow> bool" where
  "composition_known sl \<longleftrightarrow> prefill_rids sl \<noteq> [] \<or> decode_rids sl \<noteq> []"

record rollout_buffer =
  buf_candidate :: "u64 option"
  slots :: "rollout_slot list"
  prefill_begin_step :: "nat option"
  prefill_end_step :: "nat option"
  in_decode_step :: "nat option"

definition empty_buffer :: "u64 option \<Rightarrow> rollout_buffer" where
  "empty_buffer cid = \<lparr>buf_candidate = cid, slots = [], prefill_begin_step = None,
     prefill_end_step = None, in_decode_step = None\<rparr>"

record rollout_gist =
  ttft_ms :: "real option"
  chunked_prefill_steps :: "nat option"
  in_decode_tbt_ms :: "real option"

definition gist :: "rollout_buffer \<Rightarrow> rollout_gist" where
  "gist b = \<lparr>
     ttft_ms = map_option (\<lambda>i. sum_list (map predicted_lat_ms (take (i + 1) (slots b)))) (prefill_end_step b),
     chunked_prefill_steps =
       (case (prefill_begin_step b, prefill_end_step b) of
          (Some begin, Some en) \<Rightarrow> if en \<ge> begin then Some (en - begin + 1) else None
        | _ \<Rightarrow> None),
     in_decode_tbt_ms =
       (case in_decode_step b of
          None \<Rightarrow> None
        | Some i \<Rightarrow> if i < length (slots b) then Some (predicted_lat_ms (slots b ! i)) else None)\<rparr>"

section \<open>One slot\<close>

text \<open>The local variables of \<^verbatim>\<open>simulate_one_slot\<close>.\<close>

record slot_acc =
  budget :: int
  acc_prefill :: "u64 list"
  acc_tokens :: "usize list"
  acc_computed :: "usize list"

definition chunk_of :: "req_progress \<Rightarrow> int \<Rightarrow> u32" where
  "chunk_of r b = word_of_int (max (min (uint (prefill_remaining r)) b) 0)"

definition take_chunk :: "u64 \<Rightarrow> req_progress \<Rightarrow> u32 \<Rightarrow> slot_acc \<Rightarrow> slot_acc" where
  "take_chunk rid r chunk a =
     \<lparr>budget = budget a - uint chunk, acc_prefill = acc_prefill a @ [rid],
      acc_tokens = acc_tokens a @ [ucast chunk], acc_computed = acc_computed a @ [ucast (processed_tokens r)]\<rparr>"

definition advance :: "u32 \<Rightarrow> req_progress \<Rightarrow> req_progress" where
  "advance chunk r = r\<lparr>processed_tokens := processed_tokens r + chunk\<rparr>"

text \<open>(c) Running prefills continue, in the order of their ids.\<close>

fun continue_prefills ::
    "u64 list \<Rightarrow> (u64 \<times> req_progress) list \<Rightarrow> slot_acc \<Rightarrow> (u64 \<times> req_progress) list \<times> slot_acc" where
  "continue_prefills [] run a = (run, a)"
| "continue_prefills (rid # rids) run a =
     (if budget a \<le> 0 then (run, a)
      else case map_of run rid of
             None \<Rightarrow> continue_prefills rids run a
           | Some r \<Rightarrow>
               if chunk_of r (budget a) = 0 then continue_prefills rids run a
               else continue_prefills rids (AList.update rid (advance (chunk_of r (budget a)) r) run)
                      (take_chunk rid r (chunk_of r (budget a)) a))"

text \<open>(d) New requests are pulled from the waiting queue.\<close>

fun pull_waiting ::
    "req_progress list \<Rightarrow> (u64 \<times> req_progress) list \<Rightarrow> slot_acc \<Rightarrow>
       req_progress list \<times> (u64 \<times> req_progress) list \<times> slot_acc" where
  "pull_waiting [] run a = ([], run, a)"
| "pull_waiting (r # ws) run a =
     (if budget a \<le> 0 then (r # ws, run, a)
      else if chunk_of r (budget a) = 0 then pull_waiting ws (AList.update (rp_id r) r run) a
      else pull_waiting ws (AList.update (rp_id r) (advance (chunk_of r (budget a)) r) run)
             (take_chunk (rp_id r) r (chunk_of r (budget a)) a))"

definition decoders :: "sched_snapshot \<Rightarrow> u64 list" where
  "decoders s = sort (map (rp_id \<circ> snd) (filter (\<lambda>x. \<not> is_prefilling (snd x)) (running s)))"

definition prefillers :: "sched_snapshot \<Rightarrow> u64 list" where
  "prefillers s = sort (map (rp_id \<circ> snd) (filter (\<lambda>x. is_prefilling (snd x)) (running s)))"

text \<open>The lifecycle markers of the candidate.\<close>

definition mark_candidate ::
    "u64 \<Rightarrow> nat \<Rightarrow> u64 list \<Rightarrow> u64 list \<Rightarrow> sched_snapshot \<Rightarrow> rollout_buffer \<Rightarrow> rollout_buffer" where
  "mark_candidate cid idx prefills decodes s b =
     (let in_prefill = cid \<in> set prefills;
          in_decode = cid \<in> set decodes;
          b1 = (if in_prefill \<and> prefill_begin_step b = None then b\<lparr>prefill_begin_step := Some idx\<rparr> else b);
          b2 = (if in_prefill
                then case map_of (running s) cid of
                       Some r \<Rightarrow> if is_prefilling r then b1 else b1\<lparr>prefill_end_step := Some idx\<rparr>
                     | None \<Rightarrow> b1
                else b1)
      in if in_decode \<and> in_decode_step b2 = None then b2\<lparr>in_decode_step := Some idx\<rparr> else b2)"

definition slot_batch_of :: "u32 \<Rightarrow> slot_acc \<Rightarrow> (u64 \<times> usize) list \<Rightarrow> batch" where
  "slot_batch_of block_size a decs =
     (let n = sum_list (acc_tokens a) + of_nat (length decs)
      in \<lparr>num_tokens = n, num_tokens_rounded = round_up n (ucast block_size),
          num_prefill_tokens = acc_tokens a, num_prefill_computed_tokens = acc_computed a,
          num_decode_computed_tokens = map snd decs,
          batch_size = of_nat (length (acc_prefill a) + length decs)\<rparr>)"

text \<open>
  The request part of the slot: the decoding requests with their computed tokens, then the
  scheduled prefills.
\<close>

definition fill_slot ::
    "u32 \<Rightarrow> sched_snapshot \<Rightarrow> (u64 \<times> usize) list \<times> slot_acc \<times> sched_snapshot" where
  "fill_slot token_budget s =
     (let decs = List.map_filter (\<lambda>rid. map_option (\<lambda>r. (rid, ucast (processed_tokens r))) (map_of (running s) rid))
                   (decoders s);
          a0 = \<lparr>budget = uint token_budget - int (length decs), acc_prefill = [], acc_tokens = [], acc_computed = []\<rparr>;
          (run1, a1) = continue_prefills (prefillers s) (running s) a0;
          (wait2, run2, a2) = pull_waiting (waiting s) run1 a1
      in (decs, a2, s\<lparr>waiting := wait2, running := run2\<rparr>))"

definition simulate_one_slot ::
    "(batch \<Rightarrow> real) \<Rightarrow> u32 \<Rightarrow> u32 \<Rightarrow> u64 \<Rightarrow> nat \<Rightarrow> sched_snapshot \<Rightarrow> rollout_buffer \<Rightarrow>
       rollout_slot option \<times> sched_snapshot \<times> rollout_buffer" where
  "simulate_one_slot predict block_size token_budget cid idx s b =
     (let (decs, a, s') = fill_slot token_budget s;
          bt = slot_batch_of block_size a decs
      in if acc_prefill a = [] \<and> decs = [] then (None, s', b)
         else (Some \<lparr>slot_batch = bt, predicted_lat_ms = predict bt,
                     prefill_rids = acc_prefill a, decode_rids = map fst decs\<rparr>,
               s', mark_candidate cid idx (acc_prefill a) (map fst decs) s' b))"

lemma slots_mark_candidate [simp]:
  "slots (mark_candidate cid idx ps ds s b) = slots b"
  "buf_candidate (mark_candidate cid idx ps ds s b) = buf_candidate b"
  by (auto simp: mark_candidate_def Let_def split: option.splits)

lemma slots_simulate [simp]:
  "simulate_one_slot predict bs tb cid idx s b = (sl, s', b') \<Longrightarrow> slots b' = slots b"
  "simulate_one_slot predict bs tb cid idx s b = (sl, s', b') \<Longrightarrow> buf_candidate b' = buf_candidate b"
  by (auto simp: simulate_one_slot_def Let_def split_beta split: if_splits)

section \<open>The schedule loop\<close>

definition max_slots :: nat where
  "max_slots = 256"

function schedule_loop ::
    "(batch \<Rightarrow> real) \<Rightarrow> u32 \<Rightarrow> u32 \<Rightarrow> u64 \<Rightarrow> sched_snapshot \<Rightarrow> rollout_buffer \<Rightarrow>
       rollout_buffer \<times> sched_snapshot" where
  "schedule_loop predict bs tb cid s b =
     (if length (slots b) < max_slots
      then case simulate_one_slot predict bs tb cid (length (slots b)) s b of
             (None, s', b') \<Rightarrow> (b', s')
           | (Some sl, s', b') \<Rightarrow>
               if in_decode_step b' \<noteq> None then (b'\<lparr>slots := slots b' @ [sl]\<rparr>, s')
               else schedule_loop predict bs tb cid s' (b'\<lparr>slots := slots b' @ [sl]\<rparr>)
      else (b, s))"
  by pat_completeness auto
termination
  by (relation "measure (\<lambda>(p, bs, tb, cid, s, b). max_slots - length (slots b))")
     (auto dest: slots_simulate(1)[OF sym])

declare schedule_loop.simps [simp del]

section \<open>A slot respects the budget and keeps the requests in flight\<close>

lemma uint_chunk_of:
  "uint (chunk_of r b) = max (min (uint (prefill_remaining r)) b) 0"
proof -
  have "max (min (uint (prefill_remaining r)) b) 0 < 2 ^ 32"
    using unsigned_less[of "prefill_remaining r", where ?'a = int] by (auto simp: max_def min_def)
  then show ?thesis by (simp add: chunk_of_def uint_word_of_int)
qed

lemma chunk_bounds:
  "0 < b \<Longrightarrow> uint (chunk_of r b) \<le> b"
  "uint (chunk_of r b) \<le> uint (prefill_remaining r)"
  by (auto simp: uint_chunk_of)

lemma unat_ucast_u32: "unat (ucast (c :: u32) :: usize) = unat c"
proof -
  have "unat c < 2 ^ 32" using unsigned_less[of c, where ?'a = nat] by simp
  then have "unat c < 2 ^ 64" by simp
  then show ?thesis by (simp add: unsigned_ucast_eq take_bit_nat_eq_self)
qed

lemma advance_le:
  assumes "chunk_of r b \<noteq> 0"
  shows "processed_tokens (advance (chunk_of r b) r) \<le> input_length r"
    and "unat (processed_tokens (advance (chunk_of r b) r)) = unat (processed_tokens r) + unat (chunk_of r b)"
proof -
  define c where "c = chunk_of r b"
  have "unat c \<le> unat (prefill_remaining r)"
    using chunk_bounds(2)[of r b] unfolding c_def word_le_nat_alt [symmetric] word_le_def .
  moreover have "unat c \<noteq> 0" using assms by (simp add: unat_eq_0 c_def)
  ultimately have le: "unat (processed_tokens r) + unat c \<le> unat (input_length r)"
    by (simp add: prefill_remaining_def unat_sat_sub)
  then have "unat (processed_tokens r) + unat c < 2 ^ 32"
    using unsigned_less[of "input_length r", where ?'a = nat] by simp
  then have eq: "unat (processed_tokens r + c) = unat (processed_tokens r) + unat c"
    by (simp add: unat_plus_if')
  with le show "processed_tokens (advance (chunk_of r b) r) \<le> input_length r"
    by (simp add: advance_def word_le_nat_alt c_def)
  from eq show "unat (processed_tokens (advance (chunk_of r b) r)) = unat (processed_tokens r) + unat (chunk_of r b)"
    by (simp add: advance_def c_def)
qed

text \<open>What the budget loses is what the requests are given, and it is never overdrawn.\<close>

definition acc_ok :: "int \<Rightarrow> slot_acc \<Rightarrow> bool" where
  "acc_ok b0 a \<longleftrightarrow>
     budget a = b0 - int (sum_list (map unat (acc_tokens a))) \<and> (b0 \<ge> 0 \<longrightarrow> budget a \<ge> 0) \<and>
     (b0 < 0 \<longrightarrow> acc_tokens a = []) \<and> length (acc_prefill a) = length (acc_tokens a)"

lemma acc_ok_take:
  assumes "acc_ok b0 a" "0 < budget a"
  shows "acc_ok b0 (take_chunk rid r (chunk_of r (budget a)) a)"
proof -
  define c where "c = chunk_of r (budget a)"
  have "int (unat c) \<le> budget a" using chunk_bounds(1)[OF assms(2), of r] by (simp add: c_def)
  then have "acc_ok b0 (take_chunk rid r c a)"
    using assms by (auto simp: acc_ok_def take_chunk_def unat_ucast_u32)
  then show ?thesis by (simp add: c_def)
qed

lemma continue_prefills_acc: "acc_ok b0 a \<Longrightarrow> acc_ok b0 (snd (continue_prefills rids run a))"
proof (induction rids run a rule: continue_prefills.induct)
  case (2 rid rids run a)
  then show ?case using acc_ok_take[OF 2(4)] by (simp split: option.split)
qed simp

lemma pull_waiting_acc: "acc_ok b0 a \<Longrightarrow> acc_ok b0 (snd (snd (pull_waiting ws run a)))"
proof (induction ws run a rule: pull_waiting.induct)
  case (2 r ws run a)
  then show ?case using acc_ok_take[OF 2(3)] by simp
qed simp

text \<open>Well-formedness of the two queues, without the record around them.\<close>

definition queues_ok :: "req_progress list \<Rightarrow> (u64 \<times> req_progress) list \<Rightarrow> bool" where
  "queues_ok ws run \<longleftrightarrow> sched_ok \<lparr>waiting = ws, running = run\<rparr>"

lemma rp_id_advance [simp]: "rp_id (advance c r) = rp_id r"
  by (simp add: advance_def)

lemma queues_ok_update:
  assumes "queues_ok ws run" "map_of run rid = Some r" "rp_id r' = rp_id r"
  shows "queues_ok ws (AList.update rid r' run) \<and> fst ` set (AList.update rid r' run) = fst ` set run"
proof -
  from assms(2) have "(rid, r) \<in> set run" by (rule map_of_SomeD)
  with assms have "rp_id r' = rid" "rid \<in> fst ` set run"
    by (auto simp: queues_ok_def sched_ok_def) force
  with assms(1) set_alist_update[of rid r' run] show ?thesis
    by (auto simp: queues_ok_def sched_ok_def distinct_update fst_set_update)
qed

lemma queues_ok_move:
  assumes "queues_ok (r # ws) run" "rp_id r' = rp_id r"
  shows "queues_ok ws (AList.update (rp_id r) r' run)"
  using assms set_alist_update[of "rp_id r" r' run]
  by (auto simp: queues_ok_def sched_ok_def distinct_update fst_set_update)

lemma continue_prefills_queues:
  "queues_ok ws run \<Longrightarrow>
     queues_ok ws (fst (continue_prefills rids run a)) \<and>
     fst ` set (fst (continue_prefills rids run a)) = fst ` set run"
proof (induction rids run a rule: continue_prefills.induct)
  case (2 rid rids run a)
  show ?case
  proof (cases "budget a \<le> 0 \<or> map_of run rid = None")
    case True
    with 2 show ?thesis by (cases "budget a \<le> 0") simp_all
  next
    case False
    then obtain r where "map_of run rid = Some r" by auto
    with 2 False queues_ok_update[OF 2(4), of rid r "advance (chunk_of r (budget a)) r"]
    show ?thesis by simp
  qed
qed simp

lemma pull_waiting_queues:
  "queues_ok ws run \<Longrightarrow> pull_waiting ws run a = (ws', run', a') \<Longrightarrow>
     queues_ok ws' run' \<and>
     fst ` set run' \<union> rp_id ` set ws' = fst ` set run \<union> rp_id ` set ws \<and> suffix ws' ws"
proof (induction ws run a rule: pull_waiting.induct)
  case (2 r ws run a)
  let ?c = "chunk_of r (budget a)"
  show ?case
  proof (cases "budget a \<le> 0")
    case True
    with 2 show ?thesis by auto
  next
    case False
    show ?thesis
    proof (cases "?c = 0")
      case True
      with False 2 queues_ok_move[OF 2(3), of r] show ?thesis
        by (auto simp: fst_set_update intro: suffix_ConsI)
    next
      case nz: False
      with False 2 queues_ok_move[OF 2(3), of "advance ?c r"] show ?thesis
        by (auto simp: fst_set_update intro: suffix_ConsI)
    qed
  qed
qed simp

lemma fill_slot_cases:
  assumes "fill_slot tb s = (decs, a, s')"
  obtains run1 a1 wait2 run2 where
    "continue_prefills (prefillers s) (running s)
       \<lparr>budget = uint tb - int (length decs), acc_prefill = [], acc_tokens = [], acc_computed = []\<rparr> = (run1, a1)"
    "pull_waiting (waiting s) run1 a1 = (wait2, run2, a)"
    "s' = s\<lparr>waiting := wait2, running := run2\<rparr>"
  using assms by (auto simp: fill_slot_def Let_def split: prod.splits)

lemma sched_ok_queues: "sched_ok s \<longleftrightarrow> queues_ok (waiting s) (running s)"
  by (simp add: queues_ok_def sched_ok_def)

lemma fill_slot_queues:
  assumes "sched_ok s" "fill_slot tb s = (decs, a, s')"
  shows "sched_ok s' \<and> in_flight s' = in_flight s \<and> suffix (waiting s') (waiting s)"
  using assms(2)
proof (rule fill_slot_cases)
  fix run1 a1 wait2 run2
  assume c: "continue_prefills (prefillers s) (running s)
       \<lparr>budget = uint tb - int (length decs), acc_prefill = [], acc_tokens = [], acc_computed = []\<rparr> = (run1, a1)"
    and p: "pull_waiting (waiting s) run1 a1 = (wait2, run2, a)"
    and s': "s' = s\<lparr>waiting := wait2, running := run2\<rparr>"
  have "queues_ok (waiting s) run1" "fst ` set run1 = fst ` set (running s)"
    using continue_prefills_queues[OF assms(1)[unfolded sched_ok_queues], of "prefillers s"] c
    by (metis fst_conv)+
  with pull_waiting_queues[OF _ p] show ?thesis by (simp add: s' sched_ok_queues in_flight_def)
qed

lemma fill_slot_budget:
  assumes "fill_slot tb s = (decs, a, s')" "int (length decs) \<le> uint tb"
  shows "int (sum_list (map unat (acc_tokens a))) + int (length decs) \<le> uint tb"
    and "length (acc_prefill a) = length (acc_tokens a)"
proof -
  let ?b0 = "uint tb - int (length decs)"
  let ?a0 = "\<lparr>budget = ?b0, acc_prefill = [], acc_tokens = [], acc_computed = []\<rparr>"
  have "acc_ok ?b0 ?a0" by (simp add: acc_ok_def)
  with assms(1) have "acc_ok ?b0 a"
    by (elim fill_slot_cases) (metis continue_prefills_acc pull_waiting_acc snd_conv)
  with assms(2) show "int (sum_list (map unat (acc_tokens a))) + int (length decs) \<le> uint tb"
    "length (acc_prefill a) = length (acc_tokens a)" by (auto simp: acc_ok_def)
qed

lemma fill_slot_overdrawn:
  assumes "fill_slot tb s = (decs, a, s')" "uint tb < int (length decs)"
  shows "acc_prefill a = []"
proof -
  let ?a0 = "\<lparr>budget = uint tb - int (length decs), acc_prefill = [], acc_tokens = [], acc_computed = []\<rparr>"
  have "acc_ok (uint tb - int (length decs)) ?a0" by (simp add: acc_ok_def)
  with assms(1) have "acc_ok (uint tb - int (length decs)) a"
    by (elim fill_slot_cases) (metis continue_prefills_acc pull_waiting_acc snd_conv)
  with assms(2) show ?thesis by (auto simp: acc_ok_def)
qed

section \<open>The loop by invariants\<close>

text \<open>
  An invariant of the loop is one that a simulated slot keeps: \<open>step\<close> covers a slot that is pushed,
  \<open>stop\<close> the defensive early stop.
\<close>

lemma schedule_loop_invariant:
  assumes "I s b"
    and step: "\<And>s b sl s' b'. I s b \<Longrightarrow> length (slots b) < max_slots \<Longrightarrow>
      simulate_one_slot predict bs tb cid (length (slots b)) s b = (Some sl, s', b') \<Longrightarrow>
      I s' (b'\<lparr>slots := slots b @ [sl]\<rparr>)"
    and stop: "\<And>s b s' b'. I s b \<Longrightarrow>
      simulate_one_slot predict bs tb cid (length (slots b)) s b = (None, s', b') \<Longrightarrow> I s' b'"
  shows "I (snd (schedule_loop predict bs tb cid s b)) (fst (schedule_loop predict bs tb cid s b))"
  using assms(1)
proof (induction "max_slots - length (slots b)" arbitrary: s b rule: less_induct)
  case less
  obtain r s' b' where sim: "simulate_one_slot predict bs tb cid (length (slots b)) s b = (r, s', b')"
    by (cases "simulate_one_slot predict bs tb cid (length (slots b)) s b") auto
  have slots': "slots b' = slots b" using slots_simulate(1)[OF sim] .
  show ?case
  proof (cases "length (slots b) < max_slots")
    case False
    with less show ?thesis by (simp add: schedule_loop.simps[of _ _ _ _ s b])
  next
    case True
    show ?thesis
    proof (cases r)
      case None
      with True sim stop[OF less.prems] show ?thesis by (simp add: schedule_loop.simps[of _ _ _ _ s b])
    next
      case (Some sl)
      note I' = step[OF less.prems True sim[unfolded Some]]
      from less.hyps[OF _ I'] True I' show ?thesis
        by (simp add: schedule_loop.simps[of _ _ _ _ s b] sim Some slots' diff_less_mono2)
    qed
  qed
qed

lemma simulate_sched_ok:
  assumes "sched_ok s" "simulate_one_slot predict bs tb cid idx s b = (r, s', b')"
  shows "sched_ok s' \<and> in_flight s' = in_flight s"
proof -
  obtain decs a s1 where "fill_slot tb s = (decs, a, s1)" by (cases "fill_slot tb s") auto
  with fill_slot_queues[OF assms(1)] assms(2) show ?thesis
    by (auto simp: simulate_one_slot_def Let_def split: if_splits)
qed

lemma schedule_loop_sched:
  "sched_ok s \<Longrightarrow> sched_ok (snd (schedule_loop predict bs tb cid s b)) \<and>
     in_flight (snd (schedule_loop predict bs tb cid s b)) = in_flight s"
  by (rule schedule_loop_invariant[where I = "\<lambda>s' b'. sched_ok s' \<and> in_flight s' = in_flight s"])
     (auto dest: simulate_sched_ok)

lemma schedule_loop_slots:
  "length (slots b) \<le> max_slots \<Longrightarrow>
     prefix (slots b) (slots (fst (schedule_loop predict bs tb cid s b))) \<and>
     length (slots (fst (schedule_loop predict bs tb cid s b))) \<le> max_slots \<and>
     buf_candidate (fst (schedule_loop predict bs tb cid s b)) = buf_candidate b"
  by (rule schedule_loop_invariant[where I = "\<lambda>s' b'. prefix (slots b) (slots b') \<and>
        length (slots b') \<le> max_slots \<and> buf_candidate b' = buf_candidate b"])
     (auto dest: slots_simulate simp: prefix_append)

lemma simulate_SomeE:
  assumes "simulate_one_slot predict bs tb cid idx s b = (Some sl, s', b')"
  obtains decs a where "fill_slot tb s = (decs, a, s')" "acc_prefill a \<noteq> [] \<or> decs \<noteq> []"
    "prefill_rids sl = acc_prefill a" "decode_rids sl = map fst decs"
    "b' = mark_candidate cid idx (prefill_rids sl) (decode_rids sl) s' b"
proof -
  obtain decs a s1 where "fill_slot tb s = (decs, a, s1)" by (cases "fill_slot tb s") auto
  with assms that[of decs a] show thesis
    by (cases "acc_prefill a = [] \<and> decs = []") (auto simp: simulate_one_slot_def Let_def)
qed

lemma simulate_None:
  assumes "simulate_one_slot predict bs tb cid idx s b = (None, s', b')"
  shows "b' = b"
proof -
  obtain decs a s1 where "fill_slot tb s = (decs, a, s1)" by (cases "fill_slot tb s") auto
  with assms show ?thesis
    by (cases "acc_prefill a = [] \<and> decs = []") (auto simp: simulate_one_slot_def Let_def)
qed

lemma simulate_known:
  "simulate_one_slot predict bs tb cid idx s b = (Some sl, s', b') \<Longrightarrow> composition_known sl"
  by (erule simulate_SomeE) (auto simp: composition_known_def)

text \<open>Every pushed slot has a composition, so the cross-check never meets an unknown one.\<close>

lemma schedule_loop_known:
  "\<forall>sl\<in>set (slots b). composition_known sl \<Longrightarrow>
     \<forall>sl\<in>set (slots (fst (schedule_loop predict bs tb cid s b))). composition_known sl"
  by (rule schedule_loop_invariant[where I = "\<lambda>s b. \<forall>sl\<in>set (slots b). composition_known sl"])
     (simp_all add: simulate_known)

lemma schedule_loop_appended:
  assumes "n \<le> length (slots b)" "\<forall>sl\<in>set (drop n (slots b)). composition_known sl"
  shows "\<forall>sl\<in>set (drop n (slots (fst (schedule_loop predict bs tb cid s b)))). composition_known sl"
proof -
  have "n \<le> length (slots (fst (schedule_loop predict bs tb cid s b))) \<and>
      (\<forall>sl\<in>set (drop n (slots (fst (schedule_loop predict bs tb cid s b)))). composition_known sl)"
    by (rule schedule_loop_invariant[where I = "\<lambda>s b. n \<le> length (slots b) \<and> (\<forall>sl\<in>set (drop n (slots b)). composition_known sl)"])
      (use assms in \<open>auto simp: simulate_known dest: simulate_None\<close>)
  then show ?thesis ..
qed

section \<open>The life of the candidate\<close>

text \<open>What a slot does to the request \<open>cid\<close>.\<close>

lemma continue_prefills_at:
  "continue_prefills rids run a = (run', a') \<Longrightarrow>
     (cid \<notin> set rids \<longrightarrow> map_of run' cid = map_of run cid \<and> (cid \<in> set (acc_prefill a') \<longleftrightarrow> cid \<in> set (acc_prefill a))) \<and>
     (cid \<notin> set (acc_prefill a') \<longrightarrow> map_of run' cid = map_of run cid) \<and>
     (cid \<in> set (acc_prefill a') \<longrightarrow> cid \<in> set (acc_prefill a) \<or> map_of run' cid \<noteq> None) \<and>
     (map_of run cid \<noteq> None \<longrightarrow> map_of run' cid \<noteq> None) \<and> set (acc_prefill a) \<subseteq> set (acc_prefill a')"
proof (induction rids run a rule: continue_prefills.induct)
  case (2 rid rids run a)
  show ?case
  proof (cases "budget a \<le> 0 \<or> map_of run rid = None")
    case True
    with 2 show ?thesis by (cases "budget a \<le> 0") simp_all
  next
    case False
    then obtain r where r: "map_of run rid = Some r" by auto
    show ?thesis
    proof (cases "chunk_of r (budget a) = 0")
      case True
      with 2(2)[OF _ r] 2(4) False r show ?thesis by simp
    next
      case nz: False
      with 2(3)[OF _ r nz] 2(4) False r show ?thesis by (auto simp: update_conv' take_chunk_def split: if_splits)
    qed
  qed
qed simp

lemma pull_waiting_at:
  "pull_waiting ws run a = (ws', run', a') \<Longrightarrow>
     (cid \<notin> rp_id ` set ws \<longrightarrow> map_of run' cid = map_of run cid \<and> (cid \<in> set (acc_prefill a') \<longleftrightarrow> cid \<in> set (acc_prefill a))) \<and>
     (cid \<in> set (acc_prefill a') \<longrightarrow> cid \<in> set (acc_prefill a) \<or> map_of run' cid \<noteq> None) \<and>
     (map_of run cid \<noteq> None \<longrightarrow> map_of run' cid \<noteq> None)"
proof (induction ws run a rule: pull_waiting.induct)
  case (2 r ws run a)
  then show ?case
    by (cases "budget a \<le> 0"; cases "chunk_of r (budget a) = 0") (auto simp: update_conv' take_chunk_def split: if_splits)
qed simp

lemma fill_slot_at:
  assumes "fill_slot tb s = (decs, a, s')" "sched_ok s"
  shows "cid \<in> set (acc_prefill a) \<Longrightarrow> \<exists>r. map_of (running s') cid = Some r"
    and "map_of (running s) cid = Some r \<Longrightarrow> \<not> is_prefilling r \<Longrightarrow> cid \<notin> set (acc_prefill a) \<and> map_of (running s') cid = Some r"
    and "map_of (running s) cid = Some r \<Longrightarrow> cid \<notin> set (acc_prefill a) \<Longrightarrow> map_of (running s') cid = Some r"
proof -
  from assms(1) obtain run1 a1 wait2 run2 where c: "continue_prefills (prefillers s) (running s)
       \<lparr>budget = uint tb - int (length decs), acc_prefill = [], acc_tokens = [], acc_computed = []\<rparr> = (run1, a1)"
    and p: "pull_waiting (waiting s) run1 a1 = (wait2, run2, a)" and s': "s' = s\<lparr>waiting := wait2, running := run2\<rparr>"
    by (rule fill_slot_cases)
  note C = continue_prefills_at[OF c, of cid] and P = pull_waiting_at[OF p, of cid]
  show "\<exists>r. map_of (running s') cid = Some r" if "cid \<in> set (acc_prefill a)"
    using that C P by (auto simp: s')
  have nw: "cid \<notin> rp_id ` set (waiting s)" if "map_of (running s) cid = Some r" for r
    using assms(2) map_of_SomeD[OF that] by (force simp: sched_ok_def)
  show "map_of (running s') cid = Some r" if "map_of (running s) cid = Some r" "cid \<notin> set (acc_prefill a)"
    using that nw C P by (auto simp: s')
  show "cid \<notin> set (acc_prefill a) \<and> map_of (running s') cid = Some r"
    if r: "map_of (running s) cid = Some r" "\<not> is_prefilling r"
  proof -
    have "cid \<notin> set (prefillers s)"
    proof
      assume "cid \<in> set (prefillers s)"
      then obtain k r' where k: "(k, r') \<in> set (running s)" "is_prefilling r'" "rp_id r' = cid" by (auto simp: prefillers_def)
      then have "k = cid" using assms(2) by (force simp: sched_ok_def)
      then have "map_of (running s) cid = Some r'" using k(1) assms(2) by (simp add: sched_ok_def)
      with r k(2) show False by simp
    qed
    with r nw C P show ?thesis by (auto simp: s')
  qed
qed

text \<open>The first slot, from slot \<open>n\<close> on, with a property.\<close>

definition first_from :: "nat \<Rightarrow> (rollout_slot \<Rightarrow> bool) \<Rightarrow> rollout_slot list \<Rightarrow> nat option" where
  "first_from n p xs = map_option ((+) n) (position p (drop n xs))"

lemma position_snoc: "position p (xs @ [x]) = (case position p xs of Some i \<Rightarrow> Some i | None \<Rightarrow> if p x then Some (length xs) else None)"
  by (induction xs) (auto split: option.split)

lemma first_from_snoc: "n \<le> length xs \<Longrightarrow> first_from n p (xs @ [x]) =
    (case first_from n p xs of Some i \<Rightarrow> Some i | None \<Rightarrow> if p x then Some (length xs) else None)"
  by (auto simp: first_from_def position_snoc split: option.split)

text \<open>
  The markers of a buffer whose slots from \<open>n\<close> on were simulated with the candidate: the prefill begins in the first
  slot that schedules a chunk of it, its first decode is in the first slot that decodes it, and the end of
  the prefill is marked exactly when the candidate has been prefilled and is no longer prefilling, in
  the last slot with a chunk of it.
\<close>

definition marks :: "u64 \<Rightarrow> nat \<Rightarrow> sched_snapshot \<Rightarrow> rollout_buffer \<Rightarrow> bool" where
  "marks cid n s b \<longleftrightarrow> n \<le> length (slots b) \<and>
     prefill_begin_step b = first_from n (\<lambda>sl. cid \<in> set (prefill_rids sl)) (slots b) \<and>
     in_decode_step b = first_from n (\<lambda>sl. cid \<in> set (decode_rids sl)) (slots b) \<and>
     (case prefill_end_step b of
        Some j \<Rightarrow> n \<le> j \<and> j < length (slots b) \<and> cid \<in> set (prefill_rids (slots b ! j)) \<and>
          (\<forall>k. j < k \<and> k < length (slots b) \<longrightarrow> cid \<notin> set (prefill_rids (slots b ! k))) \<and>
          (\<exists>r. map_of (running s) cid = Some r \<and> \<not> is_prefilling r)
      | None \<Rightarrow> \<forall>k. n \<le> k \<and> k < length (slots b) \<and> cid \<in> set (prefill_rids (slots b ! k)) \<longrightarrow>
          (\<exists>r. map_of (running s) cid = Some r \<and> is_prefilling r))"

lemma mark_candidate_markers:
  "prefill_begin_step (mark_candidate cid idx ps ds s b) =
     (if cid \<in> set ps \<and> prefill_begin_step b = None then Some idx else prefill_begin_step b)"
  "prefill_end_step (mark_candidate cid idx ps ds s b) =
     (if cid \<in> set ps \<and> (\<exists>r. map_of (running s) cid = Some r \<and> \<not> is_prefilling r)
      then Some idx else prefill_end_step b)"
  "in_decode_step (mark_candidate cid idx ps ds s b) =
     (if cid \<in> set ds \<and> in_decode_step b = None then Some idx else in_decode_step b)"
  by (simp_all add: mark_candidate_def Let_def split: option.split)

lemma marks_step:
  assumes "marks cid n s b" "sched_ok s"
    and "simulate_one_slot predict bs tb cid (length (slots b)) s b = (Some sl, s', b')"
  shows "marks cid n s' (b'\<lparr>slots := slots b @ [sl]\<rparr>)"
proof -
  from assms(3) obtain decs a where f: "fill_slot tb s = (decs, a, s')" "prefill_rids sl = acc_prefill a"
    "b' = mark_candidate cid (length (slots b)) (prefill_rids sl) (decode_rids sl) s' b" by (rule simulate_SomeE)
  note F = fill_slot_at[OF f(1) assms(2), where cid = cid, folded f(2)]
  let ?b = "b'\<lparr>slots := slots b @ [sl]\<rparr>"
  have n: "n \<le> length (slots b)" using assms(1) by (simp add: marks_def)
  have begins: "prefill_begin_step ?b = first_from n (\<lambda>sl. cid \<in> set (prefill_rids sl)) (slots ?b)"
    "in_decode_step ?b = first_from n (\<lambda>sl. cid \<in> set (decode_rids sl)) (slots ?b)"
    using assms(1) n by (auto simp: marks_def f(3) mark_candidate_markers first_from_snoc split: option.splits)
  have ends: "case prefill_end_step ?b of
        Some j \<Rightarrow> n \<le> j \<and> j < length (slots ?b) \<and> cid \<in> set (prefill_rids (slots ?b ! j)) \<and>
          (\<forall>k. j < k \<and> k < length (slots ?b) \<longrightarrow> cid \<notin> set (prefill_rids (slots ?b ! k))) \<and>
          (\<exists>r. map_of (running s') cid = Some r \<and> \<not> is_prefilling r)
      | None \<Rightarrow> \<forall>k. n \<le> k \<and> k < length (slots ?b) \<and> cid \<in> set (prefill_rids (slots ?b ! k)) \<longrightarrow>
          (\<exists>r. map_of (running s') cid = Some r \<and> is_prefilling r)"
  proof (cases "cid \<in> set (prefill_rids sl)")
    case True
    then obtain r where r: "map_of (running s') cid = Some r" using F(1) by blast
    have "prefill_end_step b = None"
    proof (cases "prefill_end_step b")
      case (Some j)
      with assms(1) obtain r where "map_of (running s) cid = Some r" "\<not> is_prefilling r" by (auto simp: marks_def)
      from F(2)[OF this] True show ?thesis by simp
    qed
    with True r have e: "prefill_end_step ?b = (if is_prefilling r then None else Some (length (slots b)))"
      by (simp add: f(3) mark_candidate_markers)
    show ?thesis
    proof (cases "is_prefilling r")
      case True
      with e r show ?thesis by simp
    next
      case False
      with e have "prefill_end_step ?b = Some (length (slots b))" by simp
      moreover have "\<forall>k. length (slots b) < k \<and> k < length (slots ?b) \<longrightarrow> cid \<notin> set (prefill_rids (slots ?b ! k))" by auto
      ultimately show ?thesis using r False n \<open>cid \<in> set (prefill_rids sl)\<close> by simp
    qed
  next
    case False
    then have e: "prefill_end_step ?b = prefill_end_step b" by (simp add: f(3) mark_candidate_markers)
    show ?thesis
    proof (cases "prefill_end_step b")
      case None
      with assms(1) have "\<exists>r. map_of (running s) cid = Some r \<and> is_prefilling r"
        if "n \<le> k" "k < length (slots b)" "cid \<in> set (prefill_rids (slots b ! k))" for k using that by (auto simp: marks_def)
      then have "\<exists>r. map_of (running s') cid = Some r \<and> is_prefilling r"
        if "n \<le> k" "k < length (slots b)" "cid \<in> set (prefill_rids (slots b ! k))" for k
        using that F(3)[OF _ False] by blast
      with None e False show ?thesis by (auto simp: nth_append less_Suc_eq)
    next
      case (Some j)
      with assms(1) obtain r where r: "map_of (running s) cid = Some r" "\<not> is_prefilling r" by (auto simp: marks_def)
      with F(2)[OF r] Some assms(1) e False show ?thesis by (auto simp: marks_def nth_append less_Suc_eq)
    qed
  qed
  from n begins ends show ?thesis by (simp add: marks_def)
qed

lemma simulate_None_running:
  assumes "simulate_one_slot predict bs tb cid idx s b = (None, s', b')" "sched_ok s" "map_of (running s) k = Some r"
  shows "map_of (running s') k = Some r"
proof -
  obtain decs a s1 where f: "fill_slot tb s = (decs, a, s1)" by (cases "fill_slot tb s") auto
  with assms(1) have "s' = s1" "acc_prefill a = []" by (auto simp: simulate_one_slot_def Let_def split: if_splits)
  with fill_slot_at(3)[OF f assms(2,3)] show ?thesis by simp
qed

lemma schedule_loop_marks:
  assumes "marks cid n s b" "sched_ok s"
  shows "marks cid n (snd (schedule_loop predict bs tb cid s b)) (fst (schedule_loop predict bs tb cid s b))"
proof -
  have "sched_ok (snd (schedule_loop predict bs tb cid s b)) \<and>
    marks cid n (snd (schedule_loop predict bs tb cid s b)) (fst (schedule_loop predict bs tb cid s b))"
  proof (rule schedule_loop_invariant[where I = "\<lambda>s b. sched_ok s \<and> marks cid n s b"])
    fix s b sl s' b'
    assume i: "sched_ok s \<and> marks cid n s b"
      and sim: "simulate_one_slot predict bs tb cid (length (slots b)) s b = (Some sl, s', b')"
    with marks_step simulate_sched_ok show "sched_ok s' \<and> marks cid n s' (b'\<lparr>slots := slots b @ [sl]\<rparr>)" by blast
  next
    fix s b s' b'
    assume i: "sched_ok s \<and> marks cid n s b"
      and sim: "simulate_one_slot predict bs tb cid (length (slots b)) s b = (None, s', b')"
    have "b' = b" "sched_ok s'" using simulate_None[OF sim] simulate_sched_ok sim i by blast+
    with i simulate_None_running[OF sim, of cid] show "sched_ok s' \<and> marks cid n s' b'"
      by (auto simp: marks_def split: option.splits)
  qed (use assms in simp)
  then show ?thesis by simp
qed

section \<open>Properties\<close>

text \<open>C24: a simulated step keeps to the token budget: when the decoding requests fit, the prefill chunks and
  the decoded tokens of the slot together do, and when they do not, no prefill is scheduled beside them. From a
  well-formed snapshot the step loses no request and adds none, and the snapshot stays well-formed.\<close>

theorem slot_within_budget:
  assumes "fill_slot tb s = (decs, a, s')"
  shows "(int (length decs) \<le> uint tb \<longrightarrow> int (sum_list (map unat (acc_tokens a))) + int (length decs) \<le> uint tb) \<and>
    (uint tb < int (length decs) \<longrightarrow> acc_prefill a = []) \<and>
    (sched_ok s \<longrightarrow> sched_ok s' \<and> in_flight s' = in_flight s)"
  using fill_slot_budget[OF assms] fill_slot_overdrawn[OF assms] fill_slot_queues[OF _ assms] by blast

lemma slot_within_budget_witness:
  "case fill_slot 8 (admit sched_new (req_new 1 20)) of
     (decs, a, s') \<Rightarrow> int (sum_list (map unat (acc_tokens a))) + int (length decs) \<le> uint (8 :: u32) \<and> in_flight s' = {1}"
proof -
  obtain decs a s' where f: "fill_slot 8 (admit sched_new (req_new 1 20)) = (decs, a, s')"
    by (cases "fill_slot 8 (admit sched_new (req_new 1 20))") auto
  have "decs = []"
    using f by (auto simp: fill_slot_def Let_def decoders_def sched_new_def admit_def
        List.map_filter_def split: prod.splits)
  moreover have "sched_ok (admit sched_new (req_new 1 20))" "in_flight (admit sched_new (req_new 1 20)) = {1}"
    using admit_ok[of sched_new "req_new 1 20"] by (simp_all add: req_new_def)
  ultimately show ?thesis using f slot_within_budget[OF f] by simp
qed

text \<open>C23: the schedule loop, from a well-formed snapshot and a buffer without markers, as both its callers pass it: it
  only appends, the buffer never exceeds 256 slots, every appended slot has a composition, the simulated
  snapshot stays well-formed and holds the same requests; and the markers are those of the candidate's life
  in the appended slots (\<open>marks\<close>): the first slot with a chunk of it, the first that decodes it, and the slot of its
  last chunk, marked exactly when the chunks have covered its prompt.\<close>

theorem schedule_loop_result:
  assumes "sched_ok s" "length (slots b) \<le> max_slots"
    and "prefill_begin_step b = None" "prefill_end_step b = None" "in_decode_step b = None"
    and "schedule_loop predict bs tb cid s b = (b', s')"
  shows "prefix (slots b) (slots b') \<and> length (slots b') \<le> max_slots \<and>
    (\<forall>sl\<in>set (drop (length (slots b)) (slots b')). composition_known sl) \<and>
    marks cid (length (slots b)) s' b' \<and> sched_ok s' \<and> in_flight s' = in_flight s"
proof -
  have "marks cid (length (slots b)) s b" using assms(3-5) by (auto simp: marks_def first_from_def)
  from schedule_loop_marks[OF this assms(1), of predict bs tb]
  have m: "marks cid (length (slots b)) s' b'" using assms(6) by simp
  have "\<forall>sl\<in>set (drop (length (slots b)) (slots (fst (schedule_loop predict bs tb cid s b)))). composition_known sl"
    using schedule_loop_appended[of "length (slots b)" b predict bs tb cid s] by simp
  with m show ?thesis
    using schedule_loop_slots[OF assms(2), of predict bs tb cid s]
      schedule_loop_sched[OF assms(1), of predict bs tb cid b] assms(6) by simp
qed

lemma schedule_loop_result_witness:
  "case schedule_loop (\<lambda>_. 1) 16 8 1 (admit sched_new (req_new 1 20)) (empty_buffer (Some 1)) of
     (b', s') \<Rightarrow> length (slots b') \<le> 256 \<and> marks 1 0 s' b'"
proof -
  have "sched_ok (admit sched_new (req_new 1 20))" by (intro admit_ok) simp_all
  then show ?thesis
    using schedule_loop_result[OF _ _ _ _ _ surjective_pairing, of "admit sched_new (req_new 1 20)" "empty_buffer (Some 1)"]
    by (simp add: empty_buffer_def max_slots_def split_beta)
qed

end
