(* ===== verification/Mirror.thy ===== *)
theory Mirror
  imports SchedSnapshot ReqIdTrie
begin

text \<open>
  The incremental mirror of \<^verbatim>\<open>router/src/scheduler/simulator/mirror.rs\<close>: the request-id trie
  together with the hash sequence each request inserted. The theory proves that the trie always
  answers for exactly the requests recorded in \<^verbatim>\<open>by_request\<close>, also across the evictions an
  engine step reports, as long as the snapshot of requests in flight covers the mirror, and that evictions
  by themselves cost no request in flight a prefix.
\<close>

record mirror =
  tree :: req_id_hash
  by_request :: "u64 \<rightharpoonup> u64 list"

definition mirror_new :: mirror where
  "mirror_new = \<lparr>tree = req_id_new, by_request = Map.empty\<rparr>"

definition insert_request :: "mirror \<Rightarrow> u64 \<Rightarrow> u64 list \<Rightarrow> mirror" where
  "insert_request mi rid hashes =
     (if hashes = [] then mi
      else let t = (case by_request mi rid of
                      None \<Rightarrow> tree mi
                    | Some prev \<Rightarrow> remove_by_hashes (tree mi) prev rid)
           in \<lparr>tree = insert_hashes t hashes rid, by_request = (by_request mi)(rid \<mapsto> hashes)\<rparr>)"

definition remove_request :: "u64 \<Rightarrow> mirror \<Rightarrow> mirror" where
  "remove_request rid mi =
     (case by_request mi rid of
        None \<Rightarrow> mi
      | Some prev \<Rightarrow>
          \<lparr>tree = remove_by_hashes (tree mi) prev rid, by_request = (by_request mi)(rid := None)\<rparr>)"

definition backend_hash_to_key :: "backend_block_hash \<Rightarrow> u64" where
  "backend_hash_to_key h = h ! 0"

definition evict_one :: "sched_snapshot \<Rightarrow> backend_block_hash \<Rightarrow> mirror \<Rightarrow> mirror" where
  "evict_one sched h mi =
     (let key = backend_hash_to_key h;
          still_in_flight = (\<exists>rid\<in>owners_of (tree mi) key. is_in_flight sched rid)
      in if still_in_flight then mi else mi\<lparr>tree := evict_orphan_hash (tree mi) key\<rparr>)"

definition finish_one :: "request_step_output \<Rightarrow> mirror \<Rightarrow> mirror" where
  "finish_one out mi = (if is_finished out then remove_request (request_id out) mi else mi)"

definition apply_sse :: "mirror \<Rightarrow> engine_step_output \<Rightarrow> sched_snapshot \<Rightarrow> mirror" where
  "apply_sse mi m sched =
     (let mi1 = fold (evict_one sched) (evicted_block_hashes m) mi;
          mi2 = fold finish_one (outputs m) mi1;
          mi3 = fold remove_request (aborted_requests m) mi2
      in fold remove_request (preempted_ids m) mi3)"

definition prefix_match :: "mirror \<Rightarrow> u64 list \<Rightarrow> nat" where
  "prefix_match mi hashes = req_id_get (tree mi) hashes"

definition mirror_in_flight_count :: "mirror \<Rightarrow> nat" where
  "mirror_in_flight_count mi = card (dom (by_request mi))"

definition mirror_epoch :: "mirror \<Rightarrow> u64" where
  "mirror_epoch mi = epoch (tree mi)"

section \<open>The trie answers for the recorded requests\<close>

definition mirror_ok :: "mirror \<Rightarrow> bool" where
  "mirror_ok mi \<longleftrightarrow> claims_rel (by_request mi) (tree mi)"

lemma mirror_ok_new [simp]: "mirror_ok mirror_new"
  by (simp add: mirror_ok_def mirror_new_def req_id.rel_new)

lemma insert_request_ok [inv_intros]: "mirror_ok mi \<Longrightarrow> mirror_ok (insert_request mi rid hashes)"
  using req_id.replace_claim[of "by_request mi" "tree mi" hashes rid]
  by (simp add: mirror_ok_def insert_request_def Let_def)

lemma by_request_insert [simp]:
  "by_request (insert_request mi rid hashes) =
     (if hashes = [] then by_request mi else (by_request mi)(rid \<mapsto> hashes))"
  by (simp add: insert_request_def Let_def)

lemma by_request_remove [simp]: "by_request (remove_request rid mi) = (by_request mi)(rid := None)"
  by (auto simp: remove_request_def fun_upd_idem split: option.splits)

text \<open>The same up to evicted hashes, whose owners must all be gone from the snapshot.\<close>

definition mirror_upto :: "(u64 \<Rightarrow> bool) \<Rightarrow> mirror \<Rightarrow> bool" where
  "mirror_upto alive mi \<longleftrightarrow>
     (\<exists>E. claims_upto E (by_request mi) (tree mi) \<and> owned_by_dead alive E (by_request mi))"

lemma mirror_upto_ok: "mirror_ok mi \<Longrightarrow> mirror_upto alive mi"
  by (auto simp: mirror_ok_def mirror_upto_def owned_by_dead_def req_id.rel_upto intro!: exI[of _ "{}"])

lemma mirror_upto_evict:
  "mirror_upto (is_in_flight sched) mi \<Longrightarrow> mirror_upto (is_in_flight sched) (evict_one sched h mi)"
  unfolding mirror_upto_def evict_one_def Let_def
  by (elim exE conjE, erule req_id.evict_unless_alive[where h = "backend_hash_to_key h"], assumption)
     (auto split: if_splits)

lemma by_request_evict [simp]: "by_request (evict_one sched h mi) = by_request mi"
  by (simp add: evict_one_def Let_def)

lemma mirror_upto_remove: "mirror_upto alive mi \<Longrightarrow> mirror_upto alive (remove_request rid mi)"
proof -
  assume "mirror_upto alive mi"
  then obtain E where E: "claims_upto E (by_request mi) (tree mi)" "owned_by_dead alive E (by_request mi)"
    by (auto simp: mirror_upto_def)
  from req_id.upto_drop[OF E(1), of rid] req_id.dead_drop[OF E(2), of rid] show ?thesis
    by (auto simp: mirror_upto_def remove_request_def fun_upd_idem split: option.splits)
qed

lemma fold_evict:
  "mirror_upto (is_in_flight sched) mi \<Longrightarrow>
     mirror_upto (is_in_flight sched) (fold (evict_one sched) hs mi) \<and>
     by_request (fold (evict_one sched) hs mi) = by_request mi"
  by (induction hs arbitrary: mi) (simp_all add: mirror_upto_evict)

lemma fold_remove:
  "mirror_upto alive mi \<Longrightarrow>
     mirror_upto alive (fold remove_request rids mi) \<and>
     by_request (fold remove_request rids mi) = by_request mi |` (- set rids)"
proof (induction rids arbitrary: mi)
  case (Cons rid rids)
  from Cons.IH[OF mirror_upto_remove[OF Cons.prems, of rid]] show ?case
    by (auto simp: restrict_map_def fun_eq_iff)
qed (simp add: restrict_map_def)

lemma fold_finish:
  "fold finish_one outs mi = fold remove_request (map request_id (filter is_finished outs)) mi"
  by (induction outs arbitrary: mi) (simp_all add: finish_one_def)

lemma by_request_apply_sse:
  "by_request (apply_sse mi m sched) =
     by_request mi |` (- (ended_by m \<union> set (preempted_ids m)))"
proof -
  have evict: "by_request (fold (evict_one sched) hs mi) = by_request mi" for hs mi
    by (induction hs arbitrary: mi) simp_all
  have remove: "by_request (fold remove_request rids mi) = by_request mi |` (- set rids)" for rids mi
    by (induction rids arbitrary: mi) (auto simp: restrict_map_def fun_eq_iff)
  show ?thesis
    by (auto simp: apply_sse_def Let_def fold_finish evict remove ended_by_def restrict_map_def fun_eq_iff)
qed

lemma apply_sse_ok:
  assumes "mirror_ok mi"
    and "\<And>rid. by_request mi rid \<noteq> None \<Longrightarrow> rid \<notin> ended_by m \<union> set (preempted_ids m) \<Longrightarrow> is_in_flight sched rid"
  shows "mirror_ok (apply_sse mi m sched)"
proof -
  let ?alive = "is_in_flight sched"
  have "mirror_upto ?alive (apply_sse mi m sched)"
    unfolding apply_sse_def Let_def fold_finish
    using fold_evict[OF mirror_upto_ok[OF assms(1)]] fold_remove by blast
  then obtain E where E: "claims_upto E (by_request (apply_sse mi m sched)) (tree (apply_sse mi m sched))"
    "owned_by_dead ?alive E (by_request (apply_sse mi m sched))"
    by (auto simp: mirror_upto_def)
  have "by_request (apply_sse mi m sched) rid \<noteq> None \<Longrightarrow> ?alive rid" for rid
    using assms(2)[of rid] by (auto simp: by_request_apply_sse restrict_map_def split: if_splits)
  with req_id.settle_alive[OF E] show ?thesis by (simp add: mirror_ok_def)
qed

section \<open>Properties\<close>

text \<open>in every mirror that agrees with its record, the prefix match is the longest prefix
  the query shares with a recorded request; inserting or replacing a request's hashes and removing
  a request keep the agreement.\<close>

theorem mirror_refines_record:
  assumes "mirror_ok mi"
  shows "prefix_match mi q = Max (insert 0 ((\<lambda>hs. lcp_len hs q) ` ran (by_request mi))) \<and>
    mirror_ok (insert_request mi rid hashes) \<and> mirror_ok (remove_request rid mi)"
proof -
  have "mirror_ok (remove_request rid mi)"
    using assms req_id.drop_claim[of "by_request mi" "tree mi" rid]
    by (auto simp: mirror_ok_def remove_request_def split: option.splits)
  with assms show ?thesis
    using req_id.get_Max[of "by_request mi" "tree mi" q] insert_request_ok[OF assms, of rid hashes]
    by (simp add: prefix_match_def) (simp add: mirror_ok_def)
qed

lemma mirror_refines_record_witness:
  "prefix_match (insert_request (insert_request mirror_new 1 [5, 6]) 1 [5, 7, 8]) [5, 7, 9] = 2"
proof -
  have "mirror_ok (insert_request (insert_request mirror_new 1 [5, 6]) 1 [5, 7, 8])"
    by (simp add: inv_intros)
  from mirror_refines_record[OF this, of "[5, 7, 9]"] show ?thesis
    by (simp add: mirror_new_def max_def)
qed

text \<open>absorbing an engine step removes exactly the finished, aborted and preempted requests,
  and the trie answers exactly for the rest, although evictions may have dropped subtrees that the
  removed requests still claimed. The hypothesis is the agreement of mirror and snapshot: a mirrored
  request that the step does not end is in flight in the snapshot.\<close>

theorem apply_sse_exact:
  assumes "mirror_ok mi"
    and "\<forall>rid\<in>dom (by_request mi) - (ended_by m \<union> set (preempted_ids m)). is_in_flight sched rid"
  shows "mirror_ok (apply_sse mi m sched) \<and>
    by_request (apply_sse mi m sched) = by_request mi |` (- (ended_by m \<union> set (preempted_ids m)))"
  using assms by (auto intro!: apply_sse_ok simp: by_request_apply_sse)

lemma apply_sse_exact_witness:
  "by_request (apply_sse (insert_request (insert_request mirror_new 1 [5, 6]) 2 [5, 9])
      (empty_step\<lparr>evicted_block_hashes := [[5]], outputs := [output_of 1 ''DECODE'' True]\<rparr>)
      (admit sched_new (req_new 2 32))) 2 = Some [5, 9]"
proof -
  let ?m = "empty_step\<lparr>evicted_block_hashes := [[5]], outputs := [output_of 1 ''DECODE'' True]\<rparr>"
  let ?mi = "insert_request (insert_request mirror_new 1 [5, 6]) 2 [5, 9]"
  have "mirror_ok ?mi" by (simp add: inv_intros)
  moreover have "ended_by ?m = {1}" by (simp add: ended_by_def empty_step_def output_of_def)
  moreover have "\<forall>rid\<in>dom (by_request ?mi) - ({1} \<union> set (preempted_ids ?m)).
      is_in_flight (admit sched_new (req_new 2 32)) rid"
    by (auto simp: is_in_flight_iff mirror_new_def req_new_def)
  ultimately show ?thesis using apply_sse_exact[of ?mi ?m]
    by (simp add: mirror_new_def empty_step_def restrict_map_def)
qed

text \<open>Evictions of a whole step, with the hashes that are gone.\<close>

lemma evicted_stays_out:
  "map_of (children (root (tree mi))) k = None \<Longrightarrow> map_of (children (root (tree (fold (evict_one sched) es mi)))) k = None"
  by (induction es arbitrary: mi) (simp_all add: evict_one_def Let_def evict_orphan_hash_def delete_conv')

lemma orphans_go:
  assumes "mirror_upto (is_in_flight sched) mi" "h \<in> set es"
    and "\<forall>rid hs. by_request mi rid = Some hs \<and> is_in_flight sched rid \<longrightarrow> backend_hash_to_key h \<notin> set hs"
  shows "map_of (children (root (tree (fold (evict_one sched) es mi)))) (backend_hash_to_key h) = None"
  using assms
proof (induction es arbitrary: mi)
  case (Cons e es)
  show ?case
  proof (cases "e = h")
    case True
    from Cons.prems(1) obtain E where "claims_upto E (by_request mi) (tree mi)" by (auto simp: mirror_upto_def)
    then have "owners_of (tree mi) (backend_hash_to_key h) \<subseteq> index_of (by_request mi) (backend_hash_to_key h)"
      by (simp add: claims_upto_owners)
    then have "\<not> (\<exists>rid\<in>owners_of (tree mi) (backend_hash_to_key h). is_in_flight sched rid)"
      using Cons.prems(3) by (auto simp: index_of_def)
    then have "map_of (children (root (tree (evict_one sched e mi)))) (backend_hash_to_key h) = None"
      by (simp add: True evict_one_def Let_def evict_orphan_hash_def delete_conv')
    then show ?thesis by (simp add: evicted_stays_out)
  next
    case False
    with Cons.IH[OF mirror_upto_evict[OF Cons.prems(1)]] Cons.prems(2,3) show ?thesis by simp
  qed
qed simp

text \<open>C37: the evictions of an engine step never cost an in-flight request a prefix. The record of the mirror is
  unchanged; every request in flight still matches its whole hash sequence; every query that starts with a
  hash of a request in flight is answered as before, whatever was evicted beside it; and a reported hash that no
  request in flight claims is no longer matched at the start of a query.\<close>

theorem evict_keeps_claimed:
  assumes "mirror_ok mi" "mi' = fold (evict_one sched) es mi"
  shows "by_request mi' = by_request mi \<and>
    (\<forall>rid hs. by_request mi rid = Some hs \<and> is_in_flight sched rid \<longrightarrow>
       prefix_match mi' hs = length hs \<and> (\<forall>q. q \<noteq> [] \<and> hd q \<in> set hs \<longrightarrow> prefix_match mi' q = prefix_match mi q)) \<and>
    (\<forall>h\<in>set es. (\<forall>rid hs. by_request mi rid = Some hs \<and> is_in_flight sched rid \<longrightarrow> backend_hash_to_key h \<notin> set hs) \<longrightarrow>
       (\<forall>q. prefix_match mi' (backend_hash_to_key h # q) = 0))"
proof (intro conjI allI ballI impI; (elim conjE)?)
  note u = mirror_upto_ok[OF assms(1), of "is_in_flight sched"]
  show br: "by_request mi' = by_request mi" using fold_evict[OF u] assms(2) by simp
  obtain E where E: "claims_upto E (by_request mi) (tree mi')" "owned_by_dead (is_in_flight sched) E (by_request mi)"
    using fold_evict[OF u, of es] br unfolding mirror_upto_def assms(2)[symmetric] by auto
  have c: "claims_upto {} (by_request mi) (tree mi)" using assms(1) by (simp add: mirror_ok_def claims_rel_def)
  have get: "k \<le> prefix_match mi' q \<longleftrightarrow> k = 0 \<or> (\<exists>rid hs. by_request mi rid = Some hs \<and> k \<le> lcp_len hs q)"
    if "by_request mi rid = Some hs" "is_in_flight sched rid" "q \<noteq> []" "hd q \<in> set hs" for k q rid hs
    unfolding prefix_match_def using upto_get[OF E(1) that(3)] E(2) that by (auto simp: owned_by_dead_def)
  fix rid hs
  assume r: "by_request mi rid = Some hs" "is_in_flight sched rid"
  show "prefix_match mi' q = prefix_match mi q" if q: "q \<noteq> []" "hd q \<in> set hs" for q
  proof -
    have "k \<le> prefix_match mi' q \<longleftrightarrow> k \<le> prefix_match mi q" for k
      using get[OF r q, of k] upto_get[OF c q(1), of k] by (simp add: prefix_match_def)
    then show ?thesis by (meson le_refl order_antisym)
  qed
  have ne: "hs \<noteq> []" using claims_uptoD(3)[OF c, of rid] r(1) by auto
  have le: "\<exists>rid hs'. by_request mi rid = Some hs' \<and> k \<le> lcp_len hs' hs" if "k \<le> length hs" for k
    using r(1) that by (intro exI[of _ rid] exI[of _ hs]) (simp add: le_lcp_len_iff)
  show "prefix_match mi' hs = length hs"
  proof (rule order_antisym)
    show "length hs \<le> prefix_match mi' hs" using get[OF r ne, of "length hs"] le[of "length hs"] ne by auto
    from get[OF r ne, of "prefix_match mi' hs"] ne consider "prefix_match mi' hs = 0"
      | hs' where "prefix_match mi' hs \<le> lcp_len hs' hs" by auto
    then show "prefix_match mi' hs \<le> length hs" using lcp_len_le(2)[of _ hs] by cases (auto intro: le_trans)
  qed
next
  fix h q
  assume "h \<in> set es"
    "\<forall>rid hs. by_request mi rid = Some hs \<and> is_in_flight sched rid \<longrightarrow> backend_hash_to_key h \<notin> set hs"
  from orphans_go[OF mirror_upto_ok[OF assms(1)] this]
  show "prefix_match mi' (backend_hash_to_key h # q) = 0" by (simp add: assms(2) prefix_match_def req_id_get_def)
qed

lemma evict_keeps_claimed_witness:
  "prefix_match (fold (evict_one (admit sched_new (req_new 1 16))) [[5], [6]] (insert_request (insert_request mirror_new 1 [5, 7]) 2 [6]))
     [5, 7] = 2"
proof -
  let ?mi = "insert_request (insert_request mirror_new 1 [5, 7]) 2 [6]"
  have "mirror_ok ?mi" by (simp add: inv_intros)
  from evict_keeps_claimed[OF this refl, of "admit sched_new (req_new 1 16)" "[[5], [6]]"]
  have "\<forall>rid hs. by_request ?mi rid = Some hs \<and> is_in_flight (admit sched_new (req_new 1 16)) rid \<longrightarrow>
      prefix_match (fold (evict_one (admit sched_new (req_new 1 16))) [[5], [6]] ?mi) hs = length hs" by blast
  then have "by_request ?mi 1 = Some [5, 7] \<and> is_in_flight (admit sched_new (req_new 1 16)) 1 \<longrightarrow>
      prefix_match (fold (evict_one (admit sched_new (req_new 1 16))) [[5], [6]] ?mi) [5, 7] = length [5 :: u64, 7]" by blast
  moreover have "by_request ?mi 1 = Some [5, 7]" "is_in_flight (admit sched_new (req_new 1 16)) 1"
    by (simp_all add: is_in_flight_iff req_new_def)
  ultimately show ?thesis by simp
qed

end
