(* ===== verification/PCtx.thy ===== *)
theory PCtx
  imports Rollout Mirror
begin

text \<open>
  The per-replica predictor context of \<^verbatim>\<open>simulator/pctx.rs\<close>: the three triggers
  \<^verbatim>\<open>query\<close>, \<^verbatim>\<open>on_admit\<close> and \<^verbatim>\<open>on_sse\<close> over the world model (snapshot and
  mirror), the regressor and the cached rollout. Each trigger is one transition of the whole
  context; the locks of the source make its parts atomic and are not modelled. The offline
  predictor \<open>inner\<close> is a parameter.
\<close>

section \<open>State\<close>

record ephemeral =
  candidate_id :: "u64 option"
  buffer :: rollout_buffer
  sse_anchor_step_id :: u64
  tail_sched :: sched_snapshot
  savepoint :: "(nat \<times> sched_snapshot) option"

record pctx =
  regressor :: linreg
  pc_mirror :: mirror
  pc_ephemeral :: "ephemeral option"
  pc_sched :: sched_snapshot
  last_sse_step_id :: u64
  pc_block_size :: u32
  pc_token_budget :: u32

definition pctx_new :: "linreg \<Rightarrow> u32 \<Rightarrow> u32 \<Rightarrow> pctx" where
  "pctx_new reg bs tb =
     \<lparr>regressor = reg, pc_mirror = mirror_new, pc_ephemeral = None, pc_sched = sched_new,
      last_sse_step_id = 0, pc_block_size = max bs 1, pc_token_budget = max tb 1\<rparr>"

definition observe_step :: "(batch \<Rightarrow> real) \<Rightarrow> pctx \<Rightarrow> batch \<Rightarrow> real \<Rightarrow> (real \<times> real) \<times> pctx" where
  "observe_step inner pc b actual =
     ((reg_predict inner (regressor pc) b, actual),
      pc\<lparr>regressor := reg_calibrate inner (regressor pc) b actual\<rparr>)"

section \<open>query\<close>

definition candidate_progress :: "u64 \<Rightarrow> u32 \<Rightarrow> nat \<Rightarrow> u32 \<Rightarrow> req_progress" where
  "candidate_progress cid len composite_hits block_size =
     (let hits = (of_nat composite_hits :: u32);
          cached = (if unat hits * unat block_size \<ge> 2 ^ 32 then - 1 else hits * block_size)
      in (req_new cid len)\<lparr>processed_tokens := min cached len\<rparr>)"

definition run_schedule_loop_from_scratch ::
    "(batch \<Rightarrow> real) \<Rightarrow> pctx \<Rightarrow> u64 \<Rightarrow> u32 \<Rightarrow> nat \<Rightarrow> rollout_buffer \<times> sched_snapshot" where
  "run_schedule_loop_from_scratch inner pc cid len hits =
     schedule_loop (reg_predict inner (regressor pc)) (pc_block_size pc) (pc_token_budget pc) cid
       (admit (pc_sched pc) (candidate_progress cid len hits (pc_block_size pc)))
       (empty_buffer (Some cid))"

definition extend_with_candidate ::
    "(batch \<Rightarrow> real) \<Rightarrow> pctx \<Rightarrow> rollout_buffer \<Rightarrow> sched_snapshot \<Rightarrow> u64 \<Rightarrow> u32 \<Rightarrow> nat \<Rightarrow>
       rollout_buffer \<times> sched_snapshot \<times> (nat \<times> sched_snapshot) option" where
  "extend_with_candidate inner pc b tail cid len hits =
     (let sp = (if slots b \<noteq> [] then Some (length (slots b), tail) else None);
          (b', s') = schedule_loop (reg_predict inner (regressor pc)) (pc_block_size pc)
             (pc_token_budget pc) cid
             (admit tail (candidate_progress cid len hits (pc_block_size pc)))
             (b\<lparr>buf_candidate := Some cid, prefill_begin_step := None, prefill_end_step := None,
                in_decode_step := None\<rparr>)
      in (b', s', sp))"

text \<open>The three-way recovery of the cached rollout.\<close>

definition recover_baseline :: "ephemeral option \<Rightarrow> (rollout_buffer \<times> sched_snapshot) option" where
  "recover_baseline eo =
     (case eo of
        None \<Rightarrow> None
      | Some e \<Rightarrow>
          (case candidate_id e of
             None \<Rightarrow> Some (buffer e, tail_sched e)
           | Some _ \<Rightarrow>
               (case savepoint e of
                  Some (idx, saved) \<Rightarrow>
                    if idx > 0
                    then Some ((buffer e)\<lparr>slots := take idx (slots (buffer e)), buf_candidate := None,
                                 prefill_begin_step := None, prefill_end_step := None,
                                 in_decode_step := None\<rparr>, saved)
                    else None
                | None \<Rightarrow> None)))"

definition query ::
    "(batch \<Rightarrow> real) \<Rightarrow> pctx \<Rightarrow> u64 \<Rightarrow> u32 \<Rightarrow> u64 list \<Rightarrow> nat \<Rightarrow> rollout_gist \<times> pctx" where
  "query inner pc cid len hashes sctx_hits =
     (let hits = max sctx_hits (prefix_match (pc_mirror pc) hashes);
          (b, tail, sp) =
            (case recover_baseline (pc_ephemeral pc) of
               Some (b, tail) \<Rightarrow> extend_with_candidate inner pc b tail cid len hits
             | None \<Rightarrow> (let (b, tail) = run_schedule_loop_from_scratch inner pc cid len hits
                        in (b, tail, None)))
      in (gist b,
          pc\<lparr>pc_ephemeral := Some \<lparr>candidate_id = Some cid, buffer = b,
               sse_anchor_step_id = last_sse_step_id pc, tail_sched = tail, savepoint = sp\<rparr>\<rparr>))"

section \<open>on_admit\<close>

definition promote_or_drop :: "u64 \<Rightarrow> ephemeral option \<Rightarrow> ephemeral option" where
  "promote_or_drop rid eo =
     (case eo of
        None \<Rightarrow> None
      | Some e \<Rightarrow>
          if candidate_id e = Some rid
          then Some (e\<lparr>candidate_id := None, buffer := (buffer e)\<lparr>buf_candidate := None\<rparr>,
                       savepoint := None\<rparr>)
          else None)"

definition on_admit :: "pctx \<Rightarrow> u64 \<Rightarrow> u32 \<Rightarrow> u64 list \<Rightarrow> pctx" where
  "on_admit pc rid len hashes =
     pc\<lparr>pc_sched := admit (pc_sched pc) (req_new rid len),
        pc_mirror := insert_request (pc_mirror pc) rid hashes,
        pc_ephemeral := promote_or_drop rid (pc_ephemeral pc)\<rparr>"

section \<open>on_sse\<close>

definition step_has_prefill :: "engine_step_output \<Rightarrow> bool" where
  "step_has_prefill m \<longleftrightarrow> prefill_tokens m > 0 \<or> (\<exists>out\<in>set (outputs m). is_prefill out)"

definition rid_sets_match :: "rollout_slot \<Rightarrow> engine_step_output \<Rightarrow> bool" where
  "rid_sets_match sl m \<longleftrightarrow>
     set (prefill_rids sl) = request_id ` set (filter is_prefill (outputs m)) \<and>
     set (decode_rids sl) = request_id ` set (filter is_decode (outputs m))"

text \<open>The F3 cross-check of the head slot: true means the rollout has drifted.\<close>

definition drifted :: "rollout_buffer \<Rightarrow> engine_step_output \<Rightarrow> bool" where
  "drifted b m \<longleftrightarrow>
     (case slots b of
        [] \<Rightarrow> True
      | s0 # _ \<Rightarrow> if composition_known s0 then \<not> rid_sets_match s0 m else True)"

text \<open>Consume the validated head; \<^verbatim>\<open>saturating_sub(1)\<close> on indices is subtraction on naturals.\<close>

definition consume_head :: "u64 \<Rightarrow> ephemeral \<Rightarrow> ephemeral" where
  "consume_head step e =
     e\<lparr>buffer := (buffer e)\<lparr>slots := tl (slots (buffer e)),
          prefill_begin_step := map_option (\<lambda>i. i - 1) (prefill_begin_step (buffer e)),
          prefill_end_step := map_option (\<lambda>i. i - 1) (prefill_end_step (buffer e)),
          in_decode_step := map_option (\<lambda>i. i - 1) (in_decode_step (buffer e))\<rparr>,
       sse_anchor_step_id := step,
       savepoint := (case savepoint e of
                       None \<Rightarrow> None
                     | Some (idx, s) \<Rightarrow> if idx - 1 = 0 then None else Some (idx - 1, s))\<rparr>"

definition maintain_ephemeral :: "engine_step_output \<Rightarrow> ephemeral option \<Rightarrow> ephemeral option" where
  "maintain_ephemeral m eo =
     (case eo of
        None \<Rightarrow> None
      | Some e \<Rightarrow>
          if step_has_prefill m
          then if drifted (buffer e) m then None else Some (consume_head (step_id m) e)
          else None)"

definition on_sse ::
    "(batch \<Rightarrow> real) \<Rightarrow> pctx \<Rightarrow> batch \<Rightarrow> engine_step_output \<Rightarrow> (real \<times> real) \<times> pctx" where
  "on_sse inner pc b m =
     (let (res, pc1) = observe_step inner pc b (real (unat (latency m)));
          s = sync (pc_sched pc1) m
      in (res, pc1\<lparr>pc_sched := s, pc_mirror := apply_sse (pc_mirror pc1) m s,
                   last_sse_step_id := step_id m,
                   pc_ephemeral := maintain_ephemeral m (pc_ephemeral pc1)\<rparr>))"

section \<open>Invariants\<close>

text \<open>
  The cached rollout: a savepoint belongs to a candidate and splits a non-empty baseline off the
  buffer; every slot has a composition; at most 256 slots.
\<close>

definition eph_ok :: "ephemeral \<Rightarrow> bool" where
  "eph_ok e \<longleftrightarrow>
     length (slots (buffer e)) \<le> max_slots \<and>
     (\<forall>sl\<in>set (slots (buffer e)). composition_known sl) \<and>
     buf_candidate (buffer e) = candidate_id e \<and>
     (case savepoint e of
        None \<Rightarrow> True
      | Some (idx, _) \<Rightarrow> candidate_id e \<noteq> None \<and> 0 < idx \<and> idx \<le> length (slots (buffer e)))"

definition pctx_ok :: "pctx \<Rightarrow> bool" where
  "pctx_ok pc \<longleftrightarrow>
     sched_ok (pc_sched pc) \<and> mirror_ok (pc_mirror pc) \<and>
     dom (by_request (pc_mirror pc)) \<subseteq> in_flight (pc_sched pc) \<and>
     (\<forall>e. pc_ephemeral pc = Some e \<longrightarrow> eph_ok e)"

lemma pctx_ok_new [simp]: "pctx_ok (pctx_new reg bs tb)"
  by (simp add: pctx_ok_def pctx_new_def) (simp add: mirror_new_def)

lemma recover_baseline_ok:
  assumes "pctx_ok pc" "recover_baseline (pc_ephemeral pc) = Some (b, tail)"
  shows "length (slots b) \<le> max_slots \<and> (\<forall>sl\<in>set (slots b). composition_known sl)"
proof -
  from assms(2) obtain e where e: "pc_ephemeral pc = Some e"
    by (auto simp: recover_baseline_def split: option.splits)
  with assms(1) have "eph_ok e" by (simp add: pctx_ok_def)
  with assms(2) e show ?thesis
    by (auto simp: recover_baseline_def eph_ok_def split: option.splits if_splits prod.splits)
       (meson in_set_takeD)
qed

text \<open>The rollout a query extends: the recovered baseline, or an empty one over the snapshot.\<close>

definition base_buffer :: "pctx \<Rightarrow> rollout_buffer" where
  "base_buffer pc = (case recover_baseline (pc_ephemeral pc) of Some (b, _) \<Rightarrow> b | None \<Rightarrow> empty_buffer None)"

definition base_tail :: "pctx \<Rightarrow> sched_snapshot" where
  "base_tail pc = (case recover_baseline (pc_ephemeral pc) of Some (_, t) \<Rightarrow> t | None \<Rightarrow> pc_sched pc)"

lemma query_unfold:
  "query inner pc cid len hashes sctx_hits =
     (case extend_with_candidate inner pc (base_buffer pc) (base_tail pc)
             cid len (max sctx_hits (prefix_match (pc_mirror pc) hashes)) of
        (b, tail, sp) \<Rightarrow>
          (gist b, pc\<lparr>pc_ephemeral := Some \<lparr>candidate_id = Some cid, buffer = b,
               sse_anchor_step_id = last_sse_step_id pc, tail_sched = tail, savepoint = sp\<rparr>\<rparr>))"
  by (auto simp: query_def Let_def extend_with_candidate_def run_schedule_loop_from_scratch_def
      empty_buffer_def base_buffer_def base_tail_def split: option.split prod.split)

lemma base_buffer_ok:
  assumes "pctx_ok pc"
  shows "length (slots (base_buffer pc)) \<le> max_slots" "\<forall>sl\<in>set (slots (base_buffer pc)). composition_known sl"
  using recover_baseline_ok[OF assms]
  by (auto simp: base_buffer_def empty_buffer_def split: option.split prod.split)

lemma extend_slots:
  assumes "extend_with_candidate inner pc b tail cid len hits = (b', tail', sp)"
    and "length (slots b) \<le> max_slots" "\<forall>sl\<in>set (slots b). composition_known sl"
  shows "prefix (slots b) (slots b')" "length (slots b') \<le> max_slots"
    "\<forall>sl\<in>set (slots b'). composition_known sl" "buf_candidate b' = Some cid"
    "sp = (if slots b \<noteq> [] then Some (length (slots b), tail) else None)"
proof -
  let ?b = "b\<lparr>buf_candidate := Some cid, prefill_begin_step := None, prefill_end_step := None,
                in_decode_step := None\<rparr>"
  let ?s = "admit tail (candidate_progress cid len hits (pc_block_size pc))"
  have loop: "b' = fst (schedule_loop (reg_predict inner (regressor pc)) (pc_block_size pc) (pc_token_budget pc) cid ?s ?b)"
    and "sp = (if slots b \<noteq> [] then Some (length (slots b), tail) else None)"
    using assms(1) by (auto simp: extend_with_candidate_def Let_def split_beta)
  then show "sp = (if slots b \<noteq> [] then Some (length (slots b), tail) else None)" by blast
  show "prefix (slots b) (slots b')" "length (slots b') \<le> max_slots" "buf_candidate b' = Some cid"
    using schedule_loop_slots[of ?b] assms(2) by (simp_all add: loop)
  show "\<forall>sl\<in>set (slots b'). composition_known sl"
    unfolding loop by (rule schedule_loop_known) (simp add: assms(3))
qed

lemma query_ok:
  assumes "pctx_ok pc"
  shows "pctx_ok (snd (query inner pc cid len hashes sctx_hits))"
proof -
  obtain b' t' sp where ext: "extend_with_candidate inner pc (base_buffer pc) (base_tail pc) cid len
      (max sctx_hits (prefix_match (pc_mirror pc) hashes)) = (b', t', sp)"
    by (metis prod_cases3)
  note E = extend_slots[OF ext base_buffer_ok[OF assms]]
  have "eph_ok \<lparr>candidate_id = Some cid, buffer = b', sse_anchor_step_id = last_sse_step_id pc,
      tail_sched = t', savepoint = sp\<rparr>"
    using E prefix_length_le[OF E(1)] by (auto simp: eph_ok_def)
  then show ?thesis using assms by (simp add: query_unfold ext pctx_ok_def)
qed

lemma on_admit_ok:
  assumes "pctx_ok pc" "rid \<notin> in_flight (pc_sched pc)"
  shows "pctx_ok (on_admit pc rid len hashes)"
proof -
  have "eph_ok e" if "promote_or_drop rid (pc_ephemeral pc) = Some e" for e
    using that assms(1) by (auto simp: promote_or_drop_def pctx_ok_def eph_ok_def split: option.splits if_splits)
  with assms show ?thesis
    by (auto simp: pctx_ok_def on_admit_def insert_request_ok req_new_def intro!: admit_ok split: if_splits)
qed

lemma consume_head_ok: "eph_ok e \<Longrightarrow> eph_ok (consume_head step e)"
  by (auto simp: eph_ok_def consume_head_def dest: list.set_sel(2) split: option.splits if_splits)
     (metis list.sel(2) list.set_sel(2))+

lemma on_sse_parts:
  assumes "on_sse inner pc b m = (r, pc')"
  shows "pc_sched pc' = sync (pc_sched pc) m"
    "pc_mirror pc' = apply_sse (pc_mirror pc) m (sync (pc_sched pc) m)"
    "pc_ephemeral pc' = maintain_ephemeral m (pc_ephemeral pc)"
  using assms by (auto simp: on_sse_def observe_step_def Let_def)

lemma on_sse_ok:
  assumes "pctx_ok pc" "on_sse inner pc b m = (r, pc')"
  shows "pctx_ok pc'"
proof -
  note parts = on_sse_parts[OF assms(2)]
  note pc = assms(1)[unfolded pctx_ok_def]
  have s: "sched_ok (pc_sched pc')" "in_flight (pc_sched pc') = in_flight (pc_sched pc) - ended_by m"
    using sync_ok[of "pc_sched pc" m] pc parts by auto
  have "mirror_ok (pc_mirror pc')"
    unfolding parts
    by (rule apply_sse_ok) (use pc s parts in \<open>auto simp: is_in_flight_iff\<close>)
  moreover have "dom (by_request (pc_mirror pc')) \<subseteq> in_flight (pc_sched pc')"
    using pc s(2) by (auto simp: parts(2) by_request_apply_sse)
  moreover have "eph_ok e" if "pc_ephemeral pc' = Some e" for e
    using that pc consume_head_ok
    by (auto simp: parts maintain_ephemeral_def split: option.splits if_splits)
  ultimately show ?thesis using s by (simp add: pctx_ok_def)
qed

text \<open>Extending depends on the slots of the baseline, not on its markers, nor on the cache.\<close>

lemma extend_with_candidate_cong:
  assumes "slots x = slots x'"
  shows "extend_with_candidate inner (pc\<lparr>pc_ephemeral := eo\<rparr>) x y cid k h =
    extend_with_candidate inner pc x' y cid k h"
proof -
  have eq: "x\<lparr>buf_candidate := Some cid, prefill_begin_step := None, prefill_end_step := None, in_decode_step := None\<rparr>
      = x'\<lparr>buf_candidate := Some cid, prefill_begin_step := None, prefill_end_step := None, in_decode_step := None\<rparr>"
    using assms by (cases x; cases x') simp
  show ?thesis unfolding extend_with_candidate_def eq assms by simp
qed

lemma query_ephemeral: "\<exists>e. pc_ephemeral (snd (query inner pc cid len hashes hits)) = Some e"
  unfolding query_unfold by (simp split: prod.split)

section \<open>Runs of the context\<close>

text \<open>
  The three triggers in any order. Admission is of a request id that is not in flight: the router
  numbers its requests.
\<close>

inductive pctx_run :: "(batch \<Rightarrow> real) \<Rightarrow> pctx \<Rightarrow> pctx \<Rightarrow> bool" for inner where
  start: "pctx_run inner pc pc"
| query: "pctx_run inner pc pc' \<Longrightarrow> pctx_run inner pc (snd (query inner pc' cid len hashes hits))"
| admit: "pctx_run inner pc pc' \<Longrightarrow> rid \<notin> in_flight (pc_sched pc') \<Longrightarrow>
    pctx_run inner pc (on_admit pc' rid len hashes)"
| sse: "pctx_run inner pc pc' \<Longrightarrow> pctx_run inner pc (snd (on_sse inner pc' b m))"

lemma pctx_run_ok: "pctx_run inner pc pc' \<Longrightarrow> pctx_ok pc \<Longrightarrow> pctx_ok pc'"
  by (induction rule: pctx_run.induct)
     (auto intro: query_ok on_admit_ok on_sse_ok[OF _ surjective_pairing])

text \<open>
  Consuming the last slot keeps an ephemeral without slots, the state the source's assertion
  calls impossible (\<^verbatim>\<open>ephemeral exists but has no slots\<close>): a debug build panics on the next
  step with prefill work.
\<close>

lemma last_slot_consumed:
  assumes "slots (buffer e) = [sl]" "composition_known sl" "rid_sets_match sl m" "step_has_prefill m"
  shows "\<exists>e'. maintain_ephemeral m (Some e) = Some e' \<and> slots (buffer e') = []"
  using assms by (simp add: maintain_ephemeral_def drifted_def consume_head_def)

section \<open>Properties\<close>

text \<open>C20: in every state a context reaches from its creation, the snapshot is well-formed, the
  mirror's prefix match is the longest prefix shared with a mirrored request, and every mirrored
  request is in flight in the snapshot. The agreement of mirror and snapshot, which the eviction
  path relies on, therefore always holds.\<close>

theorem pctx_world_model:
  assumes "pctx_run inner (pctx_new reg bs tb) pc"
  shows "sched_ok (pc_sched pc) \<and> mirror_ok (pc_mirror pc) \<and>
    dom (by_request (pc_mirror pc)) \<subseteq> in_flight (pc_sched pc)"
  using pctx_run_ok[OF assms pctx_ok_new] by (simp add: pctx_ok_def)

lemma pctx_world_model_witness:
  "mirror_ok (pc_mirror (snd (on_sse (\<lambda>_. 1) (on_admit (pctx_new (linreg_new 0 0 0) 16 64) 7 20 [1]) (batch_from_step empty_step 16)
     (empty_step\<lparr>evicted_block_hashes := [[1]], outputs := [output_of 7 ''DECODE'' True]\<rparr>))))"
proof -
  have "pctx_run (\<lambda>_. 1) (pctx_new (linreg_new 0 0 0) 16 64)
    (snd (on_sse (\<lambda>_. 1) (on_admit (pctx_new (linreg_new 0 0 0) 16 64) 7 20 [1]) (batch_from_step empty_step 16)
     (empty_step\<lparr>evicted_block_hashes := [[1]], outputs := [output_of 7 ''DECODE'' True]\<rparr>)))"
    by (intro pctx_run.intros) (simp add: pctx_new_def)
  from pctx_world_model[OF this] show ?thesis by simp
qed

text \<open>A cached rollout that is recovered without any slot: a promoted one whose last slot was consumed.\<close>

definition spent :: "ephemeral option \<Rightarrow> bool" where
  "spent eo \<longleftrightarrow> (case recover_baseline eo of Some (b, tail) \<Rightarrow> slots b = [] | None \<Rightarrow> False)"

text \<open>C21: a query is speculative. It replaces the cached rollout by one for its candidate, taken at the last engine
  step, and changes nothing else: neither the world model, the regressor nor the step id. A later query of
  another candidate gives the result and the state it would have given without the first one, with one
  exception: when the rollout before the first query is \<open>spent\<close>, a promoted one without slots
  (\<open>last_slot_consumed\<close> shows that it is reached), the first query has thrown its state away, and the later
  query answers as if there had been no cached rollout.\<close>

theorem query_speculative:
  assumes "pctx_ok pc"
  shows "(\<exists>e. snd (query inner pc c l hs n) = pc\<lparr>pc_ephemeral := Some e\<rparr> \<and> candidate_id e = Some c \<and>
      sse_anchor_step_id e = last_sse_step_id pc) \<and>
    query inner (snd (query inner pc c l hs n)) c' l' hs' n' =
      (if spent (pc_ephemeral pc) then query inner (pc\<lparr>pc_ephemeral := None\<rparr>) c' l' hs' n'
       else query inner pc c' l' hs' n')"
proof -
  obtain b1 t1 sp where ext: "extend_with_candidate inner pc (base_buffer pc) (base_tail pc) c l
      (max n (prefix_match (pc_mirror pc) hs)) = (b1, t1, sp)"
    by (metis prod_cases3)
  note E = extend_slots[OF ext base_buffer_ok[OF assms(1)]]
  define e where "e = \<lparr>candidate_id = Some c, buffer = b1, sse_anchor_step_id = last_sse_step_id pc, tail_sched = t1, savepoint = sp\<rparr>"
  define eo where "eo = (if spent (pc_ephemeral pc) then None else pc_ephemeral pc)"
  let ?pc = "pc\<lparr>pc_ephemeral := Some e\<rparr>" and ?base = "pc\<lparr>pc_ephemeral := eo\<rparr>"
  have pc1: "snd (query inner pc c l hs n) = ?pc" by (simp add: query_unfold ext e_def)
  have "slots (base_buffer ?pc) = slots (base_buffer ?base) \<and> base_tail ?pc = base_tail ?base"
  proof (cases "slots (base_buffer pc) = []")
    case True
    then have "recover_baseline eo = None"
      by (auto simp: eo_def spent_def base_buffer_def recover_baseline_def split: option.splits)
    with True E(5) show ?thesis
      by (simp add: e_def base_buffer_def base_tail_def recover_baseline_def[of "Some _"] empty_buffer_def)
  next
    case False
    then have "take (length (slots (base_buffer pc))) (slots b1) = slots (base_buffer pc)"
      using E(1) by (auto simp: prefix_def)
    moreover have "eo = pc_ephemeral pc" using False by (auto simp: eo_def spent_def base_buffer_def split: option.splits)
    ultimately show ?thesis using False E(5)
      by (simp add: e_def base_buffer_def [of "_\<lparr>pc_ephemeral := Some _\<rparr>"] base_tail_def [of "_\<lparr>pc_ephemeral := Some _\<rparr>"]
          recover_baseline_def)
  qed
  then have "extend_with_candidate inner ?pc (base_buffer ?pc) (base_tail ?pc) c' l' h =
      extend_with_candidate inner ?base (base_buffer ?base) (base_tail ?base) c' l' h" for h
    using extend_with_candidate_cong[of "base_buffer ?pc" "base_buffer ?base" inner "Some e" pc]
      extend_with_candidate_cong[of "base_buffer ?base" "base_buffer ?base" inner eo pc] by simp
  then have "query inner ?pc c' l' hs' n' = query inner ?base c' l' hs' n'"
    by (simp add: query_unfold[of inner ?pc] query_unfold[of inner ?base])
  moreover have "?base = (if spent (pc_ephemeral pc) then pc\<lparr>pc_ephemeral := None\<rparr> else pc)" by (simp add: eo_def)
  moreover have "candidate_id e = Some c" "sse_anchor_step_id e = last_sse_step_id pc" by (simp_all add: e_def)
  ultimately show ?thesis unfolding pc1 by metis
qed

lemma query_speculative_witness:
  "let pc = pctx_new (linreg_new 0 0 0) 16 64 in
   query (\<lambda>_. 1) (snd (query (\<lambda>_. 1) pc 1 20 [] 0)) 2 30 [] 0 = query (\<lambda>_. 1) pc 2 30 [] 0"
proof -
  have "\<not> spent (pc_ephemeral (pctx_new (linreg_new 0 0 0) 16 64))"
    by (simp add: spent_def recover_baseline_def pctx_new_def)
  then show ?thesis
    using query_speculative[OF pctx_ok_new, where inner = "\<lambda>_. 1" and c = 1 and l = 20 and hs = "[]" and n = 0
        and c' = 2 and l' = 30 and hs' = "[]" and n' = 0] by (simp add: Let_def)
qed

text \<open>in every reachable state the cached rollout is well-formed: at most 256 slots, each with a
  composition, and a savepoint only for a candidate-bound rollout, splitting off a non-empty part of
  the buffer.\<close>

theorem pctx_ephemeral_ok:
  assumes "pctx_run inner (pctx_new reg bs tb) pc" "pc_ephemeral pc = Some e"
  shows "length (slots (buffer e)) \<le> 256 \<and> (\<forall>sl\<in>set (slots (buffer e)). composition_known sl) \<and>
    (\<forall>idx s. savepoint e = Some (idx, s) \<longrightarrow>
       candidate_id e \<noteq> None \<and> 0 < idx \<and> idx \<le> length (slots (buffer e)))"
  using pctx_run_ok[OF assms(1) pctx_ok_new] assms(2)
  by (auto simp: pctx_ok_def eph_ok_def max_slots_def split: option.splits)

lemma pctx_ephemeral_ok_witness:
  "\<exists>e. pc_ephemeral (snd (query (\<lambda>_. 1) (pctx_new (linreg_new 0 0 0) 16 64) 1 20 [] 0)) = Some e \<and>
     length (slots (buffer e)) \<le> 256"
proof -
  let ?pc = "snd (query (\<lambda>_. 1) (pctx_new (linreg_new 0 0 0) 16 64) 1 20 [] 0)"
  have run: "pctx_run (\<lambda>_. 1) (pctx_new (linreg_new 0 0 0) 16 64) ?pc" by (intro pctx_run.intros)
  obtain e where "pc_ephemeral ?pc = Some e" using query_ephemeral by blast
  with pctx_ephemeral_ok[OF run] show ?thesis by blast
qed

end
