(* ===== verification/BlockHashState.thy ===== *)
theory BlockHashState
  imports Prelude
begin

text \<open>
  The per-request hash tracking \<^verbatim>\<open>BlockHashState\<close> of
  \<^verbatim>\<open>router/src/scheduler/kvcache.rs\<close>: input and generated tokens are cut into blocks, each block
  hash is seeded by the previous one, and the hashes are paired with the backend's block ids. The
  function \<open>xxh\<close> is \<^verbatim>\<open>xxh3_64_with_seed\<close> (of a third-party crate), a parameter: tokens of the block and
  the seed to a hash.
\<close>

section \<open>State\<close>

definition default_block_hash :: u64 where
  "default_block_hash = 42"

text \<open>\<^verbatim>\<open>isize::MIN as usize\<close>: only the most significant bit is set.\<close>

definition none_sentinel :: usize where
  "none_sentinel = 2 ^ 63"

record block_hash_state =
  block_hashes :: "u64 list"
  block_indices :: "u64 list"
  sync_nblks :: nat
  pred_hit_nblks :: usize
  real_hit_nblks :: "nat option"
  block_size :: nat
  prev_hash :: u64
  token_in_last_block :: "u32 list"
  decision_epoch :: u64

section \<open>Construction\<close>

text \<open>The loop over \<^verbatim>\<open>input_tokens.chunks(block_size)\<close> (chunks of size zero panic before it).\<close>

function hash_chunks ::
    "(u32 list \<Rightarrow> u64 \<Rightarrow> u64) \<Rightarrow> nat \<Rightarrow> u32 list \<Rightarrow> u64 \<Rightarrow> u64 list \<Rightarrow> u64 \<times> u64 list \<times> u32 list" where
  "hash_chunks xxh bs toks prev hashes =
     (if toks = [] \<or> bs = 0 then (prev, hashes, [])
      else if length (take bs toks) < 16 then (prev, hashes, take bs toks)
      else hash_chunks xxh bs (drop bs toks) (xxh (take bs toks) prev) (hashes @ [xxh (take bs toks) prev]))"
  by pat_completeness auto
termination by (relation "measure (\<lambda>(x, bs, toks, p, h). length toks)") auto

declare hash_chunks.simps [simp del]

definition bhs_new :: "(u32 list \<Rightarrow> u64 \<Rightarrow> u64) \<Rightarrow> u32 list \<Rightarrow> nat \<Rightarrow> block_hash_state outcome" where
  "bhs_new xxh input_tokens bs =
     (if bs = 0 then Inl ExplicitPanic
      else let (prev, hashes, last) = hash_chunks xxh bs input_tokens default_block_hash []
           in Inr \<lparr>block_hashes = hashes, block_indices = [], sync_nblks = 0,
                pred_hit_nblks = none_sentinel, real_hit_nblks = None, block_size = bs,
                prev_hash = prev, token_in_last_block = last, decision_epoch = 0\<rparr>)"

section \<open>Predicted and real hits\<close>

definition set_pred_block_hits :: "usize \<Rightarrow> block_hash_state \<Rightarrow> block_hash_state outcome" where
  "set_pred_block_hits hit s =
     (if pred_hit_nblks s = none_sentinel
      then Inr (s\<lparr>pred_hit_nblks := and hit (not none_sentinel)\<rparr>) else Inl AssertFailed)"

definition set_real_token_hits_get_diff ::
    "u64 \<Rightarrow> block_hash_state \<Rightarrow> (isize \<times> block_hash_state) outcome" where
  "set_real_token_hits_get_diff hit_token_cnt s =
     (if block_size s = 0 \<or> unat hit_token_cnt mod block_size s \<noteq> 0 then Inl AssertFailed
      else let block_hits = unat hit_token_cnt div block_size s;
               s1 = s\<lparr>sync_nblks := max (sync_nblks s) block_hits, real_hit_nblks := Some block_hits\<rparr>
           in if and (pred_hit_nblks s) none_sentinel = 0
              then Inr (of_nat block_hits - pred_hit_nblks s, s1) else Inl AssertFailed)"

definition pred_hit_tokens :: "block_hash_state \<Rightarrow> usize" where
  "pred_hit_tokens s =
     (if pred_hit_nblks s = none_sentinel then 0 else pred_hit_nblks s * of_nat (block_size s))"

definition set_decision_epoch :: "u64 \<Rightarrow> block_hash_state \<Rightarrow> block_hash_state" where
  "set_decision_epoch e s = s\<lparr>decision_epoch := e\<rparr>"

section \<open>Appending tokens and block ids\<close>

definition append_tokens ::
    "(u32 list \<Rightarrow> u64 \<Rightarrow> u64) \<Rightarrow> u32 list \<Rightarrow> block_hash_state \<Rightarrow> block_hash_state" where
  "append_tokens xxh new_tokens s =
     (let toks = token_in_last_block s @ new_tokens
      in if length toks \<ge> block_size s
         then let h = xxh (take (block_size s) toks) (prev_hash s)
              in s\<lparr>token_in_last_block := drop (block_size s) toks, prev_hash := h,
                   block_hashes := block_hashes s @ [h]\<rparr>
         else s\<lparr>token_in_last_block := toks\<rparr>)"

definition nth_or_0 :: "u64 list \<Rightarrow> nat \<Rightarrow> u64" where
  "nth_or_0 xs i = (if i < length xs then xs ! i else 0)"

definition set_bids :: "u64 list \<Rightarrow> block_hash_state \<Rightarrow> block_hash_state outcome" where
  "set_bids backend_bids s =
     (if backend_bids = [] then Inl AssertFailed
      else let old = nth_or_0 (block_indices s) (sync_nblks s);
               new = nth_or_0 backend_bids (sync_nblks s)
           in Inr (s\<lparr>sync_nblks := (if old \<noteq> new \<or> old = 0 then 0 else sync_nblks s),
                     block_indices := backend_bids\<rparr>))"

text \<open>\<^verbatim>\<open>&xs[begin..end]\<close> for \<^verbatim>\<open>begin <= end\<close>: panics when \<^verbatim>\<open>end\<close> is out of range.\<close>

definition slice :: "'a list \<Rightarrow> nat \<Rightarrow> nat \<Rightarrow> 'a list outcome" where
  "slice xs begin en = (if en \<le> length xs then Inr (take (en - begin) (drop begin xs)) else Inl SliceOutOfRange)"

text \<open>\<^verbatim>\<open>xs.windows(n).position(|w| w == ys)\<close>, for \<open>n = length ys\<close> (windows of size zero panic).\<close>

definition window_position :: "'a list \<Rightarrow> 'a list \<Rightarrow> nat option" where
  "window_position xs ys =
     position (\<lambda>i. take (length ys) (drop i xs) = ys) [0..<length xs + 1 - length ys]"

datatype onto = Onto "u64 list" | AllMarked "u64 list"

definition onto_range :: "nat \<Rightarrow> nat \<Rightarrow> block_hash_state \<Rightarrow> (onto \<times> block_hash_state) outcome" where
  "onto_range begin en s =
     (case slice (block_hashes s) begin en of
        Inl p \<Rightarrow> Inl p
      | Inr hs \<Rightarrow> Inr (Onto hs, s\<lparr>sync_nblks := en\<rparr>))"

definition onto_slow :: "u64 list \<Rightarrow> block_hash_state \<Rightarrow> (onto \<times> block_hash_state) outcome" where
  "onto_slow new_bids s =
     (if new_bids = [] then Inl ExplicitPanic
      else case window_position (block_indices s) new_bids of
             Some begin \<Rightarrow> onto_range begin (begin + length new_bids) s
           | None \<Rightarrow> Inr (AllMarked (block_indices s), s))"

definition get_onto_hashes :: "u64 list \<Rightarrow> block_hash_state \<Rightarrow> (onto \<times> block_hash_state) outcome" where
  "get_onto_hashes new_bids s =
     (let begin = sync_nblks s; en = begin + length new_bids
      in if begin < length (block_indices s)
         then if block_indices s ! begin = nth_or_0 new_bids 0
              then case slice (block_indices s) begin en of
                     Inl p \<Rightarrow> Inl p
                   | Inr bids \<Rightarrow> if bids = new_bids then onto_range begin en s else onto_slow new_bids s
              else onto_slow new_bids s
         else Inl SliceOutOfRange)"

text \<open>\<^verbatim>\<open>append\<close>: the three steps in one.\<close>

definition bhs_append ::
    "(u32 list \<Rightarrow> u64 \<Rightarrow> u64) \<Rightarrow> u32 list \<Rightarrow> u64 list \<Rightarrow> u64 list \<Rightarrow> block_hash_state \<Rightarrow>
       (onto \<times> block_hash_state) outcome" where
  "bhs_append xxh new_tokens cur_bids new_bids s =
     (case set_bids cur_bids (append_tokens xxh new_tokens s) of
        Inl p \<Rightarrow> Inl p
      | Inr s' \<Rightarrow> get_onto_hashes new_bids s')"

section \<open>Specification: the hash chain of the complete blocks\<close>

function chain :: "(u32 list \<Rightarrow> u64 \<Rightarrow> u64) \<Rightarrow> nat \<Rightarrow> u64 \<Rightarrow> u32 list \<Rightarrow> u64 list" where
  "chain xxh bs prev toks =
     (if bs = 0 \<or> length toks < bs then []
      else xxh (take bs toks) prev # chain xxh bs (xxh (take bs toks) prev) (drop bs toks))"
  by pat_completeness auto
termination by (relation "measure (\<lambda>(x, bs, p, toks). length toks)") auto

declare chain.simps [simp del]

definition tail_of :: "nat \<Rightarrow> 'a list \<Rightarrow> 'a list" where
  "tail_of bs toks = drop (bs * (length toks div bs)) toks"

text \<open>The state has hashed exactly the complete blocks of the tokens seen so far.\<close>

definition tracks :: "(u32 list \<Rightarrow> u64 \<Rightarrow> u64) \<Rightarrow> u32 list \<Rightarrow> block_hash_state \<Rightarrow> bool" where
  "tracks xxh toks s \<longleftrightarrow>
     0 < block_size s \<and>
     block_hashes s = chain xxh (block_size s) default_block_hash toks \<and>
     token_in_last_block s = tail_of (block_size s) toks \<and>
     prev_hash s = last (default_block_hash # block_hashes s)"

lemma length_chain: "0 < bs \<Longrightarrow> length (chain xxh bs prev toks) = length toks div bs"
proof (induction xxh bs prev toks rule: chain.induct)
  case (1 xxh bs prev toks)
  then show ?case
    by (cases "length toks < bs") (simp_all add: chain.simps[of _ _ _ toks] le_div_geq not_less)
qed

lemma tail_of_short: "length toks < bs \<Longrightarrow> tail_of bs toks = toks"
  by (simp add: tail_of_def)

lemma tail_of_drop: "0 < bs \<Longrightarrow> bs \<le> length toks \<Longrightarrow> tail_of bs (drop bs toks) = tail_of bs toks"
  by (simp add: tail_of_def le_div_geq add.commute)

lemma length_tail_of: "0 < bs \<Longrightarrow> length (tail_of bs toks) = length toks mod bs"
  by (simp add: tail_of_def minus_mult_div_eq_mod)

text \<open>More tokens than one block only extend the chain.\<close>

lemma chain_append:
  "0 < bs \<Longrightarrow> chain xxh bs prev (xs @ ys) =
     chain xxh bs prev xs @ chain xxh bs (last (prev # chain xxh bs prev xs)) (tail_of bs xs @ ys)"
proof (induction xxh bs prev xs rule: chain.induct)
  case (1 xxh bs prev xs)
  show ?case
  proof (cases "length xs < bs")
    case True
    then show ?thesis by (simp add: chain.simps[of _ _ _ xs] tail_of_short)
  next
    case False
    with 1 show ?thesis
      by (simp add: chain.simps[of _ _ _ xs] chain.simps[of _ _ _ "xs @ ys"] tail_of_drop not_less)
  qed
qed

lemma tail_of_append: "0 < bs \<Longrightarrow> tail_of bs (xs @ ys) = tail_of bs (tail_of bs xs @ ys)"
proof (induction xs rule: length_induct)
  case (1 xs)
  show ?case
  proof (cases "length xs < bs")
    case True
    then show ?thesis by (simp add: tail_of_short)
  next
    case False
    with 1(2) have "length (drop bs xs) < length xs" by auto
    with 1 have "tail_of bs (drop bs xs @ ys) = tail_of bs (tail_of bs (drop bs xs) @ ys)" by blast
    moreover have "tail_of bs (xs @ ys) = tail_of bs (drop bs xs @ ys)"
      using tail_of_drop[of bs "xs @ ys"] False 1(2) by simp
    ultimately show ?thesis using tail_of_drop[of bs xs] False 1(2) by simp
  qed
qed

lemma hash_chunks_16:
  "hash_chunks xxh 16 toks prev hashes =
     (last (prev # chain xxh 16 prev toks), hashes @ chain xxh 16 prev toks, tail_of 16 toks)"
proof (induction "length toks" arbitrary: toks prev hashes rule: less_induct)
  case less
  show ?case
  proof (cases "length toks < 16")
    case True
    then show ?thesis
      by (auto simp: hash_chunks.simps[of _ _ toks] chain.simps[of _ _ _ toks] tail_of_short)
  next
    case False
    with less[of "drop 16 toks"] show ?thesis
      by (auto simp: hash_chunks.simps[of _ _ toks] chain.simps[of _ _ _ toks] tail_of_drop)
  qed
qed

section \<open>Divergences from the specification\<close>

text \<open>
  The constructor tests \<^verbatim>\<open>block.len() < 16\<close> where the block size is meant: with larger blocks it
  hashes an incomplete block, with smaller ones it stops at the first block and forgets the rest of
  the prompt. The block size is a command line option (default 16).
\<close>

lemma new_large_blocks_hash_incomplete:
  "\<exists>s. bhs_new xxh (replicate 20 0) 32 = Inr s \<and> length (block_hashes s) = 1 \<and> \<not> tracks xxh (replicate 20 0) s"
  by (simp add: bhs_new_def hash_chunks.simps[of _ _ "replicate _ _"] hash_chunks.simps[of _ _ "[]"]
      tracks_def chain.simps[of _ _ _ "replicate _ _"])

lemma new_small_blocks_lose_tokens:
  "\<exists>s. bhs_new xxh (replicate 24 0) 8 = Inr s \<and> block_hashes s = [] \<and> length (token_in_last_block s) = 8"
  by (simp add: bhs_new_def hash_chunks.simps[of _ _ "replicate _ _"])

text \<open>\<^verbatim>\<open>append_tokens\<close> hashes at most one block per call.\<close>

lemma append_hashes_one_block:
  "length (block_hashes (append_tokens xxh new s)) \<le> length (block_hashes s) + 1"
  by (simp add: append_tokens_def Let_def)

section \<open>Properties\<close>

lemma nonsentinel_bits:
  fixes h :: usize
  assumes "unat h < 2 ^ 63"
  shows "and h (not none_sentinel) = h" "h \<noteq> none_sentinel" "and h none_sentinel = 0"
proof -
  have "and h none_sentinel = 0"
  proof (rule bit_word_eqI)
    fix n
    have "\<not> bit (unat h) 63" using assms by (simp add: bit_iff_odd)
    then have "\<not> bit h 63" by (simp add: bit_unsigned_iff)
    moreover have "bit none_sentinel n \<Longrightarrow> n = 63"
      unfolding none_sentinel_def bit_exp_iff by simp
    ultimately show "bit (and h none_sentinel) n \<longleftrightarrow> bit (0 :: usize) n"
      by (auto simp: bit_and_iff)
  qed
  then show zero: "and h none_sentinel = 0" .
  have "\<not> bit none_sentinel n" if "bit h n" for n
    using that arg_cong[OF zero, of "\<lambda>w. bit w n"] by (simp add: bit_and_iff)
  then show "and h (not none_sentinel) = h"
    by (intro bit_word_eqI) (auto simp: bit_and_iff bit_not_iff)
  show "h \<noteq> none_sentinel" using assms by (auto simp: none_sentinel_def)
qed

lemma small_diff:
  "(a :: nat) < 2 ^ 62 \<Longrightarrow> b < 2 ^ 62 \<Longrightarrow> - (2 ^ 63) \<le> int a - int b \<and> int a - int b < 2 ^ 63"
  by simp

text \<open>with the default block size 16, the constructor hashes exactly the complete blocks of
  the prompt, each seeded by the hash before it, and keeps the incomplete rest.\<close>

theorem bhs_new_tracks:
  "\<exists>s. bhs_new xxh toks 16 = Inr s \<and> tracks xxh toks s \<and> length (block_hashes s) = length toks div 16"
  by (simp add: bhs_new_def hash_chunks_16 tracks_def length_chain)

text \<open>appending tokens keeps the state in step with the whole token sequence, for any positive
  block size, as long as the pending tokens stay below two blocks. (Engines report one token, or a
  few, per step.)\<close>

theorem append_tokens_tracks:
  assumes "tracks xxh toks s"
    and "length toks mod block_size s + length new < 2 * block_size s"
  shows "tracks xxh (toks @ new) (append_tokens xxh new s)"
proof -
  let ?bs = "block_size s"
  define p where "p = tail_of (block_size s) toks @ new"
  have bs: "0 < ?bs" using assms(1) by (simp add: tracks_def)
  have len: "length p < 2 * ?bs" using assms(2) bs by (simp add: length_tail_of p_def)
  have chain: "chain xxh ?bs default_block_hash (toks @ new) =
      block_hashes s @ chain xxh ?bs (prev_hash s) p"
    and tail: "tail_of ?bs (toks @ new) = tail_of ?bs p"
    using assms(1) chain_append[OF bs, of xxh default_block_hash toks new] tail_of_append[OF bs, of toks new]
    by (simp_all add: tracks_def p_def)
  have step: "append_tokens xxh new s =
      (if length p \<ge> ?bs
       then s\<lparr>token_in_last_block := drop ?bs p, prev_hash := xxh (take ?bs p) (prev_hash s),
              block_hashes := block_hashes s @ [xxh (take ?bs p) (prev_hash s)]\<rparr>
       else s\<lparr>token_in_last_block := p\<rparr>)"
    using assms(1) by (simp add: append_tokens_def Let_def p_def tracks_def)
  show ?thesis
  proof (cases "length p < ?bs")
    case True
    with assms(1) chain tail show ?thesis
      by (simp add: tracks_def step chain.simps[of _ _ _ p] tail_of_short)
  next
    case False
    then have "tail_of ?bs p = drop ?bs p"
      using tail_of_drop[OF bs, of p] len by (simp add: tail_of_short)
    moreover have "chain xxh ?bs (prev_hash s) p = [xxh (take ?bs p) (prev_hash s)]"
      using False len bs by (simp add: chain.simps[of _ _ _ p] chain.simps[of _ _ _ "drop _ _"])
    ultimately show ?thesis
      using False assms(1) chain tail by (simp add: tracks_def step)
  qed
qed

lemma append_tokens_tracks_witness:
  "\<exists>s. bhs_new (\<lambda>ts p. p + 1) (replicate 20 7) 16 = Inr s \<and>
     tracks (\<lambda>ts p. p + 1) (replicate 20 7 @ [1, 2]) (append_tokens (\<lambda>ts p. p + 1) [1, 2] s)"
proof -
  obtain s where s: "bhs_new (\<lambda>ts p. p + 1) (replicate 20 7) 16 = Inr s" "tracks (\<lambda>ts p. p + 1) (replicate 20 7) s"
    using bhs_new_tracks by blast
  moreover from s(1) have "block_size s = 16" by (auto simp: bhs_new_def split: prod.splits)
  ultimately show ?thesis using append_tokens_tracks[OF s(2), of "[1, 2]"] by simp
qed

text \<open>when \<^verbatim>\<open>get_onto_hashes\<close> maps new backend blocks, on the fast or the slow path, the
  hashes it returns stand at the positions at which exactly these blocks stand among the request's
  blocks, one hash per block, and the synchronised prefix ends with them.\<close>

theorem onto_hashes_aligned:
  assumes "get_onto_hashes new s = Inr (Onto hs, s')"
  shows "\<exists>begin. new = take (length new) (drop begin (block_indices s)) \<and>
     hs = take (length new) (drop begin (block_hashes s)) \<and> length hs = length new \<and>
     sync_nblks s' = begin + length new"
proof -
  have range: "hs = take (length new) (drop b (block_hashes s)) \<and> length hs = length new \<and>
      sync_nblks s' = b + length new"
    if "onto_range b (b + length new) s = Inr (Onto hs, s')" for b
    using that by (auto simp: onto_range_def slice_def split: if_splits)
  have slow: ?thesis if sl: "onto_slow new s = Inr (Onto hs, s')"
  proof -
    obtain i where b: "window_position (block_indices s) new = Some i"
      "onto_range i (i + length new) s = Inr (Onto hs, s')"
      using sl by (cases "window_position (block_indices s) new") (auto simp: onto_slow_def split: if_splits)
    from position_SomeD[OF b(1)[unfolded window_position_def]]
    have "new = take (length new) (drop i (block_indices s))" by (auto simp del: upt_Suc)
    with range[OF b(2)] show ?thesis by blast
  qed
  show ?thesis
    using assms slow range[of "sync_nblks s"]
    by (auto simp: get_onto_hashes_def Let_def slice_def split: if_splits)
qed

lemma onto_hashes_aligned_witness:
  "\<exists>hs s'. get_onto_hashes [8] \<lparr>block_hashes = [100, 200], block_indices = [7, 8], sync_nblks = 0,
      pred_hit_nblks = 0, real_hit_nblks = None, block_size = 16, prev_hash = 200,
      token_in_last_block = [], decision_epoch = 0\<rparr> = Inr (Onto hs, s') \<and> length hs = 1"
proof -
  let ?s = "\<lparr>block_hashes = [100, 200], block_indices = [7, 8], sync_nblks = 0,
      pred_hit_nblks = 0, real_hit_nblks = None, block_size = 16, prev_hash = 200,
      token_in_last_block = [], decision_epoch = 0\<rparr> :: block_hash_state"
  have "get_onto_hashes [8] ?s = Inr (Onto [200], ?s\<lparr>sync_nblks := 2\<rparr>)" by code_simp
  then show ?thesis using onto_hashes_aligned by fastforce
qed

text \<open>the prediction is recorded exactly once (a second call fails the assertion), and at the
  end of prefill the difference between the engine's and the predicted hits is exact as a signed
  number.\<close>

theorem pred_real_hits:
  assumes "set_pred_block_hits hit s = Inr s1" "unat hit < 2 ^ 62"
    and "0 < block_size s" "block_size s dvd unat cnt" "unat cnt div block_size s < 2 ^ 62"
  shows "set_pred_block_hits hit' s1 = Inl AssertFailed \<and>
    (\<exists>d s2. set_real_token_hits_get_diff cnt s1 = Inr (d, s2) \<and>
       sint d = int (unat cnt div block_size s) - int (unat hit) \<and>
       real_hit_nblks s2 = Some (unat cnt div block_size s))"
proof -
  let ?r = "unat cnt div block_size s"
  have hit: "unat hit < 2 ^ 63" using assms(2) by simp
  note bits = nonsentinel_bits[OF hit]
  have s1: "s1 = s\<lparr>pred_hit_nblks := hit\<rparr>"
    using assms(1) bits(1) by (auto simp: set_pred_block_hits_def split: if_splits)
  have "sint (of_nat ?r - hit) = int ?r - int (unat hit)"
  proof -
    have "sint (of_nat ?r - hit) = signed_take_bit 63 (int ?r - int (unat hit))"
    proof -
      have "(of_nat ?r - hit :: isize) = of_int (int ?r - int (unat hit))"
        by (simp only: of_int_diff of_int_of_nat_eq word_nat_cases) simp
      then show ?thesis by (simp only: sint_sbintrunc') simp
    qed
    also have "\<dots> = int ?r - int (unat hit)"
    proof (rule signed_take_bit_int_eq_self)
      show "- (2 ^ 63) \<le> int ?r - int (unat hit)" "int ?r - int (unat hit) < 2 ^ 63"
        using small_diff[OF assms(5,2)] by blast+
    qed
    finally show ?thesis .
  qed
  then show ?thesis
    using assms(3,4) bits s1
    by (simp add: set_pred_block_hits_def set_real_token_hits_get_diff_def Let_def dvd_eq_mod_eq_0)
qed

lemma pred_real_hits_witness:
  "\<exists>s s1 d s2. bhs_new (\<lambda>ts p. p) [] 16 = Inr s \<and> set_pred_block_hits 3 s = Inr s1 \<and>
     set_real_token_hits_get_diff 32 s1 = Inr (d, s2) \<and> sint d = - 1"
proof -
  obtain s where s: "bhs_new (\<lambda>ts p. p) [] 16 = Inr s" "pred_hit_nblks s = none_sentinel" "block_size s = 16"
    by (simp add: bhs_new_def hash_chunks_16)
  then obtain s1 where "set_pred_block_hits 3 s = Inr s1" by (simp add: set_pred_block_hits_def)
  with s pred_real_hits[OF this, of 32 0] show ?thesis by fastforce
qed

end
