(* ===== verification/RadixTree.thy ===== *)
theory RadixTree
  imports Prelude "HOL-Library.AList"
begin

text \<open>
  The production prefix matcher \<^verbatim>\<open>RadixTreeBlockHash\<close> of \<^verbatim>\<open>radixtree/src/block_hash.rs\<close>
  over the nodes of \<^verbatim>\<open>radixtree/src/core.rs\<close>: data and operations.

  A node is boxed and owned by exactly one children container, so the nodes form a tree; a raw pointer
  to a node is its address, a number that the node carries. Following a pointer from a container
  is following the tree; the pointers of \<^verbatim>\<open>block_to_node\<close> and those returned by the
  traversals are dereferenced by looking the address up in the tree (\<open>find_at\<close>), where a missing address
  is a dangling pointer. \<^verbatim>\<open>Node::new\<close> takes the next unused address. The lock only serialises the
  garbage collection of readers; what it protects is one step.
\<close>

section \<open>Nodes\<close>

text \<open>A \<^verbatim>\<open>Children::Large\<close> map is the list of its entries; no result depends on their order.\<close>

datatype rnode = RNode (raddr: nat) (rvalue: "u64 list") (rpayload: "u64 list list") (rchildren: rchildren)
  and rchildren = Small "rnode list" | Large "(u64 \<times> rnode) list"

definition SMALL_MAX :: nat where
  "SMALL_MAX = 32"

text \<open>\<^verbatim>\<open>v.iter()\<close> and \<^verbatim>\<open>m.values()\<close>.\<close>

fun kids :: "rchildren \<Rightarrow> rnode list" where
  "kids (Small v) = v"
| "kids (Large m) = map snd m"

fun put_kid :: "nat \<Rightarrow> rnode \<Rightarrow> rchildren \<Rightarrow> rchildren" where
  "put_kid i c (Small v) = Small (v[i := c])"
| "put_kid i c (Large m) = Large (m[i := (fst (m ! i), c)])"

definition children_is_empty :: "rchildren \<Rightarrow> bool" where
  "children_is_empty ch \<longleftrightarrow> kids ch = []"

definition children_clear :: "rchildren \<Rightarrow> rchildren" where
  "children_clear ch = (case ch of Small v \<Rightarrow> Small [] | Large m \<Rightarrow> Large [])"

definition node_is_empty :: "rnode \<Rightarrow> bool" where
  "node_is_empty n \<longleftrightarrow> children_is_empty (rchildren n) \<and> rvalue n = [] \<and> rpayload n = []"

definition node_new :: "nat \<Rightarrow> rnode" where
  "node_new a = RNode a [] [] (Small [])"

lemma kid_size [termination_simp]: "c \<in> set (kids ch) \<Longrightarrow> size c < Suc (size ch)"
proof (cases ch)
  case (Small v)
  then show "c \<in> set (kids ch) \<Longrightarrow> ?thesis"
    using size_list_member[of c v size] by auto
next
  case (Large m)
  assume "c \<in> set (kids ch)"
  then obtain k where "(k, c) \<in> set m" using Large by auto
  then have "size_prod (\<lambda>_. 0) size (k, c) < size_list (size_prod (\<lambda>_. 0) size) m"
    by (rule size_list_member)
  then show ?thesis using Large by simp
qed

text \<open>Dereferencing an address, and storing to it.\<close>

fun first_some :: "'a option list \<Rightarrow> 'a option" where
  "first_some [] = None"
| "first_some (x # xs) = (case x of None \<Rightarrow> first_some xs | Some y \<Rightarrow> Some y)"

fun find_at :: "nat \<Rightarrow> rnode \<Rightarrow> rnode option" where
  "find_at a (RNode b v p ch) =
     (if a = b then Some (RNode b v p ch) else first_some (map (find_at a) (kids ch)))"

fun map_kids :: "(rnode \<Rightarrow> rnode) \<Rightarrow> rchildren \<Rightarrow> rchildren" where
  "map_kids f (Small v) = Small (map f v)"
| "map_kids f (Large m) = Large (map (\<lambda>(k, c). (k, f c)) m)"

lemma map_kids_cong [fundef_cong]:
  "ch = ch' \<Longrightarrow> (\<And>c. c \<in> set (kids ch') \<Longrightarrow> f c = g c) \<Longrightarrow> map_kids f ch = map_kids g ch'"
  by (cases ch') force+

fun put_at :: "nat \<Rightarrow> rnode \<Rightarrow> rnode \<Rightarrow> rnode" where
  "put_at a n (RNode b v p ch) = (if a = b then n else RNode b v p (map_kids (put_at a n) ch))"

definition deref :: "nat \<Rightarrow> rnode \<Rightarrow> rnode outcome" where
  "deref a root = (case find_at a root of None \<Rightarrow> Inl DanglingPointer | Some n \<Rightarrow> Inr n)"

section \<open>The reverse table\<close>

type_synonym btn = "nat option list"

definition btn_get :: "btn \<Rightarrow> u64 \<Rightarrow> nat option outcome" where
  "btn_get btn b = (if unat b < length btn then Inr (btn ! unat b) else Inl SliceOutOfRange)"

definition btn_set :: "nat option \<Rightarrow> u64 \<Rightarrow> btn \<Rightarrow> btn outcome" where
  "btn_set v b btn = (if unat b < length btn then Inr (btn[unat b := v]) else Inl SliceOutOfRange)"

text \<open>The validation loops: assert what the table says of a block, then point it to the node.\<close>

definition register :: "(nat option \<Rightarrow> bool) \<Rightarrow> nat \<Rightarrow> u64 \<Rightarrow> btn \<Rightarrow> btn outcome" where
  "register allowed a b btn =
     obind (btn_get btn b) (\<lambda>old. assert_then (allowed old) (btn_set (Some a) b btn))"

text \<open>One alias: a block that is not registered yet is pushed to position \<open>i\<close> of the node.\<close>

definition alias_one :: "nat \<Rightarrow> nat \<times> u64 \<Rightarrow> u64 list list \<times> btn \<Rightarrow> (u64 list list \<times> btn) outcome" where
  "alias_one a = (\<lambda>(i, b) (p, btn).
     obind (btn_get btn b) (\<lambda>old.
       if old = None
       then if i < length p
            then obind (btn_set (Some a) b btn) (\<lambda>btn'. Inr (p[i := p ! i @ [b]], btn'))
            else Inl SliceOutOfRange
       else Inr (p, btn)))"

section \<open>Matching\<close>

datatype common_prefix_inner = NoMatch nat | PartialMatch nat nat | FullMatch nat

definition common_prefix :: "rnode \<Rightarrow> u64 list \<Rightarrow> common_prefix_inner" where
  "common_prefix n key =
     (let i = lcp_len (rvalue n) key
      in if i = 0 then NoMatch (raddr n)
         else if i = length (rvalue n) then FullMatch (raddr n)
         else PartialMatch (raddr n) i)"

text \<open>\<^verbatim>\<open>m.get(&k)\<close>, as the position of the entry.\<close>

definition entry_at :: "u64 \<Rightarrow> (u64 \<times> rnode) list \<Rightarrow> nat option" where
  "entry_at k m = position (\<lambda>e. fst e = k) m"

lemma small_size [termination_simp]: "i < length v \<Longrightarrow> size (v ! i) < Suc (size_list size v)"
  using size_list_member[of "v ! i" v size] by simp

lemma large_size [termination_simp]:
  "i < length m \<Longrightarrow> size (snd (m ! i)) < Suc (size_list (size_prod (\<lambda>_. 0) size) m)"
proof -
  assume "i < length m"
  then have "size_prod (\<lambda>_. 0) size (m ! i) < size_list (size_prod (\<lambda>_. 0) size) m"
    by (intro size_list_member) simp
  then show ?thesis by (cases "m ! i") simp
qed

lemma rchildren_size: "size (rchildren n) < size n"
  by (cases n) simp

text \<open>\<^verbatim>\<open>get_inner\<close>: the loop over the levels, from the children of \<^verbatim>\<open>cur\<close>.\<close>

function get_level :: "rchildren \<Rightarrow> u64 list \<Rightarrow> nat \<Rightarrow> nat" where
  "get_level (Small v) hashes prefix_len =
     (if prefix_len = length hashes then prefix_len
      else case position (\<lambda>c. lcp_len (rvalue c) (drop prefix_len hashes) \<noteq> 0) v of
             None \<Rightarrow> prefix_len
           | Some j \<Rightarrow>
               (let i = lcp_len (rvalue (v ! j)) (drop prefix_len hashes)
                in if i < length (rvalue (v ! j)) then prefix_len + i
                   else get_level (rchildren (v ! j)) hashes (prefix_len + i)))"
| "get_level (Large m) hashes prefix_len =
     (if prefix_len = length hashes then prefix_len
      else case entry_at (hashes ! prefix_len) m of
             None \<Rightarrow> prefix_len
           | Some j \<Rightarrow>
               (if node_is_empty (snd (m ! j)) then prefix_len
                else let i = lcp_len (rvalue (snd (m ! j))) (drop prefix_len hashes)
                     in if i < length (rvalue (snd (m ! j))) then prefix_len + i
                        else get_level (rchildren (snd (m ! j))) hashes (prefix_len + i)))"
  by pat_completeness auto

termination
proof (relation "measure (\<lambda>(ch, h, p). size ch)", goal_cases)
  case (2 v hashes prefix_len j i)
  then have "j < length v" by (simp add: position_less)
  with rchildren_size[of "v ! j"] small_size[of j v] show ?case by simp
next
  case (3 m hashes prefix_len j i)
  then have "j < length m" by (simp add: entry_at_def position_less)
  with rchildren_size[of "snd (m ! j)"] large_size[of j m] show ?case by simp
qed simp

declare get_level.simps [simp del]

section \<open>Descending with garbage collection\<close>

text \<open>
  \<^verbatim>\<open>common_prefix_full_combo\<close>: follow the fully matched nodes below \<^verbatim>\<open>subroot\<close>,
  dropping the empty children met on the way. The result is the match, the unmatched rest of the key,
  the subtree without the dropped nodes, and how many were dropped. \<open>combo_scan\<close> is the loop over a small
  container.
\<close>

function full_combo ::
    "rnode \<Rightarrow> u64 list \<Rightarrow> (common_prefix_inner \<times> u64 list \<times> rnode \<times> nat) outcome"
  and combo_scan ::
    "nat \<Rightarrow> rnode list \<Rightarrow> u64 list \<Rightarrow> (common_prefix_inner \<times> u64 list \<times> rnode list \<times> nat) outcome" where
  "full_combo (RNode a v p ch) key =
     (if key = [] then Inr (FullMatch a, key, RNode a v p ch, 0)
      else case ch of
        Small cs \<Rightarrow>
          obind (combo_scan a cs key) (\<lambda>(r, key', cs', g). Inr (r, key', RNode a v p (Small cs'), g))
      | Large m \<Rightarrow>
          (case entry_at (hd key) m of
             None \<Rightarrow> Inr (FullMatch a, key, RNode a v p ch, 0)
           | Some i \<Rightarrow>
               (let child = snd (m ! i)
                in if node_is_empty child
                   then Inr (FullMatch a, key, RNode a v p (Large (vec_remove i m)), 1)
                   else case common_prefix child key of
                     FullMatch _ \<Rightarrow>
                       obind (full_combo child (drop (length (rvalue child)) key))
                         (\<lambda>(r, key', child', g). Inr (r, key', RNode a v p (put_kid i child' ch), g))
                   | PartialMatch b common \<Rightarrow> Inr (PartialMatch b common, key, RNode a v p ch, 0)
                   | NoMatch _ \<Rightarrow> Inl Unreachable)))"
| "combo_scan a [] key = Inr (FullMatch a, key, [], 0)"
| "combo_scan a (child # cs) key =
     (if node_is_empty child
      then obind (combo_scan a cs key) (\<lambda>(r, key', cs', g). Inr (r, key', cs', g + 1))
      else case common_prefix child key of
        FullMatch _ \<Rightarrow>
          obind (full_combo child (drop (length (rvalue child)) key))
            (\<lambda>(r, key', child', g). Inr (r, key', child' # cs, g))
      | PartialMatch b common \<Rightarrow> Inr (PartialMatch b common, key, child # cs, 0)
      | NoMatch _ \<Rightarrow>
          obind (combo_scan a cs key) (\<lambda>(r, key', cs', g). Inr (r, key', child # cs', g)))"
  by pat_completeness auto

termination
proof (relation "measure (case_sum (\<lambda>(n, k). size n) (\<lambda>(a, cs, k). size_list size cs))", goal_cases)
  case (3 a v p ch key m i child)
  then have "i < length m" by (simp add: entry_at_def position_less)
  with 3 large_size[of i m] show ?case by simp
qed auto

declare full_combo.simps [simp del] combo_scan.simps [simp del]

text \<open>The scan of the root's children: the first one that starts with the key's first hash.\<close>

fun root_scan :: "nat \<Rightarrow> rnode list \<Rightarrow> u64 list \<Rightarrow> (common_prefix_inner \<times> rnode list \<times> nat) outcome" where
  "root_scan r [] key = Inr (NoMatch r, [], 0)"
| "root_scan r (child # cs) key =
     (if node_is_empty child
      then obind (root_scan r cs key) (\<lambda>(res, cs', g). Inr (res, cs', g + 1))
      else if rvalue child = [] then Inl SliceOutOfRange
      else if hd (rvalue child) = hd key then Inr (common_prefix child key, child # cs, 0)
      else obind (root_scan r cs key) (\<lambda>(res, cs', g). Inr (res, child # cs', g)))"

definition root_match :: "rnode \<Rightarrow> u64 list \<Rightarrow> (common_prefix_inner \<times> rnode \<times> nat) outcome" where
  "root_match root key =
     (case rchildren root of
        Small v \<Rightarrow>
          obind (root_scan (raddr root) v key)
            (\<lambda>(res, v', g). Inr (res, RNode (raddr root) (rvalue root) (rpayload root) (Small v'), g))
      | Large m \<Rightarrow>
          (case entry_at (hd key) m of
             None \<Rightarrow> Inr (NoMatch (raddr root), root, 0)
           | Some i \<Rightarrow>
               if node_is_empty (snd (m ! i))
               then Inr (NoMatch (raddr root),
                         RNode (raddr root) (rvalue root) (rpayload root) (Large (vec_remove i m)), 1)
               else Inr (common_prefix (snd (m ! i)) key, root, 0)))"

section \<open>Registering aliases along a path\<close>

definition child_at :: "u64 \<Rightarrow> rchildren \<Rightarrow> nat option" where
  "child_at k ch =
     (case ch of
        Small v \<Rightarrow> position (\<lambda>n. rvalue n \<noteq> [] \<and> hd (rvalue n) = k) v
      | Large m \<Rightarrow> entry_at k m)"

lemma child_at_less: "child_at k ch = Some i \<Longrightarrow> i < length (kids ch)"
  by (cases ch) (auto simp: child_at_def entry_at_def dest: position_less)

text \<open>
  \<^verbatim>\<open>alias_path\<close>: the outer loop from the children of \<^verbatim>\<open>cur\<close>, with the rest of the key and of
  the aliases. A key whose path is not stored ends the loop.
\<close>

function alias_walk :: "rchildren \<Rightarrow> u64 list \<Rightarrow> u64 list \<Rightarrow> btn \<Rightarrow> (rchildren \<times> btn) outcome" where
  "alias_walk ch key aliases btn =
     (if key = [] then Inr (ch, btn)
      else case child_at (hd key) ch of
        None \<Rightarrow> Inr (ch, btn)
      | Some j \<Rightarrow>
          (let child = kids ch ! j;
               n = lcp_len (rvalue child) key
           in if n \<le> length aliases
              then obind (fold_outcome (alias_one (raddr child)) (enumerate 0 (take n aliases))
                            (rpayload child, btn))
                (\<lambda>(p', btn'). obind (alias_walk (rchildren child) (drop n key) (drop n aliases) btn')
                   (\<lambda>(ch', btn''). Inr (put_kid j (RNode (raddr child) (rvalue child) p' ch') ch, btn'')))
              else Inl SliceOutOfRange))"
  by pat_completeness auto

termination
proof (relation "measure (\<lambda>(ch, k, al, b). size ch)", goal_cases)
  case (2 ch key aliases btn j child n)
  then have "size child < Suc (size ch)" by (auto intro!: kid_size dest: child_at_less)
  with rchildren_size[of child] show ?case by simp
qed simp

declare alias_walk.simps [simp del]

definition alias_path :: "rnode \<Rightarrow> u64 list \<Rightarrow> u64 list \<Rightarrow> btn \<Rightarrow> (rnode \<times> btn) outcome" where
  "alias_path root key aliases btn =
     obind (alias_walk (rchildren root) key aliases btn)
       (\<lambda>(ch, btn'). Inr (RNode (raddr root) (rvalue root) (rpayload root) ch, btn'))"

section \<open>Insertion\<close>

text \<open>
  The tree. \<open>next_addr\<close> stands for the allocator: no node has this address or a later one.
\<close>

record radix_tree =
  rt_root :: rnode
  rt_size :: usize
  rt_nodes :: usize
  block_to_node :: btn
  rt_epoch :: u64
  next_addr :: nat

definition rt_new :: "nat \<Rightarrow> radix_tree" where
  "rt_new num_blocks =
     \<lparr>rt_root = node_new 0, rt_size = 0, rt_nodes = 1, block_to_node = replicate num_blocks None,
      rt_epoch = 0, next_addr = 1\<rparr>"

definition rt_len :: "radix_tree \<Rightarrow> usize" where
  "rt_len t = rt_size t"

definition rt_is_empty :: "radix_tree \<Rightarrow> bool" where
  "rt_is_empty t \<longleftrightarrow> rt_size t = 0"

text \<open>\<^verbatim>\<open>Node::new()\<close>, counted in \<^verbatim>\<open>self.nodes\<close>.\<close>

definition alloc :: "radix_tree \<Rightarrow> nat \<times> radix_tree" where
  "alloc t = (next_addr t, t\<lparr>rt_nodes := rt_nodes t + 1, next_addr := next_addr t + 1\<rparr>)"

text \<open>\<^verbatim>\<open>lazy_gc\<close> of \<open>g\<close> nodes: they are gone from the tree, and from the count.\<close>

definition gc_nodes :: "nat \<Rightarrow> radix_tree \<Rightarrow> radix_tree" where
  "gc_nodes g t = t\<lparr>rt_nodes := rt_nodes t - of_nat g\<rparr>"

text \<open>A leaf with one block per hash; \<^verbatim>\<open>smallvec![b]\<close>.\<close>

definition leaf :: "nat \<Rightarrow> u64 list \<Rightarrow> u64 list \<Rightarrow> rnode" where
  "leaf a hashes bids = RNode a hashes (map (\<lambda>b. [b]) bids) (Small [])"

text \<open>\<^verbatim>\<open>split_node_at_insert\<close>, for the node at address \<open>a\<close>.\<close>

definition split_node_at_insert ::
    "nat \<Rightarrow> nat \<Rightarrow> u64 list \<Rightarrow> u64 list \<Rightarrow> radix_tree \<Rightarrow> radix_tree outcome" where
  "split_node_at_insert a common hashes bids t =
     obind (deref a (rt_root t)) (\<lambda>node.
     assert_then (common < length hashes) (
     if common \<le> length (rvalue node) \<and> common \<le> length (rpayload node) \<and> common \<le> length bids
     then
       let (x, t1) = alloc t;
           (y, t2) = alloc t1;
           split = RNode x (drop common (rvalue node)) (drop common (rpayload node)) (rchildren node);
           ins = leaf y (drop common hashes) (drop common bids)
       in obind (fold_outcome (alias_one a) (enumerate 0 (take common bids))
                   (take common (rpayload node), block_to_node t2)) (\<lambda>(p', btn1).
          obind (fold_outcome (register (\<lambda>old. old = Some a) x) (concat (rpayload split)) btn1) (\<lambda>btn2.
          obind (fold_outcome (register (\<lambda>old. old = None) y) (concat (rpayload ins)) btn2) (\<lambda>btn3.
          Inr (t2\<lparr>rt_root := put_at a (RNode a (take common (rvalue node)) p' (Small [split, ins])) (rt_root t2),
                 block_to_node := btn3\<rparr>))))
     else Inl SliceOutOfRange))"

text \<open>
  A child is added: a small container that grows beyond \<open>SMALL_MAX\<close> becomes a map from
  first hashes; \<^verbatim>\<open>(&(*n).value)[0]\<close> panics for an empty label, and an existing key panics.
\<close>

definition add_child :: "rnode \<Rightarrow> u64 list \<Rightarrow> rchildren \<Rightarrow> rchildren outcome" where
  "add_child n hashes ch =
     (case ch of
        Small v \<Rightarrow>
          (let v' = v @ [n]
           in if length v' > SMALL_MAX
              then if \<exists>c\<in>set v'. rvalue c = [] then Inl SliceOutOfRange
                   else Inr (Large (foldl (\<lambda>m c. AList.update (hd (rvalue c)) c m) [] v'))
              else Inr (Small v'))
      | Large m \<Rightarrow>
          if hashes = [] then Inl SliceOutOfRange
          else if entry_at (hd hashes) m \<noteq> None then Inl ExplicitPanic
          else Inr (Large (m @ [(hd hashes, n)])))"

definition insert_as_child :: "nat \<Rightarrow> u64 list \<Rightarrow> u64 list \<Rightarrow> radix_tree \<Rightarrow> radix_tree outcome" where
  "insert_as_child a hashes bids t =
     obind (deref a (rt_root t)) (\<lambda>node.
     let (y, t1) = alloc t; new = leaf y hashes bids
     in obind (add_child new hashes (rchildren node)) (\<lambda>ch.
        obind (fold_outcome (register (\<lambda>old. old = None) y) (concat (rpayload new)) (block_to_node t1)) (\<lambda>btn.
        Inr (t1\<lparr>rt_root := put_at a (RNode a (rvalue node) (rpayload node) ch) (rt_root t1),
               block_to_node := btn\<rparr>))))"

text \<open>The extension in place of a node without children.\<close>

definition extend_leaf :: "nat \<Rightarrow> u64 list \<Rightarrow> u64 list \<Rightarrow> radix_tree \<Rightarrow> radix_tree outcome" where
  "extend_leaf a key1 remain t =
     obind (deref a (rt_root t)) (\<lambda>node.
     obind (fold_outcome (register (\<lambda>old. old = None \<or> old = Some a) a) remain (block_to_node t)) (\<lambda>btn.
     Inr (t\<lparr>rt_root := put_at a (RNode a (rvalue node @ key1)
                          (rpayload node @ map (\<lambda>b. [b]) remain) (rchildren node)) (rt_root t),
            block_to_node := btn\<rparr>)))"

definition alias_in :: "u64 list \<Rightarrow> u64 list \<Rightarrow> radix_tree \<Rightarrow> radix_tree outcome" where
  "alias_in key aliases t =
     obind (alias_path (rt_root t) key aliases (block_to_node t)) (\<lambda>(root, btn).
     Inr (t\<lparr>rt_root := root, block_to_node := btn\<rparr>))"

text \<open>The part of \<^verbatim>\<open>insert_inner\<close> below a fully matched child of the root.\<close>

definition insert_below :: "nat \<Rightarrow> u64 list \<Rightarrow> u64 list \<Rightarrow> radix_tree \<Rightarrow> (radix_tree \<times> nat) outcome" where
  "insert_below a key value t0 =
     obind (deref a (rt_root t0)) (\<lambda>node.
     obind (full_combo node (drop (length (rvalue node)) key)) (\<lambda>(r, key1, node', g).
     let t = gc_nodes g (t0\<lparr>rt_root := put_at a node' (rt_root t0)\<rparr>);
         full_match_len = length key - length key1
     in case r of
       FullMatch b \<Rightarrow>
         if key1 = [] then obind (alias_in key value t) (\<lambda>t'. Inr (t', 0))
         else if full_match_len \<le> length value
         then let alias_value = take full_match_len value; remain_value = drop full_match_len value
              in assert_then (length key1 = length remain_value) (
                 obind (alias_in (take full_match_len key) alias_value t) (\<lambda>t1.
                 obind (deref b (rt_root t1)) (\<lambda>nb.
                 obind (if children_is_empty (rchildren nb) then extend_leaf b key1 remain_value t1
                        else insert_as_child b key1 remain_value t1) (\<lambda>t2.
                 Inr (t2, length key1)))))
         else Inl SliceOutOfRange
     | PartialMatch b common \<Rightarrow>
         if length key1 = common then obind (alias_in key value t) (\<lambda>t'. Inr (t', 0))
         else if full_match_len \<le> length value
         then let alias_value = take full_match_len value; remain_value = drop full_match_len value
              in assert_then (length key1 = length remain_value) (
                 obind (alias_in (take full_match_len key) alias_value t) (\<lambda>t1.
                 obind (split_node_at_insert b common key1 remain_value t1) (\<lambda>t2.
                 Inr (t2, length key1 - common))))
         else Inl SliceOutOfRange
     | NoMatch _ \<Rightarrow> Inl Unreachable))"

definition insert_inner :: "u64 list \<Rightarrow> u64 list \<Rightarrow> radix_tree \<Rightarrow> (radix_tree \<times> nat) outcome" where
  "insert_inner key value t0 =
     (if key = [] then Inr (t0, 0)
      else obind (root_match (rt_root t0) key) (\<lambda>(res, root, g).
        let t = gc_nodes g (t0\<lparr>rt_root := root\<rparr>)
        in case res of
          FullMatch a \<Rightarrow> insert_below a key value t
        | PartialMatch a common \<Rightarrow>
            if length key = common then obind (alias_in key value t) (\<lambda>t'. Inr (t', 0))
            else obind (split_node_at_insert a common key value t) (\<lambda>t'. Inr (t', length key - common))
        | NoMatch a \<Rightarrow>
            assert_then (a = raddr (rt_root t)) (
            obind (insert_as_child (raddr (rt_root t)) key value t) (\<lambda>t'. Inr (t', length key)))))"

definition rt_insert :: "radix_tree \<Rightarrow> u64 list \<Rightarrow> u64 list \<Rightarrow> (radix_tree \<times> nat) outcome" where
  "rt_insert t hashes bids =
     obind (insert_inner hashes bids t) (\<lambda>(t', n).
       Inr (t'\<lparr>rt_size := rt_size t' + of_nat n, rt_epoch := rt_epoch t' + 1\<rparr>, n))"

definition rt_get :: "radix_tree \<Rightarrow> u64 list \<Rightarrow> nat" where
  "rt_get t hashes = get_level (rchildren (rt_root t)) hashes 0"

section \<open>Removal\<close>

text \<open>
  \<^verbatim>\<open>clear_inner(node, true)\<close>: unregister every block of the subtree and free its nodes; the
  state counts the blocks and the freed nodes.
\<close>

definition unregister :: "u64 \<Rightarrow> btn \<times> nat \<times> nat \<Rightarrow> (btn \<times> nat \<times> nat) outcome" where
  "unregister b = (\<lambda>(btn, n, freed). obind (btn_set None b btn) (\<lambda>btn'. Inr (btn', n + 1, freed)))"

lemma fold_outcome_cong [fundef_cong]:
  "xs = ys \<Longrightarrow> s = s' \<Longrightarrow> (\<And>x s. x \<in> set ys \<Longrightarrow> f x s = g x s) \<Longrightarrow> fold_outcome f xs s = fold_outcome g ys s'"
  by (induction ys arbitrary: xs s s') (auto split: sum.split)

fun clear_inner :: "rnode \<Rightarrow> btn \<times> nat \<times> nat \<Rightarrow> (btn \<times> nat \<times> nat) outcome" where
  "clear_inner (RNode a v p ch) st =
     (if node_is_empty (RNode a v p ch) then (case st of (btn, n, freed) \<Rightarrow> Inr (btn, n, freed + 1))
      else case fold_outcome unregister (concat p) st of
             Inl e \<Rightarrow> Inl e
           | Inr st1 \<Rightarrow>
               (case fold_outcome clear_inner (kids ch) st1 of
                  Inl e \<Rightarrow> Inl e
                | Inr (btn, n, freed) \<Rightarrow> Inr (btn, n, freed + 1)))"

text \<open>The body of the loop of \<^verbatim>\<open>remove_inner\<close>, with the counter \<^verbatim>\<open>nblock_canary\<close>.\<close>

definition remove_block :: "u64 \<Rightarrow> radix_tree \<times> nat \<Rightarrow> (radix_tree \<times> nat) outcome" where
  "remove_block b = (\<lambda>(t, canary).
     obind (btn_get (block_to_node t) b) (\<lambda>ptr.
     case ptr of
       None \<Rightarrow> Inr (t, canary)
     | Some a \<Rightarrow>
         obind (deref a (rt_root t)) (\<lambda>node.
         case position (\<lambda>bids. b \<in> set bids) (rpayload node) of
           None \<Rightarrow> Inl SliceOutOfRange
         | Some pos \<Rightarrow>
             obind (btn_set None b (block_to_node t)) (\<lambda>btn.
             let bids' = remove1 b (rpayload node ! pos);
                 p' = (rpayload node)[pos := bids']
             in if bids' \<noteq> []
                then Inr (t\<lparr>rt_root := put_at a (RNode a (rvalue node) p' (rchildren node)) (rt_root t),
                            block_to_node := btn\<rparr>, canary + 1)
                else obind (fold_outcome unregister (concat (drop pos p')) (btn, canary + 1, 0)) (\<lambda>st.
                     obind (fold_outcome clear_inner (kids (rchildren node)) st) (\<lambda>(btn', canary', freed).
                     Inr (gc_nodes freed (t\<lparr>rt_root := put_at a (RNode a (take pos (rvalue node)) (take pos p')
                                                   (children_clear (rchildren node))) (rt_root t),
                                             block_to_node := btn'\<rparr>), canary')))))))"

definition remove_inner :: "u64 list \<Rightarrow> radix_tree \<Rightarrow> (radix_tree \<times> nat) outcome" where
  "remove_inner bids t = fold_outcome remove_block (rev bids) (t, 0)"

definition rt_remove :: "radix_tree \<Rightarrow> u64 list \<Rightarrow> radix_tree outcome" where
  "rt_remove t bids =
     obind (remove_inner bids (t\<lparr>rt_epoch := rt_epoch t + 1\<rparr>)) (\<lambda>(t', removed).
       Inr (t'\<lparr>rt_size := sat_sub (rt_size t') (of_nat removed)\<rparr>))"

lemma kids_size_list: "size_list size (kids ch) \<le> size ch"
proof (cases ch)
  case (Large m)
  have "size_list size (map snd m) \<le> size_list (size_prod (\<lambda>_. 0) size) m" by (induction m) auto
  with Large show ?thesis by simp
qed simp

lemma size_list_rev: "size_list f (rev xs) = size_list f xs"
  by (induction xs) auto

text \<open>\<^verbatim>\<open>drop\<close>: the addresses freed, in the order of the two stacks.\<close>

function drop_stack :: "rnode list \<Rightarrow> nat list \<Rightarrow> nat list" where
  "drop_stack [] post = post"
| "drop_stack (n # stack) post = drop_stack (rev (kids (rchildren n)) @ stack) (raddr n # post)"
  by pat_completeness auto

termination
proof (relation "measure (\<lambda>(stack, post). size_list size stack)", goal_cases)
  case (2 n stack post)
  have "size_list size (kids (rchildren n)) < size n"
    using kids_size_list[of "rchildren n"] rchildren_size[of n] by simp
  then show ?case by (simp add: size_list_rev)
qed simp

definition rt_drop :: "radix_tree \<Rightarrow> nat list" where
  "rt_drop t = drop_stack [rt_root t] []"

text \<open>\<^verbatim>\<open>assert_drained_to_one_layer\<close>.\<close>

definition drained :: "radix_tree \<Rightarrow> bool" where
  "drained t \<longleftrightarrow> rvalue (rt_root t) = [] \<and> rpayload (rt_root t) = [] \<and>
     (\<forall>c\<in>set (kids (rchildren (rt_root t))).
        rvalue c = [] \<and> rpayload c = [] \<and> children_is_empty (rchildren c))"

end
