(* ===== verification/RadixTreeInv.thy ===== *)
theory RadixTreeInv
  imports RadixTree
begin

text \<open>
  The invariant of the production radix tree. A tree stands for the multiset of its cells: a cell says
  that a block is filed under a path of hashes, in the node at an address. Every operation is
  described by what it does to the cells.
\<close>

section \<open>Cells and addresses\<close>

type_synonym cell = "u64 list \<times> u64 \<times> nat"

definition pre :: "u64 list \<Rightarrow> cell \<Rightarrow> cell" where
  "pre q = (\<lambda>(p, b, a). (q @ p, b, a))"

lemma pre_simps [simp]: "pre q (p, b, a) = (q @ p, b, a)" "pre [] x = x"
  by (simp_all add: pre_def split_def)

lemma pre_Nil [simp]: "pre [] = id"
  by (simp add: fun_eq_iff)

lemma pre_pre [simp]: "pre q (pre p x) = pre (q @ p) x"
  by (simp add: pre_def split_def)

lemma pre_comp [simp]: "pre q \<circ> pre p = pre (q @ p)"
  by (simp add: fun_eq_iff)

definition path_of :: "cell \<Rightarrow> u64 list" where "path_of = fst"
definition bid_of :: "cell \<Rightarrow> u64" where "bid_of = (\<lambda>c. fst (snd c))"
definition home_of :: "cell \<Rightarrow> nat" where "home_of = (\<lambda>c. snd (snd c))"

lemma cell_sels [simp]:
  "path_of (q, b, a) = q" "bid_of (q, b, a) = b" "home_of (q, b, a) = a"
  "bid_of (pre q x) = bid_of x" "home_of (pre q x) = home_of x" "path_of (pre q x) = q @ path_of x"
  "bid_of \<circ> pre q = bid_of"
  by (simp_all add: path_of_def bid_of_def home_of_def pre_def split_def fun_eq_iff)

fun own :: "nat \<Rightarrow> u64 list \<Rightarrow> u64 list list \<Rightarrow> cell multiset" where
  "own a (h # v) (bs # p) = mset (map (\<lambda>b. ([h], b, a)) bs) + image_mset (pre [h]) (own a v p)"
| "own a _ _ = {#}"

lemma own_Nil [simp]: "own a [] p = {#}" "own a v [] = {#}"
  by (cases v; simp)+

fun cells :: "rnode \<Rightarrow> cell multiset" where
  "cells (RNode a v p ch) = own a v p + image_mset (pre v) (sum_list (map cells (kids ch)))"

definition cells_ch :: "rchildren \<Rightarrow> cell multiset" where
  "cells_ch ch = sum_list (map cells (kids ch))"

lemma cells_eq: "cells n = own (raddr n) (rvalue n) (rpayload n) + image_mset (pre (rvalue n)) (cells_ch (rchildren n))"
  by (cases n) (simp add: cells_ch_def)

lemma cells_simps [simp]: "cells (RNode a v p ch) = own a v p + image_mset (pre v) (cells_ch ch)"
  by (simp add: cells_ch_def)

declare cells.simps [simp del]

fun addrs :: "rnode \<Rightarrow> nat multiset" where
  "addrs (RNode a v p ch) = add_mset a (sum_list (map addrs (kids ch)))"

definition addrs_ch :: "rchildren \<Rightarrow> nat multiset" where
  "addrs_ch ch = sum_list (map addrs (kids ch))"

lemma addrs_eq: "addrs n = add_mset (raddr n) (addrs_ch (rchildren n))"
  by (cases n) (simp add: addrs_ch_def)

lemma addrs_simps [simp]: "addrs (RNode a v p ch) = add_mset a (addrs_ch ch)"
  by (simp add: addrs_ch_def)

declare addrs.simps [simp del]

lemma raddr_in_addrs [simp]: "raddr n \<in># addrs n"
  by (simp add: addrs_eq)

lemma rnode_induct [case_names Node]:
  assumes "\<And>n. (\<And>c. c \<in> set (kids (rchildren n)) \<Longrightarrow> P c) \<Longrightarrow> P n"
  shows "P n"
proof (induction "size n" arbitrary: n rule: less_induct)
  case less
  show ?case
  proof (rule assms)
    fix c assume "c \<in> set (kids (rchildren n))"
    then have "size c < size n" using kid_size[of c "rchildren n"] rchildren_size[of n] by simp
    then show "P c" by (rule less)
  qed
qed

text \<open>Sums over a list of children, with one child replaced.\<close>

lemma sum_list_update_mset:
  fixes f :: "'a \<Rightarrow> 'b multiset"
  assumes "i < length xs"
  obtains F where "sum_list (map f xs) = F + f (xs ! i)"
    "\<And>y. sum_list (map f (xs[i := y])) = F + f y"
proof -
  have xs: "xs = take i xs @ xs ! i # drop (Suc i) xs" using assms by (simp add: id_take_nth_drop)
  let ?F = "sum_list (map f (take i xs)) + sum_list (map f (drop (Suc i) xs))"
  have "sum_list (map f (xs[i := y])) = ?F + f y" for y
    using assms by (simp add: upd_conv_take_nth_drop)
  moreover from this[of "xs ! i"] have "sum_list (map f xs) = ?F + f (xs ! i)" by simp
  ultimately show ?thesis using that by blast
qed

lemma kids_put_kid: "i < length (kids ch) \<Longrightarrow> kids (put_kid i c ch) = (kids ch)[i := c]"
  by (cases ch) (auto simp: map_update)

lemma image_mset_sum_list: "image_mset f (sum_list xs) = sum_list (map (image_mset f) xs)"
  by (induction xs) auto

lemma set_sum_list_mset: "set_mset (sum_list (map f xs)) = (\<Union>x\<in>set xs. set_mset (f x))"
  by (induction xs) auto

lemma in_cells_ch: "x \<in># cells_ch ch \<longleftrightarrow> (\<exists>c\<in>set (kids ch). x \<in># cells c)"
  by (simp add: cells_ch_def set_sum_list_mset)

lemma in_addrs_ch: "x \<in># addrs_ch ch \<longleftrightarrow> (\<exists>c\<in>set (kids ch). x \<in># addrs c)"
  by (simp add: addrs_ch_def set_sum_list_mset)

section \<open>Own cells\<close>

lemma own_append:
  "length p1 = length v1 \<Longrightarrow> own a (v1 @ v2) (p1 @ p2) = own a v1 p1 + image_mset (pre v1) (own a v2 p2)"
proof (induction v1 arbitrary: p1)
  case (Cons h v)
  then obtain bs p where "p1 = bs # p" "length p = length v" by (cases p1) auto
  with Cons.IH[of p] show ?case by (simp add: image_mset.compositionality multiset.map_comp)
qed simp

lemma in_own:
  "x \<in># own a v p \<longleftrightarrow> (\<exists>i b. i < length v \<and> i < length p \<and> b \<in> set (p ! i) \<and> x = (take (Suc i) v, b, a))"
proof (induction a v p arbitrary: x rule: own.induct)
  case (1 a h v bs p)
  show ?case
  proof
    assume "x \<in># own a (h # v) (bs # p)"
    then consider b where "b \<in> set bs" "x = ([h], b, a)" | y where "y \<in># own a v p" "x = pre [h] y" by auto
    then show "\<exists>i b. i < length (h # v) \<and> i < length (bs # p) \<and> b \<in> set ((bs # p) ! i) \<and> x = (take (Suc i) (h # v), b, a)"
    proof cases
      case 1
      then show ?thesis by (intro exI[of _ 0] exI[of _ b]) simp
    next
      case 2
      then obtain i b where "i < length v" "i < length p" "b \<in> set (p ! i)" "y = (take (Suc i) v, b, a)"
        using 1 by auto
      then show ?thesis using 2 by (intro exI[of _ "Suc i"] exI[of _ b]) simp
    qed
  next
    assume "\<exists>i b. i < length (h # v) \<and> i < length (bs # p) \<and> b \<in> set ((bs # p) ! i) \<and> x = (take (Suc i) (h # v), b, a)"
    then obtain i b where i: "i < Suc (length v)" "i < Suc (length p)" "b \<in> set ((bs # p) ! i)"
      "x = (h # take i v, b, a)" by auto
    show "x \<in># own a (h # v) (bs # p)"
    proof (cases i)
      case (Suc j)
      with i have "(take (Suc j) v, b, a) \<in># own a v p" using 1 by auto
      then have "pre [h] (take (Suc j) v, b, a) \<in># image_mset (pre [h]) (own a v p)"
        unfolding set_image_mset by (rule imageI)
      with i Suc show ?thesis by simp
    qed (use i in auto)
  qed
qed auto

lemma own_home: "x \<in># own a v p \<Longrightarrow> home_of x = a"
  by (auto simp: in_own)

lemma own_bids: "length p = length v \<Longrightarrow> image_mset bid_of (own a v p) = mset (concat p)"
proof (induction a v p rule: own.induct)
  case (1 a h v bs p)
  then show ?case by (simp add: multiset.map_comp) (simp add: comp_def flip: mset_map)
qed auto

lemma own_leaf:
  "length bs = length v \<Longrightarrow>
     own a v (map (\<lambda>b. [b]) bs) = mset (map (\<lambda>i. (take (Suc i) v, bs ! i, a)) [0..<length v])"
proof (induction v arbitrary: bs)
  case (Cons h v)
  then obtain b bs' where bs: "bs = b # bs'" "length bs' = length v" by (cases bs) auto
  have "map (\<lambda>i. (take (Suc i) (h # v), bs ! i, a)) [0..<length (h # v)]
      = ([h], b, a) # map (\<lambda>i. pre [h] (take (Suc i) v, bs' ! i, a)) [0..<length v]"
    using bs(1) by (simp add: upt_conv_Cons map_Suc_upt[symmetric] comp_def del: upt_Suc)
  then show ?case using Cons.IH[OF bs(2)] bs
    by (simp add: comp_def flip: mset_map)
qed simp

section \<open>Well-formedness\<close>

definition sibs :: "rchildren \<Rightarrow> bool" where
  "sibs ch \<longleftrightarrow>
     distinct (map (\<lambda>c. hd (rvalue c)) (filter (\<lambda>c. rvalue c \<noteq> []) (kids ch))) \<and>
     (case ch of Small v \<Rightarrow> True
      | Large m \<Rightarrow> distinct (map fst m) \<and> (\<forall>(k, c)\<in>set m. rvalue c \<noteq> [] \<longrightarrow> hd (rvalue c) = k))"

definition childless_empty :: "rnode \<Rightarrow> bool" where
  "childless_empty c \<longleftrightarrow> (rvalue c = [] \<longrightarrow> kids (rchildren c) = [])"

fun rwf :: "rnode \<Rightarrow> bool" where
  "rwf (RNode a v p ch) \<longleftrightarrow>
     length p = length v \<and> [] \<notin> set p \<and> sibs ch \<and> (\<forall>c\<in>set (kids ch). rwf c \<and> childless_empty c)"

lemma rwf_eq: "rwf n \<longleftrightarrow> length (rpayload n) = length (rvalue n) \<and> [] \<notin> set (rpayload n) \<and>
  sibs (rchildren n) \<and> (\<forall>c\<in>set (kids (rchildren n)). rwf c \<and> childless_empty c)"
  by (cases n) simp

lemma rwf_kid: "rwf n \<Longrightarrow> c \<in> set (kids (rchildren n)) \<Longrightarrow> rwf c \<and> childless_empty c"
  by (simp add: rwf_eq[of n])

lemma empty_iff: "rwf n \<Longrightarrow> childless_empty n \<Longrightarrow> node_is_empty n \<longleftrightarrow> rvalue n = []"
  by (auto simp: node_is_empty_def children_is_empty_def childless_empty_def rwf_eq[of n])

lemma cells_empty: "rvalue n = [] \<Longrightarrow> childless_empty n \<Longrightarrow> cells n = {#}"
  by (simp add: cells_eq childless_empty_def cells_ch_def)

section \<open>Nodes inside a tree\<close>

text \<open>\<open>located n q m\<close>: the node \<open>m\<close> lies in the tree of \<open>n\<close>, and the labels before it spell \<open>q\<close>.\<close>

inductive located :: "rnode \<Rightarrow> u64 list \<Rightarrow> rnode \<Rightarrow> bool" where
  here: "located n [] n"
| below: "c \<in> set (kids (rchildren n)) \<Longrightarrow> located c q m \<Longrightarrow> located n (rvalue n @ q) m"

definition nodup :: "'a multiset \<Rightarrow> bool" where
  "nodup M \<longleftrightarrow> (\<forall>x. count M x \<le> 1)"

lemma nodup_union: "nodup (A + B) \<longleftrightarrow> nodup A \<and> nodup B \<and> set_mset A \<inter> set_mset B = {}"
proof
  assume *: "nodup (A + B)"
  then have "count A x + count B x \<le> 1" for x by (simp add: nodup_def)
  then have "count A x \<le> 1 \<and> count B x \<le> 1 \<and> (x \<notin># A \<or> x \<notin># B)" for x
    using add_leE[of "count A x" "count B x" 1] by (metis add_le_same_cancel2 count_greater_eq_one_iff dual_order.trans nat_add_left_cancel_le not_one_le_zero)
  then show "nodup A \<and> nodup B \<and> set_mset A \<inter> set_mset B = {}" by (auto simp: nodup_def)
next
  assume "nodup A \<and> nodup B \<and> set_mset A \<inter> set_mset B = {}"
  then show "nodup (A + B)"
    by (auto simp: nodup_def) (metis add.right_neutral add_0 disjoint_iff not_in_iff)
qed

lemma nodup_empty [simp]: "nodup {#}"
  by (simp add: nodup_def)

lemma nodup_add [simp]: "nodup (add_mset x M) \<longleftrightarrow> x \<notin># M \<and> nodup M"
  using nodup_union[of "{#x#}" M] by (auto simp: nodup_def)

lemma nodup_mset [simp]: "nodup (mset xs) \<longleftrightarrow> distinct xs"
  by (induction xs) auto

lemma nodup_subset: "M \<subseteq># N \<Longrightarrow> nodup N \<Longrightarrow> nodup M"
  by (auto simp: nodup_def) (metis mset_subset_eq_count order_trans)

lemma first_some_None: "first_some xs = None \<longleftrightarrow> (\<forall>x\<in>set xs. x = None)"
  by (induction xs) (auto split: option.splits)

lemma first_some_unique:
  "i < length xs \<Longrightarrow> xs ! i = Some y \<Longrightarrow> (\<And>j. j < length xs \<Longrightarrow> j \<noteq> i \<Longrightarrow> xs ! j = None) \<Longrightarrow> first_some xs = Some y"
proof (induction xs arbitrary: i)
  case (Cons x xs)
  show ?case
  proof (cases i)
    case (Suc k)
    with Cons.prems(3)[of 0] have "x = None" by simp
    moreover have "first_some xs = Some y"
    proof (rule Cons.IH[of k])
      show "xs ! j = None" if "j < length xs" "j \<noteq> k" for j using Cons.prems(3)[of "Suc j"] that Suc by simp
    qed (use Cons.prems Suc in auto)
    ultimately show ?thesis by simp
  qed (use Cons.prems in simp)
qed simp

lemma kids_map_kids: "kids (map_kids f ch) = map f (kids ch)"
  by (cases ch) auto

lemma map_kids_id: "(\<And>c. c \<in> set (kids ch) \<Longrightarrow> f c = c) \<Longrightarrow> map_kids f ch = ch"
proof (cases ch)
  case (Small v)
  then show "(\<And>c. c \<in> set (kids ch) \<Longrightarrow> f c = c) \<Longrightarrow> ?thesis" by (simp add: map_idI)
next
  case (Large m)
  assume "\<And>c. c \<in> set (kids ch) \<Longrightarrow> f c = c"
  then have "(case e of (k, c) \<Rightarrow> (k, f c)) = e" if "e \<in> set m" for e
    using that Large by (cases e) force
  then show ?thesis using Large by (simp add: map_idI)
qed

lemma map_kids_put:
  assumes "i < length (kids ch)" "\<And>j. j < length (kids ch) \<Longrightarrow> j \<noteq> i \<Longrightarrow> f (kids ch ! j) = kids ch ! j"
  shows "map_kids f ch = put_kid i (f (kids ch ! i)) ch"
proof (cases ch)
  case (Small v)
  with assms show ?thesis by (auto intro!: nth_equalityI simp: nth_list_update)
next
  case (Large m)
  with assms have "map (\<lambda>(k, c). (k, f c)) m = m[i := (fst (m ! i), f (snd (m ! i)))]"
    by (auto intro!: nth_equalityI simp: nth_list_update split_def prod_eq_iff)
  with Large assms(1) show ?thesis by simp
qed

lemma put_at_other: "a \<notin># addrs n \<Longrightarrow> put_at a m' n = n \<and> find_at a n = None"
proof (induction n rule: rnode_induct)
  case (Node n)
  obtain b v p ch where n: "n = RNode b v p ch" by (cases n)
  have "a \<notin># addrs c" if "c \<in> set (kids ch)" for c using Node.prems that n by (auto simp: in_addrs_ch)
  with Node.IH n have "put_at a m' c = c \<and> find_at a c = None" if "c \<in> set (kids ch)" for c using that by simp
  with Node.prems n show ?case by (auto simp: map_kids_id first_some_None)
qed

lemma put_at_eq: "put_at a m' n =
  (if a = raddr n then m' else RNode (raddr n) (rvalue n) (rpayload n) (map_kids (put_at a m') (rchildren n)))"
  by (cases n) auto

lemma find_at_eq: "find_at a n =
  (if a = raddr n then Some n else first_some (map (find_at a) (kids (rchildren n))))"
  by (cases n) auto

lemma nodup_kid: "nodup (addrs n) \<Longrightarrow> c \<in> set (kids (rchildren n)) \<Longrightarrow> nodup (addrs c)"
proof -
  assume "nodup (addrs n)" "c \<in> set (kids (rchildren n))"
  then obtain i where "i < length (kids (rchildren n))" "c = kids (rchildren n) ! i"
    by (auto simp: in_set_conv_nth)
  then obtain F where "addrs_ch (rchildren n) = F + addrs c"
    using sum_list_update_mset[of i "kids (rchildren n)" addrs] unfolding addrs_ch_def by metis
  with \<open>nodup (addrs n)\<close> show ?thesis by (simp add: addrs_eq[of n] nodup_union)
qed

lemma nodup_other_kid:
  assumes "nodup (addrs_ch ch)" "i < length (kids ch)" "j < length (kids ch)" "i \<noteq> j" "a \<in># addrs (kids ch ! i)"
  shows "a \<notin># addrs (kids ch ! j)"
proof -
  obtain F where F: "addrs_ch ch = F + addrs (kids ch ! i)" "\<And>y. sum_list (map addrs ((kids ch)[i := y])) = F + addrs y"
    using sum_list_update_mset[of i "kids ch" addrs] assms(2) unfolding addrs_ch_def by metis
  have "kids ch ! j \<in> set ((kids ch)[i := y])" for y
    using assms(2-4) by (metis in_set_conv_nth length_list_update nth_list_update_neq)
  then have "set_mset (addrs (kids ch ! j)) \<subseteq> set_mset (F + addrs y)" for y
    using F(2)[of y] set_sum_list_mset[of addrs "(kids ch)[i := y]"] by auto
  from this[of "kids ch ! i"] this[of "RNode (Suc a) [] [] (Small [])"] have *: "set_mset (addrs (kids ch ! j)) \<subseteq> set_mset F \<union> {Suc a}"
    by (auto simp: addrs_ch_def)
  have "a \<notin># F" using assms(1,5) F(1) by (auto simp: nodup_union)
  with * show ?thesis by auto
qed

text \<open>What may replace a node that has a parent.\<close>

definition fits :: "rnode \<Rightarrow> rnode \<Rightarrow> bool" where
  "fits m m' \<longleftrightarrow> childless_empty m' \<and> (rvalue m' \<noteq> [] \<longrightarrow> rvalue m \<noteq> [] \<and> hd (rvalue m') = hd (rvalue m))"

lemma sibs_put_kid:
  assumes "sibs ch" "i < length (kids ch)"
    and "rvalue c' \<noteq> [] \<longrightarrow> rvalue (kids ch ! i) \<noteq> [] \<and> hd (rvalue c') = hd (rvalue (kids ch ! i))"
  shows "sibs (put_kid i c' ch)"
proof -
  let ?h = "\<lambda>c. hd (rvalue c)" and ?P = "\<lambda>c. rvalue c \<noteq> []"
  have "kids ch = take i (kids ch) @ kids ch ! i # drop (Suc i) (kids ch)" using assms(2) by (simp add: id_take_nth_drop)
  then have "distinct (map ?h (filter ?P (take i (kids ch) @ kids ch ! i # drop (Suc i) (kids ch))))"
    using assms(1) by (simp add: sibs_def)
  then have "distinct (map ?h (filter ?P ((kids ch)[i := c'])))"
    unfolding upd_conv_take_nth_drop[OF assms(2)] using assms(3) by (cases "rvalue c' = []") (auto split: if_splits)
  moreover have "case put_kid i c' ch of Small v \<Rightarrow> True
      | Large m \<Rightarrow> distinct (map fst m) \<and> (\<forall>(k, c)\<in>set m. rvalue c \<noteq> [] \<longrightarrow> hd (rvalue c) = k)"
  proof (cases ch)
    case (Large m)
    have "map fst (m[i := (fst (m ! i), c')]) = map fst m"
      using assms(2) Large by (simp add: map_update list_update_same_conv)
    moreover have "rvalue c \<noteq> [] \<longrightarrow> hd (rvalue c) = k" if "(k, c) \<in> set (m[i := (fst (m ! i), c')])" for k c
    proof -
      from that have "(k, c) \<in> set m \<or> k = fst (m ! i) \<and> c = c'" using set_update_subset_insert[of m i "(fst (m ! i), c')"] by auto
      moreover have "(fst (m ! i), kids ch ! i) \<in> set m" using Large assms(2) by auto
      ultimately show ?thesis using assms(1,3) Large by (fastforce simp: sibs_def)
    qed
    ultimately show ?thesis using assms(1) Large by (auto simp: sibs_def)
  qed simp
  ultimately show ?thesis using kids_put_kid[OF assms(2)] by (simp add: sibs_def)
qed

lemma located_addr: "located n q m \<Longrightarrow> raddr m \<in># addrs n"
proof (induction rule: located.induct)
  case (below c n q m)
  then show ?case by (auto simp: addrs_eq[of n] in_addrs_ch)
qed simp

text \<open>
  The frame of a node: storing another node at its address changes the cells and addresses of the
  tree only in the node's part, and keeps the tree well-formed.
\<close>

lemma focus:
  assumes "located n q m" "nodup (addrs n)"
  shows "find_at (raddr m) n = Some m \<and>
    (\<exists>F G. cells n = F + image_mset (pre q) (cells m) \<and> addrs n = G + addrs m \<and>
      (\<forall>m'. cells (put_at (raddr m) m' n) = F + image_mset (pre q) (cells m') \<and>
        addrs (put_at (raddr m) m' n) = G + addrs m' \<and>
        (rwf n \<longrightarrow> rwf m' \<longrightarrow> (raddr m = raddr n \<or> fits m m') \<longrightarrow> rwf (put_at (raddr m) m' n))))"
  using assms
proof (induction rule: located.induct)
  case (here n)
  then show ?case by (simp add: put_at_eq find_at_eq)
next
  case (below c n q m)
  let ?a = "raddr m" and ?ch = "rchildren n"
  obtain i where i: "i < length (kids ?ch)" "c = kids ?ch ! i" using below.hyps(1) by (auto simp: in_set_conv_nth)
  have nd: "nodup (addrs_ch ?ch)" "raddr n \<notin># addrs_ch ?ch" using below.prems by (auto simp: addrs_eq[of n])
  have in_c: "?a \<in># addrs c" using located_addr[OF below.hyps(2)] .
  then have "?a \<in># addrs_ch ?ch" using below.hyps(1) by (auto simp: in_addrs_ch)
  with nd have neq: "?a \<noteq> raddr n" by auto
  have others: "put_at ?a m' (kids ?ch ! j) = kids ?ch ! j \<and> find_at ?a (kids ?ch ! j) = None" if "j < length (kids ?ch)" "j \<noteq> i" for m' j
  proof -
    have "?a \<notin># addrs (kids ?ch ! j)"
      using nodup_other_kid[OF nd(1) i(1) that(1), of ?a] that(2) in_c i(2) by auto
    then show ?thesis by (rule put_at_other)
  qed
  have put: "put_at ?a m' n = RNode (raddr n) (rvalue n) (rpayload n) (put_kid i (put_at ?a m' c) ?ch)" for m'
    using map_kids_put[OF i(1), of "put_at ?a m'"] others i(2) neq by (simp add: put_at_eq[of _ _ n])
  from below.IH nodup_kid[OF below.prems below.hyps(1)]
  obtain F G where IH: "find_at ?a c = Some m" "cells c = F + image_mset (pre q) (cells m)" "addrs c = G + addrs m"
    "\<And>m'. cells (put_at ?a m' c) = F + image_mset (pre q) (cells m')" "\<And>m'. addrs (put_at ?a m' c) = G + addrs m'"
    "\<And>m'. rwf c \<Longrightarrow> rwf m' \<Longrightarrow> ?a = raddr c \<or> fits m m' \<Longrightarrow> rwf (put_at ?a m' c)" by blast
  obtain C where C: "cells_ch ?ch = C + cells c" "\<And>y. cells_ch (put_kid i y ?ch) = C + cells y"
    using sum_list_update_mset[of i "kids ?ch" cells] i unfolding cells_ch_def kids_put_kid[OF i(1)] by metis
  obtain A where A: "addrs_ch ?ch = A + addrs c" "\<And>y. addrs_ch (put_kid i y ?ch) = A + addrs y"
    using sum_list_update_mset[of i "kids ?ch" addrs] i unfolding addrs_ch_def kids_put_kid[OF i(1)] by metis
  have find: "find_at ?a n = Some m"
    using first_some_unique[of i "map (find_at ?a) (kids ?ch)" m] i IH(1) others neq by (simp add: find_at_eq[of _ n])
  let ?F = "own (raddr n) (rvalue n) (rpayload n) + image_mset (pre (rvalue n)) (C + F)"
  have "cells n = ?F + image_mset (pre (rvalue n @ q)) (cells m)"
    by (simp add: cells_eq[of n] C(1) IH(2) multiset.map_comp)
  moreover have "cells (put_at ?a m' n) = ?F + image_mset (pre (rvalue n @ q)) (cells m')" for m'
    by (simp add: put C(2) IH(4) multiset.map_comp)
  moreover have "addrs n = add_mset (raddr n) (A + G) + addrs m" by (simp add: addrs_eq[of n] A IH(3))
  moreover have "addrs (put_at ?a m' n) = add_mset (raddr n) (A + G) + addrs m'" for m'
    by (simp add: put A(2) IH(5))
  moreover have "rwf (put_at ?a m' n)" if *: "rwf n" "rwf m'" "?a = raddr n \<or> fits m m'" for m'
  proof -
    have c: "rwf c" "childless_empty c" using rwf_kid[OF *(1) below.hyps(1)] by auto
    have fits: "fits m m'" using *(3) neq by simp
    have c': "rwf (put_at ?a m' c)" using IH(6)[OF c(1) *(2)] fits by simp
    have nn: "childless_empty (put_at ?a m' c) \<and>
      (rvalue (put_at ?a m' c) \<noteq> [] \<longrightarrow> rvalue c \<noteq> [] \<and> hd (rvalue (put_at ?a m' c)) = hd (rvalue c))"
    proof (cases "?a = raddr c")
      case True
      then have "m = c" using IH(1) by (simp add: find_at_eq[of _ c])
      with True fits show ?thesis by (simp add: put_at_eq[of _ _ c] fits_def)
    next
      case False
      with in_c have "kids (rchildren c) \<noteq> []" by (auto simp: addrs_eq[of c] addrs_ch_def)
      with c(2) have "rvalue c \<noteq> []" by (auto simp: childless_empty_def)
      with False show ?thesis by (simp add: put_at_eq[of _ _ c] childless_empty_def)
    qed
    have "rwf d \<and> childless_empty d" if "d \<in> set (kids (put_kid i (put_at ?a m' c) ?ch))" for d
      using that set_update_subset_insert[of "kids ?ch" i] c' nn *(1) unfolding kids_put_kid[OF i(1)]
      by (auto simp: rwf_eq[of n])
    moreover have "sibs (put_kid i (put_at ?a m' c) ?ch)"
      using sibs_put_kid[OF _ i(1), of "put_at ?a m' c"] nn *(1) i(2) by (simp add: rwf_eq[of n])
    ultimately show ?thesis using *(1) by (simp add: put rwf_eq[of n])
  qed
  ultimately show ?case using find by (intro conjI exI[of _ ?F] exI[of _ "add_mset (raddr n) (A + G)"]) blast+
qed

lemma lcp_len_commute: "lcp_len xs ys = lcp_len ys xs"
  by (induction xs ys rule: lcp_len.induct) auto

section \<open>The reverse table\<close>

definition btn_at :: "btn \<Rightarrow> u64 \<Rightarrow> nat option" where
  "btn_at btn b = (if unat b < length btn then btn ! unat b else None)"

lemma btn_get_in [simp]: "unat b < length btn \<Longrightarrow> btn_get btn b = Inr (btn_at btn b)"
  by (simp add: btn_get_def btn_at_def)

lemma btn_at_update:
  "unat b < length btn \<Longrightarrow> btn_at (btn[unat b := v]) = (btn_at btn)(b := v)"
  by (auto simp: btn_at_def fun_eq_iff nth_list_update dest: unsigned_word_eqI)

lemma btn_set_in [simp]: "unat b < length btn \<Longrightarrow> btn_set v b btn = Inr (btn[unat b := v])"
  by (simp add: btn_set_def)

lemma fold_register:
  assumes "distinct bs" "\<forall>b\<in>set bs. unat b < length btn \<and> allowed (btn_at btn b)"
  shows "\<exists>btn'. fold_outcome (register allowed a) bs btn = Inr btn' \<and> length btn' = length btn \<and>
    btn_at btn' = (\<lambda>b. if b \<in> set bs then Some a else btn_at btn b)"
  using assms
proof (induction bs arbitrary: btn)
  case (Cons b bs)
  let ?btn = "btn[unat b := Some a]"
  have at: "btn_at ?btn = (btn_at btn)(b := Some a)" using Cons.prems(2) by (simp add: btn_at_update)
  have "\<exists>btn'. fold_outcome (register allowed a) bs ?btn = Inr btn' \<and> length btn' = length ?btn \<and>
    btn_at btn' = (\<lambda>x. if x \<in> set bs then Some a else btn_at ?btn x)"
    using Cons.prems at by (intro Cons.IH) auto
  moreover have "register allowed a b btn = Inr ?btn" using Cons.prems(2) by (simp add: register_def)
  ultimately show ?case by (auto simp: at fun_eq_iff)
qed simp

lemma fold_unregister:
  assumes "\<forall>b\<in>set bs. unat b < length btn"
  shows "\<exists>btn'. fold_outcome unregister bs (btn, n, fr) = Inr (btn', n + length bs, fr) \<and> length btn' = length btn \<and>
    btn_at btn' = (\<lambda>b. if b \<in> set bs then None else btn_at btn b)"
  using assms
proof (induction bs arbitrary: btn n)
  case (Cons b bs)
  let ?btn = "btn[unat b := None]"
  have at: "btn_at ?btn = (btn_at btn)(b := None)" using Cons.prems by (simp add: btn_at_update)
  have "\<exists>btn'. fold_outcome unregister bs (?btn, Suc n, fr) = Inr (btn', Suc n + length bs, fr) \<and> length btn' = length ?btn \<and>
    btn_at btn' = (\<lambda>x. if x \<in> set bs then None else btn_at ?btn x)"
    using Cons.prems by (intro Cons.IH) auto
  moreover have "unregister b (btn, n, fr) = Inr (?btn, Suc n, fr)" using Cons.prems by (simp add: unregister_def)
  ultimately show ?case by (auto simp: at fun_eq_iff)
qed simp

text \<open>The aliases that are not registered yet, as cells of the node at \<open>a\<close> from position \<open>k\<close> on.\<close>

definition fresh_at :: "btn \<Rightarrow> u64 list \<Rightarrow> nat \<Rightarrow> bool" where
  "fresh_at btn al i \<longleftrightarrow> btn_at btn (al ! i) = None"

lemma own_push:
  "i < length v \<Longrightarrow> length p = length v \<Longrightarrow>
     own a v (p[i := p ! i @ [b]]) = add_mset (take (Suc i) v, b, a) (own a v p)"
proof (induction a v p arbitrary: i rule: own.induct)
  case (1 a h v bs p)
  then show ?case by (cases i) auto
qed auto

lemma fold_alias:
  assumes "k + length al \<le> length v" "length p = length v" "distinct al" "\<forall>b\<in>set al. unat b < length btn"
  shows "\<exists>p' btn'. fold_outcome (alias_one a) (enumerate k al) (p, btn) = Inr (p', btn') \<and>
    length p' = length p \<and> length btn' = length btn \<and> ([] \<notin> set p \<longrightarrow> [] \<notin> set p') \<and>
    own a v p' = own a v p + mset (map (\<lambda>i. (take (Suc (k + i)) v, al ! i, a)) (filter (fresh_at btn al) [0..<length al])) \<and>
    btn_at btn' = (\<lambda>b. if b \<in> set al \<and> btn_at btn b = None then Some a else btn_at btn b)"
  using assms
proof (induction al arbitrary: k p btn)
  case (Cons b al)
  have split: "map (\<lambda>i. (take (Suc (k + i)) v, (b # al) ! i, a)) (filter (fresh_at btn (b # al)) [0..<length (b # al)])
    = (if btn_at btn b = None then [(take (Suc k) v, b, a)] else []) @
      map (\<lambda>i. (take (Suc (Suc k + i)) v, al ! i, a)) (filter (fresh_at btn al) [0..<length al])"
    by (simp add: upt_conv_Cons map_Suc_upt[symmetric] filter_map comp_def fresh_at_def[abs_def] del: upt_Suc)
  show ?case
  proof (cases "btn_at btn b")
    case None
    let ?p = "p[k := p ! k @ [b]]" and ?btn = "btn[unat b := Some a]"
    have at: "btn_at ?btn = (btn_at btn)(b := Some a)" using Cons.prems by (simp add: btn_at_update)
    have fresh: "filter (fresh_at ?btn al) [0..<length al] = filter (fresh_at btn al) [0..<length al]"
      using Cons.prems(3) by (intro filter_cong) (auto simp: fresh_at_def at)
    have "\<exists>p' btn'. fold_outcome (alias_one a) (enumerate (Suc k) al) (?p, ?btn) = Inr (p', btn') \<and>
      length p' = length ?p \<and> length btn' = length ?btn \<and> ([] \<notin> set ?p \<longrightarrow> [] \<notin> set p') \<and>
      own a v p' = own a v ?p + mset (map (\<lambda>i. (take (Suc (Suc k + i)) v, al ! i, a)) (filter (fresh_at ?btn al) [0..<length al])) \<and>
      btn_at btn' = (\<lambda>b. if b \<in> set al \<and> btn_at ?btn b = None then Some a else btn_at ?btn b)"
      using Cons.prems by (intro Cons.IH) auto
    then obtain p' btn' where r: "fold_outcome (alias_one a) (enumerate (Suc k) al) (?p, ?btn) = Inr (p', btn')"
      "length p' = length ?p" "length btn' = length ?btn" "[] \<notin> set ?p \<longrightarrow> [] \<notin> set p'"
      "own a v p' = own a v ?p + mset (map (\<lambda>i. (take (Suc (Suc k + i)) v, al ! i, a)) (filter (fresh_at ?btn al) [0..<length al]))"
      "btn_at btn' = (\<lambda>b. if b \<in> set al \<and> btn_at ?btn b = None then Some a else btn_at ?btn b)" by blast
    have "alias_one a (k, b) (p, btn) = Inr (?p, ?btn)" using None Cons.prems by (simp add: alias_one_def)
    moreover have "[] \<notin> set p \<longrightarrow> [] \<notin> set ?p" using set_update_subset_insert[of p k "p ! k @ [b]"] by auto
    moreover have "own a v ?p = add_mset (take (Suc k) v, b, a) (own a v p)"
      using Cons.prems by (intro own_push) auto
    ultimately show ?thesis using r None fresh unfolding split by (auto simp: at fun_eq_iff)
  next
    case (Some x)
    have "\<exists>p' btn'. fold_outcome (alias_one a) (enumerate (Suc k) al) (p, btn) = Inr (p', btn') \<and>
      length p' = length p \<and> length btn' = length btn \<and> ([] \<notin> set p \<longrightarrow> [] \<notin> set p') \<and>
      own a v p' = own a v p + mset (map (\<lambda>i. (take (Suc (Suc k + i)) v, al ! i, a)) (filter (fresh_at btn al) [0..<length al])) \<and>
      btn_at btn' = (\<lambda>b. if b \<in> set al \<and> btn_at btn b = None then Some a else btn_at btn b)"
      using Cons.prems by (intro Cons.IH) auto
    moreover have "alias_one a (k, b) (p, btn) = Inr (p, btn)" using Some Cons.prems by (simp add: alias_one_def)
    ultimately show ?thesis using Some unfolding split by (auto simp: fun_eq_iff)
  qed
qed simp

section \<open>Descending by the first hash\<close>

definition stored :: "rnode \<Rightarrow> u64 list \<Rightarrow> bool" where
  "stored n q \<longleftrightarrow> (\<exists>b a. (q, b, a) \<in># cells n)"

definition stored_ch :: "rchildren \<Rightarrow> u64 list \<Rightarrow> bool" where
  "stored_ch ch q \<longleftrightarrow> (\<exists>b a. (q, b, a) \<in># cells_ch ch)"

definition good_ch :: "rchildren \<Rightarrow> bool" where
  "good_ch ch \<longleftrightarrow> sibs ch \<and> (\<forall>c\<in>set (kids ch). rwf c \<and> childless_empty c)"

lemma rwf_good: "rwf n \<Longrightarrow> good_ch (rchildren n)"
  by (simp add: rwf_eq[of n] good_ch_def)

lemma cell_head:
  assumes "(q, b, a) \<in># cells c" "rwf c" "childless_empty c"
  shows "q \<noteq> [] \<and> rvalue c \<noteq> [] \<and> hd q = hd (rvalue c)"
proof -
  have "rvalue c \<noteq> []" using cells_empty[of c] assms(1,3) by auto
  with assms(1) show ?thesis by (auto simp: cells_eq[of c] in_own hd_append)
qed

lemma sibs_unique:
  assumes "sibs ch" "c \<in> set (kids ch)" "d \<in> set (kids ch)" "rvalue c \<noteq> []" "rvalue d \<noteq> []" "hd (rvalue c) = hd (rvalue d)"
  shows "c = d"
  using assms by (auto simp: sibs_def distinct_map inj_on_def)

text \<open>The child found under a hash is the only one that can hold paths starting with it.\<close>

lemma child_at_Some:
  assumes "good_ch ch" "child_at k ch = Some j" "c \<in> set (kids ch)" "rvalue c \<noteq> []" "hd (rvalue c) = k"
  shows "c = kids ch ! j"
proof (cases ch)
  case (Small v)
  with assms(2) have "j < length v" "rvalue (v ! j) \<noteq> []" "hd (rvalue (v ! j)) = k"
    by (auto simp: child_at_def dest: position_SomeD)
  with assms Small show ?thesis by (auto intro!: sibs_unique simp: good_ch_def)
next
  case (Large m)
  with assms(2) have j: "j < length m" "fst (m ! j) = k"
    by (auto simp: child_at_def entry_at_def dest: position_SomeD)
  obtain k' where "(k', c) \<in> set m" using assms(3) Large by auto
  moreover from this have "k' = k" using assms Large by (force simp: good_ch_def sibs_def)
  moreover have "(k, snd (m ! j)) \<in> set m" using j by (metis nth_mem prod.collapse)
  moreover have "distinct (map fst m)" using assms(1) Large by (simp add: good_ch_def sibs_def)
  ultimately have "c = snd (m ! j)" by (metis eq_key_imp_eq_value)
  with j Large show ?thesis by simp
qed

lemma child_at_None:
  assumes "good_ch ch" "child_at k ch = None" "c \<in> set (kids ch)" "rvalue c \<noteq> []"
  shows "hd (rvalue c) \<noteq> k"
proof (cases ch)
  case (Small v)
  with assms show ?thesis by (auto simp: child_at_def position_None)
next
  case (Large m)
  with assms(1,3,4) obtain k' where "(k', c) \<in> set m" "k' = hd (rvalue c)"
    by (force simp: good_ch_def sibs_def)
  with assms(2) Large show ?thesis by (force simp: child_at_def entry_at_def position_None)
qed

lemma in_child:
  assumes "good_ch ch" "child_at k ch = Some j" "(k # q, b, a) \<in># cells_ch ch"
  shows "(k # q, b, a) \<in># cells (kids ch ! j)"
proof -
  obtain c where "c \<in> set (kids ch)" "(k # q, b, a) \<in># cells c" using assms(3) by (auto simp: in_cells_ch)
  with child_at_Some[OF assms(1,2), of c] cell_head[of "k # q" b a c] assms(1) show ?thesis
    by (auto simp: good_ch_def)
qed

lemma stored_ch_step:
  assumes "good_ch ch" "q \<noteq> []"
  shows "stored_ch ch q \<longleftrightarrow> (case child_at (hd q) ch of None \<Rightarrow> False | Some j \<Rightarrow> stored (kids ch ! j) q)"
proof (cases "child_at (hd q) ch")
  case None
  have False if "stored_ch ch q"
    using that child_at_None[OF assms(1) None] cell_head assms(1)
    by (fastforce simp: stored_ch_def in_cells_ch good_ch_def)
  with None show ?thesis by auto
next
  case (Some j)
  have "hd q # tl q = q" using assms(2) by simp
  with in_child[OF assms(1) Some, of "tl q"] have "stored_ch ch q \<Longrightarrow> stored (kids ch ! j) q"
    by (auto simp: stored_ch_def stored_def)
  moreover have "stored (kids ch ! j) q \<Longrightarrow> stored_ch ch q"
    using nth_mem[OF child_at_less[OF Some]] unfolding stored_ch_def stored_def in_cells_ch by blast
  ultimately show ?thesis using Some by auto
qed

lemma stored_node:
  assumes "rwf n" "q \<noteq> []" "i = lcp_len (rvalue n) q"
  shows "stored n q \<longleftrightarrow>
    (if i < length (rvalue n) then i = length q
     else i = length q \<or> i < length q \<and> stored_ch (rchildren n) (drop i q))"
proof -
  have len: "length (rpayload n) = length (rvalue n)" "[] \<notin> set (rpayload n)" using assms(1) by (auto simp: rwf_eq[of n])
  have ownq: "(\<exists>b a. (q, b, a) \<in># own (raddr n) (rvalue n) (rpayload n)) \<longleftrightarrow> prefix q (rvalue n)"
  proof
    assume "prefix q (rvalue n)"
    then have q: "q = take (length q) (rvalue n)" "length q \<le> length (rvalue n)"
      by (auto simp: prefix_def)
    let ?j = "length q - 1"
    have "0 < length q" using assms(2) by simp
    then have j: "?j < length (rvalue n)" "Suc ?j = length q" using q(2) by linarith+
    then have "rpayload n ! ?j \<noteq> []" using len by (metis nth_mem)
    then obtain b where "b \<in> set (rpayload n ! ?j)" by (cases "rpayload n ! ?j") auto
    then have "(q, b, raddr n) \<in># own (raddr n) (rvalue n) (rpayload n)"
      using j q len by (subst in_own) (metis (no_types))
    then show "\<exists>b a. (q, b, a) \<in># own (raddr n) (rvalue n) (rpayload n)" by blast
  qed (auto simp: in_own take_is_prefix)
  have below: "(\<exists>b a. (q, b, a) \<in># image_mset (pre (rvalue n)) (cells_ch (rchildren n))) \<longleftrightarrow>
    (\<exists>q'. q = rvalue n @ q' \<and> stored_ch (rchildren n) q')"
    by (force simp: stored_ch_def pre_def)
  have nn: "stored_ch (rchildren n) q' \<Longrightarrow> q' \<noteq> []" for q'
    using cell_head rwf_kid[OF assms(1)] by (fastforce simp: stored_ch_def in_cells_ch)
  have st: "stored n q \<longleftrightarrow> prefix q (rvalue n) \<or> (\<exists>q'. q = rvalue n @ q' \<and> stored_ch (rchildren n) q')"
    unfolding ownq[symmetric] below[symmetric] stored_def cells_eq[of n] union_iff by blast
  show ?thesis
  proof (cases "i < length (rvalue n)")
    case True
    have "\<not> prefix (rvalue n) q" using True assms(3) by (simp add: prefix_iff_lcp_len)
    moreover have "prefix q (rvalue n) \<longleftrightarrow> i = length q"
      using assms(3) by (simp add: prefix_iff_lcp_len lcp_len_commute)
    ultimately show ?thesis using True st by (auto simp: prefix_def)
  next
    case False
    then have i: "i = length (rvalue n)" using assms(3) lcp_len_le(1)[of "rvalue n" q] by simp
    then have "prefix (rvalue n) q" using assms(3) by (simp add: prefix_iff_lcp_len)
    then obtain q' where q': "q = rvalue n @ q'" by (auto simp: prefix_def)
    then show ?thesis using i st nn by auto
  qed
qed

section \<open>Lookup\<close>

lemma lcp_len_take: "lcp_len xs (take k ys) = min (lcp_len xs ys) k"
  by (induction xs ys arbitrary: k rule: lcp_len.induct) (auto simp: take_Cons split: nat.split)

lemma lcp_len_nonzero: "q \<noteq> [] \<Longrightarrow> lcp_len v q \<noteq> 0 \<longleftrightarrow> v \<noteq> [] \<and> hd v = hd q"
  by (cases v; cases q) auto

lemma get_level_no_kids: "kids ch = [] \<Longrightarrow> get_level ch hs p = p"
  by (cases ch) (simp_all add: get_level.simps entry_at_def)

lemma get_level_step:
  assumes "good_ch ch" "p < length hs"
  shows "get_level ch hs p = (case child_at (hs ! p) ch of None \<Rightarrow> p
    | Some j \<Rightarrow> let c = kids ch ! j; i = lcp_len (rvalue c) (drop p hs)
                in if i < length (rvalue c) then p + i else get_level (rchildren c) hs (p + i))"
proof (cases ch)
  case (Small v)
  have "lcp_len (rvalue c) (drop p hs) \<noteq> 0 \<longleftrightarrow> rvalue c \<noteq> [] \<and> hd (rvalue c) = hs ! p" for c
    using assms(2) lcp_len_nonzero[of "drop p hs" "rvalue c"] by (simp add: hd_drop_conv_nth)
  with Small assms(2) show ?thesis
    by (auto simp: get_level.simps child_at_def Let_def split: option.split)
next
  case (Large m)
  show ?thesis
  proof (cases "entry_at (hs ! p) m")
    case None
    with Large assms(2) show ?thesis by (simp add: get_level.simps child_at_def)
  next
    case (Some j)
    then have j: "j < length m" by (simp add: entry_at_def position_less)
    let ?c = "snd (m ! j)"
    have "rwf ?c" "childless_empty ?c" using assms(1) Large j by (auto simp: good_ch_def)
    then have "node_is_empty ?c \<Longrightarrow> rvalue ?c = [] \<and> kids (rchildren ?c) = []"
      by (simp add: empty_iff) (simp add: childless_empty_def)
    with Some Large assms(2) j show ?thesis
      by (auto simp: get_level.simps child_at_def Let_def get_level_no_kids)
  qed
qed

lemma get_level_stored:
  assumes "good_ch ch" "p \<le> length hs"
  shows "p \<le> get_level ch hs p \<and> get_level ch hs p \<le> length hs \<and>
    (\<forall>i. p < i \<longrightarrow> i \<le> length hs \<longrightarrow> (i \<le> get_level ch hs p \<longleftrightarrow> stored_ch ch (take (i - p) (drop p hs))))"
  using assms
proof (induction "size ch" arbitrary: ch p rule: less_induct)
  case less
  show ?case
  proof (cases "p = length hs")
    case True
    then have "get_level ch hs p = p" by (cases ch) (auto simp: get_level.simps)
    with True show ?thesis by simp
  next
    case False
    with less.prems have p: "p < length hs" by simp
    have hd: "hd (take (i - p) (drop p hs)) = hs ! p" "take (i - p) (drop p hs) \<noteq> []"
      if "p < i" "i \<le> length hs" for i using that p by (auto simp: hd_drop_conv_nth)
    note step = get_level_step[OF less.prems(1) p]
    show ?thesis
    proof (cases "child_at (hs ! p) ch")
      case None
      with step have "get_level ch hs p = p" by simp
      with None hd stored_ch_step[OF less.prems(1)] p show ?thesis by simp
    next
      case (Some j)
      let ?c = "kids ch ! j" and ?rest = "drop p hs"
      let ?i = "lcp_len (rvalue ?c) ?rest"
      have c: "?c \<in> set (kids ch)" "rwf ?c" using child_at_less[OF Some] less.prems(1) by (auto simp: good_ch_def)
      have i: "?i \<le> length hs - p" "?i \<le> length (rvalue ?c)" using lcp_len_le[of "rvalue ?c" ?rest] by auto
      have "size ?c < Suc (size ch)" using kid_size[OF c(1)] .
      with rchildren_size[of ?c] have sz: "size (rchildren ?c) < size ch" by simp
      have IH: "p + ?i \<le> get_level (rchildren ?c) hs (p + ?i) \<and> get_level (rchildren ?c) hs (p + ?i) \<le> length hs \<and>
        (\<forall>k. p + ?i < k \<longrightarrow> k \<le> length hs \<longrightarrow>
          (k \<le> get_level (rchildren ?c) hs (p + ?i) \<longleftrightarrow> stored_ch (rchildren ?c) (take (k - (p + ?i)) (drop (p + ?i) hs))))"
        using less.hyps[OF sz rwf_good[OF c(2)], of "p + ?i"] i(1) p by simp
      have st: "stored_ch ch (take (k - p) ?rest) \<longleftrightarrow>
          (if ?i < length (rvalue ?c) then k \<le> p + ?i
           else k \<le> p + ?i \<or> stored_ch (rchildren ?c) (take (k - (p + ?i)) (drop (p + ?i) hs)))"
        if k: "p < k" "k \<le> length hs" for k
      proof -
        let ?q = "take (k - p) ?rest"
        have lq: "length ?q = k - p" using k by simp
        have lcp: "lcp_len (rvalue ?c) ?q = min ?i (k - p)" by (rule lcp_len_take)
        have "stored_ch ch ?q \<longleftrightarrow> stored ?c ?q" using stored_ch_step[OF less.prems(1) hd(2)[OF k]] hd(1)[OF k] Some by simp
        also have "\<dots> \<longleftrightarrow> (if min ?i (k - p) < length (rvalue ?c) then min ?i (k - p) = k - p
           else min ?i (k - p) = k - p \<or> min ?i (k - p) < k - p \<and> stored_ch (rchildren ?c) (drop (min ?i (k - p)) ?q))"
          using stored_node[OF c(2) hd(2)[OF k] refl] unfolding lcp lq .
        finally show ?thesis using i k by (auto simp: min_def drop_take add.commute)
      qed
      from Some step have eq: "get_level ch hs p = (if ?i < length (rvalue ?c) then p + ?i else get_level (rchildren ?c) hs (p + ?i))"
        by (simp add: Let_def)
      show ?thesis
      proof (cases "?i < length (rvalue ?c)")
        case True
        with eq st i p show ?thesis by auto
      next
        case False
        let ?G = "get_level (rchildren ?c) hs (p + ?i)"
        have "k \<le> ?G \<longleftrightarrow> stored_ch ch (take (k - p) ?rest)" if k: "p < k" "k \<le> length hs" for k
        proof (cases "k \<le> p + ?i")
          case True
          then have "k \<le> ?G" using IH by linarith
          then show ?thesis using st[OF k] False True by simp
        next
          case 2: False
          then have "k \<le> ?G \<longleftrightarrow> stored_ch (rchildren ?c) (take (k - (p + ?i)) (drop (p + ?i) hs))"
            using IH k(2) by simp
          then show ?thesis using st[OF k] False 2 by simp
        qed
        moreover have "p \<le> ?G" "?G \<le> length hs" using IH by linarith+
        ultimately show ?thesis using eq False by simp
      qed
    qed
  qed
qed

end
