(* ===== verification/RadixTreeOps.thy ===== *)
theory RadixTreeOps
  imports RadixTreeInv
begin

text \<open>
  Insertion and removal on the production radix tree, as operations on the multiset of cells.
\<close>

section \<open>Descending with garbage collection\<close>

text \<open>A subtree after some of its empty descendants were dropped.\<close>

definition gc_of :: "rnode \<Rightarrow> rnode \<Rightarrow> nat \<Rightarrow> bool" where
  "gc_of n n' g \<longleftrightarrow> raddr n' = raddr n \<and> rvalue n' = rvalue n \<and> rpayload n' = rpayload n \<and>
     rwf n' \<and> (childless_empty n \<longrightarrow> childless_empty n') \<and> cells n' = cells n \<and>
     (\<exists>G. addrs n = addrs n' + G \<and> size G = g)"

lemma gc_of_refl: "rwf n \<Longrightarrow> gc_of n n 0"
  by (auto simp: gc_of_def)

text \<open>No child of \<open>m\<close> can match the rest of the key, and a child for it can be added.\<close>

definition no_child :: "rnode \<Rightarrow> u64 list \<Rightarrow> bool" where
  "no_child m key \<longleftrightarrow> key = [] \<or>
     (case rchildren m of
        Small v \<Rightarrow> \<forall>c\<in>set v. rvalue c \<noteq> [] \<and> hd (rvalue c) \<noteq> hd key
      | Large e \<Rightarrow> hd key \<notin> fst ` set e)"

text \<open>What a match found in the tree of \<open>c\<close>: \<open>q\<close> is the part of the key the labels spell.\<close>

fun hit :: "rnode \<Rightarrow> u64 list \<Rightarrow> u64 list \<Rightarrow> common_prefix_inner \<Rightarrow> bool" where
  "hit c q key (FullMatch b) \<longleftrightarrow>
     (\<exists>q0 m. located c q0 m \<and> raddr m = b \<and> q = q0 @ rvalue m \<and> rvalue m \<noteq> [] \<and> no_child m key)"
| "hit c q key (PartialMatch b i) \<longleftrightarrow>
     (\<exists>m. located c q m \<and> raddr m = b \<and> i = lcp_len (rvalue m) key \<and> 0 < i \<and> i < length (rvalue m))"
| "hit c q key (NoMatch b) \<longleftrightarrow> False"

lemma hit_below:
  "hit c q key r \<Longrightarrow> c \<in> set (kids (rchildren n)) \<Longrightarrow> hit n (rvalue n @ q) key r"
proof (cases r)
  case (FullMatch b)
  moreover assume "hit c q key r" "c \<in> set (kids (rchildren n))"
  ultimately obtain q0 m where m: "c \<in> set (kids (rchildren n))" "located c q0 m" "raddr m = b" "q = q0 @ rvalue m" "rvalue m \<noteq> []" "no_child m key"
    by auto
  from located.below[OF m(1,2)] m show ?thesis unfolding FullMatch hit.simps by (metis append.assoc)
qed (auto dest: located.below[rotated])

lemma common_prefix_cases:
  assumes "key \<noteq> []"
  shows "common_prefix c key = NoMatch b \<Longrightarrow> rvalue c = [] \<or> hd (rvalue c) \<noteq> hd key"
    and "common_prefix c key = FullMatch b \<Longrightarrow> b = raddr c \<and> rvalue c \<noteq> [] \<and> prefix (rvalue c) key"
    and "common_prefix c key = PartialMatch b i \<Longrightarrow>
      b = raddr c \<and> i = lcp_len (rvalue c) key \<and> 0 < i \<and> i < length (rvalue c)"
  using assms lcp_len_nonzero[of key "rvalue c"] lcp_len_le(1)[of "rvalue c" key]
  by (auto simp: common_prefix_def Let_def prefix_iff_lcp_len split: if_splits)

lemma vec_remove_split: "i < length xs \<Longrightarrow> \<exists>as bs. xs = as @ xs ! i # bs \<and> vec_remove i xs = as @ bs"
  unfolding vec_remove_def using id_take_nth_drop by blast

lemma large_remove:
  assumes "good_ch (Large m)" "i < length m" "node_is_empty (snd (m ! i))"
  shows "good_ch (Large (vec_remove i m)) \<and> cells_ch (Large (vec_remove i m)) = cells_ch (Large m) \<and>
    (\<exists>a. addrs_ch (Large m) = addrs_ch (Large (vec_remove i m)) + {#a#}) \<and>
    fst ` set (vec_remove i m) = fst ` set m - {fst (m ! i)}"
proof -
  obtain as bs where ab: "m = as @ m ! i # bs" "vec_remove i m = as @ bs" using vec_remove_split[OF assms(2)] by blast
  obtain k c where kc: "m ! i = (k, c)" by (cases "m ! i")
  have c: "rvalue c = []" "cells c = {#}" "addrs c = {#raddr c#}"
    using assms(3) kc by (auto simp: node_is_empty_def children_is_empty_def cells_eq[of c] cells_ch_def addrs_eq[of c] addrs_ch_def)
  have m: "m = as @ (k, c) # bs" and k: "fst (m ! i) = k" using ab(1) kc by simp_all
  have good: "good_ch (Large (as @ (k, c) # bs))" using assms(1) unfolding m .
  show ?thesis unfolding ab(2) k unfolding m using good c
    by (auto simp: good_ch_def sibs_def cells_ch_def addrs_ch_def image_iff)
qed

lemma good_Small_Cons:
  "good_ch (Small (c # cs)) \<longleftrightarrow> rwf c \<and> childless_empty c \<and> good_ch (Small cs) \<and>
     (rvalue c \<noteq> [] \<longrightarrow> (\<forall>d\<in>set cs. rvalue d \<noteq> [] \<longrightarrow> hd (rvalue d) \<noteq> hd (rvalue c)))"
  by (cases "rvalue c = []") (auto simp: good_ch_def sibs_def image_iff)

text \<open>The kept children have the labels of those they come from.\<close>

definition gc_kids :: "rnode list \<Rightarrow> rnode list \<Rightarrow> nat \<Rightarrow> bool" where
  "gc_kids cs cs' g \<longleftrightarrow> good_ch (Small cs') \<and> cells_ch (Small cs') = cells_ch (Small cs) \<and>
     (\<exists>G. addrs_ch (Small cs) = addrs_ch (Small cs') + G \<and> size G = g) \<and>
     rvalue ` set cs' \<subseteq> rvalue ` set cs"

lemma gc_kids_refl: "good_ch (Small cs) \<Longrightarrow> gc_kids cs cs 0"
  by (auto simp: gc_kids_def)

lemma gc_kids_drop:
  assumes "gc_kids cs cs' g" "node_is_empty c"
  shows "gc_kids (c # cs) cs' (Suc g)"
proof -
  have "cells c = {#}" "addrs c = {#raddr c#}"
    using assms(2) by (auto simp: node_is_empty_def children_is_empty_def cells_eq[of c] cells_ch_def addrs_eq[of c] addrs_ch_def)
  with assms(1) show ?thesis
    by (auto simp: gc_kids_def cells_ch_def addrs_ch_def intro: exI[of _ "add_mset (raddr c) G" for G])
qed

lemma gc_kids_Cons:
  assumes "gc_kids cs cs' g" "good_ch (Small (c # cs))" "gc_of c c' g'"
  shows "gc_kids (c # cs) (c' # cs') (g' + g)"
proof -
  obtain G where G: "addrs c = addrs c' + G" "size G = g'" using assms(3) by (auto simp: gc_of_def)
  obtain H where H: "addrs_ch (Small cs) = addrs_ch (Small cs') + H" "size H = g" using assms(1) by (auto simp: gc_kids_def)
  have "hd (rvalue d) \<noteq> hd (rvalue c)" if d: "d \<in> set cs'" "rvalue d \<noteq> []" "rvalue c \<noteq> []" for d
  proof -
    obtain e where "e \<in> set cs" "rvalue d = rvalue e" using assms(1) d(1) by (auto simp: gc_kids_def)
    then show ?thesis using assms(2) d unfolding good_Small_Cons by auto
  qed
  then have "good_ch (Small (c' # cs'))" using assms by (auto simp: good_Small_Cons gc_kids_def gc_of_def)
  moreover have "cells_ch (Small (c' # cs')) = cells_ch (Small (c # cs))"
    using assms(1,3) by (simp add: gc_kids_def gc_of_def cells_ch_def)
  moreover have "addrs_ch (Small (c # cs)) = addrs_ch (Small (c' # cs')) + (G + H)" "size (G + H) = g' + g"
    using G H by (simp_all add: addrs_ch_def)
  ultimately show ?thesis using assms(1,3) by (auto simp: gc_kids_def gc_of_def)
qed

lemma gc_of_kids:
  assumes "rwf (RNode a v p (Small cs))" "gc_kids cs cs' g"
  shows "gc_of (RNode a v p (Small cs)) (RNode a v p (Small cs')) g"
  using assms unfolding gc_of_def gc_kids_def
  by (auto simp: good_ch_def childless_empty_def)

lemma full_combo_ok:
  "rwf c \<Longrightarrow> rvalue c \<noteq> [] \<Longrightarrow>
     \<exists>r key' c' g q. full_combo c key = Inr (r, key', c', g) \<and> gc_of c c' g \<and> key = q @ key' \<and> hit c' (rvalue c @ q) key' r"
  "good_ch (Small cs) \<Longrightarrow> key2 \<noteq> [] \<Longrightarrow>
     \<exists>r key' cs' g q. combo_scan a cs key2 = Inr (r, key', cs', g) \<and> gc_kids cs cs' g \<and> key2 = q @ key' \<and>
       ((r = FullMatch a \<and> q = [] \<and> (\<forall>c\<in>set cs'. rvalue c \<noteq> [] \<and> hd (rvalue c) \<noteq> hd key2)) \<or> (\<exists>c\<in>set cs'. hit c q key' r))"
proof (induction c key and a cs key2 rule: full_combo_combo_scan.induct)
  case (1 a v p ch key)
  let ?n = "RNode a v p ch"
  have good: "good_ch ch" using rwf_good[OF "1.prems"(1)] by simp
  show ?case
  proof (cases "key = []")
    case True
    have "located ?n [] ?n" by (rule here)
    then have "hit ?n v [] (FullMatch a)" using "1.prems"(2) by (auto simp: no_child_def intro!: exI[of _ "[]"] exI[of _ ?n])
    then show ?thesis using True gc_of_refl[OF "1.prems"(1)] by (auto simp: full_combo.simps)
  next
    case key: False
    show ?thesis
    proof (cases ch)
      case (Small cs)
      have g: "good_ch (Small cs)" using good Small by simp
      from "1.IH"(1)[OF key Small g key] obtain r key' cs' g q where
        scan: "combo_scan a cs key = Inr (r, key', cs', g)" "gc_kids cs cs' g" "key = q @ key'"
        "(r = FullMatch a \<and> q = [] \<and> (\<forall>c\<in>set cs'. rvalue c \<noteq> [] \<and> hd (rvalue c) \<noteq> hd key)) \<or> (\<exists>c\<in>set cs'. hit c q key' r)"
        by blast
      let ?n' = "RNode a v p (Small cs')"
      have "hit ?n' (v @ q) key' r"
        using scan(4)
      proof
        assume *: "r = FullMatch a \<and> q = [] \<and> (\<forall>c\<in>set cs'. rvalue c \<noteq> [] \<and> hd (rvalue c) \<noteq> hd key)"
        have "located ?n' [] ?n'" by (rule here)
        with * show ?thesis using scan(3) "1.prems"(2) by (auto simp: no_child_def intro!: exI[of _ "[]"] exI[of _ ?n'])
      next
        assume "\<exists>c\<in>set cs'. hit c q key' r"
        then show ?thesis using hit_below[of _ q key' r ?n'] by auto
      qed
      then show ?thesis using scan key Small gc_of_kids[of a v p cs cs' g] "1.prems"(1) by (auto simp: full_combo.simps)
    next
      case (Large m)
      show ?thesis
      proof (cases "entry_at (hd key) m")
        case None
        then have "no_child ?n key" using Large by (auto simp: no_child_def entry_at_def position_None)
        moreover have "located ?n [] ?n" by (rule here)
        ultimately have "hit ?n v key (FullMatch a)" using "1.prems"(2) by (auto intro!: exI[of _ "[]"] exI[of _ ?n])
        then show ?thesis using None key Large gc_of_refl[OF "1.prems"(1)] by (auto simp: full_combo.simps)
      next
        case (Some i)
        then have i: "i < length m" "fst (m ! i) = hd key" by (auto simp: entry_at_def dest: position_SomeD)
        let ?c = "snd (m ! i)"
        have c: "?c \<in> set (kids ch)" "rwf ?c" "childless_empty ?c" using i(1) Large good by (auto simp: good_ch_def)
        show ?thesis
        proof (cases "node_is_empty ?c")
          case True
          let ?n' = "RNode a v p (Large (vec_remove i m))"
          have lr: "good_ch (Large (vec_remove i m))" "cells_ch (Large (vec_remove i m)) = cells_ch ch"
            "\<exists>a. addrs_ch ch = addrs_ch (Large (vec_remove i m)) + {#a#}"
            "fst ` set (vec_remove i m) = fst ` set m - {hd key}"
            using large_remove[of m i] good Large i True by auto
          have "gc_of ?n ?n' 1" using lr "1.prems" by (auto simp: gc_of_def good_ch_def childless_empty_def)
          moreover have "no_child ?n' key" using lr(4) by (simp add: no_child_def)
          moreover have "located ?n' [] ?n'" by (rule here)
          ultimately show ?thesis using Some key Large True "1.prems"(2)
            by (auto simp: full_combo.simps Let_def intro!: exI[of _ "[]"] exI[of _ ?n'])
        next
          case ne: False
          then have cv: "rvalue ?c \<noteq> []" using empty_iff[OF c(2,3)] by simp
          have hd: "hd (rvalue ?c) = hd key" using good Large i cv nth_mem[OF i(1)]
            by (auto simp: good_ch_def sibs_def split_def)
          show ?thesis
          proof (cases "common_prefix ?c key")
            case (NoMatch b)
            with common_prefix_cases(1)[OF key NoMatch] cv hd show ?thesis by simp
          next
            case (PartialMatch b k)
            note pm = common_prefix_cases(3)[OF key PartialMatch]
            have "hit ?c [] key (PartialMatch b k)" using pm here[of ?c] by auto
            from hit_below[OF this, of ?n] c(1) have "hit ?n v key (PartialMatch b k)" by simp
            then show ?thesis using Some key Large ne PartialMatch gc_of_refl[OF "1.prems"(1)]
              by (auto simp: full_combo.simps)
          next
            case (FullMatch b)
            then obtain rest where rest: "key = rvalue ?c @ rest" using common_prefix_cases(2)[OF key FullMatch] by (auto simp: prefix_def)
            from "1.IH"(2)[OF key Large Some refl ne FullMatch c(2) cv] obtain r key' c' g q where
              IH: "full_combo ?c (drop (length (rvalue ?c)) key) = Inr (r, key', c', g)" "gc_of ?c c' g"
              "drop (length (rvalue ?c)) key = q @ key'" "hit c' (rvalue ?c @ q) key' r" by blast
            let ?n' = "RNode a v p (put_kid i c' ch)"
            have kids': "kids (put_kid i c' ch) = (kids ch)[i := c']" using i Large by (intro kids_put_kid) simp
            have li: "i < length (kids ch)" "kids ch ! i = ?c" using i Large by simp_all
            obtain C where C: "cells_ch ch = C + cells ?c" "\<And>y. cells_ch (put_kid i y ch) = C + cells y"
              using sum_list_update_mset[of i "kids ch" cells] li unfolding cells_ch_def kids_put_kid[OF li(1)] by metis
            obtain A where A: "addrs_ch ch = A + addrs ?c" "\<And>y. addrs_ch (put_kid i y ch) = A + addrs y"
              using sum_list_update_mset[of i "kids ch" addrs] li unfolding addrs_ch_def kids_put_kid[OF li(1)] by metis
            have "good_ch (put_kid i c' ch)" unfolding good_ch_def
            proof
              show "sibs (put_kid i c' ch)" using sibs_put_kid[OF _ li(1), of c'] good IH(2) cv li(2) by (simp add: good_ch_def gc_of_def)
              show "\<forall>d\<in>set (kids (put_kid i c' ch)). rwf d \<and> childless_empty d"
                using good IH(2) c(3) set_update_subset_insert[of "kids ch" i c'] unfolding kids' by (auto simp: good_ch_def gc_of_def)
            qed
            then have "gc_of ?n ?n' g" using IH(2) "1.prems" C A by (auto simp: gc_of_def good_ch_def childless_empty_def)
            moreover have "c' \<in> set (kids (rchildren ?n'))" using li(1) kids' by (simp add: set_update_memI)
            from hit_below[OF IH(4) this] have "hit ?n' (v @ rvalue ?c @ q) key' r" by simp
            moreover have "key = (rvalue ?c @ q) @ key'" using IH(3) rest by simp
            ultimately show ?thesis using Some key Large ne FullMatch IH(1) by (auto simp: full_combo.simps)
          qed
        qed
      qed
    qed
  qed
next
  case (2 a key)
  then show ?case using gc_kids_refl by (auto simp: combo_scan.simps)
next
  case (3 a child cs key)
  note good = "3.prems"(1)[unfolded good_Small_Cons] and key = "3.prems"(2)
  show ?case
  proof (cases "node_is_empty child")
    case True
    from "3.IH"(1)[OF True] good key gc_kids_drop[OF _ True] True show ?thesis
      by (fastforce simp: combo_scan.simps)
  next
    case ne: False
    then have cv: "rvalue child \<noteq> []" using empty_iff good by blast
    show ?thesis
    proof (cases "common_prefix child key")
      case (NoMatch b)
      from "3.IH"(2)[OF ne NoMatch] good key obtain r key' cs' g q where
        IH: "combo_scan a cs key = Inr (r, key', cs', g)" "gc_kids cs cs' g" "key = q @ key'"
        "(r = FullMatch a \<and> q = [] \<and> (\<forall>c\<in>set cs'. rvalue c \<noteq> [] \<and> hd (rvalue c) \<noteq> hd key)) \<or> (\<exists>c\<in>set cs'. hit c q key' r)"
        by blast
      have "gc_kids (child # cs) (child # cs') g" using gc_kids_Cons[OF IH(2) "3.prems"(1) gc_of_refl] good by simp
      moreover have "hd (rvalue child) \<noteq> hd key" using common_prefix_cases(1)[OF key NoMatch] cv by simp
      ultimately show ?thesis using IH ne NoMatch cv by (auto simp: combo_scan.simps)
    next
      case (PartialMatch b k)
      note pm = common_prefix_cases(3)[OF key PartialMatch]
      have "hit child [] key (PartialMatch b k)" using pm here[of child] by auto
      moreover have "gc_kids (child # cs) (child # cs) 0" by (rule gc_kids_refl[OF "3.prems"(1)])
      ultimately show ?thesis using ne PartialMatch by (auto simp: combo_scan.simps)
    next
      case (FullMatch b)
      then obtain rest where rest: "key = rvalue child @ rest" using common_prefix_cases(2)[OF key FullMatch] by (auto simp: prefix_def)
      from "3.IH"(3)[OF ne FullMatch _ cv] good obtain r key' c' g q where
        IH: "full_combo child (drop (length (rvalue child)) key) = Inr (r, key', c', g)" "gc_of child c' g"
        "drop (length (rvalue child)) key = q @ key'" "hit c' (rvalue child @ q) key' r" by blast
      have "gc_kids (child # cs) (c' # cs) g" using gc_kids_Cons[OF gc_kids_refl "3.prems"(1) IH(2)] good by simp
      moreover have "key = (rvalue child @ q) @ key'" using IH(3) rest by simp
      ultimately show ?thesis using IH ne FullMatch by (auto simp: combo_scan.simps)
    qed
  qed
qed

section \<open>The scan of the root\<close>

lemma root_scan_ok:
  assumes "good_ch (Small cs)" "key \<noteq> []"
  shows "\<exists>r cs' g. root_scan a cs key = Inr (r, cs', g) \<and> gc_kids cs cs' g \<and>
    ((r = NoMatch a \<and> (\<forall>c\<in>set cs'. rvalue c \<noteq> [] \<and> hd (rvalue c) \<noteq> hd key)) \<or>
     (\<exists>c\<in>set cs'. rvalue c \<noteq> [] \<and> hd (rvalue c) = hd key \<and> r = common_prefix c key))"
  using assms
proof (induction cs)
  case Nil
  then show ?case using gc_kids_refl by auto
next
  case (Cons c cs)
  note good = Cons.prems(1)[unfolded good_Small_Cons]
  obtain r cs' g where IH: "root_scan a cs key = Inr (r, cs', g)" "gc_kids cs cs' g"
    "(r = NoMatch a \<and> (\<forall>c\<in>set cs'. rvalue c \<noteq> [] \<and> hd (rvalue c) \<noteq> hd key)) \<or>
     (\<exists>c\<in>set cs'. rvalue c \<noteq> [] \<and> hd (rvalue c) = hd key \<and> r = common_prefix c key)"
    using Cons.IH good Cons.prems(2) by blast
  show ?case
  proof (cases "node_is_empty c")
    case True
    then show ?thesis using IH gc_kids_drop[OF IH(2) True] by auto
  next
    case ne: False
    then have cv: "rvalue c \<noteq> []" using empty_iff good by blast
    show ?thesis
    proof (cases "hd (rvalue c) = hd key")
      case True
      with ne cv gc_kids_refl[OF Cons.prems(1)] show ?thesis by auto
    next
      case False
      have "gc_kids (c # cs) (c # cs') g" using gc_kids_Cons[OF IH(2) Cons.prems(1) gc_of_refl] good by simp
      with False ne cv IH show ?thesis by auto
    qed
  qed
qed

lemma root_match_ok:
  assumes "rwf root" "rvalue root = []" "rpayload root = []" "key \<noteq> []"
  shows "\<exists>r root' g. root_match root key = Inr (r, root', g) \<and> gc_of root root' g \<and>
    ((r = NoMatch (raddr root) \<and> no_child root' key) \<or>
     (\<exists>c\<in>set (kids (rchildren root')). rvalue c \<noteq> [] \<and> hd (rvalue c) = hd key \<and> r = common_prefix c key))"
proof -
  obtain a ch where root: "root = RNode a [] [] ch" using assms(2,3) by (cases root) auto
  have good: "good_ch ch" using rwf_good[OF assms(1)] root by simp
  show ?thesis
  proof (cases ch)
    case (Small cs)
    then have gs: "good_ch (Small cs)" using good by simp
    obtain r cs' g where scan: "root_scan a cs key = Inr (r, cs', g)" "gc_kids cs cs' g"
      "(r = NoMatch a \<and> (\<forall>c\<in>set cs'. rvalue c \<noteq> [] \<and> hd (rvalue c) \<noteq> hd key)) \<or>
       (\<exists>c\<in>set cs'. rvalue c \<noteq> [] \<and> hd (rvalue c) = hd key \<and> r = common_prefix c key)"
      using root_scan_ok[OF gs assms(4), of a] by blast
    have "gc_of root (RNode a [] [] (Small cs')) g"
      using gc_of_kids[of a "[]" "[]" cs cs' g] assms(1) scan(2) root Small by simp
    moreover have "root_match root key = Inr (r, RNode a [] [] (Small cs'), g)" by (simp add: root_match_def root Small scan(1))
    moreover have "(r = NoMatch (raddr root) \<and> no_child (RNode a [] [] (Small cs')) key) \<or>
      (\<exists>c\<in>set (kids (rchildren (RNode a [] [] (Small cs')))). rvalue c \<noteq> [] \<and> hd (rvalue c) = hd key \<and> r = common_prefix c key)"
      using scan(3) assms(4) by (simp add: no_child_def root)
    ultimately show ?thesis by blast
  next
    case (Large m)
    show ?thesis
    proof (cases "entry_at (hd key) m")
      case None
      then have "no_child root key" using Large root by (auto simp: no_child_def entry_at_def position_None)
      then show ?thesis using None Large root gc_of_refl[OF assms(1)] by (auto simp: root_match_def)
    next
      case (Some i)
      then have i: "i < length m" "fst (m ! i) = hd key" by (auto simp: entry_at_def dest: position_SomeD)
      let ?c = "snd (m ! i)"
      have c: "?c \<in> set (kids ch)" "rwf ?c" "childless_empty ?c" using i(1) Large good by (auto simp: good_ch_def)
      show ?thesis
      proof (cases "node_is_empty ?c")
        case True
        let ?n' = "RNode a [] [] (Large (vec_remove i m))"
        have lr: "good_ch (Large (vec_remove i m))" "cells_ch (Large (vec_remove i m)) = cells_ch ch"
          "\<exists>a. addrs_ch ch = addrs_ch (Large (vec_remove i m)) + {#a#}"
          "fst ` set (vec_remove i m) = fst ` set m - {hd key}"
          using large_remove[of m i] good Large i True by auto
        have "kids ch = [] \<Longrightarrow> False" using c(1) by auto
        then have "gc_of root ?n' 1" using lr assms(1) root by (auto simp: gc_of_def good_ch_def childless_empty_def)
        moreover have "no_child ?n' key" using lr(4) by (simp add: no_child_def)
        ultimately show ?thesis using Some True Large root by (auto simp: root_match_def)
      next
        case False
        then have cv: "rvalue ?c \<noteq> []" using empty_iff[OF c(2,3)] by simp
        moreover have "hd (rvalue ?c) = hd key"
          using good Large i cv nth_mem[OF i(1)] by (auto simp: good_ch_def sibs_def split_def)
        moreover have "root_match root key = Inr (common_prefix ?c key, root, 0)"
          using Some False Large root by (simp add: root_match_def)
        ultimately show ?thesis using root c(1) gc_of_refl[OF assms(1)]
          by (intro exI[of _ "common_prefix ?c key"] exI[of _ root] exI[of _ 0] conjI disjI2 bexI[of _ ?c]) simp_all
      qed
    qed
  qed
qed

section \<open>Registering aliases\<close>

text \<open>The tree without its payloads, which the registration of aliases leaves as it is.\<close>

fun shape :: "rnode \<Rightarrow> rnode" where
  "shape (RNode a v p ch) = RNode a v [] (map_kids shape ch)"

lemma shape_eq: "shape n = RNode (raddr n) (rvalue n) [] (map_kids shape (rchildren n))"
  by (cases n) simp

lemma shape_sels [simp]: "raddr (shape n) = raddr n" "rvalue (shape n) = rvalue n"
  by (simp_all add: shape_eq)

lemma shape_eqD:
  assumes "shape n = shape n'"
  shows "raddr n = raddr n' \<and> rvalue n = rvalue n' \<and> map shape (kids (rchildren n)) = map shape (kids (rchildren n'))"
proof -
  have "map_kids shape (rchildren n) = map_kids shape (rchildren n')" using assms by (simp add: shape_eq)
  then have "kids (map_kids shape (rchildren n)) = kids (map_kids shape (rchildren n'))" by simp
  then show ?thesis using assms shape_sels by (metis kids_map_kids)
qed

lemma shape_kid:
  assumes "shape n = shape n'" "c \<in> set (kids (rchildren n))"
  shows "\<exists>c'\<in>set (kids (rchildren n')). shape c' = shape c"
proof -
  have "shape c \<in> set (map shape (kids (rchildren n')))" using shape_eqD[OF assms(1)] assms(2) by (metis imageI list.set_map)
  then show ?thesis by auto
qed

lemma located_shape: "located n q m \<Longrightarrow> shape n = shape n' \<Longrightarrow> \<exists>m'. located n' q m' \<and> shape m' = shape m"
proof (induction arbitrary: n' rule: located.induct)
  case (here n)
  then show ?case by (metis located.here)
next
  case (below c n q m)
  obtain c' where "c' \<in> set (kids (rchildren n'))" "shape c' = shape c" using shape_kid[OF below.prems below.hyps(1)] by blast
  with below.IH[of c'] shape_eqD[OF below.prems] show ?case by (metis located.below)
qed

lemma no_child_shape:
  assumes "shape n = shape n'" shows "no_child n key \<longleftrightarrow> no_child n' key"
proof -
  have *: "map_kids shape (rchildren n) = map_kids shape (rchildren n')" using assms by (simp add: shape_eq)
  then show ?thesis
  proof (cases "rchildren n"; cases "rchildren n'")
    fix v w assume ch: "rchildren n = Small v" "rchildren n' = Small w"
    with * have "map shape v = map shape w" by simp
    then have "map (rvalue \<circ> shape) v = map (rvalue \<circ> shape) w" by (metis list.map_comp)
    then have "rvalue ` set v = rvalue ` set w" by (simp add: comp_def) (metis list.set_map)
    then have "(\<forall>c\<in>set v. P (rvalue c)) \<longleftrightarrow> (\<forall>c\<in>set w. P (rvalue c))" for P by (metis imageE imageI)
    from this[of "\<lambda>v. v \<noteq> [] \<and> hd v \<noteq> hd key"] show ?thesis by (simp add: no_child_def ch)
  next
    fix v w assume ch: "rchildren n = Large v" "rchildren n' = Large w"
    with * have "map fst (map (\<lambda>(k, c). (k, shape c)) v) = map fst (map (\<lambda>(k, c). (k, shape c)) w)" by simp
    then have "map fst v = map fst w" by (simp add: comp_def split_def)
    then show ?thesis by (simp add: no_child_def ch) (metis list.set_map)
  qed auto
qed

lemma map_kids_put_kid: "j < length (kids ch) \<Longrightarrow> map_kids shape (put_kid j c ch) = put_kid j (shape c) (map_kids shape ch)"
  by (cases ch) (auto simp: map_update split_def)

lemma put_kid_same: "j < length (kids ch) \<Longrightarrow> put_kid j (kids ch ! j) ch = ch"
  by (cases ch) auto

text \<open>The new cells of a walk along \<open>key\<close>, where \<open>f i\<close> is the node of position \<open>i\<close>.\<close>

definition new_cells :: "u64 list \<Rightarrow> u64 list \<Rightarrow> btn \<Rightarrow> (nat \<Rightarrow> nat) \<Rightarrow> cell list" where
  "new_cells key al btn f = map (\<lambda>i. (take (Suc i) key, al ! i, f i)) (filter (fresh_at btn al) [0..<length al])"

text \<open>The table after the new cells were registered.\<close>

definition registered :: "u64 list \<Rightarrow> btn \<Rightarrow> (nat \<Rightarrow> nat) \<Rightarrow> btn \<Rightarrow> bool" where
  "registered al btn f btn' \<longleftrightarrow> length btn' = length btn \<and>
     (\<forall>b. (b \<in> set al \<longrightarrow> btn_at btn b \<noteq> None) \<longrightarrow> btn_at btn' b = btn_at btn b) \<and>
     (\<forall>i<length al. fresh_at btn al i \<longrightarrow> btn_at btn' (al ! i) = Some (f i))"

lemma new_cells_append:
  assumes "distinct (al1 @ al2)" "registered al1 btn f btn1" "length al1 \<le> length key"
  shows "new_cells key (al1 @ al2) btn (\<lambda>i. if i < length al1 then f i else f2 (i - length al1)) =
    new_cells key al1 btn f @ map (pre (take (length al1) key)) (new_cells (drop (length al1) key) al2 btn1 f2)"
proof -
  let ?n = "length al1" and ?al = "al1 @ al2"
  have r: "[0..<length ?al] = [0..<?n] @ map (\<lambda>i. i + ?n) [0..<length al2]"
    unfolding map_add_upt using upt_add_eq_append[of 0 ?n "length al2"] by (simp add: add.commute)
  have f1: "filter (fresh_at btn ?al) [0..<?n] = filter (fresh_at btn al1) [0..<?n]"
    by (rule filter_cong) (auto simp: fresh_at_def nth_append)
  have f2: "filter (fresh_at btn ?al \<circ> (\<lambda>i. i + ?n)) [0..<length al2] = filter (fresh_at btn1 al2) [0..<length al2]"
  proof (rule filter_cong[OF refl])
    fix i assume "i \<in> set [0..<length al2]"
    then have "al2 ! i \<notin> set al1" using assms(1) by auto
    then show "(fresh_at btn ?al \<circ> (\<lambda>i. i + ?n)) i = fresh_at btn1 al2 i"
      using assms(2) by (auto simp: fresh_at_def nth_append registered_def)
  qed
  have t: "take (Suc (i + ?n)) key = take ?n key @ take (Suc i) (drop ?n key)" for i
    using take_add[of ?n "Suc i" key] by (simp add: add.commute)
  show ?thesis unfolding new_cells_def r filter_append filter_map f1 f2 map_append map_map
    by (intro arg_cong2[of _ _ _ _ append] map_cong refl) (simp_all add: nth_append t)
qed

lemma registered_append:
  assumes "distinct (al1 @ al2)" "registered al1 btn f btn1" "registered al2 btn1 f2 btn2"
  shows "registered (al1 @ al2) btn (\<lambda>i. if i < length al1 then f i else f2 (i - length al1)) btn2"
  unfolding registered_def
proof (intro conjI allI impI)
  show "length btn2 = length btn" using assms by (simp add: registered_def)
next
  fix b assume b: "b \<in> set (al1 @ al2) \<longrightarrow> btn_at btn b \<noteq> None"
  then have "btn_at btn1 b = btn_at btn b" using assms(2) by (simp add: registered_def)
  with b assms(3) show "btn_at btn2 b = btn_at btn b" by (simp add: registered_def)
next
  fix i assume i: "i < length (al1 @ al2)" "fresh_at btn (al1 @ al2) i"
  show "btn_at btn2 ((al1 @ al2) ! i) = Some (if i < length al1 then f i else f2 (i - length al1))"
  proof (cases "i < length al1")
    case True
    then have "btn_at btn1 (al1 ! i) = Some (f i)" using i assms(2) by (simp add: registered_def fresh_at_def nth_append)
    moreover have "al1 ! i \<notin> set al2" using nth_mem[OF True] assms(1) by auto
    ultimately show ?thesis using assms(3) True by (simp add: registered_def nth_append)
  next
    case False
    let ?k = "i - length al1"
    have k: "?k < length al2" using False i(1) by auto
    then have "al2 ! ?k \<notin> set al1" using assms(1) by auto
    then have "fresh_at btn1 al2 ?k" using i(2) False assms(2) by (simp add: registered_def fresh_at_def nth_append)
    with k assms(3) False show ?thesis by (simp add: registered_def nth_append)
  qed
qed

lemma alias_node_ok:
  assumes "rwf c" "n = lcp_len (rvalue c) key" "n \<le> length al" "distinct al" "\<forall>b\<in>set al. unat b < length btn"
  shows "\<exists>p' btn'. fold_outcome (alias_one (raddr c)) (enumerate 0 (take n al)) (rpayload c, btn) = Inr (p', btn') \<and>
    length p' = length (rvalue c) \<and> [] \<notin> set p' \<and>
    own (raddr c) (rvalue c) p' = own (raddr c) (rvalue c) (rpayload c) + mset (new_cells key (take n al) btn (\<lambda>_. raddr c)) \<and>
    registered (take n al) btn (\<lambda>_. raddr c) btn'"
proof -
  have c: "length (rpayload c) = length (rvalue c)" "[] \<notin> set (rpayload c)" using assms(1) by (simp_all add: rwf_eq[of c])
  have n: "n \<le> length (rvalue c)" using lcp_len_le(1)[of "rvalue c" key] assms(2) by simp
  have "distinct (take n al)" "\<forall>b\<in>set (take n al). unat b < length btn" "0 + length (take n al) \<le> length (rvalue c)"
    using assms n by (auto dest: in_set_takeD)
  from fold_alias[OF this(3) c(1) this(1,2), of "raddr c"] obtain p' btn' where r:
    "fold_outcome (alias_one (raddr c)) (enumerate 0 (take n al)) (rpayload c, btn) = Inr (p', btn')"
    "length p' = length (rpayload c)" "length btn' = length btn" "[] \<notin> set (rpayload c) \<longrightarrow> [] \<notin> set p'"
    "own (raddr c) (rvalue c) p' = own (raddr c) (rvalue c) (rpayload c) +
      mset (map (\<lambda>i. (take (Suc (0 + i)) (rvalue c), take n al ! i, raddr c)) (filter (fresh_at btn (take n al)) [0..<length (take n al)]))"
    "btn_at btn' = (\<lambda>b. if b \<in> set (take n al) \<and> btn_at btn b = None then Some (raddr c) else btn_at btn b)"
    by blast
  have "take (Suc i) (rvalue c) = take (Suc i) key" if "i < n" for i
    using that assms(2) le_lcp_len_iff[of "Suc i" "rvalue c" key] by simp
  then have "map (\<lambda>i. (take (Suc (0 + i)) (rvalue c), take n al ! i, raddr c)) (filter (fresh_at btn (take n al)) [0..<length (take n al)])
      = new_cells key (take n al) btn (\<lambda>_. raddr c)"
    unfolding new_cells_def by (intro map_cong) auto
  moreover have "registered (take n al) btn (\<lambda>_. raddr c) btn'"
  proof -
    have "take n al ! i \<in> set (take n al)" if "i < length (take n al)" for i using that by (rule nth_mem)
    then show ?thesis using r(3,6) unfolding registered_def fresh_at_def by auto
  qed
  ultimately show ?thesis using r c by auto
qed

lemma alias_walk_ok:
  assumes "good_ch ch" "key = [] \<or> stored_ch ch key" "length al = length key" "distinct al"
    and "\<forall>b\<in>set al. unat b < length btn"
  shows "\<exists>ch' btn' f. alias_walk ch key al btn = Inr (ch', btn') \<and> good_ch ch' \<and>
    map_kids shape ch' = map_kids shape ch \<and> addrs_ch ch' = addrs_ch ch \<and>
    cells_ch ch' = cells_ch ch + mset (new_cells key al btn f) \<and> registered al btn f btn'"
  using assms
proof (induction "size ch" arbitrary: ch key al btn rule: less_induct)
  case less
  show ?case
  proof (cases "key = []")
    case True
    then show ?thesis using less.prems by (auto simp: alias_walk.simps new_cells_def registered_def)
  next
    case key: False
    with less.prems have "stored_ch ch key" by simp
    with stored_ch_step[OF less.prems(1) key] obtain j where
      j: "child_at (hd key) ch = Some j" "stored (kids ch ! j) key" by (auto split: option.splits)
    let ?c = "kids ch ! j"
    define n where "n = lcp_len (rvalue ?c) key"
    have jl: "j < length (kids ch)" by (rule child_at_less[OF j(1)])
    have c: "?c \<in> set (kids ch)" "rwf ?c" "childless_empty ?c" using jl less.prems(1) by (auto simp: good_ch_def)
    have cv: "rvalue ?c \<noteq> []" using j(2) cells_empty[OF _ c(3)] by (auto simp: stored_def)
    have nk: "n \<le> length key" using lcp_len_le(2)[of "rvalue ?c" key] by (simp add: n_def)
    have cont: "drop n key = [] \<or> n = length (rvalue ?c) \<and> stored_ch (rchildren ?c) (drop n key)"
      using stored_node[OF c(2) key n_def] j(2) lcp_len_le(1)[of "rvalue ?c" key]
      by (auto simp: n_def[symmetric] split: if_splits)
    have nal: "n \<le> length al" using nk less.prems(3) by simp
    obtain p' btn1 where node:
      "fold_outcome (alias_one (raddr ?c)) (enumerate 0 (take n al)) (rpayload ?c, btn) = Inr (p', btn1)"
      "length p' = length (rvalue ?c)" "[] \<notin> set p'"
      "own (raddr ?c) (rvalue ?c) p' = own (raddr ?c) (rvalue ?c) (rpayload ?c) + mset (new_cells key (take n al) btn (\<lambda>_. raddr ?c))"
      "registered (take n al) btn (\<lambda>_. raddr ?c) btn1"
      using alias_node_ok[OF c(2) n_def nal less.prems(4,5)] by blast
    have "size ?c < Suc (size ch)" using kid_size[OF c(1)] .
    with rchildren_size[of ?c] have sz: "size (rchildren ?c) < size ch" by simp
    have pre2: "drop n key = [] \<or> stored_ch (rchildren ?c) (drop n key)" "length (drop n al) = length (drop n key)" "distinct (drop n al)"
      "\<forall>b\<in>set (drop n al). unat b < length btn1"
      using cont less.prems node(5) by (auto simp: registered_def dest: in_set_dropD)
    obtain ch2 btn2 f2 where IH: "alias_walk (rchildren ?c) (drop n key) (drop n al) btn1 = Inr (ch2, btn2)" "good_ch ch2"
      "map_kids shape ch2 = map_kids shape (rchildren ?c)" "addrs_ch ch2 = addrs_ch (rchildren ?c)"
      "cells_ch ch2 = cells_ch (rchildren ?c) + mset (new_cells (drop n key) (drop n al) btn1 f2)"
      "registered (drop n al) btn1 f2 btn2"
      using less.hyps[OF sz rwf_good[OF c(2)] pre2] by blast
    define c' where "c' = RNode (raddr ?c) (rvalue ?c) p' ch2"
    define f where "f = (\<lambda>i. if i < n then raddr ?c else f2 (i - n))"
    have walk: "alias_walk ch key al btn = Inr (put_kid j c' ch, btn2)"
      using key j(1) nal node(1) IH(1) by (simp add: alias_walk.simps[of ch key al btn] n_def[symmetric] Let_def c'_def)
    have c': "rwf c'" "childless_empty c'" "shape c' = shape ?c" "addrs c' = addrs ?c"
      using node(2,3) IH(2-4) cv by (auto simp: c'_def good_ch_def childless_empty_def shape_eq[of ?c] addrs_eq[of ?c])
    have lt: "length (take n al) = n" using nal by simp
    have new: "new_cells key al btn f = new_cells key (take n al) btn (\<lambda>_. raddr ?c) @
        map (pre (take n key)) (new_cells (drop n key) (drop n al) btn1 f2)"
      using new_cells_append[of "take n al" "drop n al" btn "\<lambda>_. raddr ?c" btn1 key f2, unfolded lt] less.prems(4) node(5) nk
      by (simp add: f_def)
    have E: "map (pre (take n key)) (new_cells (drop n key) (drop n al) btn1 f2) =
        map (pre (rvalue ?c)) (new_cells (drop n key) (drop n al) btn1 f2)"
    proof (cases "drop n key = []")
      case True
      then show ?thesis using less.prems(3) by (simp add: new_cells_def)
    next
      case False
      with cont have "n = length (rvalue ?c)" by simp
      then have "take n key = rvalue ?c" using take_lcp_len[of "rvalue ?c" key] by (simp add: n_def[symmetric])
      then show ?thesis by simp
    qed
    have cells': "cells c' = cells ?c + mset (new_cells key al btn f)"
      unfolding new E by (simp add: c'_def node(4) IH(5) cells_eq[of ?c])
    obtain C where C: "cells_ch ch = C + cells ?c" "\<And>y. cells_ch (put_kid j y ch) = C + cells y"
      using sum_list_update_mset[OF jl, of cells] unfolding cells_ch_def kids_put_kid[OF jl] by metis
    obtain A where A: "addrs_ch ch = A + addrs ?c" "\<And>y. addrs_ch (put_kid j y ch) = A + addrs y"
      using sum_list_update_mset[OF jl, of addrs] unfolding addrs_ch_def kids_put_kid[OF jl] by metis
    have "good_ch (put_kid j c' ch)" unfolding good_ch_def
    proof
      show "sibs (put_kid j c' ch)" using sibs_put_kid[OF _ jl, of c'] less.prems(1) cv by (simp add: good_ch_def c'_def)
      show "\<forall>d\<in>set (kids (put_kid j c' ch)). rwf d \<and> childless_empty d"
        using less.prems(1) c'(1,2) set_update_subset_insert[of "kids ch" j c'] unfolding kids_put_kid[OF jl] good_ch_def by blast
    qed
    moreover have "map_kids shape (put_kid j c' ch) = map_kids shape ch"
    proof -
      have "j < length (kids (map_kids shape ch))" "shape c' = kids (map_kids shape ch) ! j" using jl c'(3) by (simp_all add: kids_map_kids)
      then show ?thesis using map_kids_put_kid[OF jl, of c'] put_kid_same by metis
    qed
    moreover have "registered al btn f btn2"
      using registered_append[OF _ node(5) IH(6), unfolded lt] less.prems(4) by (simp add: f_def)
    moreover have "cells_ch (put_kid j c' ch) = cells_ch ch + mset (new_cells key al btn f)" using C cells' by simp
    moreover have "addrs_ch (put_kid j c' ch) = addrs_ch ch" using A c'(4) by simp
    ultimately show ?thesis using walk by blast
  qed
qed

section \<open>Clearing a subtree\<close>

lemma clear_inner_ok:
  assumes "rwf c" "\<forall>x\<in>#cells c. unat (bid_of x) < length btn"
  shows "\<exists>btn'. clear_inner c (btn, n, fr) = Inr (btn', n + size (cells c), fr + size (addrs c)) \<and> length btn' = length btn \<and>
    btn_at btn' = (\<lambda>b. if b \<in> bid_of ` set_mset (cells c) then None else btn_at btn b)"
  using assms
proof (induction c arbitrary: btn n fr rule: rnode_induct)
  case (Node c)
  obtain a v p ch where c: "c = RNode a v p ch" by (cases c)
  show ?case
  proof (cases "node_is_empty c")
    case True
    then have "cells c = {#}" "addrs c = {#a#}"
      using c by (auto simp: node_is_empty_def children_is_empty_def cells_ch_def addrs_ch_def)
    with True c show ?thesis by auto
  next
    case False
    have own: "image_mset bid_of (own a v p) = mset (concat p)" using Node.prems(1) c by (auto intro: own_bids)
    then have sz: "length (concat p) = size (own a v p)" and bs: "set (concat p) = bid_of ` set_mset (own a v p)"
      by (metis size_image_mset size_mset) (metis own set_image_mset set_mset_mset)
    have "\<forall>b\<in>set (concat p). unat b < length btn" unfolding bs using Node.prems(2) c by auto
    then obtain btn1 where b1: "fold_outcome unregister (concat p) (btn, n, fr) = Inr (btn1, n + length (concat p), fr)"
      "length btn1 = length btn" "btn_at btn1 = (\<lambda>b. if b \<in> set (concat p) then None else btn_at btn b)"
      using fold_unregister by blast
    have kids: "\<exists>btn'. fold_outcome clear_inner cs (btn, n, fr) = Inr (btn', n + size (sum_list (map cells cs)), fr + size (sum_list (map addrs cs))) \<and>
        length btn' = length btn \<and>
        btn_at btn' = (\<lambda>b. if b \<in> bid_of ` set_mset (sum_list (map cells cs)) then None else btn_at btn b)"
      if "set cs \<subseteq> set (kids ch)" "\<forall>x\<in>#sum_list (map cells cs). unat (bid_of x) < length btn" for cs btn n fr
      using that
    proof (induction cs arbitrary: btn n fr)
      case (Cons d cs)
      have "rwf d" "d \<in> set (kids (rchildren c))" using Cons.prems(1) Node.prems(1) c by auto
      with Node.IH[OF this(2,1), of btn n fr] Cons.prems(2) obtain btn' where
        d: "clear_inner d (btn, n, fr) = Inr (btn', n + size (cells d), fr + size (addrs d))" "length btn' = length btn"
        "btn_at btn' = (\<lambda>b. if b \<in> bid_of ` set_mset (cells d) then None else btn_at btn b)" by auto
      from Cons.IH[of btn' "n + size (cells d)" "fr + size (addrs d)"] Cons.prems d(2) obtain btn'' where
        "fold_outcome clear_inner cs (btn', n + size (cells d), fr + size (addrs d)) =
           Inr (btn'', n + size (cells d) + size (sum_list (map cells cs)), fr + size (addrs d) + size (sum_list (map addrs cs)))"
        "length btn'' = length btn'" "btn_at btn'' = (\<lambda>b. if b \<in> bid_of ` set_mset (sum_list (map cells cs)) then None else btn_at btn' b)" by auto
      with d show ?case by (auto simp: fun_eq_iff add.assoc image_Un)
    qed simp
    have "\<forall>x\<in>#sum_list (map cells (kids ch)). unat (bid_of x) < length btn1"
      unfolding cells_ch_def[symmetric]
    proof
      fix x assume "x \<in># cells_ch ch"
      then have "pre v x \<in># cells c" using c by simp
      with Node.prems(2) b1(2) show "unat (bid_of x) < length btn1" by (metis cell_sels(4))
    qed
    from kids[OF order_refl this, of "n + length (concat p)" fr] obtain btn2 where
      b2: "fold_outcome clear_inner (kids ch) (btn1, n + length (concat p), fr) =
        Inr (btn2, n + length (concat p) + size (cells_ch ch), fr + size (addrs_ch ch))" "length btn2 = length btn1"
      "btn_at btn2 = (\<lambda>b. if b \<in> bid_of ` set_mset (cells_ch ch) then None else btn_at btn1 b)"
      by (auto simp: cells_ch_def addrs_ch_def)
    have "bid_of ` set_mset (cells c) = set (concat p) \<union> bid_of ` set_mset (cells_ch ch)"
      unfolding bs c by (auto simp: image_image image_Un)
    then show ?thesis using False b1 b2 c sz by (auto simp: fun_eq_iff add.assoc)
  qed
qed

end
