(* ===== verification/HashTable.thy ===== *)
theory HashTable
  imports Prelude
begin

text \<open>
  The prefix matcher \<^verbatim>\<open>HashTableBlockHash\<close> of \<^verbatim>\<open>router/src/scheduler/kvcache.rs\<close>: a map
  from block hashes to the backend blocks that hold them and the reverse table from block ids to
  hashes. The contract of the \<^verbatim>\<open>BlockHash\<close> trait is stated as a locale over an abstract map
  from occupied blocks to hashes and interpreted for the hash table.
\<close>

section \<open>Data\<close>

record hash_table =
  hmap :: "u64 \<rightharpoonup> u64 list"
  block_to_hash :: "u64 option list"
  ht_epoch :: u64

definition ht_new :: "nat \<Rightarrow> hash_table" where
  "ht_new num_blocks = \<lparr>hmap = Map.empty, block_to_hash = replicate num_blocks None, ht_epoch = 0\<rparr>"

definition ht_len :: "hash_table \<Rightarrow> nat" where
  "ht_len t = card (dom (hmap t))"

definition ht_is_empty :: "hash_table \<Rightarrow> bool" where
  "ht_is_empty t \<longleftrightarrow> dom (hmap t) = {}"

section \<open>Operations\<close>

text \<open>
  \<^verbatim>\<open>self.block_to_hash[bid as usize] = v\<close>: panics when the id is out of range.
\<close>

definition set_block :: "u64 \<Rightarrow> u64 option \<Rightarrow> hash_table \<Rightarrow> hash_table outcome" where
  "set_block bid v t =
     (if unat bid < length (block_to_hash t)
      then Inr (t\<lparr>block_to_hash := (block_to_hash t)[unat bid := v]\<rparr>)
      else Inl SliceOutOfRange)"

text \<open>The body of the loop over \<^verbatim>\<open>block_hashes.iter().zip(block_indices)\<close>.\<close>

definition insert_one :: "u64 \<times> u64 \<Rightarrow> hash_table \<times> nat \<Rightarrow> (hash_table \<times> nat) outcome" where
  "insert_one = (\<lambda>(h, bid) (t, n).
     case hmap t h of
       Some bids \<Rightarrow>
         if bid \<in> set bids then Inr (t, n)
         else (case set_block bid (Some h) t of
                 Inl p \<Rightarrow> Inl p
               | Inr t' \<Rightarrow> Inr (t'\<lparr>hmap := (hmap t')(h \<mapsto> bids @ [bid])\<rparr>, n + 1))
     | None \<Rightarrow>
         (case set_block bid (Some h) t of
            Inl p \<Rightarrow> Inl p
          | Inr t' \<Rightarrow> Inr (t'\<lparr>hmap := (hmap t')(h \<mapsto> [bid])\<rparr>, n + 1)))"

definition ht_insert :: "hash_table \<Rightarrow> u64 list \<Rightarrow> u64 list \<Rightarrow> (hash_table \<times> nat) outcome" where
  "ht_insert t hashes bids =
     (case fold_outcome insert_one (zip hashes bids) (t, 0) of
        Inl p \<Rightarrow> Inl p
      | Inr (t', n) \<Rightarrow> Inr (t'\<lparr>ht_epoch := ht_epoch t' + 1\<rparr>, n))"

fun get_loop :: "(u64 \<rightharpoonup> u64 list) \<Rightarrow> u64 list \<Rightarrow> nat \<Rightarrow> nat" where
  "get_loop m [] matched = matched"
| "get_loop m (h # hs) matched = (if m h \<noteq> None then get_loop m hs (matched + 1) else matched)"

definition ht_get :: "hash_table \<Rightarrow> u64 list \<Rightarrow> nat" where
  "ht_get t hashes = get_loop (hmap t) hashes 0"

text \<open>The body of the loop of \<^verbatim>\<open>remove\<close>.\<close>

definition remove_one :: "u64 \<Rightarrow> hash_table \<Rightarrow> hash_table outcome" where
  "remove_one bid t =
     (if unat bid < length (block_to_hash t)
      then case block_to_hash t ! unat bid of
             None \<Rightarrow> Inr t
           | Some h \<Rightarrow>
               (let t1 = t\<lparr>block_to_hash := (block_to_hash t)[unat bid := None]\<rparr>
                in case hmap t1 h of
                     None \<Rightarrow> Inr t1
                   | Some bids \<Rightarrow>
                       (case position (\<lambda>x. x = bid) bids of
                          None \<Rightarrow> Inl Unreachable
                        | Some pos \<Rightarrow>
                            (let bids' = vec_remove pos bids
                             in Inr (t1\<lparr>hmap := (if bids' = [] then (hmap t1)(h := None)
                                                 else (hmap t1)(h \<mapsto> bids'))\<rparr>))))
      else Inl SliceOutOfRange)"

definition ht_remove :: "hash_table \<Rightarrow> u64 list \<Rightarrow> hash_table outcome" where
  "ht_remove t bids =
     (case fold_outcome remove_one bids t of
        Inl p \<Rightarrow> Inl p
      | Inr t' \<Rightarrow> Inr (t'\<lparr>ht_epoch := ht_epoch t' + 1\<rparr>))"

section \<open>The table represents a map from blocks to hashes\<close>

definition occupied :: "hash_table \<Rightarrow> u64 \<rightharpoonup> u64" where
  "occupied t bid = (if unat bid < length (block_to_hash t) then block_to_hash t ! unat bid else None)"

text \<open>The two tables mirror each other: the blocks of a hash are those filed under it.\<close>

definition ht_ok :: "hash_table \<Rightarrow> bool" where
  "ht_ok t \<longleftrightarrow>
     (\<forall>h. hmap t h \<noteq> Some []) \<and>
     (\<forall>h bids. hmap t h = Some bids \<longrightarrow> distinct bids) \<and>
     (\<forall>h bid. (\<exists>bids. hmap t h = Some bids \<and> bid \<in> set bids) \<longleftrightarrow> occupied t bid = Some h)"

definition capacity :: "hash_table \<Rightarrow> nat" where
  "capacity t = length (block_to_hash t)"

lemma ht_okD:
  assumes "ht_ok t"
  shows "hmap t h \<noteq> Some []" "hmap t h = Some bids \<Longrightarrow> distinct bids"
    "(\<exists>bids. hmap t h = Some bids \<and> bid \<in> set bids) \<longleftrightarrow> occupied t bid = Some h"
  using assms by (auto simp: ht_ok_def)

lemma occupied_new [simp]: "occupied (ht_new n) = Map.empty"
  by (auto simp: occupied_def ht_new_def)

lemma occupied_other_fields [simp]:
  "occupied (t\<lparr>hmap := m\<rparr>) = occupied t" "occupied (t\<lparr>ht_epoch := e\<rparr>) = occupied t"
  by (simp_all add: occupied_def fun_eq_iff)

lemma ht_ok_new [simp]: "ht_ok (ht_new n)"
  by (simp add: ht_ok_def) (simp add: ht_new_def)

lemma ht_ok_hmap_None:
  assumes "ht_ok t" shows "hmap t h = None \<longleftrightarrow> h \<notin> ran (occupied t)"
proof -
  have "hmap t h \<noteq> None \<longleftrightarrow> (\<exists>bid. occupied t bid = Some h)"
    unfolding ht_okD(3)[OF assms, symmetric]
    using ht_okD(1)[OF assms, of h] by (auto simp: neq_Nil_conv) (metis list.set_intros(1) neq_Nil_conv)
  then show ?thesis by (auto simp: ran_def)
qed

lemma occupied_set_block:
  "set_block bid v t = Inr t' \<Longrightarrow>
     occupied t' = (occupied t)(bid := v) \<and> hmap t' = hmap t \<and> capacity t' = capacity t \<and>
     ht_epoch t' = ht_epoch t"
  by (auto simp: set_block_def occupied_def capacity_def fun_eq_iff nth_list_update
      word_unat_eq_iff [symmetric] split: if_splits)

lemma insert_one_ok:
  assumes "ht_ok t" "unat bid < capacity t" "occupied t bid = None \<or> occupied t bid = Some h"
  shows "\<exists>t' k. insert_one (h, bid) (t, n) = Inr (t', n + k) \<and> ht_ok t' \<and>
    occupied t' = (occupied t)(bid \<mapsto> h) \<and> capacity t' = capacity t \<and> ht_epoch t' = ht_epoch t \<and>
    k = (if occupied t bid = None then 1 else 0)"
proof (cases "occupied t bid")
  case (Some h')
  with assms(3) have h: "occupied t bid = Some h" by simp
  then obtain bids where "hmap t h = Some bids" "bid \<in> set bids"
    using ht_okD(3)[OF assms(1), of h bid] by auto
  with h assms(1) show ?thesis by (auto simp: insert_one_def fun_upd_idem)
next
  case None
  obtain t1 where t1: "set_block bid (Some h) t = Inr t1"
    using assms(2) by (simp add: set_block_def capacity_def)
  note t1' = occupied_set_block[OF t1]
  define bids where "bids = (case hmap t h of Some bs \<Rightarrow> bs | None \<Rightarrow> [])"
  have fresh: "bid \<notin> set bids"
    using None ht_okD(3)[OF assms(1), of h bid] by (auto simp: bids_def split: option.splits)
  let ?t = "t1\<lparr>hmap := (hmap t1)(h \<mapsto> bids @ [bid])\<rparr>"
  have ins: "insert_one (h, bid) (t, n) = Inr (?t, n + 1)"
    using t1 t1' fresh by (auto simp: insert_one_def bids_def split: option.splits)
  have occ: "occupied ?t = (occupied t)(bid \<mapsto> h)"
    using t1' by simp
  have "ht_ok ?t"
    unfolding ht_ok_def occ
  proof (intro conjI allI impI)
    show "hmap ?t k \<noteq> Some []" for k using t1' ht_okD(1)[OF assms(1), of k] by simp
    show "distinct bs" if "hmap ?t k = Some bs" for k bs
      using that t1' fresh ht_okD(2)[OF assms(1)]
      by (auto simp: bids_def split: if_splits option.splits)
    show "(\<exists>bs. hmap ?t k = Some bs \<and> b \<in> set bs) \<longleftrightarrow> ((occupied t)(bid \<mapsto> h)) b = Some k" for k b
    proof -
      have "(\<exists>bs. hmap ?t k = Some bs \<and> b \<in> set bs) \<longleftrightarrow>
          (\<exists>bs. hmap t k = Some bs \<and> b \<in> set bs) \<or> (k = h \<and> b = bid)"
        using t1' by (cases "hmap t h") (auto simp: bids_def)
      then show ?thesis
        using None ht_okD(3)[OF assms(1), of k b] by (cases "b = bid") auto
    qed
  qed
  with ins occ t1' None show ?thesis by (auto simp: capacity_def)
qed

lemma remove_one_ok:
  assumes "ht_ok t" "unat bid < capacity t"
  shows "\<exists>t'. remove_one bid t = Inr t' \<and> ht_ok t' \<and> occupied t' = (occupied t)(bid := None) \<and>
    capacity t' = capacity t \<and> ht_epoch t' = ht_epoch t"
proof (cases "occupied t bid")
  case None
  with assms show ?thesis
    by (auto simp: remove_one_def occupied_def capacity_def fun_upd_idem split: option.splits)
next
  case (Some h)
  then obtain bids where bids: "hmap t h = Some bids" "bid \<in> set bids"
    using ht_okD(3)[OF assms(1), of h bid] by auto
  have d: "distinct bids" using bids(1) ht_okD(2)[OF assms(1)] by blast
  from bids(2) have "position (\<lambda>x. x = bid) bids \<noteq> None" by (auto simp: position_None)
  then obtain pos where pos: "position (\<lambda>x. x = bid) bids = Some pos" by blast
  from position_SomeD[OF pos] have set': "set (vec_remove pos bids) = set bids - {bid}"
    using in_set_vec_remove[OF d] by simp
  let ?t1 = "t\<lparr>block_to_hash := (block_to_hash t)[unat bid := None]\<rparr>"
  let ?t = "?t1\<lparr>hmap := (if vec_remove pos bids = [] then (hmap t)(h := None)
                       else (hmap t)(h \<mapsto> vec_remove pos bids))\<rparr>"
  have rem: "remove_one bid t = Inr ?t"
    using Some bids pos assms(2)
    by (simp add: remove_one_def occupied_def capacity_def Let_def split: if_splits)
  have occ: "occupied ?t = (occupied t)(bid := None)"
    using assms(2) by (auto simp: occupied_def capacity_def fun_eq_iff nth_list_update
        word_unat_eq_iff [symmetric])
  have "ht_ok ?t"
    unfolding ht_ok_def occ
  proof (intro conjI allI impI)
    show "hmap ?t k \<noteq> Some []" for k using ht_okD(1)[OF assms(1), of k] by simp
    show "distinct bs" if "hmap ?t k = Some bs" for k bs
      using that d distinct_vec_remove ht_okD(2)[OF assms(1)] by (auto split: if_splits)
    show "(\<exists>bs. hmap ?t k = Some bs \<and> b \<in> set bs) \<longleftrightarrow> ((occupied t)(bid := None)) b = Some k" for k b
    proof (cases "k = h")
      case True
      have "(\<exists>bs. hmap ?t h = Some bs \<and> b \<in> set bs) \<longleftrightarrow> b \<in> set bids - {bid}"
        using set' by (cases "vec_remove pos bids = []") auto
      with True bids show ?thesis using ht_okD(3)[OF assms(1), of h b] by auto
    next
      case False
      then show ?thesis using ht_okD(3)[OF assms(1), of k b] Some by auto
    qed
  qed
  with rem occ show ?thesis by (auto simp: capacity_def)
qed

section \<open>Whole sequences\<close>

text \<open>
  The blocks of one call may be assigned: every block is free or already holds the same hash, also
  after the earlier assignments of the call.
\<close>

fun assignable :: "(u64 \<times> u64) list \<Rightarrow> (u64 \<rightharpoonup> u64) \<Rightarrow> bool" where
  "assignable [] m = True"
| "assignable ((h, bid) # ps) m \<longleftrightarrow> (m bid = None \<or> m bid = Some h) \<and> assignable ps (m(bid \<mapsto> h))"

fun assign :: "(u64 \<times> u64) list \<Rightarrow> (u64 \<rightharpoonup> u64) \<Rightarrow> (u64 \<rightharpoonup> u64)" where
  "assign [] m = m"
| "assign ((h, bid) # ps) m = assign ps (m(bid \<mapsto> h))"

lemma fold_insert_ok:
  "ht_ok t \<Longrightarrow> \<forall>p\<in>set ps. unat (snd p) < capacity t \<Longrightarrow> assignable ps (occupied t) \<Longrightarrow>
     \<exists>t' k. fold_outcome insert_one ps (t, n) = Inr (t', k) \<and> ht_ok t' \<and>
       occupied t' = assign ps (occupied t) \<and> capacity t' = capacity t \<and> ht_epoch t' = ht_epoch t"
proof (induction ps arbitrary: t n)
  case (Cons p ps)
  obtain h bid where p: "p = (h, bid)" by (cases p)
  with Cons.prems insert_one_ok[OF Cons.prems(1), of bid h n] obtain t' k where
    "insert_one (h, bid) (t, n) = Inr (t', n + k)" "ht_ok t'" "occupied t' = (occupied t)(bid \<mapsto> h)"
    "capacity t' = capacity t" "ht_epoch t' = ht_epoch t" by auto
  with Cons.IH[of t' "n + k"] Cons.prems p show ?case by (simp del: fun_upd_apply)
qed simp

lemma fold_remove_ok:
  "ht_ok t \<Longrightarrow> \<forall>bid\<in>set bids. unat bid < capacity t \<Longrightarrow>
     \<exists>t'. fold_outcome remove_one bids t = Inr t' \<and> ht_ok t' \<and>
       occupied t' = occupied t |` (- set bids) \<and> capacity t' = capacity t \<and> ht_epoch t' = ht_epoch t"
proof (induction bids arbitrary: t)
  case Nil
  then show ?case by (simp add: restrict_map_def)
next
  case (Cons bid bids)
  with remove_one_ok[OF Cons.prems(1), of bid] obtain t' where
    "remove_one bid t = Inr t'" "ht_ok t'" "occupied t' = (occupied t)(bid := None)"
    "capacity t' = capacity t" "ht_epoch t' = ht_epoch t" by auto
  with Cons.IH[of t'] Cons.prems(2) show ?case
    by (auto simp: restrict_map_def fun_eq_iff)
qed

lemma get_loop_takeWhile: "get_loop m hs n = n + length (takeWhile (\<lambda>h. m h \<noteq> None) hs)"
  by (induction m hs n rule: get_loop.induct) auto

section \<open>The BlockHash interface\<close>

text \<open>
  The trait, over the abstract map from occupied blocks to their hashes: insertion assigns blocks,
  removal frees them, a hash is found as long as some block holds it, and every mutation moves the
  epoch by one.
\<close>

locale block_hash =
  fixes new :: "nat \<Rightarrow> 't"
    and ins :: "'t \<Rightarrow> u64 list \<Rightarrow> u64 list \<Rightarrow> ('t \<times> nat) outcome"
    and get :: "'t \<Rightarrow> u64 list \<Rightarrow> nat"
    and rem :: "'t \<Rightarrow> u64 list \<Rightarrow> 't outcome"
    and epoch_of :: "'t \<Rightarrow> u64"
    and ok :: "'t \<Rightarrow> bool"
    and occ :: "'t \<Rightarrow> u64 \<rightharpoonup> u64"
    and cap :: "'t \<Rightarrow> nat"
  assumes new_ok: "ok (new n)" "occ (new n) = Map.empty" "cap (new n) = n"
    and ins_ok: "ok t \<Longrightarrow> \<forall>p\<in>set (zip hs bids). unat (snd p) < cap t \<Longrightarrow>
      assignable (zip hs bids) (occ t) \<Longrightarrow>
      \<exists>t' n. ins t hs bids = Inr (t', n) \<and> ok t' \<and> occ t' = assign (zip hs bids) (occ t) \<and> cap t' = cap t"
    and rem_ok: "ok t \<Longrightarrow> \<forall>bid\<in>set bids. unat bid < cap t \<Longrightarrow>
      \<exists>t'. rem t bids = Inr t' \<and> ok t' \<and> occ t' = occ t |` (- set bids) \<and> cap t' = cap t"
    and get_ok: "ok t \<Longrightarrow> get t q = length (takeWhile (\<lambda>h. h \<in> ran (occ t)) q)"
    and ins_epoch: "ins t hs bids = Inr (t', n) \<Longrightarrow> epoch_of t' = epoch_of t + 1"
    and rem_epoch: "rem t bids = Inr t' \<Longrightarrow> epoch_of t' = epoch_of t + 1"
begin

lemma get_le: "ok t \<Longrightarrow> get t q \<le> length q"
  by (simp add: get_ok length_takeWhile_le)

lemma get_prefix: "ok t \<Longrightarrow> i < get t q \<Longrightarrow> q ! i \<in> ran (occ t)"
  by (metis get_ok nth_mem set_takeWhileD takeWhile_nth)

lemma assign_id: "assignable ps m \<Longrightarrow> m ` (snd ` set ps) \<subseteq> range Some \<Longrightarrow> assign ps m = m"
proof (induction ps arbitrary: m)
  case (Cons p ps)
  obtain h bid where p: "p = (h, bid)" by (cases p)
  with Cons.prems have "m(bid \<mapsto> h) = m" by (auto simp: fun_upd_idem)
  with Cons p show ?case by auto
qed simp

lemma assign_other: "bid \<notin> snd ` set ps \<Longrightarrow> assign ps m bid = m bid"
proof (induction ps arbitrary: m)
  case (Cons p ps)
  then show ?case by (cases p) auto
qed simp

text \<open>Removing the freshly assigned blocks of an insertion restores the occupancy.\<close>

lemma ins_rem:
  assumes "ok t" "length hs = length bids" "\<forall>bid\<in>set bids. unat bid < cap t \<and> occ t bid = None"
    and "assignable (zip hs bids) (occ t)" "ins t hs bids = Inr (t1, n)"
  shows "\<exists>t2. rem t1 bids = Inr t2 \<and> ok t2 \<and> occ t2 = occ t"
proof -
  have snd: "snd ` set (zip hs bids) = set bids"
    using assms(2) by (metis list.set_map map_snd_zip)
  have "\<forall>p\<in>set (zip hs bids). unat (snd p) < cap t" using assms(3) by (auto dest: set_zip_rightD)
  with ins_ok[OF assms(1) _ assms(4)] assms(5) have t1: "ok t1"
    "occ t1 = assign (zip hs bids) (occ t)" "cap t1 = cap t" by auto
  with rem_ok[OF t1(1), of bids] assms(3) obtain t2 where t2: "rem t1 bids = Inr t2" "ok t2"
    "occ t2 = assign (zip hs bids) (occ t) |` (- set bids)" by auto
  have "(assign (zip hs bids) (occ t) |` (- set bids)) b = occ t b" for b
    using assign_other[of b "zip hs bids" "occ t"] assms(3) snd by (auto simp: restrict_map_def)
  with t2 show ?thesis by auto
qed

end

interpretation ht: block_hash ht_new ht_insert ht_get ht_remove ht_epoch ht_ok occupied capacity
proof
  show "ht_ok (ht_new n)" "occupied (ht_new n) = Map.empty" "capacity (ht_new n) = n" for n
    by simp_all (simp add: capacity_def ht_new_def)
next
  fix t :: hash_table and hs bids
  assume "ht_ok t" "\<forall>p\<in>set (zip hs bids). unat (snd p) < capacity t" "assignable (zip hs bids) (occupied t)"
  from fold_insert_ok[OF this, of 0]
  show "\<exists>t' n. ht_insert t hs bids = Inr (t', n) \<and> ht_ok t' \<and>
      occupied t' = assign (zip hs bids) (occupied t) \<and> capacity t' = capacity t"
    by (auto simp: ht_insert_def ht_ok_def capacity_def)
next
  fix t :: hash_table and bids :: "u64 list"
  assume "ht_ok t" "\<forall>bid\<in>set bids. unat bid < capacity t"
  from fold_remove_ok[OF this]
  show "\<exists>t'. ht_remove t bids = Inr t' \<and> ht_ok t' \<and> occupied t' = occupied t |` (- set bids) \<and>
      capacity t' = capacity t"
    by (auto simp: ht_remove_def ht_ok_def capacity_def)
next
  fix t :: hash_table and q
  assume "ht_ok t"
  then show "ht_get t q = length (takeWhile (\<lambda>h. h \<in> ran (occupied t)) q)"
    by (simp add: ht_get_def get_loop_takeWhile ht_ok_hmap_None)
next
  have one: "insert_one p (t, n) = Inr (t', k) \<Longrightarrow> ht_epoch t' = ht_epoch t" for p t n t' k
    by (cases p) (auto simp: insert_one_def set_block_def split: option.splits if_splits sum.splits)
  have "fold_outcome insert_one ps (t, n) = Inr (t', k) \<Longrightarrow> ht_epoch t' = ht_epoch t" for ps t n t' k
    by (induction ps arbitrary: t n) (auto split: sum.splits dest!: one)
  then show "ht_insert t hs bids = Inr (t', n) \<Longrightarrow> ht_epoch t' = ht_epoch t + 1" for t hs bids t' n
    by (auto simp: ht_insert_def split: sum.splits)
next
  have one: "remove_one b t = Inr t' \<Longrightarrow> ht_epoch t' = ht_epoch t" for b t t'
    by (auto simp: remove_one_def Let_def split: option.splits if_splits)
  have "fold_outcome remove_one bs t = Inr t' \<Longrightarrow> ht_epoch t' = ht_epoch t" for bs t t'
    by (induction bs arbitrary: t) (auto split: sum.splits dest!: one)
  then show "ht_remove t bids = Inr t' \<Longrightarrow> ht_epoch t' = ht_epoch t + 1" for t bids t'
    by (auto simp: ht_remove_def split: sum.splits)
qed

section \<open>Epochs\<close>

text \<open>
  A mutation counter that moves by one with every mutation. Between two readings, fewer than
  \<open>2 ^ 64\<close> mutations happen, so equal readings mean that there was none.
\<close>

locale epoch_counter =
  fixes epoch_of :: "'b \<Rightarrow> u64"
    and mutate :: "'b \<Rightarrow> 'b \<Rightarrow> bool"
  assumes mutate_epoch: "mutate b b' \<Longrightarrow> epoch_of b' = epoch_of b + 1"
begin

lemma epoch_mutations: "(mutate ^^ n) b b' \<Longrightarrow> epoch_of b' = epoch_of b + of_nat n"
  by (induction n arbitrary: b') (auto simp: mutate_epoch)

lemma same_epoch_same_state:
  assumes "(mutate ^^ n) b b'" "n < 2 ^ 64" "epoch_of b' = epoch_of b"
  shows "b' = b"
proof -
  have "(of_nat n :: u64) = 0" using epoch_mutations[OF assms(1)] assms(3) by simp
  then have "n = 0" using assms(2) by (auto simp: word_of_nat_eq_0_iff dest: dvd_imp_le)
  with assms(1) show ?thesis by simp
qed

text \<open>Hence the cached lookup is the lookup.\<close>

lemma cached_lookup:
  assumes "(mutate ^^ n) b b'" "n < 2 ^ 64"
  shows "(if epoch_of b = epoch_of b' then get b q else get b' q) = get b' q"
  using same_epoch_same_state[OF assms] by (cases "epoch_of b = epoch_of b'") simp_all

end

text \<open>The mutations of a hash table.\<close>

definition ht_mutates :: "hash_table \<Rightarrow> hash_table \<Rightarrow> bool" where
  "ht_mutates t t' \<longleftrightarrow>
     (\<exists>hs bids n. ht_insert t hs bids = Inr (t', n)) \<or> (\<exists>bids. ht_remove t bids = Inr t')"

interpretation ht_epoch: epoch_counter ht_epoch ht_mutates
  by unfold_locales (auto simp: ht_mutates_def ht.ins_epoch ht.rem_epoch)

section \<open>Properties\<close>

text \<open>inserting blocks that are in range and free (or already hold the same hash) never
  panics, keeps the two tables mirroring each other and makes the table represent the extended
  assignment of blocks to hashes.\<close>

theorem ht_insert_refines:
  assumes "ht_ok t" "\<forall>p\<in>set (zip hs bids). unat (snd p) < capacity t"
    and "assignable (zip hs bids) (occupied t)"
  shows "\<exists>t' n. ht_insert t hs bids = Inr (t', n) \<and> ht_ok t' \<and>
    occupied t' = assign (zip hs bids) (occupied t)"
  using ht.ins_ok[OF assms] by blast

lemma ht_insert_refines_witness:
  "\<exists>t' n. ht_insert (ht_new 8) [100, 100] [1, 2] = Inr (t', n) \<and> occupied t' = [1 \<mapsto> 100, 2 \<mapsto> 100]"
  using ht_insert_refines [of "ht_new 8" "[100, 100]" "[1, 2]"]
  by (auto simp: capacity_def) (auto simp: ht_new_def)

text \<open>removing blocks in range never panics (the \<^verbatim>\<open>unreachable!\<close> is not reached), frees
  exactly these blocks, and a hash is matched afterwards as long as some other block holds it.\<close>

theorem ht_remove_refines:
  assumes "ht_ok t" "\<forall>bid\<in>set bids. unat bid < capacity t"
  shows "\<exists>t'. ht_remove t bids = Inr t' \<and> ht_ok t' \<and> occupied t' = occupied t |` (- set bids) \<and>
    (\<forall>q. ht_get t' q = length (takeWhile (\<lambda>h. \<exists>bid. bid \<notin> set bids \<and> occupied t bid = Some h) q))"
proof -
  obtain t' where t': "ht_remove t bids = Inr t'" "ht_ok t'" "occupied t' = occupied t |` (- set bids)"
    using ht.rem_ok[OF assms] by blast
  have "h \<in> ran (occupied t') \<longleftrightarrow> (\<exists>bid. bid \<notin> set bids \<and> occupied t bid = Some h)" for h
    unfolding t'(3) by (auto simp: ran_def restrict_map_def)
  then show ?thesis using t' ht.get_ok[OF t'(2)] by auto
qed

lemma ht_remove_refines_witness:
  "\<exists>t1 t2. ht_insert (ht_new 8) [100, 100] [1, 2] = Inr (t1, 2) \<and> ht_remove t1 [1] = Inr t2 \<and> ht_get t2 [100] = 1"
proof -
  obtain t1 where t1: "ht_insert (ht_new 8) [100, 100] [1, 2] = Inr (t1, 2)"
    by (simp add: ht_insert_def insert_one_def set_block_def ht_new_def)
  moreover have "ht_ok t1 \<and> occupied t1 = [1 \<mapsto> 100, 2 \<mapsto> 100] \<and> capacity t1 = 8"
    using ht.ins_ok[OF ht.new_ok(1), of "[100, 100]" "[1, 2]" 8] t1 by (simp add: ht.new_ok(3))
  ultimately show ?thesis using ht_remove_refines[of t1 "[1]"]
    by (auto intro!: exI[of _ "2 :: u64"])
qed

text \<open>an insertion of free blocks followed by the removal of the same blocks restores the
  represented assignment, hence every prefix match.\<close>

theorem ht_insert_remove_roundtrip:
  assumes "ht_ok t" "length hs = length bids"
    and "\<forall>bid\<in>set bids. unat bid < capacity t \<and> occupied t bid = None"
    and "assignable (zip hs bids) (occupied t)" "ht_insert t hs bids = Inr (t1, n)"
  shows "\<exists>t2. ht_remove t1 bids = Inr t2 \<and> occupied t2 = occupied t \<and> (\<forall>q. ht_get t2 q = ht_get t q)"
proof -
  obtain t2 where "ht_remove t1 bids = Inr t2" "ht_ok t2" "occupied t2 = occupied t"
    using ht.ins_rem[OF assms] by blast
  then show ?thesis using ht.get_ok assms(1) by auto
qed

lemma ht_insert_remove_roundtrip_witness:
  "\<exists>t1 n t2. ht_insert (ht_new 4) [7, 9] [1, 3] = Inr (t1, n) \<and> ht_remove t1 [1, 3] = Inr t2 \<and>
     (\<forall>q. ht_get t2 q = ht_get (ht_new 4) q)"
proof -
  obtain t1 n where t1: "ht_insert (ht_new 4) [7, 9] [1, 3] = Inr (t1, n)"
    by (simp add: ht_insert_def insert_one_def set_block_def ht_new_def)
  with ht_insert_remove_roundtrip[of "ht_new 4" "[7, 9]" "[1, 3]"] show ?thesis
    by (auto simp: ht.new_ok)
qed

end
