(* ===== verification/RadixTreeBlockHash.thy ===== *)
theory RadixTreeBlockHash
  imports RadixTreeOps HashTable
begin

text \<open>
  The production radix tree keeps its invariant and represents a set of pairs of a path of hashes and a
  block filed under it: insertion adds the prefixes of the key, removal drops the blocks and every path
  with a prefix that no block holds any more, lookup finds the longest path.
\<close>

section \<open>The table and the cells\<close>

definition tab :: "cell multiset \<Rightarrow> (u64 \<Rightarrow> nat option) \<Rightarrow> bool" where
  "tab C \<tau> \<longleftrightarrow> nodup (image_mset bid_of C) \<and> (\<forall>b a. \<tau> b = Some a \<longleftrightarrow> (\<exists>q. (q, b, a) \<in># C))"

definition rehome :: "nat \<Rightarrow> cell \<Rightarrow> cell" where
  "rehome x = (\<lambda>(q, b, a). (q, b, x))"

lemma rehome_simps [simp]: "rehome x (q, b, a) = (q, b, x)" "bid_of (rehome x c) = bid_of c"
  "bid_of \<circ> rehome x = bid_of" "rehome x (pre q c) = pre q (rehome x c)"
  by (auto simp: rehome_def bid_of_def pre_def split_def fun_eq_iff)

lemma tab_bids: "tab C \<tau> \<Longrightarrow> x \<in># C \<Longrightarrow> \<tau> (bid_of x) = Some (home_of x)"
  by (cases x) (auto simp: tab_def)

lemma tab_None: "tab C \<tau> \<Longrightarrow> \<tau> b = None \<longleftrightarrow> b \<notin> bid_of ` set_mset C"
proof -
  assume *: "tab C \<tau>"
  have "\<tau> b = None \<longleftrightarrow> (\<forall>a. \<tau> b \<noteq> Some a)" by (cases "\<tau> b") auto
  also have "\<dots> \<longleftrightarrow> b \<notin> bid_of ` set_mset C" using * by (force simp: tab_def bid_of_def)
  finally show ?thesis .
qed

lemma cell_bidI: "(q, b, a) \<in># C \<Longrightarrow> b \<in> bid_of ` set_mset C"
  by (force simp: bid_of_def)

lemma tab_add:
  assumes "tab C \<tau>" "distinct (map bid_of new)" "\<forall>x\<in>set new. \<tau> (bid_of x) = None \<and> \<tau>' (bid_of x) = Some (home_of x)"
    and "\<forall>b. b \<notin> bid_of ` set new \<longrightarrow> \<tau>' b = \<tau> b"
  shows "tab (C + mset new) \<tau>'"
proof -
  have dis: "bid_of ` set_mset C \<inter> bid_of ` set new = {}" using tab_None[OF assms(1)] assms(3) by fastforce
  then have "nodup (image_mset bid_of (C + mset new))"
    using assms(1,2) by (simp add: tab_def nodup_union flip: mset_map)
  moreover have "\<tau>' b = Some a \<longleftrightarrow> (\<exists>q. (q, b, a) \<in># C + mset new)" for b a
  proof (cases "b \<in> bid_of ` set new")
    case True
    then obtain q a' where x: "(q, b, a') \<in> set new" by (auto simp: bid_of_def)
    with assms(3) have \<tau>': "\<tau>' b = Some a'" by (auto simp: home_of_def bid_of_def)
    have "(q', b, a) \<in> set new \<Longrightarrow> a = a'" for q' using assms(3) \<tau>' by (force simp: home_of_def bid_of_def)
    moreover have "(q', b, a) \<notin># C" for q' using cell_bidI[of q' b a C] dis True by auto
    ultimately show ?thesis using x \<tau>' by auto
  next
    case False
    then have "(q, b, a) \<notin> set new" for q by (auto simp: bid_of_def image_iff)
    with False assms(1,4) show ?thesis by (auto simp: tab_def)
  qed
  ultimately show ?thesis by (auto simp: tab_def)
qed

lemma tab_del:
  assumes "tab (C + D) \<tau>" "\<forall>b. \<tau>' b = (if b \<in> bid_of ` set_mset D then None else \<tau> b)"
  shows "tab C \<tau>'"
proof -
  have nd: "nodup (image_mset bid_of C)" "bid_of ` set_mset C \<inter> bid_of ` set_mset D = {}"
    using assms(1) by (auto simp: tab_def nodup_union)
  have "\<tau>' b = Some a \<longleftrightarrow> (\<exists>q. (q, b, a) \<in># C)" for b a
  proof (cases "b \<in> bid_of ` set_mset D")
    case True
    then have "(q, b, a) \<notin># C" for q using True cell_bidI[of q b a C] nd(2) by auto
    with True assms(2) show ?thesis by simp
  next
    case False
    then have "(q, b, a) \<notin># D" for q by (auto simp: bid_of_def image_iff)
    with False assms show ?thesis by (auto simp: tab_def)
  qed
  with nd(1) show ?thesis by (auto simp: tab_def)
qed

lemma tab_move:
  assumes "tab (C + D) \<tau>" "\<forall>b. \<tau>' b = (if b \<in> bid_of ` set_mset D then Some x else \<tau> b)"
  shows "tab (C + image_mset (rehome x) D) \<tau>'"
proof -
  have nd: "nodup (image_mset bid_of C)" "nodup (image_mset bid_of D)" "bid_of ` set_mset C \<inter> bid_of ` set_mset D = {}"
    using assms(1) by (auto simp: tab_def nodup_union)
  have "image_mset bid_of (image_mset (rehome x) D) = image_mset bid_of D" by (simp add: multiset.map_comp)
  then have "nodup (image_mset bid_of (C + image_mset (rehome x) D))"
    using nd by (simp add: nodup_union image_image)
  moreover have "\<tau>' b = Some a \<longleftrightarrow> (\<exists>q. (q, b, a) \<in># C + image_mset (rehome x) D)" for b a
  proof (cases "b \<in> bid_of ` set_mset D")
    case True
    then have "(q, b, a) \<notin># C" for q using True cell_bidI[of q b a C] nd(3) by auto
    moreover have "(\<exists>q. (q, b, a) \<in># image_mset (rehome x) D) \<longleftrightarrow> a = x"
    proof
      assume "a = x"
      from True obtain q a' where "(q, b, a') \<in># D" by (auto simp: bid_of_def)
      then have "rehome x (q, b, a') \<in># image_mset (rehome x) D" unfolding set_image_mset by (rule imageI)
      with \<open>a = x\<close> show "\<exists>q. (q, b, a) \<in># image_mset (rehome x) D" by auto
    qed (auto simp: rehome_def)
    ultimately show ?thesis using True assms(2) by auto
  next
    case False
    then have "(q, b, a) \<notin># image_mset (rehome x) D" "(q, b, a) \<notin># D" for q by (force simp: bid_of_def rehome_def)+
    with False assms show ?thesis by (auto simp: tab_def)
  qed
  ultimately show ?thesis by (auto simp: tab_def)
qed

section \<open>Cells along a path\<close>

lemma cells_below:
  assumes "s \<noteq> []"
  shows "(rvalue n @ s, b, a) \<in># cells n \<longleftrightarrow> (s, b, a) \<in># cells_ch (rchildren n)"
proof -
  have "(rvalue n @ s, b, a) \<notin># own (raddr n) (rvalue n) (rpayload n)"
  proof
    assume "(rvalue n @ s, b, a) \<in># own (raddr n) (rvalue n) (rpayload n)"
    then obtain i where "i < length (rvalue n)" "rvalue n @ s = take (Suc i) (rvalue n)" by (auto simp: in_own)
    then have "length (rvalue n @ s) \<le> length (rvalue n)" by (metis length_take min.cobounded1)
    with assms show False by simp
  qed
  moreover have "(rvalue n @ s, b, a) \<in># image_mset (pre (rvalue n)) (cells_ch (rchildren n)) \<longleftrightarrow> (s, b, a) \<in># cells_ch (rchildren n)"
    by (force simp: pre_def)
  ultimately show ?thesis by (simp add: cells_eq[of n])
qed

lemma located_head:
  "located c q m \<Longrightarrow> rwf c \<Longrightarrow> childless_empty c \<Longrightarrow> rvalue m \<noteq> [] \<Longrightarrow> r \<noteq> [] \<Longrightarrow> hd r = hd (rvalue m) \<Longrightarrow>
     rvalue c \<noteq> [] \<and> hd (rvalue c) = hd (q @ r)"
  by (erule located.cases) (auto simp: childless_empty_def hd_append)

lemma located_rwf: "located n q m \<Longrightarrow> rwf n \<Longrightarrow> rwf m"
  by (induction rule: located.induct) (auto dest: rwf_kid)

text \<open>Paths that go on along a node's label are filed in this node or below it.\<close>

lemma cells_located:
  "located n q m \<Longrightarrow> rwf n \<Longrightarrow> rvalue m \<noteq> [] \<Longrightarrow> r \<noteq> [] \<Longrightarrow> hd r = hd (rvalue m) \<Longrightarrow>
     (q @ r, b, a) \<in># cells n \<longleftrightarrow> (r, b, a) \<in># cells m"
proof (induction rule: located.induct)
  case (below c n q m)
  have c: "rwf c" "childless_empty c" using rwf_kid[OF below.prems(1) below.hyps(1)] by auto
  have good: "good_ch (rchildren n)" by (rule rwf_good[OF below.prems(1)])
  have h: "rvalue c \<noteq> []" "hd (rvalue c) = hd (q @ r)" using located_head[OF below.hyps(2) c below.prems(2-4)] by auto
  have ne: "q @ r \<noteq> []" using below.prems(3) by simp
  obtain j where j: "child_at (hd (q @ r)) (rchildren n) = Some j"
    using child_at_None[OF good _ below.hyps(1) h(1)] h(2) by (cases "child_at (hd (q @ r)) (rchildren n)") auto
  have "(q @ r, b, a) \<in># cells_ch (rchildren n) \<longleftrightarrow> (q @ r, b, a) \<in># cells c"
    using in_child[OF good j, of "tl (q @ r)" b a] child_at_Some[OF good j below.hyps(1) h] ne below.hyps(1)
    by (auto simp: in_cells_ch)
  then show ?case using below.IH[OF c(1) below.prems(2-4)] cells_below[OF ne, of n b a] by simp
qed simp

lemma stored_located:
  "located n q m \<Longrightarrow> rwf n \<Longrightarrow> rvalue m \<noteq> [] \<Longrightarrow> r \<noteq> [] \<Longrightarrow> hd r = hd (rvalue m) \<Longrightarrow>
     stored n (q @ r) \<longleftrightarrow> stored m r"
  by (simp add: stored_def cells_located)

lemma no_child_stored:
  assumes "rwf m" "no_child m key" "key \<noteq> []" "r \<noteq> []" "hd r = hd key"
  shows "\<not> stored_ch (rchildren m) r"
proof
  assume "stored_ch (rchildren m) r"
  then obtain c b a where c: "c \<in> set (kids (rchildren m))" "(r, b, a) \<in># cells c" by (auto simp: stored_ch_def in_cells_ch)
  with cell_head[OF c(2)] rwf_kid[OF assms(1) c(1)] have h: "rvalue c \<noteq> []" "hd r = hd (rvalue c)" by auto
  show False
  proof (cases "rchildren m")
    case (Small v)
    with assms(2,3,5) c(1) h show False by (auto simp: no_child_def)
  next
    case (Large e)
    with c(1) obtain k where "(k, c) \<in> set e" by auto
    moreover from this have "k = hd (rvalue c)" using rwf_good[OF assms(1)] Large h(1) by (force simp: good_ch_def sibs_def)
    ultimately show False using assms(2,3,5) Large h(2) by (force simp: no_child_def)
  qed
qed

lemma stored_below: "s \<noteq> [] \<Longrightarrow> stored n (rvalue n @ s) \<longleftrightarrow> stored_ch (rchildren n) s"
  by (simp add: stored_def stored_ch_def cells_below)

text \<open>A non-root node's own path is stored, and so is every prefix of a stored path.\<close>

lemma stored_own: "rwf n \<Longrightarrow> q \<noteq> [] \<Longrightarrow> prefix q (rvalue n) \<Longrightarrow> stored n q"
  using stored_node[of n q "lcp_len (rvalue n) q"]
  by (auto simp: lcp_len_commute[of "rvalue n"] prefix_iff_lcp_len)

lemma stored_prefix: "rwf n \<Longrightarrow> stored n q \<Longrightarrow> p \<noteq> [] \<Longrightarrow> prefix p q \<Longrightarrow> stored n p"
proof (induction n arbitrary: p q rule: rnode_induct)
  case (Node n)
  show ?case
  proof (cases "prefix p (rvalue n)")
    case True
    with Node.prems stored_own show ?thesis by blast
  next
    case False
    have "\<not> prefix q (rvalue n)" using False Node.prems(4) prefix_order.trans by blast
    then obtain b a where "(q, b, a) \<in># image_mset (pre (rvalue n)) (cells_ch (rchildren n))"
      using Node.prems(2) by (auto simp: stored_def cells_eq[of n] in_own take_is_prefix)
    then obtain q' c where c: "q = rvalue n @ q'" "c \<in> set (kids (rchildren n))" "(q', b, a) \<in># cells c"
      by (auto simp: in_cells_ch)
    obtain p' where p': "p = rvalue n @ p'" "p' \<noteq> []" "prefix p' q'"
    proof -
      have "prefix (rvalue n) p \<or> prefix p (rvalue n)" using Node.prems(4) c(1) by (metis prefix_same_cases prefixI)
      with False obtain p' where "p = rvalue n @ p'" by (auto simp: prefix_def)
      moreover from this False have "p' \<noteq> []" by auto
      ultimately show ?thesis using that Node.prems(4) c(1) by auto
    qed
    have "stored c p'" using Node.IH[OF c(2) _ _ p'(2,3)] rwf_kid[OF Node.prems(1) c(2)] c(3) by (auto simp: stored_def)
    then have "stored_ch (rchildren n) p'" using c(2) by (auto simp: stored_def stored_ch_def in_cells_ch)
    then show ?thesis using stored_below[OF p'(2)] p'(1) by simp
  qed
qed

section \<open>The invariant\<close>

definition root_ok :: "rnode \<Rightarrow> bool" where
  "root_ok r \<longleftrightarrow> rvalue r = [] \<and> rpayload r = [] \<and> rwf r \<and> nodup (addrs r)"

definition rt_ok :: "radix_tree \<Rightarrow> bool" where
  "rt_ok t \<longleftrightarrow> root_ok (rt_root t) \<and> (\<forall>a\<in>#addrs (rt_root t). a < next_addr t) \<and>
     tab (cells (rt_root t)) (btn_at (block_to_node t)) \<and>
     rt_nodes t = of_nat (size (addrs (rt_root t)))"

text \<open>What the tree stands for.\<close>

definition pairs :: "cell multiset \<Rightarrow> (u64 list \<times> u64) set" where
  "pairs C = {(q, b). \<exists>a. (q, b, a) \<in># C}"

definition rt_pairs :: "radix_tree \<Rightarrow> (u64 list \<times> u64) set" where
  "rt_pairs t = pairs (cells (rt_root t))"

definition rt_capacity :: "radix_tree \<Rightarrow> nat" where
  "rt_capacity t = length (block_to_node t)"

lemma pairs_union [simp]: "pairs (C + D) = pairs C \<union> pairs D" "pairs {#} = {}"
  by (auto simp: pairs_def)

lemma pairs_rehome [simp]: "pairs (image_mset (rehome x) C) = pairs C"
  by (force simp: pairs_def rehome_def)

lemma stored_pairs: "stored n q \<longleftrightarrow> q \<in> fst ` pairs (cells n)"
  by (force simp: stored_def pairs_def)

text \<open>One step of an insertion: new pairs, and otherwise the same contents.\<close>

definition adds :: "radix_tree \<Rightarrow> (u64 list \<times> u64) set \<Rightarrow> radix_tree \<Rightarrow> bool" where
  "adds t N t' \<longleftrightarrow> rt_ok t' \<and> rt_pairs t' = rt_pairs t \<union> N \<and> length (block_to_node t') = length (block_to_node t) \<and>
     rt_size t' = rt_size t \<and> rt_epoch t' = rt_epoch t"

lemma adds_trans: "adds t N t1 \<Longrightarrow> adds t1 N' t2 \<Longrightarrow> adds t (N \<union> N') t2"
  by (auto simp: adds_def)

definition free_in :: "btn \<Rightarrow> u64 list \<Rightarrow> bool" where
  "free_in btn bids \<longleftrightarrow> distinct bids \<and> (\<forall>b\<in>set bids. unat b < length btn \<and> btn_at btn b = None)"

text \<open>Storing to a node below the root, and to the root itself.\<close>

lemma deref_located:
  "root_ok root \<Longrightarrow> located root q m \<Longrightarrow> deref (raddr m) root = Inr m"
  using focus[of root q m] by (simp add: root_ok_def deref_def)

lemma put_ok:
  assumes "root_ok root" "located root q m" "rwf m'" "raddr m' = raddr m"
    and "raddr m = raddr root \<Longrightarrow> rvalue m' = [] \<and> rpayload m' = []"
    and "raddr m \<noteq> raddr root \<Longrightarrow> fits m m'"
  obtains F G where "cells root = F + image_mset (pre q) (cells m)" "addrs root = G + addrs m"
    "cells (put_at (raddr m) m' root) = F + image_mset (pre q) (cells m')"
    "addrs (put_at (raddr m) m' root) = G + addrs m'"
    "nodup (G + addrs m') \<Longrightarrow> root_ok (put_at (raddr m) m' root)"
proof -
  have nd: "nodup (addrs root)" using assms(1) by (simp add: root_ok_def)
  from focus[OF assms(2) nd] obtain F G where FG: "cells root = F + image_mset (pre q) (cells m)" "addrs root = G + addrs m"
    "cells (put_at (raddr m) m' root) = F + image_mset (pre q) (cells m')"
    "addrs (put_at (raddr m) m' root) = G + addrs m'"
    "rwf root \<longrightarrow> rwf m' \<longrightarrow> (raddr m = raddr root \<or> fits m m') \<longrightarrow> rwf (put_at (raddr m) m' root)" by blast
  have "root_ok (put_at (raddr m) m' root)" if "nodup (G + addrs m')"
    using FG(4,5) that assms by (cases "raddr m = raddr root") (auto simp: root_ok_def put_at_eq[of _ _ root])
  with FG that show ?thesis by blast
qed

lemma root_or_label:
  assumes "root_ok root" "located root q m" "raddr m = raddr root"
  shows "m = root"
  using focus[OF assms(2)] assms(1,3) by (simp add: root_ok_def find_at_eq[of _ root])

section \<open>Insertion of a child\<close>

lemma leaf_cells:
  "length bids = length hashes \<Longrightarrow>
     cells (leaf y hashes bids) = mset (map (\<lambda>i. (take (Suc i) hashes, bids ! i, y)) [0..<length hashes])"
  by (simp add: leaf_def cells_ch_def own_leaf)

lemma leaf_ok:
  "length bids = length hashes \<Longrightarrow> hashes \<noteq> [] \<Longrightarrow> rwf (leaf y hashes bids) \<and> childless_empty (leaf y hashes bids) \<and>
     addrs (leaf y hashes bids) = {#y#} \<and> rvalue (leaf y hashes bids) = hashes \<and> concat (rpayload (leaf y hashes bids)) = bids"
  by (auto simp: leaf_def sibs_def childless_empty_def addrs_ch_def)

lemma update_new: "k \<notin> fst ` set m \<Longrightarrow> AList.update k c m = m @ [(k, c)]"
  by (induction m) auto

lemma foldl_update:
  "distinct (map f cs) \<Longrightarrow> f ` set cs \<inter> fst ` set m = {} \<Longrightarrow>
     foldl (\<lambda>m c. AList.update (f c) c m) m cs = m @ map (\<lambda>c. (f c, c)) cs"
proof (induction cs arbitrary: m)
  case (Cons c cs)
  then have "AList.update (f c) c m = m @ [(f c, c)]" by (intro update_new) auto
  with Cons show ?case by auto
qed simp

lemma add_child_ok:
  assumes "rwf m" "no_child m hashes" "hashes \<noteq> []" "length bids = length hashes"
  shows "\<exists>ch. add_child (leaf y hashes bids) hashes (rchildren m) = Inr ch \<and> good_ch ch \<and>
    kids ch = kids (rchildren m) @ [leaf y hashes bids]"
proof -
  let ?n = "leaf y hashes bids"
  note leaf = leaf_ok[OF assms(4,3), of y]
  have good: "good_ch (rchildren m)" by (rule rwf_good[OF assms(1)])
  show ?thesis
  proof (cases "rchildren m")
    case (Small v)
    with assms(2,3) have v: "\<forall>c\<in>set v. rvalue c \<noteq> [] \<and> hd (rvalue c) \<noteq> hd hashes" by (simp add: no_child_def)
    have d: "distinct (map (\<lambda>c. hd (rvalue c)) (v @ [?n]))"
      using good v leaf Small by (auto simp: good_ch_def sibs_def filter_id_conv[THEN iffD2] image_iff)
    then have "good_ch (Small (v @ [?n]))"
      using good v leaf Small assms(3) by (auto simp: good_ch_def sibs_def filter_id_conv[THEN iffD2])
    moreover have "good_ch (Large (map (\<lambda>c. (hd (rvalue c), c)) (v @ [?n])))"
      using good v leaf Small assms(3) d by (auto simp: good_ch_def sibs_def filter_id_conv[THEN iffD2] comp_def)
    moreover have "foldl (\<lambda>m c. AList.update (hd (rvalue c)) c m) [] (v @ [?n]) = map (\<lambda>c. (hd (rvalue c), c)) (v @ [?n])"
      using foldl_update[OF d, of "[]"] by simp
    moreover have "\<not> (\<exists>c\<in>set (v @ [?n]). rvalue c = [])" using v leaf assms(3) by auto
    ultimately show ?thesis using Small by (auto simp: add_child_def Let_def comp_def simp del: foldl_append)
  next
    case (Large e)
    with assms(2,3) have e: "hd hashes \<notin> fst ` set e" by (simp add: no_child_def)
    then have e2: "(hd hashes, b) \<notin> set e" for b by force
    have hds: "hd (rvalue c) \<noteq> hd hashes" if "c \<in> set (map snd e)" "rvalue c \<noteq> []" for c
    proof -
      obtain k where "(k, c) \<in> set e" using \<open>c \<in> set (map snd e)\<close> by auto
      moreover from this have "hd (rvalue c) = k" using good Large \<open>rvalue c \<noteq> []\<close> by (auto simp: good_ch_def sibs_def)
      moreover have "k \<in> fst ` set e" using \<open>(k, c) \<in> set e\<close> by force
      ultimately show ?thesis using e by metis
    qed
    have "hd hashes \<notin> (\<lambda>c. hd (rvalue c)) ` set (filter (\<lambda>c. rvalue c \<noteq> []) (map snd e))"
      unfolding image_iff using hds[symmetric] by auto
    moreover have "distinct (map fst (e @ [(hd hashes, ?n)]))"
      using good Large e by (simp add: good_ch_def sibs_def)
    ultimately have "good_ch (Large (e @ [(hd hashes, ?n)]))"
      using good Large leaf assms(3) unfolding good_ch_def sibs_def by simp
    moreover have "entry_at (hd hashes) e = None" using e by (force simp: entry_at_def position_None)
    ultimately show ?thesis using Large assms(3) by (simp add: add_child_def)
  qed
qed

text \<open>The pairs that the rest of a key adds below a path.\<close>

definition rest_pairs :: "u64 list \<Rightarrow> u64 list \<Rightarrow> u64 list \<Rightarrow> (u64 list \<times> u64) set" where
  "rest_pairs q hashes bids = {(q @ take (Suc i) hashes, bids ! i) | i. i < length hashes}"

lemma new_leaf_pairs:
  "pairs (mset (map (\<lambda>i. (q @ take (Suc i) hashes, bids ! i, y)) [0..<length hashes])) = rest_pairs q hashes bids"
  by (force simp: pairs_def rest_pairs_def)

lemma bids_indexed: "length bids = n \<Longrightarrow> map (bid_of \<circ> (\<lambda>i. (f i, bids ! i, g i))) [0..<n] = bids"
  by (auto intro: nth_equalityI)

lemma insert_as_child_ok:
  assumes "rt_ok t" "located (rt_root t) q m" "m = rt_root t \<or> rvalue m \<noteq> []" "no_child m hashes" "hashes \<noteq> []"
    and "length bids = length hashes" "free_in (block_to_node t) bids"
  shows "\<exists>t'. insert_as_child (raddr m) hashes bids t = Inr t' \<and> adds t (rest_pairs (q @ rvalue m) hashes bids) t'"
proof -
  let ?root = "rt_root t" and ?y = "next_addr t"
  have ok: "root_ok ?root" "tab (cells ?root) (btn_at (block_to_node t))" "rt_nodes t = of_nat (size (addrs ?root))"
    "\<forall>a\<in>#addrs ?root. a < ?y" using assms(1) by (simp_all add: rt_ok_def)
  let ?new = "leaf ?y hashes bids"
  note leaf = leaf_ok[OF assms(6,5), of ?y]
  have rwf: "rwf m" using located_rwf[OF assms(2)] ok(1) by (simp add: root_ok_def)
  obtain ch where ch: "add_child ?new hashes (rchildren m) = Inr ch" "good_ch ch" "kids ch = kids (rchildren m) @ [?new]"
    using add_child_ok[OF rwf assms(4-6)] by blast
  define m' where "m' = RNode (raddr m) (rvalue m) (rpayload m) ch"
  have m': "rwf m'" "raddr m' = raddr m" using rwf ch(2) by (auto simp: m'_def good_ch_def rwf_eq[of m])
  have fits: "raddr m \<noteq> raddr ?root \<Longrightarrow> fits m m'"
    using assms(3) root_or_label[OF ok(1) assms(2)] by (auto simp: fits_def m'_def childless_empty_def)
  have rt: "raddr m = raddr ?root \<Longrightarrow> rvalue m' = [] \<and> rpayload m' = []"
    using root_or_label[OF ok(1) assms(2)] ok(1) by (simp add: root_ok_def m'_def)
  from put_ok[OF ok(1) assms(2) m' rt fits] obtain F G where FG:
    "cells ?root = F + image_mset (pre q) (cells m)" "addrs ?root = G + addrs m"
    "cells (put_at (raddr m) m' ?root) = F + image_mset (pre q) (cells m')"
    "addrs (put_at (raddr m) m' ?root) = G + addrs m'"
    "nodup (G + addrs m') \<Longrightarrow> root_ok (put_at (raddr m) m' ?root)" by blast
  let ?new_cells = "map (\<lambda>i. ((q @ rvalue m) @ take (Suc i) hashes, bids ! i, ?y)) [0..<length hashes]"
  have "cells m' = cells m + image_mset (pre (rvalue m)) (cells ?new)"
    by (simp add: m'_def cells_eq[of m] cells_ch_def ch(3))
  then have cells': "cells (put_at (raddr m) m' ?root) = cells ?root + mset ?new_cells"
    by (simp add: FG leaf_cells[OF assms(6)] multiset.map_comp comp_def flip: mset_map)
  have am: "addrs m' = addrs m + {#?y#}" using leaf by (simp add: m'_def addrs_eq[of m] addrs_ch_def ch(3))
  then have addrs': "addrs (put_at (raddr m) m' ?root) = addrs ?root + {#?y#}" using FG by simp
  have nd: "nodup (addrs ?root + {#?y#})" using ok(1,4) by (auto simp: root_ok_def)
  obtain btn' where btn': "fold_outcome (register (\<lambda>old. old = None) ?y) bids (block_to_node t) = Inr btn'"
    "length btn' = length (block_to_node t)" "btn_at btn' = (\<lambda>b. if b \<in> set bids then Some ?y else btn_at (block_to_node t) b)"
    using fold_register[of bids "block_to_node t" "\<lambda>old. old = None" ?y] assms(7) by (auto simp: free_in_def)
  have bs: "map bid_of ?new_cells = bids" using bids_indexed[OF assms(6)] by simp
  have "tab (cells ?root + mset ?new_cells) (btn_at btn')"
  proof (rule tab_add[OF ok(2)])
    show "distinct (map bid_of ?new_cells)" unfolding bs using assms(7) by (simp add: free_in_def)
    have "bid_of x \<in> set bids" if "x \<in> set ?new_cells" for x using imageI[OF that, of bid_of] bs by (metis list.set_map)
    then show "\<forall>x\<in>set ?new_cells. btn_at (block_to_node t) (bid_of x) = None \<and> btn_at btn' (bid_of x) = Some (home_of x)"
      using assms(7) btn'(3) by (auto simp: free_in_def)
    show "\<forall>b. b \<notin> bid_of ` set ?new_cells \<longrightarrow> btn_at btn' b = btn_at (block_to_node t) b"
      using bs btn'(3) by (metis list.set_map)
  qed
  then have "rt_ok (t\<lparr>rt_nodes := rt_nodes t + 1, next_addr := ?y + 1,
      rt_root := put_at (raddr m) m' ?root, block_to_node := btn'\<rparr>)"
    using FG(5) nd ok(3,4) FG(2) am by (auto simp: rt_ok_def cells' addrs' add.assoc less_Suc_eq)
  moreover have "pairs (cells ?root + mset ?new_cells) = rt_pairs t \<union> rest_pairs (q @ rvalue m) hashes bids"
    unfolding pairs_union new_leaf_pairs rt_pairs_def ..
  moreover have "concat (rpayload ?new) = bids" using leaf by blast
  ultimately show ?thesis
    using ch(1) btn' by (simp add: insert_as_child_def deref_located[OF ok(1) assms(2)] alloc_def Let_def m'_def[symmetric] adds_def)
      (simp add: rt_pairs_def cells')
qed

section \<open>Extension of a leaf\<close>

lemma not_root:
  "root_ok root \<Longrightarrow> located root q m \<Longrightarrow> rvalue m \<noteq> [] \<Longrightarrow> raddr m \<noteq> raddr root"
  using root_or_label by (fastforce simp: root_ok_def)

lemma extend_leaf_ok:
  assumes "rt_ok t" "located (rt_root t) q m" "rvalue m \<noteq> []" "kids (rchildren m) = []"
    and "length bids = length hashes" "free_in (block_to_node t) bids"
  shows "\<exists>t'. extend_leaf (raddr m) hashes bids t = Inr t' \<and> adds t (rest_pairs (q @ rvalue m) hashes bids) t'"
proof -
  let ?root = "rt_root t" and ?a = "raddr m"
  have ok: "root_ok ?root" "tab (cells ?root) (btn_at (block_to_node t))" "rt_nodes t = of_nat (size (addrs ?root))"
    "\<forall>a\<in>#addrs ?root. a < next_addr t" using assms(1) by (simp_all add: rt_ok_def)
  have rwf: "rwf m" using located_rwf[OF assms(2)] ok(1) by (simp add: root_ok_def)
  define m' where "m' = RNode ?a (rvalue m @ hashes) (rpayload m @ map (\<lambda>b. [b]) bids) (rchildren m)"
  have m': "rwf m'" "raddr m' = ?a" using rwf assms(5) by (auto simp: m'_def rwf_eq[of m])
  have fits: "fits m m'" using assms(3) by (simp add: fits_def m'_def childless_empty_def)
  note nr = not_root[OF ok(1) assms(2,3)]
  from put_ok[OF ok(1) assms(2) m' _ fits] nr obtain F G where FG:
    "cells ?root = F + image_mset (pre q) (cells m)" "addrs ?root = G + addrs m"
    "cells (put_at ?a m' ?root) = F + image_mset (pre q) (cells m')"
    "addrs (put_at ?a m' ?root) = G + addrs m'"
    "nodup (G + addrs m') \<Longrightarrow> root_ok (put_at ?a m' ?root)" by blast
  let ?new_cells = "map (\<lambda>i. ((q @ rvalue m) @ take (Suc i) hashes, bids ! i, ?a)) [0..<length hashes]"
  have "length (rpayload m) = length (rvalue m)" using rwf by (simp add: rwf_eq[of m])
  then have "cells m' = cells m + image_mset (pre (rvalue m)) (own ?a hashes (map (\<lambda>b. [b]) bids))"
    using assms(4) by (simp add: m'_def cells_eq[of m] cells_ch_def own_append)
  then have cells': "cells (put_at ?a m' ?root) = cells ?root + mset ?new_cells"
    by (simp add: FG own_leaf[OF assms(5)] multiset.map_comp comp_def flip: mset_map)
  have addrs': "addrs m' = addrs m" by (simp add: m'_def addrs_eq[of m])
  obtain btn' where btn': "fold_outcome (register (\<lambda>old. old = None \<or> old = Some ?a) ?a) bids (block_to_node t) = Inr btn'"
    "length btn' = length (block_to_node t)" "btn_at btn' = (\<lambda>b. if b \<in> set bids then Some ?a else btn_at (block_to_node t) b)"
    using fold_register[of bids "block_to_node t" "\<lambda>old. old = None \<or> old = Some ?a" ?a] assms(6) by (auto simp: free_in_def)
  have bs: "map bid_of ?new_cells = bids" using bids_indexed[OF assms(5)] by simp
  have "tab (cells ?root + mset ?new_cells) (btn_at btn')"
  proof (rule tab_add[OF ok(2)])
    show "distinct (map bid_of ?new_cells)" unfolding bs using assms(6) by (simp add: free_in_def)
    have "bid_of x \<in> set bids" if "x \<in> set ?new_cells" for x using imageI[OF that, of bid_of] bs by (metis list.set_map)
    then show "\<forall>x\<in>set ?new_cells. btn_at (block_to_node t) (bid_of x) = None \<and> btn_at btn' (bid_of x) = Some (home_of x)"
      using assms(6) btn'(3) by (auto simp: free_in_def)
    show "\<forall>b. b \<notin> bid_of ` set ?new_cells \<longrightarrow> btn_at btn' b = btn_at (block_to_node t) b"
      using bs btn'(3) by (metis list.set_map)
  qed
  then have "rt_ok (t\<lparr>rt_root := put_at ?a m' ?root, block_to_node := btn'\<rparr>)"
    using FG(5) ok FG(2,4) addrs' by (auto simp: rt_ok_def cells' root_ok_def)
  moreover have "pairs (cells ?root + mset ?new_cells) = rt_pairs t \<union> rest_pairs (q @ rvalue m) hashes bids"
    unfolding pairs_union new_leaf_pairs rt_pairs_def ..
  ultimately show ?thesis
    using btn' by (simp add: extend_leaf_def deref_located[OF ok(1) assms(2)] m'_def[symmetric] adds_def)
      (simp add: rt_pairs_def cells')
qed

section \<open>Registering aliases in the tree\<close>

definition fresh_pairs :: "btn \<Rightarrow> u64 list \<Rightarrow> u64 list \<Rightarrow> u64 list \<Rightarrow> (u64 list \<times> u64) set" where
  "fresh_pairs btn q key al = {(q @ take (Suc i) key, al ! i) | i. i < length al \<and> btn_at btn (al ! i) = None}"

lemma pairs_new_cells: "pairs (image_mset (pre q) (mset (new_cells key al btn f))) = fresh_pairs btn q key al"
  by (force simp: pairs_def fresh_pairs_def new_cells_def fresh_at_def)

lemma bids_new_cells: "map bid_of (new_cells key al btn f) = filter (\<lambda>b. btn_at btn b = None) al"
proof -
  have "map bid_of (new_cells key al btn f) = map (\<lambda>i. al ! i) (filter (\<lambda>i. btn_at btn (al ! i) = None) [0..<length al])"
    by (simp add: new_cells_def fresh_at_def[abs_def] comp_def)
  also have "\<dots> = filter (\<lambda>b. btn_at btn b = None) (map (\<lambda>i. al ! i) [0..<length al])"
    by (simp add: filter_map comp_def)
  finally show ?thesis by (simp add: map_nth)
qed

lemma tab_registered:
  assumes "tab C (btn_at btn)" "distinct al" "registered al btn f btn'"
  shows "tab (C + mset (map (pre q) (new_cells key al btn f))) (btn_at btn')"
proof (rule tab_add[OF assms(1)])
  have bs: "map bid_of (map (pre q) (new_cells key al btn f)) = filter (\<lambda>b. btn_at btn b = None) al"
    by (simp add: bids_new_cells)
  show "distinct (map bid_of (map (pre q) (new_cells key al btn f)))" unfolding bs using assms(2) by simp
  show "\<forall>x\<in>set (map (pre q) (new_cells key al btn f)). btn_at btn (bid_of x) = None \<and> btn_at btn' (bid_of x) = Some (home_of x)"
    using assms(3) by (auto simp: new_cells_def registered_def fresh_at_def)
  show "\<forall>b. b \<notin> bid_of ` set (map (pre q) (new_cells key al btn f)) \<longrightarrow> btn_at btn' b = btn_at btn b"
    using assms(3) unfolding registered_def list.set_map[symmetric] bs by auto
qed

lemma alias_in_ok:
  assumes "rt_ok t" "key = [] \<or> stored (rt_root t) key" "length al = length key" "distinct al"
    and "\<forall>b\<in>set al. unat b < length (block_to_node t)"
  shows "\<exists>t'. alias_in key al t = Inr t' \<and> adds t (fresh_pairs (block_to_node t) [] key al) t' \<and>
    shape (rt_root t') = shape (rt_root t) \<and>
    (\<forall>b. b \<notin> set al \<longrightarrow> btn_at (block_to_node t') b = btn_at (block_to_node t) b)"
proof -
  let ?root = "rt_root t"
  have ok: "root_ok ?root" "tab (cells ?root) (btn_at (block_to_node t))" using assms(1) by (simp_all add: rt_ok_def)
  then have r: "rvalue ?root = []" "rpayload ?root = []" "rwf ?root" by (simp_all add: root_ok_def)
  have "key = [] \<or> stored_ch (rchildren ?root) key"
    using assms(2) stored_below[of key ?root] r(1) by auto
  from alias_walk_ok[OF rwf_good[OF r(3)] this assms(3-5)] obtain ch' btn' f where
    w: "alias_walk (rchildren ?root) key al (block_to_node t) = Inr (ch', btn')" "good_ch ch'"
    "map_kids shape ch' = map_kids shape (rchildren ?root)" "addrs_ch ch' = addrs_ch (rchildren ?root)"
    "cells_ch ch' = cells_ch (rchildren ?root) + mset (new_cells key al (block_to_node t) f)"
    "registered al (block_to_node t) f btn'" by blast
  define root' where "root' = RNode (raddr ?root) [] [] ch'"
  have cells': "cells root' = cells ?root + mset (map (pre []) (new_cells key al (block_to_node t) f))"
    using w(5) r by (simp add: root'_def cells_eq[of ?root])
  have "root_ok root'" "addrs root' = addrs ?root"
    using w(2,4) ok(1) by (auto simp: root_ok_def root'_def good_ch_def addrs_eq[of ?root])
  then have "rt_ok (t\<lparr>rt_root := root', block_to_node := btn'\<rparr>)"
    using assms(1) tab_registered[OF ok(2) assms(4) w(6), of "[]" key] by (simp add: rt_ok_def cells')
  moreover have "pairs (cells root') = rt_pairs t \<union> fresh_pairs (block_to_node t) [] key al"
    using pairs_new_cells[of "[]" key al "block_to_node t" f] by (simp add: cells' rt_pairs_def)
  moreover have "shape root' = shape ?root" using w(3) r by (simp add: root'_def shape_eq[of ?root])
  moreover have "alias_in key al t = Inr (t\<lparr>rt_root := root', block_to_node := btn'\<rparr>)"
    by (simp add: alias_in_def alias_path_def w(1) r root'_def)
  ultimately show ?thesis using w(6) by (auto simp: adds_def registered_def rt_pairs_def)
qed

section \<open>Splitting a node\<close>

lemma own_rehome: "own x v p = image_mset (rehome x) (own a v p)"
proof (induction a v p rule: own.induct)
  case (1 a h v bs p)
  then show ?case by (simp add: multiset.map_comp comp_def flip: mset_map)
qed auto

lemma split_ok:
  assumes "rt_ok t" "located (rt_root t) q m" "c = lcp_len (rvalue m) hashes" "0 < c" "c < length (rvalue m)" "c < length hashes"
    and "length bids = length hashes" "distinct bids" "\<forall>b\<in>set bids. unat b < length (block_to_node t)"
    and "\<forall>b\<in>set (drop c bids). btn_at (block_to_node t) b = None"
  shows "\<exists>t'. split_node_at_insert (raddr m) c hashes bids t = Inr t' \<and>
    adds t (fresh_pairs (block_to_node t) q hashes (take c bids) \<union> rest_pairs (q @ take c hashes) (drop c hashes) (drop c bids)) t'"
proof -
  let ?root = "rt_root t" and ?a = "raddr m" and ?x = "next_addr t" and ?btn = "block_to_node t"
  define y where "y = Suc ?x"
  define v where "v = rvalue m"
  define p where "p = rpayload m"
  have ok: "root_ok ?root" "tab (cells ?root) (btn_at ?btn)" "rt_nodes t = of_nat (size (addrs ?root))"
    "\<forall>a\<in>#addrs ?root. a < ?x" using assms(1) by (simp_all add: rt_ok_def)
  have rwf: "rwf m" using located_rwf[OF assms(2)] ok(1) by (simp add: root_ok_def)
  then have lp: "length p = length v" "[] \<notin> set p" by (simp_all add: rwf_eq[of m] p_def v_def)
  have cv: "c < length v" "c \<le> length bids" using assms(5-7) by (simp_all add: v_def)
  have tk: "take c v = take c hashes" unfolding v_def assms(3) by (rule take_lcp_len)
  note leaf = leaf_ok[of "drop c bids" "drop c hashes" y]
  \<comment> \<open>the aliases of the common part\<close>
  let ?al = "take c bids"
  have al: "0 + length ?al \<le> length (take c v)" "length (take c p) = length (take c v)" "distinct ?al" "\<forall>b\<in>set ?al. unat b < length ?btn"
    using cv lp assms(8,9) by (auto dest: in_set_takeD)
  from fold_alias[OF al, of ?a] obtain p' btn1 where a1:
    "fold_outcome (alias_one ?a) (enumerate 0 ?al) (take c p, ?btn) = Inr (p', btn1)"
    "length p' = length (take c p)" "length btn1 = length ?btn" "[] \<notin> set (take c p) \<longrightarrow> [] \<notin> set p'"
    "own ?a (take c v) p' = own ?a (take c v) (take c p) +
      mset (map (\<lambda>i. (take (Suc (0 + i)) (take c v), ?al ! i, ?a)) (filter (fresh_at ?btn ?al) [0..<length ?al]))"
    "btn_at btn1 = (\<lambda>b. if b \<in> set ?al \<and> btn_at ?btn b = None then Some ?a else btn_at ?btn b)" by blast
  have e1: "map (\<lambda>i. (take (Suc (0 + i)) (take c v), ?al ! i, ?a)) (filter (fresh_at ?btn ?al) [0..<length ?al]) = new_cells hashes ?al ?btn (\<lambda>_. ?a)"
    unfolding new_cells_def by (intro map_cong) (auto simp: tk)
  have own1: "own ?a (take c v) p' = own ?a (take c v) (take c p) + mset (new_cells hashes ?al ?btn (\<lambda>_. ?a))"
    using a1(5) unfolding e1 .
  have reg1: "registered ?al ?btn (\<lambda>_. ?a) btn1"
    using a1(3,6) nth_mem[of _ ?al] by (auto simp: registered_def fresh_at_def simp del: nth_take)
  \<comment> \<open>the new node\<close>
  define split where "split = RNode ?x (drop c v) (drop c p) (rchildren m)"
  define ins where "ins = leaf y (drop c hashes) (drop c bids)"
  define m' where "m' = RNode ?a (take c v) p' (Small [split, ins])"
  have ins: "rwf ins \<and> childless_empty ins \<and> addrs ins = {#y#} \<and> rvalue ins = drop c hashes \<and> concat (rpayload ins) = drop c bids"
    using leaf assms(6,7) by (simp add: ins_def)
  have split: "rwf split" "childless_empty split" using rwf lp cv
    by (auto simp: split_def rwf_eq[of m] childless_empty_def dest: in_set_dropD)
  have "hd (drop c v) \<noteq> hd (drop c hashes)"
    using lcp_len_diff[of v hashes] assms(3,6) cv by (simp add: v_def hd_drop_conv_nth)
  then have rwf': "rwf m'" using a1(2,4) lp ins split cv assms(6) by (auto simp: m'_def sibs_def split_def dest: in_set_takeD)
  have fits: "fits m m'" using assms(4) cv by (auto simp: fits_def m'_def childless_empty_def v_def hd_conv_nth)
  have addr': "raddr m' = ?a" by (simp add: m'_def)
  have "rvalue m \<noteq> []" using cv by (auto simp: v_def)
  note nr = not_root[OF ok(1) assms(2) this]
  from put_ok[OF ok(1) assms(2) rwf' addr' _ fits] nr obtain F G where FG:
    "cells ?root = F + image_mset (pre q) (cells m)" "addrs ?root = G + addrs m"
    "cells (put_at ?a m' ?root) = F + image_mset (pre q) (cells m')" "addrs (put_at ?a m' ?root) = G + addrs m'"
    "nodup (G + addrs m') \<Longrightarrow> root_ok (put_at ?a m' ?root)"
    by blast
  let ?q = "q @ take c v"
  define E where "E = image_mset (pre ?q) (own ?a (drop c v) (drop c p))"
  define D where "D = F + image_mset (pre q) (own ?a (take c v) (take c p)) + image_mset (pre (q @ v)) (cells_ch (rchildren m))"
  have "own ?a v p = own ?a (take c v) (take c p) + image_mset (pre (take c v)) (own ?a (drop c v) (drop c p))"
    using own_append[of "take c p" "take c v" ?a "drop c v" "drop c p"] al(2) by simp
  then have "cells ?root = D + E" by (simp add: FG(1) cells_eq[of m] D_def E_def v_def[symmetric] p_def[symmetric] multiset.map_comp)
  \<comment> \<open>the table\<close>
  let ?new1 = "mset (map (pre q) (new_cells hashes ?al ?btn (\<lambda>_. ?a)))"
  have tab1: "tab ((D + ?new1) + E) (btn_at btn1)"
    using tab_registered[OF ok(2) al(3) reg1, of q hashes] \<open>cells ?root = D + E\<close> by (simp add: ac_simps)
  have bE: "image_mset bid_of E = mset (concat (drop c p))"
    using own_bids[of "drop c p" "drop c v" ?a] lp by (simp add: E_def multiset.map_comp)
  then have bE': "bid_of ` set_mset E = set (concat (drop c p))" by (metis set_image_mset set_mset_mset)
  have "distinct (concat (drop c p))" using ok(2) \<open>cells ?root = D + E\<close> bE by (simp add: tab_def nodup_union)
  moreover have Ein: "unat b < length btn1 \<and> btn_at btn1 b = Some ?a" if "b \<in> set (concat (drop c p))" for b
  proof -
    from that obtain z where z: "z \<in># E" "bid_of z = b" unfolding bE'[symmetric] by blast
    then have "home_of z = ?a" by (auto simp: E_def dest!: own_home)
    with tab_bids[OF tab1, of z] z show ?thesis by (auto simp: btn_at_def split: if_splits)
  qed
  ultimately obtain btn2 where a2: "fold_outcome (register (\<lambda>old. old = Some ?a) ?x) (concat (drop c p)) btn1 = Inr btn2"
    "length btn2 = length btn1" "btn_at btn2 = (\<lambda>b. if b \<in> set (concat (drop c p)) then Some ?x else btn_at btn1 b)"
    using fold_register[of "concat (drop c p)" btn1 "\<lambda>old. old = Some ?a" ?x] by blast
  have tab2: "tab ((D + ?new1) + image_mset (rehome ?x) E) (btn_at btn2)"
    using a2(3) bE' by (intro tab_move[OF tab1]) simp
  have "distinct ?al \<and> set ?al \<inter> set (drop c bids) = {}" using assms(8) by (auto dest: set_take_disj_set_drop_if_distinct)
  then have btn1: "btn_at btn1 b = None" if "b \<in> set (drop c bids)" for b using that a1(6) assms(10) by auto
  then have free2: "unat b < length btn2 \<and> btn_at btn2 b = None" if "b \<in> set (drop c bids)" for b
    using that a2(2,3) a1(3) assms(9) Ein[of b] by (auto dest: in_set_dropD)
  then obtain btn3 where a3: "fold_outcome (register (\<lambda>old. old = None) y) (drop c bids) btn2 = Inr btn3"
    "length btn3 = length btn2" "btn_at btn3 = (\<lambda>b. if b \<in> set (drop c bids) then Some y else btn_at btn2 b)"
    using fold_register[of "drop c bids" btn2 "\<lambda>old. old = None" y] assms(8) by auto
  let ?new2 = "map (\<lambda>i. (?q @ take (Suc i) (drop c hashes), drop c bids ! i, y)) [0..<length (drop c hashes)]"
  have lb: "length (drop c bids) = length (drop c hashes)" using assms(7) by simp
  have bs: "map bid_of ?new2 = drop c bids" using bids_indexed[OF lb] by simp
  have tab3: "tab (((D + ?new1) + image_mset (rehome ?x) E) + mset ?new2) (btn_at btn3)"
  proof (rule tab_add[OF tab2])
    show "distinct (map bid_of ?new2)" unfolding bs using assms(8) by simp
    have "bid_of z \<in> set (drop c bids)" if "z \<in> set ?new2" for z using imageI[OF that, of bid_of] bs by (metis list.set_map)
    moreover have "home_of z = y" if "z \<in> set ?new2" for z using that by auto
    ultimately show "\<forall>z\<in>set ?new2. btn_at btn2 (bid_of z) = None \<and> btn_at btn3 (bid_of z) = Some (home_of z)"
      using free2 unfolding a3(3) by simp
    show "\<forall>b. b \<notin> bid_of ` set ?new2 \<longrightarrow> btn_at btn3 b = btn_at btn2 b"
      unfolding a3(3) list.set_map[symmetric] bs by simp
  qed
  have cells': "cells (put_at ?a m' ?root) = ((D + ?new1) + image_mset (rehome ?x) E) + mset ?new2"
    unfolding FG(3) unfolding m'_def cells_simps own1 D_def E_def
    by (simp add: cells_ch_def split_def ins_def leaf_cells[OF lb] own_rehome[of ?x _ _ ?a] multiset.map_comp comp_def flip: mset_map)
  have am: "addrs m' = addrs m + {#?x, y#}" using ins by (simp add: m'_def addrs_eq[of m] addrs_ch_def split_def)
  have nd: "nodup (addrs ?root + {#?x, y#})" using ok(1,4) by (force simp: root_ok_def y_def)
  let ?t' = "t\<lparr>rt_nodes := rt_nodes t + 1 + 1, next_addr := y + 1, rt_root := put_at ?a m' ?root, block_to_node := btn3\<rparr>"
  have "rt_ok ?t'" unfolding rt_ok_def
  proof (intro conjI)
    show "root_ok (rt_root ?t')" using FG(5) nd am FG(2) by (simp add: add.assoc)
    show "\<forall>a\<in>#addrs (rt_root ?t'). a < next_addr ?t'" using ok(4) FG(2,4) am by (auto simp: y_def less_Suc_eq)
    show "tab (cells (rt_root ?t')) (btn_at (block_to_node ?t'))" using tab3 cells' by simp
    show "rt_nodes ?t' = of_nat (size (addrs (rt_root ?t')))" using ok(3) FG(2,4) am by simp
  qed
  moreover have "rt_pairs ?t' = rt_pairs t \<union>
      (fresh_pairs ?btn q hashes ?al \<union> rest_pairs (q @ take c hashes) (drop c hashes) (drop c bids))"
    using pairs_new_cells[of q hashes ?al ?btn "\<lambda>_. ?a"] new_leaf_pairs[of ?q "drop c hashes" "drop c bids" y] \<open>cells ?root = D + E\<close>
    by (auto simp: rt_pairs_def cells' tk simp flip: mset_map)
  moreover have "split_node_at_insert ?a c hashes bids t = Inr ?t'"
    using cv lp assms(6) a1(1) a2(1) a3(1) ins
    by (simp add: split_node_at_insert_def deref_located[OF ok(1) assms(2)] alloc_def Let_def v_def[symmetric] p_def[symmetric] y_def[symmetric]
        split_def[symmetric] ins_def[symmetric] m'_def[symmetric])
  ultimately show ?thesis using a1(3) a2(2) a3(2) by (auto simp: adds_def)
qed

section \<open>Insertion\<close>

definition insertable :: "radix_tree \<Rightarrow> u64 list \<Rightarrow> u64 list \<Rightarrow> bool" where
  "insertable t key value \<longleftrightarrow> length value = length key \<and> distinct value \<and>
     (\<forall>i<length value. unat (value ! i) < rt_capacity t \<and>
        (\<forall>q. (q, value ! i) \<in> rt_pairs t \<longrightarrow> q = take (Suc i) key))"

text \<open>The paths stored before: the first \<open>length key - n\<close> prefixes of the key.\<close>

definition new_count :: "radix_tree \<Rightarrow> u64 list \<Rightarrow> nat \<Rightarrow> bool" where
  "new_count t key n \<longleftrightarrow> n \<le> length key \<and>
     (\<forall>i<length key. stored (rt_root t) (take (Suc i) key) \<longleftrightarrow> i < length key - n)"

definition inserts :: "radix_tree \<Rightarrow> u64 list \<Rightarrow> u64 list \<Rightarrow> (radix_tree \<times> nat) outcome \<Rightarrow> bool" where
  "inserts t key value r \<longleftrightarrow> (\<exists>t' n. r = Inr (t', n) \<and> adds t (rest_pairs [] key value) t' \<and> new_count t key n)"

lemma btn_at_pairs: "rt_ok t \<Longrightarrow> btn_at (block_to_node t) b = None \<longleftrightarrow> (\<forall>q. (q, b) \<notin> rt_pairs t)"
  using tab_None[of "cells (rt_root t)" "btn_at (block_to_node t)" b]
  by (force simp: rt_ok_def rt_pairs_def pairs_def bid_of_def)

lemma stored_rt: "stored (rt_root t) q \<longleftrightarrow> (\<exists>b. (q, b) \<in> rt_pairs t)"
  by (force simp: stored_pairs rt_pairs_def)

lemma insertable_fresh:
  assumes "rt_ok t" "insertable t key value" "i < length key" "\<not> stored (rt_root t) (take (Suc i) key)"
  shows "btn_at (block_to_node t) (value ! i) = None"
  using assms by (auto simp: btn_at_pairs insertable_def stored_rt)

lemma in_rest_pairs: "x \<in> rest_pairs q hs bs \<longleftrightarrow> (\<exists>i<length hs. x = (q @ take (Suc i) hs, bs ! i))"
  by (auto simp: rest_pairs_def)

lemma rest_pairs_append:
  assumes "length b1 = length k1" "length b2 = length k2"
  shows "rest_pairs q (k1 @ k2) (b1 @ b2) = rest_pairs q k1 b1 \<union> rest_pairs (q @ k1) k2 b2"
proof -
  have "(\<exists>i<length (k1 @ k2). x = (q @ take (Suc i) (k1 @ k2), (b1 @ b2) ! i)) \<longleftrightarrow>
    (\<exists>i<length k1. x = (q @ take (Suc i) k1, b1 ! i)) \<or> (\<exists>i<length k2. x = (q @ k1 @ take (Suc i) k2, b2 ! i))" for x
  proof
    assume "\<exists>i<length (k1 @ k2). x = (q @ take (Suc i) (k1 @ k2), (b1 @ b2) ! i)"
    then obtain i where i: "i < length (k1 @ k2)" "x = (q @ take (Suc i) (k1 @ k2), (b1 @ b2) ! i)" by blast
    show "(\<exists>i<length k1. x = (q @ take (Suc i) k1, b1 ! i)) \<or> (\<exists>i<length k2. x = (q @ k1 @ take (Suc i) k2, b2 ! i))"
    proof (cases "i < length k1")
      case True
      with i assms show ?thesis by (intro disjI1 exI[of _ i]) (simp add: nth_append)
    next
      case False
      with i assms show ?thesis by (intro disjI2 exI[of _ "i - length k1"]) (simp add: nth_append Suc_diff_le)
    qed
  next
    assume "(\<exists>i<length k1. x = (q @ take (Suc i) k1, b1 ! i)) \<or> (\<exists>i<length k2. x = (q @ k1 @ take (Suc i) k2, b2 ! i))"
    then show "\<exists>i<length (k1 @ k2). x = (q @ take (Suc i) (k1 @ k2), (b1 @ b2) ! i)"
    proof
      assume "\<exists>i<length k1. x = (q @ take (Suc i) k1, b1 ! i)"
      then obtain i where "i < length k1" "x = (q @ take (Suc i) k1, b1 ! i)" by blast
      with assms show ?thesis by (intro exI[of _ i]) (simp add: nth_append)
    next
      assume "\<exists>i<length k2. x = (q @ k1 @ take (Suc i) k2, b2 ! i)"
      then obtain i where "i < length k2" "x = (q @ k1 @ take (Suc i) k2, b2 ! i)" by blast
      with assms show ?thesis by (intro exI[of _ "length k1 + i"]) (simp add: nth_append)
    qed
  qed
  then show ?thesis unfolding set_eq_iff Un_iff in_rest_pairs append_assoc by blast
qed

lemma rest_pairs_split:
  "length bids = length key \<Longrightarrow> n \<le> length key \<Longrightarrow>
     rest_pairs q key bids = rest_pairs q (take n key) (take n bids) \<union> rest_pairs (q @ take n key) (drop n key) (drop n bids)"
  using rest_pairs_append[of "take n bids" "take n key" "drop n bids" "drop n key" q] by simp

lemma fresh_rest:
  assumes "\<forall>i<length al. btn_at btn (al ! i) \<noteq> None \<longrightarrow> (q @ take (Suc i) key, al ! i) \<in> P" "length al \<le> length key"
  shows "P \<union> fresh_pairs btn q key al = P \<union> rest_pairs q (take (length al) key) al"
proof -
  have r: "x \<in> rest_pairs q (take (length al) key) al \<longleftrightarrow> (\<exists>i<length al. x = (q @ take (Suc i) key, al ! i))" for x
  proof -
    have "length (take (length al) key) = length al" using assms(2) by simp
    moreover have "take (Suc i) (take (length al) key) = take (Suc i) key" if "i < length al" for i
      using that by (simp add: min_absorb1)
    ultimately show ?thesis unfolding in_rest_pairs by (metis (no_types))
  qed
  have f: "x \<in> fresh_pairs btn q key al \<longleftrightarrow> (\<exists>i<length al. btn_at btn (al ! i) = None \<and> x = (q @ take (Suc i) key, al ! i))" for x
    by (auto simp: fresh_pairs_def)
  show ?thesis
  proof (rule set_eqI)
    fix x
    have "x \<in> P \<or> x \<in> fresh_pairs btn q key al \<longleftrightarrow> x \<in> P \<or> x \<in> rest_pairs q (take (length al) key) al"
      unfolding r f using assms(1) by blast
    then show "x \<in> P \<union> fresh_pairs btn q key al \<longleftrightarrow> x \<in> P \<union> rest_pairs q (take (length al) key) al" by simp
  qed
qed

text \<open>Dropping empty nodes changes nothing else.\<close>

lemma gc_root_ok:
  assumes "rt_ok t" "gc_of (rt_root t) root' g"
  shows "rt_ok (gc_nodes g (t\<lparr>rt_root := root'\<rparr>)) \<and> cells root' = cells (rt_root t)"
proof -
  obtain G where G: "addrs (rt_root t) = addrs root' + G" "size G = g" using assms(2) by (auto simp: gc_of_def)
  moreover have "nodup (addrs root')" using assms(1) G(1) by (simp add: rt_ok_def root_ok_def nodup_union)
  ultimately show ?thesis using assms by (auto simp: rt_ok_def root_ok_def gc_of_def gc_nodes_def)
qed

lemma insertable_cong:
  "rt_pairs t' = rt_pairs t \<Longrightarrow> length (block_to_node t') = length (block_to_node t) \<Longrightarrow> insertable t' key value = insertable t key value"
  by (simp add: insertable_def rt_capacity_def)

lemma inserts_cong:
  "rt_pairs t' = rt_pairs t \<Longrightarrow> length (block_to_node t') = length (block_to_node t) \<Longrightarrow> rt_size t' = rt_size t \<Longrightarrow>
     rt_epoch t' = rt_epoch t \<Longrightarrow> inserts t' key value r = inserts t key value r"
  by (simp add: inserts_def adds_def new_count_def stored_rt)

text \<open>The whole key is stored: its blocks become aliases.\<close>

lemma insert_stored:
  assumes "rt_ok t" "insertable t key value" "stored (rt_root t) key" "key \<noteq> []"
  shows "inserts t key value (obind (alias_in key value t) (\<lambda>t'. Inr (t', 0)))"
proof -
  have len: "length value = length key" "distinct value" "\<forall>b\<in>set value. unat b < length (block_to_node t)"
    using assms(2) by (auto simp: insertable_def rt_capacity_def in_set_conv_nth)
  have rwf: "rwf (rt_root t)" using assms(1) by (simp add: rt_ok_def root_ok_def)
  obtain t' where t': "alias_in key value t = Inr t'" "adds t (fresh_pairs (block_to_node t) [] key value) t'"
    using alias_in_ok[OF assms(1) _ len] assms(3) by blast
  have "rt_pairs t \<union> fresh_pairs (block_to_node t) [] key value = rt_pairs t \<union> rest_pairs [] (take (length value) key) value"
    using assms(1,2) len(1) by (intro fresh_rest) (auto simp: btn_at_pairs insertable_def)
  then have "adds t (rest_pairs [] key value) t'" using t'(2) len(1) by (simp add: adds_def)
  moreover have "stored (rt_root t) (take (Suc i) key)" if "i < length key" for i
    using stored_prefix[OF rwf assms(3), of "take (Suc i) key"] assms(4) by (simp add: take_is_prefix)
  ultimately show ?thesis using t'(1) by (auto simp: inserts_def new_count_def)
qed

text \<open>
  The prefix of length \<open>k\<close> is stored and aliased, and then a step files the rest, of which \<open>c\<close> more
  prefixes are stored.
\<close>

lemma insert_rest:
  assumes "rt_ok t" "insertable t key value" "k + c \<le> length key" "take k key = [] \<or> stored (rt_root t) (take k key)"
    and "\<forall>i<length key. stored (rt_root t) (take (Suc i) key) \<longleftrightarrow> i < k + c"
    and step: "\<And>t1. rt_ok t1 \<Longrightarrow> shape (rt_root t1) = shape (rt_root t) \<Longrightarrow> length (block_to_node t1) = length (block_to_node t) \<Longrightarrow>
      \<forall>b\<in>set (drop c (drop k value)). btn_at (block_to_node t1) b = None \<Longrightarrow>
      \<exists>t2. f t1 = Inr t2 \<and> adds t1 (fresh_pairs (block_to_node t1) (take k key) (drop k key) (take c (drop k value)) \<union>
        rest_pairs (take k key @ take c (drop k key)) (drop c (drop k key)) (drop c (drop k value))) t2"
  shows "inserts t key value (obind (alias_in (take k key) (take k value) t) (\<lambda>t1. obind (f t1) (\<lambda>t2. Inr (t2, length key - k - c))))"
proof -
  let ?btn = "block_to_node t"
  have len: "length value = length key" "distinct value" "\<forall>b\<in>set value. unat b < length ?btn"
    using assms(2) by (auto simp: insertable_def rt_capacity_def in_set_conv_nth)
  have al: "length (take k value) = length (take k key)" "distinct (take k value)" "\<forall>b\<in>set (take k value). unat b < length ?btn"
    using len by (auto dest: in_set_takeD)
  obtain t1 where t1: "alias_in (take k key) (take k value) t = Inr t1" "adds t (fresh_pairs ?btn [] (take k key) (take k value)) t1"
    "shape (rt_root t1) = shape (rt_root t)" "\<forall>b. b \<notin> set (take k value) \<longrightarrow> btn_at (block_to_node t1) b = btn_at ?btn b"
    using alias_in_ok[OF assms(1,4) al] by blast
  have dis: "set (take k value) \<inter> set (drop k value) = {}" using len(2) by (simp add: set_take_disj_set_drop_if_distinct)
  have same: "btn_at (block_to_node t1) b = btn_at ?btn b" if "b \<in> set (drop k value)" for b
    using t1(4) dis that by blast
  have free: "\<forall>b\<in>set (drop c (drop k value)). btn_at (block_to_node t1) b = None"
  proof
    fix b assume b: "b \<in> set (drop c (drop k value))"
    then obtain j where j: "j < length value - (k + c)" "b = value ! (k + c + j)"
      by (auto simp: in_set_conv_nth add.commute)
    then have "btn_at ?btn b = None" using insertable_fresh[OF assms(1,2), of "k + c + j"] assms(5) len(1) by auto
    moreover have "b \<in> set (drop k value)" using b by (rule in_set_dropD)
    ultimately show "btn_at (block_to_node t1) b = None" using same by simp
  qed
  obtain t2 where t2: "f t1 = Inr t2" "adds t1 (fresh_pairs (block_to_node t1) (take k key) (drop k key) (take c (drop k value)) \<union>
        rest_pairs (take k key @ take c (drop k key)) (drop c (drop k key)) (drop c (drop k value))) t2"
    using step[OF _ t1(3) _ free] t1(2) by (auto simp: adds_def)
  define A where "A = fresh_pairs ?btn [] (take k key) (take k value)"
  define B where "B = fresh_pairs (block_to_node t1) (take k key) (drop k key) (take c (drop k value))"
  define R where "R = rest_pairs (take k key @ take c (drop k key)) (drop c (drop k key)) (drop c (drop k value))"
  have pair: "(take (Suc i) key, value ! i) \<in> rt_pairs t" if "i < length key" "btn_at ?btn (value ! i) \<noteq> None" for i
    using that assms(1,2) len(1) by (auto simp: btn_at_pairs insertable_def)
  have A: "rt_pairs t \<union> A = rt_pairs t \<union> rest_pairs [] (take k key) (take k value)"
    unfolding A_def using fresh_rest[of "take k value" ?btn "[]" "take k key" "rt_pairs t"] pair len(1) assms(3) by (simp add: min_def)
  have idx: "take k key @ take (Suc i) (drop k key) = take (Suc (k + i)) key" for i
    by (metis add_Suc_right take_add)
  have inr: "take c (drop k value) ! i \<in> set (drop k value)" if "i < length (take c (drop k value))" for i
    using nth_mem[OF that] in_set_takeD by fast
  have "\<forall>i<length (take c (drop k value)). btn_at (block_to_node t1) (take c (drop k value) ! i) \<noteq> None \<longrightarrow>
      (take k key @ take (Suc i) (drop k key), take c (drop k value) ! i) \<in> rt_pairs t"
    using pair same[OF inr] len(1) assms(3) unfolding idx by auto
  from fresh_rest[OF this] have B: "rt_pairs t \<union> B = rt_pairs t \<union> rest_pairs (take k key) (take c (drop k key)) (take c (drop k value))"
    using len(1) assms(3) by (simp add: B_def min_def)
  have "rest_pairs [] key value = rest_pairs [] (take k key) (take k value) \<union> rest_pairs (take k key) (take c (drop k key)) (take c (drop k value)) \<union> R"
    using rest_pairs_split[of "value" key k "[]"] rest_pairs_split[of "drop k value" "drop k key" c "take k key"] len(1) assms(3)
    by (simp add: R_def Un_assoc)
  with A B have "rt_pairs t \<union> (A \<union> (B \<union> R)) = rt_pairs t \<union> rest_pairs [] key value" by blast
  moreover have "adds t (A \<union> (B \<union> R)) t2" 
    using adds_trans t1(2) t2(2) unfolding A_def B_def R_def by blast
  ultimately have "adds t (rest_pairs [] key value) t2" by (simp add: adds_def)
  moreover have "new_count t key (length key - k - c)" using assms(3,5) by (simp add: new_count_def)
  ultimately show ?thesis using t1(1) t2(1) by (auto simp: inserts_def)
qed

lemma obind_assoc: "obind (obind x f) g = obind x (\<lambda>a. obind (f a) g)"
  by (cases x) simp_all

lemma take_all_rest: "length key = k + length key1 \<Longrightarrow> key = q @ key1 \<Longrightarrow> take k key = q \<and> drop k key = key1"
  by auto

text \<open>The labels match a prefix of the key, and no child goes on.\<close>

lemma insert_full_match:
  assumes "rt_ok t" "insertable t key value" "hit (rt_root t) q key1 (FullMatch b)" "key = q @ key1" "key1 \<noteq> []"
  shows "inserts t key value (obind (alias_in (take (length q) key) (take (length q) value) t) (\<lambda>t1.
    obind (deref b (rt_root t1)) (\<lambda>nb.
    obind (if children_is_empty (rchildren nb) then extend_leaf b key1 (drop (length q) value) t1
           else insert_as_child b key1 (drop (length q) value) t1) (\<lambda>t2. Inr (t2, length key1)))))"
proof -
  have root: "root_ok (rt_root t)" using assms(1) by (simp add: rt_ok_def)
  then have rwf: "rwf (rt_root t)" by (simp add: root_ok_def)
  obtain q0 m where m: "located (rt_root t) q0 m" "raddr m = b" "q = q0 @ rvalue m" "rvalue m \<noteq> []" "no_child m key1"
    using assms(3) by auto
  have rm: "rwf m" by (rule located_rwf[OF m(1) rwf])
  have "stored m (rvalue m)" using stored_own[OF rm m(4)] by simp
  then have sq: "stored (rt_root t) q" using stored_located[OF m(1) rwf m(4) m(4)] m(3) by simp
  have "\<not> stored (rt_root t) (q @ r)" if r: "r \<noteq> []" "hd r = hd key1" for r
  proof -
    have "stored (rt_root t) (q0 @ rvalue m @ r) \<longleftrightarrow> stored m (rvalue m @ r)"
      using m(4) by (intro stored_located[OF m(1) rwf m(4)]) auto
    then show ?thesis using stored_below[OF r(1), of m] no_child_stored[OF rm m(5) assms(5) r] m(3) by simp
  qed
  note beyond = this
  have st: "\<forall>i<length key. stored (rt_root t) (take (Suc i) key) \<longleftrightarrow> i < length q + 0"
  proof (intro allI impI)
    fix i assume i: "i < length key"
    show "stored (rt_root t) (take (Suc i) key) \<longleftrightarrow> i < length q + 0"
    proof (cases "i < length q")
      case True
      then have t: "take (Suc i) key = take (Suc i) q" "take (Suc i) q \<noteq> []" using assms(4) by auto
      from stored_prefix[OF rwf sq t(2) take_is_prefix] t(1) True show ?thesis by simp
    next
      case False
      then have "take (Suc i) key = q @ take (Suc (i - length q)) key1" using assms(4) by (simp add: Suc_diff_le)
      moreover have "hd (take (Suc (i - length q)) key1) = hd key1" "take (Suc (i - length q)) key1 \<noteq> []"
        using assms(5) by (simp_all add: hd_take)
      ultimately show ?thesis using beyond False by simp
    qed
  qed
  let ?f = "\<lambda>t1. obind (deref b (rt_root t1)) (\<lambda>nb.
    if children_is_empty (rchildren nb) then extend_leaf b key1 (drop (length q) value) t1
    else insert_as_child b key1 (drop (length q) value) t1)"
  have "inserts t key value (obind (alias_in (take (length q) key) (take (length q) value) t)
      (\<lambda>t1. obind (?f t1) (\<lambda>t2. Inr (t2, length key - length q - 0))))"
  proof (rule insert_rest[OF assms(1,2) _ _ st])
    show "length q + 0 \<le> length key" "take (length q) key = [] \<or> stored (rt_root t) (take (length q) key)"
      using assms(4) sq by simp_all
  next
    fix t1
    assume t1: "rt_ok t1" "shape (rt_root t1) = shape (rt_root t)" "length (block_to_node t1) = length (block_to_node t)"
      "\<forall>b\<in>set (drop 0 (drop (length q) value)). btn_at (block_to_node t1) b = None"
    have root1: "root_ok (rt_root t1)" using t1(1) by (simp add: rt_ok_def)
    obtain m1 where m1: "located (rt_root t1) q0 m1" "shape m1 = shape m" using located_shape[OF m(1) t1(2)[symmetric]] by blast
    have h: "raddr m1 = b" "rvalue m1 = rvalue m" "no_child m1 key1"
      using shape_eqD[OF m1(2)] no_child_shape[OF m1(2)] m(2,5) by simp_all
    have len: "length (drop (length q) value) = length key1" "distinct value" using assms(2,4) by (simp_all add: insertable_def)
    have fr: "free_in (block_to_node t1) (drop (length q) value)"
      using t1(3,4) assms(2) by (auto simp: free_in_def insertable_def rt_capacity_def in_set_conv_nth)
    have "deref b (rt_root t1) = Inr m1" using deref_located[OF root1 m1(1)] h(1) by simp
    moreover have "\<exists>t2. extend_leaf b key1 (drop (length q) value) t1 = Inr t2 \<and> adds t1 (rest_pairs q key1 (drop (length q) value)) t2"
      if "children_is_empty (rchildren m1)"
      using extend_leaf_ok[OF t1(1) m1(1) _ _ len(1) fr] that m(3,4) h by (simp add: children_is_empty_def)
    moreover have "\<exists>t2. insert_as_child b key1 (drop (length q) value) t1 = Inr t2 \<and> adds t1 (rest_pairs q key1 (drop (length q) value)) t2"
      using insert_as_child_ok[OF t1(1) m1(1) _ h(3) assms(5) len(1) fr] m(3,4) h by simp
    ultimately show "\<exists>t2. ?f t1 = Inr t2 \<and> adds t1 (fresh_pairs (block_to_node t1) (take (length q) key) (drop (length q) key) (take 0 (drop (length q) value)) \<union>
        rest_pairs (take (length q) key @ take 0 (drop (length q) key)) (drop 0 (drop (length q) key)) (drop 0 (drop (length q) value))) t2"
      using assms(4) by (auto simp: fresh_pairs_def)
  qed
  then show ?thesis using assms(4) by (simp add: obind_assoc)
qed

text \<open>The key leaves the labels, or ends, inside a node.\<close>

lemma stored_partial:
  assumes "rt_ok t" "hit (rt_root t) q key1 (PartialMatch b c)" "key = q @ key1"
  shows "c \<le> length key1 \<and> 0 < c \<and> (\<forall>i<length key. stored (rt_root t) (take (Suc i) key) \<longleftrightarrow> i < length q + c)"
proof -
  have rwf: "rwf (rt_root t)" using assms(1) by (simp add: rt_ok_def root_ok_def)
  obtain m where m: "located (rt_root t) q m" "raddr m = b" "c = lcp_len (rvalue m) key1" "0 < c" "c < length (rvalue m)"
    using assms(2) by auto
  have rm: "rwf m" by (rule located_rwf[OF m(1) rwf])
  have mv: "rvalue m \<noteq> []" "key1 \<noteq> []" using m(3-5) by auto
  have hd: "hd key1 = hd (rvalue m)" using lcp_len_nonzero[OF mv(2), of "rvalue m"] m(3,4) by simp
  have c: "c \<le> length key1" using m(3) lcp_len_le(2)[of "rvalue m" key1] by simp
  have in1: "stored (rt_root t) (q @ take (Suc j) key1) \<longleftrightarrow> j < c" if j: "j < length key1" for j
  proof -
    have "stored (rt_root t) (q @ take (Suc j) key1) \<longleftrightarrow> stored m (take (Suc j) key1)"
      using mv(2) hd by (intro stored_located[OF m(1) rwf mv(1)]) (auto simp: hd_take)
    also have "\<dots> \<longleftrightarrow> min c (Suc j) = Suc j"
      using stored_node[OF rm, of "take (Suc j) key1" "min c (Suc j)"] mv(2) m(3,5) j by (auto simp: lcp_len_take)
    finally show ?thesis by (auto simp: min_def)
  qed
  have s1: "stored (rt_root t) (q @ take 1 key1)" using in1[of 0] mv(2) m(4) by simp
  have "stored (rt_root t) (take (Suc i) key) \<longleftrightarrow> i < length q + c" if i: "i < length key" for i
  proof (cases "i < length q")
    case True
    have "prefix (take (Suc i) q) (q @ take 1 key1)" by (simp add: take_is_prefix)
    then have "prefix (take (Suc i) key) (q @ take 1 key1)" using True assms(3) by simp
    moreover have "take (Suc i) key \<noteq> []" using i by auto
    ultimately have "stored (rt_root t) (take (Suc i) key)" using stored_prefix[OF rwf s1] by blast
    with True show ?thesis by simp
  next
    case False
    then have "take (Suc i) key = q @ take (Suc (i - length q)) key1" using assms(3) by (simp add: Suc_diff_le)
    then show ?thesis using in1[of "i - length q"] i False assms(3) by auto
  qed
  with c m(4) show ?thesis by blast
qed

lemma insert_partial_match:
  assumes "rt_ok t" "insertable t key value" "hit (rt_root t) q key1 (PartialMatch b c)" "key = q @ key1" "length key1 \<noteq> c"
  shows "inserts t key value (obind (alias_in (take (length q) key) (take (length q) value) t) (\<lambda>t1.
    obind (split_node_at_insert b c key1 (drop (length q) value) t1) (\<lambda>t2. Inr (t2, length key1 - c))))"
proof -
  have rwf: "rwf (rt_root t)" using assms(1) by (simp add: rt_ok_def root_ok_def)
  note sp = stored_partial[OF assms(1,3,4)]
  obtain m where m: "located (rt_root t) q m" "raddr m = b" "c = lcp_len (rvalue m) key1" "0 < c" "c < length (rvalue m)"
    using assms(3) by auto
  have "inserts t key value (obind (alias_in (take (length q) key) (take (length q) value) t) (\<lambda>t1.
    obind (split_node_at_insert b c key1 (drop (length q) value) t1) (\<lambda>t2. Inr (t2, length key - length q - c))))"
  proof (rule insert_rest[OF assms(1,2)])
    show "length q + c \<le> length key" using sp assms(4) by simp
    show "\<forall>i<length key. stored (rt_root t) (take (Suc i) key) \<longleftrightarrow> i < length q + c" using sp by blast
    note st = this
    have "stored (rt_root t) (take (Suc (length q - 1)) key)" if "q \<noteq> []"
    proof -
      have "length q - 1 < length key" "length q - 1 < length q + c" using that assms(4) by (cases q; simp)+
      with st show ?thesis by blast
    qed
    moreover have "Suc (length q - 1) = length q" if "q \<noteq> []" using that by (cases q) auto
    ultimately show "take (length q) key = [] \<or> stored (rt_root t) (take (length q) key)"
      using assms(4) by (cases "q = []") auto
  next
    fix t1
    assume t1: "rt_ok t1" "shape (rt_root t1) = shape (rt_root t)" "length (block_to_node t1) = length (block_to_node t)"
      "\<forall>b\<in>set (drop c (drop (length q) value)). btn_at (block_to_node t1) b = None"
    obtain m1 where m1: "located (rt_root t1) q m1" "shape m1 = shape m" using located_shape[OF m(1) t1(2)[symmetric]] by blast
    have h: "raddr m1 = b" "rvalue m1 = rvalue m" using shape_eqD[OF m1(2)] m(2) by simp_all
    have len: "length (drop (length q) value) = length key1" "distinct (drop (length q) value)"
      "\<forall>b\<in>set (drop (length q) value). unat b < length (block_to_node t1)"
      using assms(2,4) t1(3) by (auto simp: insertable_def rt_capacity_def in_set_conv_nth)
    show "\<exists>t2. split_node_at_insert b c key1 (drop (length q) value) t1 = Inr t2 \<and>
      adds t1 (fresh_pairs (block_to_node t1) (take (length q) key) (drop (length q) key) (take c (drop (length q) value)) \<union>
        rest_pairs (take (length q) key @ take c (drop (length q) key)) (drop c (drop (length q) key)) (drop c (drop (length q) value))) t2"
      using split_ok[OF t1(1) m1(1), of c key1 "drop (length q) value"] m(3-5) h len t1(4) sp assms(4,5) by simp
  qed
  then show ?thesis using assms(4) by simp
qed

lemma put_kid_located:
  assumes "c \<in> set (kids (rchildren root))" "raddr c \<noteq> raddr root"
  shows "n \<in> set (kids (rchildren (put_at (raddr c) n root)))"
  using assms by (auto simp: put_at_eq[of _ _ root] kids_map_kids put_at_eq[of "raddr c" n c] intro: rev_image_eqI)

lemma insert_below_ok:
  assumes "rt_ok t" "insertable t key value" "c \<in> set (kids (rchildren (rt_root t)))" "rvalue c \<noteq> []" "prefix (rvalue c) key"
  shows "inserts t key value (insert_below (raddr c) key value t)"
proof -
  let ?root = "rt_root t"
  have root: "root_ok ?root" using assms(1) by (simp add: rt_ok_def)
  have lc: "located ?root [] c" using located.below[OF assms(3) here[of c]] root by (simp add: root_ok_def)
  have rwf: "rwf c" "childless_empty c" using rwf_kid[OF _ assms(3)] root by (auto simp: root_ok_def)
  obtain rest where rest: "key = rvalue c @ rest" using assms(5) by (auto simp: prefix_def)
  then obtain r key1 c' g q where fc: "full_combo c (drop (length (rvalue c)) key) = Inr (r, key1, c', g)" "gc_of c c' g"
    "rest = q @ key1" "hit c' (rvalue c @ q) key1 r"
    using full_combo_ok(1)[OF rwf(1) assms(4), of rest] by auto
  note nr = not_root[OF root lc assms(4)]
  have c': "rwf c'" "raddr c' = raddr c" "fits c c'" using fc(2) rwf(2) by (auto simp: gc_of_def fits_def)
  from put_ok[OF root lc c'(1,2) _ c'(3)] nr obtain F G where FG: "cells ?root = F + image_mset (pre []) (cells c)" "addrs ?root = G + addrs c"
    "cells (put_at (raddr c) c' ?root) = F + image_mset (pre []) (cells c')" "addrs (put_at (raddr c) c' ?root) = G + addrs c'"
    "nodup (G + addrs c') \<Longrightarrow> root_ok (put_at (raddr c) c' ?root)" by blast
  obtain H where H: "addrs c = addrs c' + H" "size H = g" using fc(2) by (auto simp: gc_of_def)
  have "nodup (addrs ?root)" using root by (simp add: root_ok_def)
  then have nd: "nodup (G + addrs c')" using FG(2) H(1) by (simp add: nodup_union add.assoc[symmetric])
  define root' where "root' = put_at (raddr c) c' ?root"
  define t1 where "t1 = gc_nodes g (t\<lparr>rt_root := root'\<rparr>)"
  have cells': "cells root' = cells ?root" using FG(1,3) fc(2) by (simp add: root'_def gc_of_def)
  have "gc_of ?root root' g"
    using FG(2,4,5) H nd root nr cells' by (auto simp: gc_of_def root_ok_def root'_def put_at_eq[of _ _ ?root] childless_empty_def
      kids_map_kids)
  then have t1: "rt_ok t1" using gc_root_ok[OF assms(1)] by (simp add: t1_def)
  have same: "rt_pairs t1 = rt_pairs t" "length (block_to_node t1) = length (block_to_node t)" "rt_size t1 = rt_size t" "rt_epoch t1 = rt_epoch t" "rt_root t1 = root'"
    using cells' by (simp_all add: t1_def gc_nodes_def rt_pairs_def)
  have ins1: "insertable t1 key value" using assms(2) insertable_cong[OF same(1,2)] by simp
  have hit: "hit (rt_root t1) (rvalue c @ q) key1 r"
  proof -
    have "c' \<in> set (kids (rchildren root'))" unfolding root'_def using nr by (intro put_kid_located assms(3))
    moreover have "rvalue root' = []" using t1 same(5) by (simp add: rt_ok_def root_ok_def)
    ultimately show ?thesis using hit_below[OF fc(4), of root'] same(5) by simp
  qed
  define p where "p = rvalue c @ q"
  have key: "key = p @ key1" using rest fc(3) by (simp add: p_def)
  have len: "length value = length key" using assms(2) by (simp add: insertable_def)
  have "inserts t1 key value (insert_below (raddr c) key value t)"
  proof (cases r)
    case (FullMatch b)
    show ?thesis
    proof (cases "key1 = []")
      case True
      obtain q0 m where m: "located (rt_root t1) q0 m" "key = q0 @ rvalue m" "rvalue m \<noteq> []"
        using hit FullMatch True key by (auto simp: p_def)
      have rwf1: "rwf (rt_root t1)" using t1 by (simp add: rt_ok_def root_ok_def)
      have "stored m (rvalue m)" using stored_own[OF located_rwf[OF m(1) rwf1] m(3)] by simp
      then have "stored (rt_root t1) key" using stored_located[OF m(1) rwf1 m(3) m(3)] m(2) by simp
      moreover have "key \<noteq> []" using m(2,3) by simp
      ultimately show ?thesis using insert_stored[OF t1 ins1] FullMatch True fc(1)
        by (simp add: insert_below_def deref_located[OF root lc] t1_def root'_def Let_def)
    next
      case False
      have fm: "length key - length key1 = length p" using key by simp
      show ?thesis using insert_full_match[OF t1 ins1 hit[folded p_def, unfolded FullMatch] key False] FullMatch False fc(1) len key
        by (simp add: insert_below_def deref_located[OF root lc] t1_def root'_def Let_def fm)
    qed
  next
    case (PartialMatch b k)
    have fm: "length key - length key1 = length p" using key by simp
    note h = hit[folded p_def, unfolded PartialMatch]
    note sp = stored_partial[OF t1 h key]
    show ?thesis
    proof (cases "length key1 = k")
      case True
      have "stored (rt_root t1) (take (Suc (length key - 1)) key)"
        using sp True key by (metis Suc_pred' diff_Suc_less length_append length_greater_0_conv lessI add_pos_nonneg append_is_Nil_conv diff_Suc_less length_0_conv less_not_refl3)
      then have "stored (rt_root t1) key" "key \<noteq> []" using sp True key by auto
      then show ?thesis using insert_stored[OF t1 ins1] PartialMatch True fc(1)
        by (simp add: insert_below_def deref_located[OF root lc] t1_def root'_def Let_def)
    next
      case False
      show ?thesis using insert_partial_match[OF t1 ins1 h key False] PartialMatch False fc(1) len key
        by (simp add: insert_below_def deref_located[OF root lc] t1_def root'_def Let_def fm)
    qed
  next
    case (NoMatch b)
    with hit show ?thesis by simp
  qed
  then show ?thesis using inserts_cong[OF same(1-4)] by simp
qed

lemma insert_inner_ok:
  assumes "rt_ok t" "insertable t key value" "key \<noteq> []"
  shows "inserts t key value (insert_inner key value t)"
proof -
  have root: "root_ok (rt_root t)" using assms(1) by (simp add: rt_ok_def)
  then obtain r root' g where rm: "root_match (rt_root t) key = Inr (r, root', g)" "gc_of (rt_root t) root' g"
    "(r = NoMatch (raddr (rt_root t)) \<and> no_child root' key) \<or>
     (\<exists>c\<in>set (kids (rchildren root')). rvalue c \<noteq> [] \<and> hd (rvalue c) = hd key \<and> r = common_prefix c key)"
    using root_match_ok[of "rt_root t" key] assms(3) by (auto simp: root_ok_def)
  define t1 where "t1 = gc_nodes g (t\<lparr>rt_root := root'\<rparr>)"
  have t1: "rt_ok t1" and cells': "cells root' = cells (rt_root t)" using gc_root_ok[OF assms(1) rm(2)] by (simp_all add: t1_def)
  have same: "rt_pairs t1 = rt_pairs t" "length (block_to_node t1) = length (block_to_node t)" "rt_size t1 = rt_size t" "rt_epoch t1 = rt_epoch t" "rt_root t1 = root'"
    using cells' by (simp_all add: t1_def gc_nodes_def rt_pairs_def)
  have ins1: "insertable t1 key value" using assms(2) insertable_cong[OF same(1,2)] by simp
  have root1: "root_ok root'" using t1 same(5) by (simp add: rt_ok_def)
  then have rv: "rvalue root' = []" "rwf root'" by (simp_all add: root_ok_def)
  have aeq: "raddr root' = raddr (rt_root t)" using rm(2) by (simp add: gc_of_def)
  have len: "length value = length key" using assms(2) by (simp add: insertable_def)
  have "inserts t1 key value (insert_inner key value t)"
    using rm(3)
  proof
    assume nm: "r = NoMatch (raddr (rt_root t)) \<and> no_child root' key"
    have no: "\<not> stored root' (take (Suc i) key)" if "i < length key" for i
      using no_child_stored[OF rv(2) _ assms(3), of "take (Suc i) key"] stored_below[of "take (Suc i) key" root'] nm rv(1) that assms(3)
      by (auto simp: hd_take)
    have fr: "free_in (block_to_node t1) value"
      using insertable_fresh[OF t1 ins1] no ins1 same(5) len by (auto simp: free_in_def insertable_def rt_capacity_def in_set_conv_nth)
    have "located (rt_root t1) [] (rt_root t1)" by (rule here)
    from insert_as_child_ok[OF t1 this _ _ assms(3) len fr] nm same(5) rv(1) obtain t2 where
      "insert_as_child (raddr root') key value t1 = Inr t2" "adds t1 (rest_pairs [] key value) t2" by auto
    moreover have "new_count t1 key (length key)" using no same(5) by (simp add: new_count_def)
    ultimately show ?thesis using nm assms(3) rm(1) aeq same(5) by (simp add: insert_inner_def t1_def[symmetric] Let_def inserts_def)
  next
    assume "\<exists>c\<in>set (kids (rchildren root')). rvalue c \<noteq> [] \<and> hd (rvalue c) = hd key \<and> r = common_prefix c key"
    then obtain c where c: "c \<in> set (kids (rchildren root'))" "rvalue c \<noteq> []" "hd (rvalue c) = hd key" "r = common_prefix c key" by blast
    show ?thesis
    proof (cases r)
      case (NoMatch a)
      with common_prefix_cases(1)[OF assms(3), of c a] c show ?thesis by simp
    next
      case (FullMatch a)
      note fm = common_prefix_cases(2)[OF assms(3), of c a] 
      have "inserts t1 key value (insert_below (raddr c) key value t1)"
        using fm c FullMatch same(5) by (intro insert_below_ok[OF t1 ins1]) auto
      moreover have "a = raddr c" using fm c(4) FullMatch by simp
      ultimately show ?thesis using FullMatch assms(3) rm(1) by (simp add: insert_inner_def t1_def[symmetric] Let_def)
    next
      case (PartialMatch a k)
      note pm = common_prefix_cases(3)[OF assms(3), of c a k]
      have "located root' [] c" using located.below[OF c(1) here[of c]] rv(1) by simp
      moreover have "a = raddr c \<and> k = lcp_len (rvalue c) key \<and> 0 < k \<and> k < length (rvalue c)" using pm c(4) PartialMatch by simp
      ultimately have hit: "hit (rt_root t1) [] key (PartialMatch a k)" using same(5) by auto
      show ?thesis
      proof (cases "length key = k")
        case True
        have "\<forall>i<length key. stored (rt_root t1) (take (Suc i) key) \<longleftrightarrow> i < length ([] :: u64 list) + k"
          using stored_partial[OF t1 hit, of key] by simp
        moreover obtain j where j: "length key = Suc j" using assms(3) by (cases key) auto
        ultimately have "stored (rt_root t1) (take (Suc j) key)" using True by auto
        then have "stored (rt_root t1) key" using j by simp
        from insert_stored[OF t1 ins1 this assms(3)] show ?thesis
          using True PartialMatch assms(3) rm(1) by (simp add: insert_inner_def t1_def[symmetric] Let_def)
      next
        case False
        have "alias_in [] [] t1 = Inr t1"
          using root1 same(5) by (simp add: alias_in_def alias_path_def alias_walk.simps root_ok_def) (cases t1, cases root', simp)
        with insert_partial_match[OF t1 ins1 hit _ False] show ?thesis
          using False PartialMatch assms(3) rm(1) by (simp add: insert_inner_def t1_def[symmetric] Let_def)
      qed
    qed
  qed
  then show ?thesis using inserts_cong[OF same(1-4)] by simp
qed

text \<open>Lookup: the prefixes of the query that are stored are those up to the result.\<close>

lemma rt_get_ok:
  assumes "rt_ok t"
  shows "rt_get t q \<le> length q \<and> (\<forall>i<length q. stored (rt_root t) (take (Suc i) q) \<longleftrightarrow> i < rt_get t q)"
proof -
  let ?root = "rt_root t"
  have r: "rvalue ?root = []" "rwf ?root" using assms by (simp_all add: rt_ok_def root_ok_def)
  note g = get_level_stored[OF rwf_good[OF r(2)], of 0 q]
  have "stored ?root (take (Suc i) q) \<longleftrightarrow> stored_ch (rchildren ?root) (take (Suc i) q)" if "i < length q" for i
  proof -
    have "take (Suc i) q \<noteq> []" using that by auto
    from stored_below[OF this, of ?root] r(1) show ?thesis by simp
  qed
  moreover have "Suc i \<le> get_level (rchildren ?root) q 0 \<longleftrightarrow> stored_ch (rchildren ?root) (take (Suc i) q)" if "i < length q" for i
    using g that by simp
  moreover have "rt_get t q \<le> length q" using g by (simp add: rt_get_def)
  ultimately show ?thesis by (simp add: rt_get_def Suc_le_eq)
qed

lemma new_count_get: "rt_ok t \<Longrightarrow> new_count t key n \<Longrightarrow> n = length key - rt_get t key"
proof -
  assume *: "rt_ok t" "new_count t key n"
  note g = rt_get_ok[OF *(1), of key]
  have iff: "i < rt_get t key \<longleftrightarrow> i < length key - n" if "i < length key" for i
    using g *(2) that by (simp add: new_count_def)
  have "n \<le> length key" using *(2) by (simp add: new_count_def)
  have "rt_get t key = length key - n"
  proof (rule ccontr)
    assume ne: "rt_get t key \<noteq> length key - n"
    let ?i = "min (rt_get t key) (length key - n)"
    have "?i < length key" using ne g by (auto simp: min_def)
    from iff[OF this] ne show False by (auto simp: min_def split: if_splits)
  qed
  with \<open>n \<le> length key\<close> show ?thesis by simp
qed

lemma rt_insert_ok:
  assumes "rt_ok t" "insertable t hs bids"
  shows "\<exists>t'. rt_insert t hs bids = Inr (t', length hs - rt_get t hs) \<and> rt_ok t' \<and>
    rt_pairs t' = rt_pairs t \<union> rest_pairs [] hs bids \<and> rt_capacity t' = rt_capacity t \<and>
    rt_size t' = rt_size t + of_nat (length hs - rt_get t hs) \<and> rt_epoch t' = rt_epoch t + 1"
proof (cases "hs = []")
  case True
  have "rt_ok (t\<lparr>rt_epoch := e\<rparr>)" for e using assms(1) by (simp add: rt_ok_def)
  then show ?thesis using True
    by (simp add: rt_insert_def insert_inner_def rest_pairs_def rt_pairs_def rt_capacity_def)
next
  case False
  from insert_inner_ok[OF assms False] obtain t' n where t': "insert_inner hs bids t = Inr (t', n)"
    "adds t (rest_pairs [] hs bids) t'" "new_count t hs n" by (auto simp: inserts_def)
  have "rt_ok (t'\<lparr>rt_size := s, rt_epoch := e\<rparr>)" for s e using t'(2) by (simp add: rt_ok_def adds_def)
  then show ?thesis using t' new_count_get[OF assms(1) t'(3)]
    by (simp add: rt_insert_def adds_def rt_pairs_def rt_capacity_def)
qed

end
