(* ===== verification/RadixTreeRemove.thy ===== *)
theory RadixTreeRemove
  imports RadixTreeBlockHash
begin

text \<open>
  Removal from the production radix tree, on the pairs of a path and a block filed under it.
\<close>

section \<open>Survivors\<close>

text \<open>
  The pairs that survive the removal of a set of blocks: those of other blocks, filed under a path
  all of whose prefixes are still held by some other block.
\<close>

definition surv :: "u64 set \<Rightarrow> (u64 list \<times> u64) set \<Rightarrow> (u64 list \<times> u64) set" where
  "surv S P = {(q, b) \<in> P. b \<notin> S \<and> (\<forall>p. p \<noteq> [] \<longrightarrow> prefix p q \<longrightarrow> (\<exists>b'. b' \<notin> S \<and> (p, b') \<in> P))}"

lemma surv_surv: "surv S (surv {b} P) = surv (insert b S) P"
proof (rule set_eqI)
  fix x :: "u64 list \<times> u64"
  obtain q c where x: "x = (q, c)" by (cases x)
  show "x \<in> surv S (surv {b} P) \<longleftrightarrow> x \<in> surv (insert b S) P"
  proof
    assume "x \<in> surv S (surv {b} P)"
    then show "x \<in> surv (insert b S) P" unfolding x surv_def by blast
  next
    assume *: "x \<in> surv (insert b S) P"
    have "\<exists>b'. b' \<notin> S \<and> (p, b') \<in> surv {b} P" if p: "p \<noteq> []" "prefix p q" for p
    proof -
      obtain b' where b': "b' \<notin> insert b S" "(p, b') \<in> P" using * p unfolding x surv_def by blast
      have "\<exists>b''. b'' \<notin> {b} \<and> (p', b'') \<in> P" if "p' \<noteq> []" "prefix p' p" for p'
        using * that p(2) unfolding x surv_def by (blast dest: prefix_order.trans)
      then have "(p, b') \<in> surv {b} P" using b' unfolding surv_def by blast
      with b'(1) show ?thesis by blast
    qed
    moreover have "(q, c) \<in> surv {b} P" using * unfolding x surv_def by blast
    moreover have "c \<notin> S" using * unfolding x surv_def by blast
    ultimately show "x \<in> surv S (surv {b} P)" unfolding x by (subst surv_def) blast
  qed
qed

lemma pairs_closed:
  assumes "rt_ok t" "(q, b) \<in> rt_pairs t" "p \<noteq> []" "prefix p q"
  shows "\<exists>b'. (p, b') \<in> rt_pairs t"
proof -
  have "stored (rt_root t) p"
    using stored_prefix[of "rt_root t" q p] assms by (auto simp: stored_rt rt_ok_def root_ok_def)
  then show ?thesis by (simp add: stored_rt)
qed

lemma surv_empty: "rt_ok t \<Longrightarrow> surv {} (rt_pairs t) = rt_pairs t"
  using pairs_closed by (fastforce simp: surv_def)

section \<open>Removal of one block\<close>

lemma cell_located:
  "(s, b, a) \<in># cells n \<Longrightarrow> \<exists>q m r. located n q m \<and> raddr m = a \<and> (r, b, a) \<in># own (raddr m) (rvalue m) (rpayload m)"
proof (induction n arbitrary: s rule: rnode_induct)
  case (Node n)
  show ?case
  proof (cases "(s, b, a) \<in># own (raddr n) (rvalue n) (rpayload n)")
    case True
    moreover have "raddr n = a" using own_home[OF True] by simp
    ultimately show ?thesis using here[of n] by blast
  next
    case False
    then obtain r c where "c \<in> set (kids (rchildren n))" "(r, b, a) \<in># cells c"
      using Node.prems by (auto simp: cells_eq[of n] in_cells_ch)
    with Node.IH show ?thesis by (meson located.below)
  qed
qed

lemma own_remove1:
  "i < length v \<Longrightarrow> length p = length v \<Longrightarrow> b \<in> set (p ! i) \<Longrightarrow>
     own a v p = add_mset (take (Suc i) v, b, a) (own a v (p[i := remove1 b (p ! i)]))"
proof (induction a v p arbitrary: i rule: own.induct)
  case (1 a h v bs p)
  show ?case
  proof (cases i)
    case 0
    have E: "mset bs = add_mset b (mset (remove1 b bs))" using 1(4) 0 by simp
    have "mset (map (\<lambda>b. ([h], b, a)) bs) = add_mset ([h], b, a) (mset (map (\<lambda>b. ([h], b, a)) (remove1 b bs)))"
      unfolding mset_map by (subst E) (simp only: image_mset_add_mset)
    with 0 show ?thesis by (simp del: mset_map)
  next
    case (Suc j)
    with 1 show ?thesis by simp
  qed
qed auto

lemma fold_clear_ok:
  assumes "good_ch ch" "\<forall>x\<in>#cells_ch ch. unat (bid_of x) < length btn"
  shows "\<exists>btn'. fold_outcome clear_inner (kids ch) (btn, n, fr) = Inr (btn', n + size (cells_ch ch), fr + size (addrs_ch ch)) \<and>
    length btn' = length btn \<and> btn_at btn' = (\<lambda>b. if b \<in> bid_of ` set_mset (cells_ch ch) then None else btn_at btn b)"
proof (cases "kids ch = []")
  case True
  then show ?thesis by (simp add: cells_ch_def addrs_ch_def)
next
  case False
  let ?n = "RNode 0 [] [] ch"
  have "rwf ?n" using assms(1) by (simp add: good_ch_def)
  from clear_inner_ok[OF this, of btn n fr] assms(2) obtain btn' where
    "clear_inner ?n (btn, n, fr) = Inr (btn', n + size (cells_ch ch), fr + Suc (size (addrs_ch ch)))"
    "length btn' = length btn" "btn_at btn' = (\<lambda>b. if b \<in> bid_of ` set_mset (cells_ch ch) then None else btn_at btn b)" by auto
  moreover have "\<not> node_is_empty ?n" using False by (simp add: node_is_empty_def children_is_empty_def)
  ultimately show ?thesis by (auto split: sum.splits)
qed

text \<open>What the removal of one block makes of the tree.\<close>

definition removes :: "radix_tree \<Rightarrow> u64 set \<Rightarrow> radix_tree \<Rightarrow> bool" where
  "removes t S t' \<longleftrightarrow> rt_ok t' \<and> rt_pairs t' = surv S (rt_pairs t) \<and> length (block_to_node t') = length (block_to_node t) \<and>
     rt_size t' = rt_size t \<and> rt_epoch t' = rt_epoch t"

lemma pair_unique: "rt_ok t \<Longrightarrow> (q, b) \<in> rt_pairs t \<Longrightarrow> (q', b) \<in> rt_pairs t \<Longrightarrow> q = q'"
proof -
  assume *: "rt_ok t" "(q, b) \<in> rt_pairs t" "(q', b) \<in> rt_pairs t"
  then obtain a a' where c: "(q, b, a) \<in># cells (rt_root t)" "(q', b, a') \<in># cells (rt_root t)"
    by (auto simp: rt_pairs_def pairs_def)
  have nd: "nodup (image_mset bid_of (cells (rt_root t)))" using *(1) by (simp add: rt_ok_def tab_def)
  have "(q, b, a) = (q', b, a')"
  proof (rule ccontr)
    assume "(q, b, a) \<noteq> (q', b, a')"
    with c have "{#(q, b, a), (q', b, a')#} \<subseteq># cells (rt_root t)"
      by (auto simp: insert_subset_eq_iff in_diff_count)
    then have "image_mset bid_of {#(q, b, a), (q', b, a')#} \<subseteq># image_mset bid_of (cells (rt_root t))" by (rule image_mset_subseteq_mono)
    with nd have "nodup (image_mset bid_of {#(q, b, a), (q', b, a')#})" by (blast intro: nodup_subset)
    then show False by simp
  qed
  then show ?thesis by simp
qed

text \<open>The pairs before and after, from the cells that go.\<close>

lemma surv_untouched:
  assumes "rt_ok t" "\<forall>q. (q, b) \<notin> rt_pairs t"
  shows "surv {b} (rt_pairs t) = rt_pairs t"
proof (rule set_eqI)
  fix x :: "u64 list \<times> u64"
  obtain q c where x: "x = (q, c)" by (cases x)
  show "x \<in> surv {b} (rt_pairs t) \<longleftrightarrow> x \<in> rt_pairs t"
  proof
    assume "x \<in> rt_pairs t"
    then have qc: "(q, c) \<in> rt_pairs t" by (simp add: x)
    have nb: "c' \<noteq> b" if "(p, c') \<in> rt_pairs t" for p c' using that assms(2) by auto
    have "\<exists>c'. c' \<noteq> b \<and> (p, c') \<in> rt_pairs t" if p: "p \<noteq> []" "prefix p q" for p
      using pairs_closed[OF assms(1) qc p] nb by blast
    with qc nb[OF qc] show "x \<in> surv {b} (rt_pairs t)" unfolding x surv_def by blast
  qed (simp add: x surv_def)
qed

lemma surv_alias:
  assumes "rt_ok t" "rt_pairs t = insert (q, b) P" "(q, b) \<notin> P" "(q, b') \<in> P"
  shows "surv {b} (rt_pairs t) = P"
proof -
  have nb: "b \<noteq> c" if "(p, c) \<in> P" for p c
    using pair_unique[OF assms(1), of q b p] that assms(2,3) by auto
  have "\<exists>c'. c' \<noteq> b \<and> (p, c') \<in> insert (q, b) P" if r: "(r, c) \<in> P" "p \<noteq> []" "prefix p r" for r c p
  proof -
    obtain c' where c': "(p, c') \<in> rt_pairs t" using pairs_closed[OF assms(1) _ r(2,3)] r(1) assms(2) by blast
    show ?thesis
    proof (cases "c' = b")
      case True
      then have "p = q" using pair_unique[OF assms(1) c'] assms(2) by simp
      then show ?thesis using assms(4) nb[OF assms(4)] by auto
    next
      case False
      then show ?thesis using c' assms(2) by auto
    qed
  qed
  note holders = this
  show ?thesis
  proof (rule set_eqI)
    fix x :: "u64 list \<times> u64"
    obtain p c where x: "x = (p, c)" by (cases x)
    show "x \<in> surv {b} (rt_pairs t) \<longleftrightarrow> x \<in> P"
    proof
      assume "x \<in> surv {b} (rt_pairs t)"
      then show "x \<in> P" unfolding assms(2) x surv_def by auto
    next
      assume "x \<in> P"
      then have pc: "(p, c) \<in> P" by (simp add: x)
      have "c \<noteq> b" using nb[OF pc] by simp
      with pc holders[OF pc] show "x \<in> surv {b} (rt_pairs t)" unfolding assms(2) x surv_def by simp
    qed
  qed
qed

lemma surv_cut:
  assumes "rt_ok t" "(q, b) \<in> rt_pairs t" "\<forall>c. (q, c) \<in> rt_pairs t \<longrightarrow> c = b"
  shows "surv {b} (rt_pairs t) = {(p, c) \<in> rt_pairs t. \<not> prefix q p}"
proof (rule set_eqI)
  fix x :: "u64 list \<times> u64"
  obtain p c where x: "x = (p, c)" by (cases x)
  have q: "q \<noteq> []"
  proof
    assume "q = []"
    with assms(2) obtain a where "([], b, a) \<in># cells (rt_root t)" by (auto simp: rt_pairs_def pairs_def)
    moreover have r: "rvalue (rt_root t) = []" "rwf (rt_root t)" using assms(1) by (simp_all add: rt_ok_def root_ok_def)
    ultimately obtain d where "d \<in> set (kids (rchildren (rt_root t)))" "([], b, a) \<in># cells d"
      by (auto simp: cells_eq[of "rt_root t"] in_cells_ch)
    then show False using cell_head[of "[]" b a d] rwf_kid[OF r(2)] by blast
  qed
  show "x \<in> surv {b} (rt_pairs t) \<longleftrightarrow> x \<in> {(p, c) \<in> rt_pairs t. \<not> prefix q p}"
  proof
    assume "x \<in> surv {b} (rt_pairs t)"
    then show "x \<in> {(p, c) \<in> rt_pairs t. \<not> prefix q p}" using q assms(3) unfolding x surv_def by blast
  next
    assume "x \<in> {(p, c) \<in> rt_pairs t. \<not> prefix q p}"
    then have pc: "(p, c) \<in> rt_pairs t" "\<not> prefix q p" by (simp_all add: x)
    have "c \<noteq> b" using pair_unique[OF assms(1,2)] pc by auto
    moreover have "\<exists>c'. c' \<noteq> b \<and> (r, c') \<in> rt_pairs t" if r: "r \<noteq> []" "prefix r p" for r
    proof -
      obtain c' where c': "(r, c') \<in> rt_pairs t" using pairs_closed[OF assms(1) pc(1) r] by blast
      have "c' \<noteq> b" using pair_unique[OF assms(1,2)] c' pc(2) r(2) by auto
      with c' show ?thesis by blast
    qed
    ultimately show "x \<in> surv {b} (rt_pairs t)" using pc(1) unfolding x surv_def by blast
  qed
qed

lemma remove_block_ok:
  assumes "rt_ok t" "unat b < length (block_to_node t)"
  shows "\<exists>t' k'. remove_block b (t, k) = Inr (t', k') \<and> removes t {b} t' \<and>
    k' + size (cells (rt_root t')) = k + size (cells (rt_root t))"
proof (cases "btn_at (block_to_node t) b")
  case None
  then have "removes t {b} t" using surv_untouched[OF assms(1)] btn_at_pairs[OF assms(1)] assms(1) by (simp add: removes_def)
  then show ?thesis using None assms(2) by (simp add: remove_block_def)
next
  case (Some a)
  let ?root = "rt_root t" and ?btn = "block_to_node t"
  have ok: "root_ok ?root" "tab (cells ?root) (btn_at ?btn)" "rt_nodes t = of_nat (size (addrs ?root))"
    "\<forall>a\<in>#addrs ?root. a < next_addr t" using assms(1) by (simp_all add: rt_ok_def)
  have rwf: "rwf ?root" using ok(1) by (simp add: root_ok_def)
  obtain s where s: "(s, b, a) \<in># cells ?root" using Some ok(2) by (auto simp: tab_def)
  then obtain q m r where m: "located ?root q m" "raddr m = a" "(r, b, a) \<in># own (raddr m) (rvalue m) (rpayload m)"
    using cell_located by blast
  define v where "v = rvalue m"
  define p where "p = rpayload m"
  define ch where "ch = rchildren m"
  have rm: "rwf m" by (rule located_rwf[OF m(1) rwf])
  then have lp: "length p = length v" "[] \<notin> set p" "good_ch ch" using rwf_good[OF rm] by (simp_all add: rwf_eq[of m] p_def v_def ch_def)
  have "\<exists>bs\<in>set p. b \<in> set bs" using m(3) by (auto simp: in_own p_def)
  then obtain pos where pos: "position (\<lambda>bids. b \<in> set bids) p = Some pos"
    using position_None[of "\<lambda>bids. b \<in> set bids" p] by (cases "position (\<lambda>bids. b \<in> set bids) p") auto
  then have pp: "pos < length p" "pos < length v" "b \<in> set (p ! pos)" using position_SomeD[OF pos] lp(1) by simp_all
  have mv: "rvalue m \<noteq> []" using pp(2) by (auto simp: v_def)
  note nr = not_root[OF ok(1) m(1) mv]
  define bids' where "bids' = remove1 b (p ! pos)"
  define p' where "p' = p[pos := bids']"
  have deref: "deref a ?root = Inr m" using deref_located[OF ok(1) m(1)] m(2) by simp
  have cm: "cells m = own a v p + image_mset (pre v) (cells_ch ch)" using m(2) by (simp add: cells_eq[of m] v_def p_def ch_def)
  let ?path = "q @ take (Suc pos) v"
  show ?thesis
  proof (cases "bids' = []")
    case False
    define m' where "m' = RNode a v p' ch"
    have "set p' \<subseteq> insert bids' (set p)" unfolding p'_def by (rule set_update_subset_insert)
    then have "rwf m'" using False lp by (auto simp: m'_def p'_def good_ch_def)
    moreover have "raddr m' = raddr m" "fits m m'" using m(2) mv by (auto simp: m'_def fits_def childless_empty_def v_def)
    ultimately obtain F G where FG: "cells ?root = F + image_mset (pre q) (cells m)" "addrs ?root = G + addrs m"
      "cells (put_at a m' ?root) = F + image_mset (pre q) (cells m')" "addrs (put_at a m' ?root) = G + addrs m'"
      "nodup (G + addrs m') \<Longrightarrow> root_ok (put_at a m' ?root)"
      using put_ok[OF ok(1) m(1), of m'] nr m(2) by blast
    have own: "own a v p = own a v p' + {#(take (Suc pos) v, b, a)#}"
      using own_remove1[OF pp(2) lp(1) pp(3), of a] by (simp add: p'_def bids'_def)
    have cells: "cells ?root = cells (put_at a m' ?root) + {#(?path, b, a)#}"
      unfolding FG(1,3) cm own by (simp add: m'_def)
    have am: "addrs m' = addrs m" using m(2) by (simp add: m'_def addrs_eq[of m] ch_def)
    let ?t' = "t\<lparr>rt_root := put_at a m' ?root, block_to_node := ?btn[unat b := None]\<rparr>"
    have "tab (cells (put_at a m' ?root)) (btn_at (?btn[unat b := None]))"
      by (rule tab_del[of _ "{#(?path, b, a)#}" "btn_at ?btn"]) (use ok(2) cells assms(2) in \<open>simp_all add: btn_at_update\<close>)
    then have ok': "rt_ok ?t'" using ok FG am by (simp add: rt_ok_def root_ok_def)
    have pairs: "rt_pairs t = insert (?path, b) (rt_pairs ?t')"
      unfolding rt_pairs_def cells by (auto simp: pairs_def)
    have "(?path, b) \<notin> rt_pairs ?t'"
    proof
      assume "(?path, b) \<in> rt_pairs ?t'"
      then have "btn_at (block_to_node ?t') b \<noteq> None" using btn_at_pairs[OF ok'] by blast
      then show False using assms(2) by (simp add: btn_at_update)
    qed
    moreover obtain b' where "b' \<in> set bids'" using False by (cases bids') auto
    then have "(take (Suc pos) v, b', a) \<in># own a v p'" using pp lp(1) by (auto simp: in_own p'_def)
    then have "(take (Suc pos) v, b', a) \<in># cells m'" by (simp add: m'_def)
    then have "pre q (take (Suc pos) v, b', a) \<in># image_mset (pre q) (cells m')" unfolding set_image_mset by (rule imageI)
    then have "(?path, b') \<in> rt_pairs ?t'" using FG(3) by (auto simp: rt_pairs_def pairs_def)
    ultimately have "surv {b} (rt_pairs t) = rt_pairs ?t'" using surv_alias[OF assms(1) pairs] by blast
    then have "removes t {b} ?t'" using ok' by (simp add: removes_def)
    moreover have "remove_block b (t, k) = Inr (?t', k + 1)"
      using Some assms(2) deref pos False m(2)
      by (simp add: remove_block_def p_def[symmetric] bids'_def[symmetric] Let_def p'_def[symmetric] v_def[symmetric] ch_def[symmetric] m'_def)
    ultimately show ?thesis using cells by simp
  next
    case True
    define m' where "m' = RNode a (take pos v) (take pos p) (children_clear ch)"
    have clear: "kids (children_clear ch) = []" "sibs (children_clear ch)"
      by (cases ch; simp add: children_clear_def sibs_def)+
    then have rwf': "rwf m'" using lp by (auto simp: m'_def dest: in_set_takeD)
    have "childless_empty m'" using clear by (simp add: m'_def childless_empty_def)
    moreover have "hd (take pos v) = hd v" if "take pos v \<noteq> []" using that by (cases pos; cases v) auto
    ultimately have fits: "fits m m'" using mv by (simp add: fits_def m'_def v_def)
    have "raddr m' = raddr m" using m(2) by (simp add: m'_def)
    with rwf' fits obtain F G where FG: "cells ?root = F + image_mset (pre q) (cells m)" "addrs ?root = G + addrs m"
      "cells (put_at a m' ?root) = F + image_mset (pre q) (cells m')" "addrs (put_at a m' ?root) = G + addrs m'"
      "nodup (G + addrs m') \<Longrightarrow> root_ok (put_at a m' ?root)"
      using put_ok[OF ok(1) m(1), of m'] nr m(2) by blast
    define D where "D = image_mset (pre (q @ take pos v)) (own a (drop pos v) (drop pos p)) + image_mset (pre (q @ v)) (cells_ch ch)"
    have "own a v p = own a (take pos v) (take pos p) + image_mset (pre (take pos v)) (own a (drop pos v) (drop pos p))"
      using own_append[of "take pos p" "take pos v" a "drop pos v" "drop pos p"] lp(1) by simp
    then have cells: "cells ?root = cells (put_at a m' ?root) + D"
      using clear unfolding FG(1,3) unfolding cm D_def m'_def by (simp add: cells_ch_def multiset.map_comp ac_simps)
    have am: "addrs m = addrs m' + addrs_ch ch" using m(2) clear by (simp add: m'_def addrs_eq[of m] ch_def[symmetric] addrs_ch_def)
    \<comment> \<open>the table\<close>
    have pb: "set (p ! pos) = {b}"
    proof -
      have "p ! pos = [b]" using True pp(3) unfolding bids'_def by (cases "p ! pos") (auto split: if_splits)
      then show ?thesis by simp
    qed
    have lpb: "p ! pos = [b]" using True pp(3) unfolding bids'_def by (cases "p ! pos") (auto split: if_splits)
    have dp: "concat (drop pos p) = b # concat (drop (Suc pos) p)" using pp(1) lpb by (simp add: Cons_nth_drop_Suc[symmetric])
    have dp': "concat (drop pos p') = concat (drop (Suc pos) p)"
      using pp(1) True by (simp add: p'_def drop_update_swap Cons_nth_drop_Suc[symmetric])
    have bD: "bid_of ` set_mset D = set (concat (drop pos p)) \<union> bid_of ` set_mset (cells_ch ch)"
    proof -
      have "image_mset bid_of (own a (drop pos v) (drop pos p)) = mset (concat (drop pos p))" using lp(1) by (intro own_bids) simp
      then have "bid_of ` set_mset (own a (drop pos v) (drop pos p)) = set (concat (drop pos p))" by (metis set_image_mset set_mset_mset)
      then show ?thesis by (simp add: D_def image_Un image_image)
    qed
    have sD: "size D = Suc (length (concat (drop (Suc pos) p))) + size (cells_ch ch)"
    proof -
      have "image_mset bid_of (own a (drop pos v) (drop pos p)) = mset (concat (drop pos p))" using lp(1) by (intro own_bids) simp
      then have "size (own a (drop pos v) (drop pos p)) = length (concat (drop pos p))" by (metis size_image_mset size_mset)
      then show ?thesis by (simp add: D_def dp)
    qed
    have inD: "unat c < length ?btn" if "c \<in> bid_of ` set_mset D" for c
    proof -
      from that obtain x where "x \<in># cells ?root" "bid_of x = c" using cells by auto
      from tab_bids[OF ok(2) this(1)] this(2) show ?thesis by (auto simp: btn_at_def split: if_splits)
    qed
    let ?cleared = "?btn[unat b := None]"
    obtain btn1 where b1: "fold_outcome unregister (concat (drop (Suc pos) p)) (?cleared, k + 1, 0) = Inr (btn1, k + 1 + length (concat (drop (Suc pos) p)), 0)"
      "length btn1 = length ?cleared" "btn_at btn1 = (\<lambda>c. if c \<in> set (concat (drop (Suc pos) p)) then None else btn_at ?cleared c)"
      using fold_unregister[of "concat (drop (Suc pos) p)" ?cleared "k + 1" 0] inD bD dp by auto
    have "\<forall>x\<in>#cells_ch ch. unat (bid_of x) < length btn1" using inD bD b1(2) by auto
    from fold_clear_ok[OF lp(3) this] obtain btn2 where b2:
      "fold_outcome clear_inner (kids ch) (btn1, k + 1 + length (concat (drop (Suc pos) p)), 0) =
         Inr (btn2, k + 1 + length (concat (drop (Suc pos) p)) + size (cells_ch ch), 0 + size (addrs_ch ch))"
      "length btn2 = length btn1" "btn_at btn2 = (\<lambda>c. if c \<in> bid_of ` set_mset (cells_ch ch) then None else btn_at btn1 c)" by blast
    have \<tau>: "\<forall>c. btn_at btn2 c = (if c \<in> bid_of ` set_mset D then None else btn_at ?btn c)"
      unfolding b2(3) b1(3) bD dp using assms(2) by (simp add: btn_at_update)
    let ?t' = "gc_nodes (size (addrs_ch ch)) (t\<lparr>rt_root := put_at a m' ?root, block_to_node := btn2\<rparr>)"
    have "tab (cells (put_at a m' ?root) + D) (btn_at ?btn)" using ok(2) unfolding cells .
    from tab_del[OF this \<tau>] have "tab (cells (put_at a m' ?root)) (btn_at btn2)" .
    moreover have "root_ok (put_at a m' ?root)" using FG(2,5) am ok(1) by (auto simp: root_ok_def nodup_union)
    ultimately have ok': "rt_ok ?t'" using ok(3,4) FG(2,4) am by (auto simp: rt_ok_def gc_nodes_def)
    \<comment> \<open>the cells that go are those whose path extends the position\<close>
    have hd: "take (Suc pos) v @ s \<noteq> []" "hd (take (Suc pos) v @ s) = hd (rvalue m)" for s
      using pp(2) by (cases v; simp add: v_def)+
    have ext: "x \<in># D" if x: "x \<in># cells ?root" "prefix ?path (path_of x)" for x
    proof -
      obtain s c e where xe: "x = (q @ take (Suc pos) v @ s, c, e)" using x(2) by (cases x) (auto simp: prefix_def)
      have "(take (Suc pos) v @ s, c, e) \<in># cells m"
        using cells_located[OF m(1) rwf mv hd, of s c e] x(1) xe by simp
      moreover have "(take (Suc pos) v @ s, c, e) \<notin># own a (take pos v) (take pos p)"
      proof
        assume "(take (Suc pos) v @ s, c, e) \<in># own a (take pos v) (take pos p)"
        then obtain i where "i < pos" "take (Suc pos) v @ s = take (Suc i) (take pos v)" by (auto simp: in_own)
        then have "length (take (Suc pos) v @ s) \<le> pos" by simp
        then show False using pp(2) by simp
      qed
      ultimately have "(take (Suc pos) v @ s, c, e) \<in># image_mset (pre (take pos v)) (own a (drop pos v) (drop pos p)) + image_mset (pre v) (cells_ch ch)"
        using \<open>own a v p = _\<close> unfolding cm by auto
      then have "pre q (take (Suc pos) v @ s, c, e) \<in># image_mset (pre q) (image_mset (pre (take pos v)) (own a (drop pos v) (drop pos p)) + image_mset (pre v) (cells_ch ch))"
        unfolding set_image_mset by (rule imageI)
      then show ?thesis by (simp add: D_def xe multiset.map_comp)
    qed
    have pre: "prefix ?path (path_of x)" if "x \<in># D" for x
    proof -
      from that consider y where "y \<in># own a (drop pos v) (drop pos p)" "x = pre (q @ take pos v) y"
        | y where "x = pre (q @ v) y" by (auto simp: D_def)
      then show ?thesis
      proof cases
        case 1
        then obtain j c where "y = (take (Suc j) (drop pos v), c, a)" by (auto simp: in_own)
        then have "path_of x = q @ take (Suc pos) v @ take j (drop (Suc pos) v)"
          using 1 take_add[of pos "Suc j" v] take_add[of "Suc pos" j v] by simp
        then show ?thesis by simp
      next
        case 2
        have "prefix (take (Suc pos) v) (v @ path_of y)" by (metis append.assoc append_take_drop_id prefixI)
        with 2 show ?thesis by simp
      qed
    qed
    have part: "(c, d) \<in> rt_pairs ?t' \<longleftrightarrow> (c, d) \<in> rt_pairs t \<and> \<not> prefix ?path c" for c d
    proof -
      have "\<not> prefix ?path c" if c: "(c, d, e) \<in># cells (put_at a m' ?root)" for e
      proof
        assume "prefix ?path c"
        then have "(c, d, e) \<in># D" using ext[of "(c, d, e)"] c cells by simp
        then have "d \<in> bid_of ` set_mset D" "d \<in> bid_of ` set_mset (cells (put_at a m' ?root))" using c by (auto intro: cell_bidI)
        then show False using ok(2) unfolding tab_def cells by (auto simp: nodup_union)
      qed
      moreover have "prefix ?path c" if "(c, d, e) \<in># D" for e using pre[OF that] by simp
      ultimately show ?thesis unfolding rt_pairs_def cells pairs_def gc_nodes_def by auto
    qed
    have "(?path, b) \<in> rt_pairs t"
    proof -
      have "(take (Suc pos) v, b, a) \<in># own a v p" using pp by (auto simp: in_own)
      then have "pre q (take (Suc pos) v, b, a) \<in># image_mset (pre q) (cells m)" unfolding set_image_mset by (intro imageI) (simp add: cm)
      then show ?thesis unfolding rt_pairs_def pairs_def FG(1) by auto
    qed
    moreover have "c = b" if c: "(?path, c) \<in> rt_pairs t" for c
    proof -
      obtain e where "(q @ take (Suc pos) v, c, e) \<in># cells ?root" using c by (auto simp: rt_pairs_def pairs_def)
      then have "(take (Suc pos) v, c, e) \<in># cells m" using cells_located[OF m(1) rwf mv hd, of "[]" c e] by simp
      moreover have "(take (Suc pos) v, c, e) \<notin># image_mset (pre v) (cells_ch ch)"
      proof
        assume "(take (Suc pos) v, c, e) \<in># image_mset (pre v) (cells_ch ch)"
        then obtain z d where z: "d \<in> set (kids ch)" "(z, c, e) \<in># cells d" "take (Suc pos) v = v @ z" by (auto simp: in_cells_ch)
        then have "z = []" by (metis append_eq_conv_conj append_self_conv append_take_drop_id length_append length_take linorder_not_less min.cobounded1 le_add1 nle_le add_le_same_cancel1 length_0_conv le_zero_eq)
        then show False using cell_head[OF z(2)] lp(3) z(1) by (auto simp: good_ch_def)
      qed
      ultimately have "(take (Suc pos) v, c, e) \<in># own a v p" unfolding cm by auto
      then obtain i where i: "i < length v" "take (Suc pos) v = take (Suc i) v" "c \<in> set (p ! i)" by (auto simp: in_own)
      then have "length (take (Suc pos) v) = length (take (Suc i) v)" by simp
      with i(1) pp(2) have "i = pos" by simp
      with i(3) pb show "c = b" by auto
    qed
    ultimately have "surv {b} (rt_pairs t) = rt_pairs ?t'"
    proof -
      assume *: "(?path, b) \<in> rt_pairs t" "\<And>c. (?path, c) \<in> rt_pairs t \<Longrightarrow> c = b"
      then have "\<forall>c. (?path, c) \<in> rt_pairs t \<longrightarrow> c = b" by blast
      from surv_cut[OF assms(1) *(1) this] have "surv {b} (rt_pairs t) = {(p, c) \<in> rt_pairs t. \<not> prefix ?path p}" .
      also have "\<dots> = rt_pairs ?t'" by (simp only: part set_eq_iff split_paired_All mem_Collect_eq prod.case simp_thms)
      finally show ?thesis .
    qed
    then have "removes t {b} ?t'" using ok' b1(2) b2(2) by (simp add: removes_def gc_nodes_def)
    moreover have "take pos p' = take pos p" by (simp add: p'_def)
    then have "remove_block b (t, k) = Inr (?t', k + 1 + length (concat (drop (Suc pos) p)) + size (cells_ch ch))"
      using Some assms(2) deref pos True m(2) b1(1) b2(1) dp'[unfolded p'_def True]
      by (simp add: remove_block_def p_def[symmetric] bids'_def[symmetric] Let_def p'_def[symmetric] v_def[symmetric] ch_def[symmetric] m'_def del: concat.simps)
    ultimately show ?thesis using cells sD by (simp add: gc_nodes_def)
  qed
qed

section \<open>Removal\<close>

lemma removes_trans: "removes t {b} t1 \<Longrightarrow> removes t1 S t2 \<Longrightarrow> removes t (insert b S) t2"
  by (simp add: removes_def surv_surv)

lemma fold_remove_block_ok:
  "rt_ok t \<Longrightarrow> \<forall>b\<in>set bs. unat b < length (block_to_node t) \<Longrightarrow>
     \<exists>t' k'. fold_outcome remove_block bs (t, k) = Inr (t', k') \<and> removes t (set bs) t' \<and>
       k' + size (cells (rt_root t')) = k + size (cells (rt_root t))"
proof (induction bs arbitrary: t k)
  case Nil
  then show ?case by (simp add: removes_def surv_empty)
next
  case (Cons b bs)
  obtain t1 k1 where t1: "remove_block b (t, k) = Inr (t1, k1)" "removes t {b} t1"
    "k1 + size (cells (rt_root t1)) = k + size (cells (rt_root t))"
    using remove_block_ok[OF Cons.prems(1), of b k] Cons.prems(2) by auto
  obtain t2 k2 where t2: "fold_outcome remove_block bs (t1, k1) = Inr (t2, k2)" "removes t1 (set bs) t2"
    "k2 + size (cells (rt_root t2)) = k1 + size (cells (rt_root t1))"
    using Cons.IH[of t1 k1] t1(2) Cons.prems(2) by (auto simp: removes_def)
  show ?case using t1 t2 removes_trans[OF t1(2) t2(2)] by simp
qed

lemma rt_remove_ok:
  assumes "rt_ok t" "\<forall>b\<in>set bids. unat b < rt_capacity t"
  shows "\<exists>t'. rt_remove t bids = Inr t' \<and> rt_ok t' \<and> rt_pairs t' = surv (set bids) (rt_pairs t) \<and>
    rt_capacity t' = rt_capacity t \<and> rt_epoch t' = rt_epoch t + 1 \<and>
    rt_size t' = sat_sub (rt_size t) (of_nat (size (cells (rt_root t)) - size (cells (rt_root t'))))"
proof -
  let ?t = "t\<lparr>rt_epoch := rt_epoch t + 1\<rparr>"
  have "rt_ok ?t" using assms(1) by (simp add: rt_ok_def)
  from fold_remove_block_ok[OF this, of "rev bids" 0] assms(2) obtain t' k where t':
    "remove_inner bids ?t = Inr (t', k)" "removes ?t (set bids) t'" "k + size (cells (rt_root t')) = size (cells (rt_root t))"
    by (auto simp: remove_inner_def rt_capacity_def)
  have "rt_ok (t'\<lparr>rt_size := s\<rparr>)" for s using t'(2) by (simp add: removes_def rt_ok_def)
  moreover have "k = size (cells (rt_root t)) - size (cells (rt_root t'))" using t'(3) by simp
  ultimately show ?thesis using t' by (simp add: rt_remove_def removes_def rt_pairs_def rt_capacity_def)
qed

lemma rt_new_ok: "rt_ok (rt_new n)" "rt_pairs (rt_new n) = {}" "rt_capacity (rt_new n) = n"
proof -
  have "cells (node_new 0) = {#}" by (simp add: node_new_def cells_ch_def)
  then show "rt_pairs (rt_new n) = {}" by (simp add: rt_new_def rt_pairs_def)
  have "btn_at (replicate n None) b = None" for b by (simp add: btn_at_def)
  then show "rt_ok (rt_new n)"
    by (simp add: rt_ok_def rt_new_def root_ok_def node_new_def sibs_def tab_def addrs_ch_def cells_ch_def)
  show "rt_capacity (rt_new n) = n" by (simp add: rt_capacity_def rt_new_def)
qed

end
