(* ===== verification/RadixMatcher.thy ===== *)
theory RadixMatcher
  imports RadixTreeRemove
begin

text \<open>
  The contract of a prefix matcher over pairs of a path and a block filed under it, met by the production
  radix tree; sequences of operations; deallocation; the agreement with the hash table; the
  properties of the tree.
\<close>

section \<open>The contract of a prefix matcher\<close>

text \<open>
  Over the set of pairs of a path and a block filed under it: the blocks of an insertion must be in range
  and either unknown or already filed where the insertion files them. A path is found as long as some
  block is filed under it.
\<close>

definition filable :: "nat \<Rightarrow> (u64 list \<times> u64) set \<Rightarrow> u64 list \<Rightarrow> u64 list \<Rightarrow> bool" where
  "filable n P hs bids \<longleftrightarrow> length bids = length hs \<and> distinct bids \<and>
     (\<forall>i<length bids. unat (bids ! i) < n \<and> (\<forall>q. (q, bids ! i) \<in> P \<longrightarrow> q = take (Suc i) hs))"

datatype matcher_op = Insert "u64 list" "u64 list" | Remove "u64 list"

fun spec_op :: "matcher_op \<Rightarrow> (u64 list \<times> u64) set \<Rightarrow> (u64 list \<times> u64) set" where
  "spec_op (Insert hs bids) P = P \<union> rest_pairs [] hs bids"
| "spec_op (Remove bids) P = surv (set bids) P"

fun op_allowed :: "nat \<Rightarrow> (u64 list \<times> u64) set \<Rightarrow> matcher_op \<Rightarrow> bool" where
  "op_allowed n P (Insert hs bids) \<longleftrightarrow> filable n P hs bids"
| "op_allowed n P (Remove bids) \<longleftrightarrow> (\<forall>b\<in>set bids. unat b < n)"

text \<open>A sequence of operations, each allowed where it is applied.\<close>

fun allowed :: "nat \<Rightarrow> (u64 list \<times> u64) set \<Rightarrow> matcher_op list \<Rightarrow> bool" where
  "allowed n P [] \<longleftrightarrow> True"
| "allowed n P (x # xs) \<longleftrightarrow> op_allowed n P x \<and> allowed n (spec_op x P) xs"

locale path_matcher =
  fixes new :: "nat \<Rightarrow> 't"
    and ins :: "'t \<Rightarrow> u64 list \<Rightarrow> u64 list \<Rightarrow> ('t \<times> nat) outcome"
    and get :: "'t \<Rightarrow> u64 list \<Rightarrow> nat"
    and rem :: "'t \<Rightarrow> u64 list \<Rightarrow> 't outcome"
    and epoch_of :: "'t \<Rightarrow> u64"
    and ok :: "'t \<Rightarrow> bool"
    and prs :: "'t \<Rightarrow> (u64 list \<times> u64) set"
    and cap :: "'t \<Rightarrow> nat"
  assumes new_ok: "ok (new n)" "prs (new n) = {}" "cap (new n) = n"
    and ins_ok: "ok t \<Longrightarrow> filable (cap t) (prs t) hs bids \<Longrightarrow>
      \<exists>t'. ins t hs bids = Inr (t', length hs - get t hs) \<and> ok t' \<and> prs t' = prs t \<union> rest_pairs [] hs bids \<and>
        cap t' = cap t \<and> epoch_of t' = epoch_of t + 1"
    and rem_ok: "ok t \<Longrightarrow> \<forall>b\<in>set bids. unat b < cap t \<Longrightarrow>
      \<exists>t'. rem t bids = Inr t' \<and> ok t' \<and> prs t' = surv (set bids) (prs t) \<and> cap t' = cap t \<and> epoch_of t' = epoch_of t + 1"
    and get_ok: "ok t \<Longrightarrow> get t q \<le> length q \<and> (\<forall>i<length q. (\<exists>b. (take (Suc i) q, b) \<in> prs t) \<longleftrightarrow> i < get t q)"
    and closed: "ok t \<Longrightarrow> surv {} (prs t) = prs t"
begin

lemma get_eqI:
  assumes "ok t" "n \<le> length q" "\<forall>i<length q. (\<exists>b. (take (Suc i) q, b) \<in> prs t) \<longleftrightarrow> i < n"
  shows "get t q = n"
proof (rule ccontr)
  assume ne: "get t q \<noteq> n"
  let ?i = "min (get t q) n"
  have "?i < length q" using ne get_ok[OF assms(1), of q] assms(2) by (auto simp: min_def)
  then have "?i < get t q \<longleftrightarrow> ?i < n" using get_ok[OF assms(1), of q] assms(3) by blast
  with ne show False by (auto simp: min_def split: if_splits)
qed

lemma get_cong: "ok t \<Longrightarrow> ok t' \<Longrightarrow> prs t = prs t' \<Longrightarrow> get t q = get t' q"
  using get_ok[of t' q] by (intro get_eqI) auto

lemma get_inserted:
  assumes "ok t" "filable (cap t) (prs t) hs bids" "ins t hs bids = Inr (t', n)"
  shows "get t' hs = length hs"
proof (rule get_eqI)
  have len: "length bids = length hs" using assms(2) by (simp add: filable_def)
  have t': "ok t'" "prs t' = prs t \<union> rest_pairs [] hs bids" using ins_ok[OF assms(1,2)] assms(3) by auto
  show "ok t'" by (rule t'(1))
  have "(take (Suc i) hs, bids ! i) \<in> rest_pairs [] hs bids" if "i < length hs" for i
    using that by (auto simp: rest_pairs_def)
  then show "\<forall>i<length hs. (\<exists>b. (take (Suc i) hs, b) \<in> prs t') \<longleftrightarrow> i < length hs" unfolding t'(2) by blast
qed simp

text \<open>Inserting blocks that the matcher does not know and removing them again restores it.\<close>

lemma ins_rem:
  assumes "ok t" "filable (cap t) (prs t) hs bids" "\<forall>b\<in>set bids. \<forall>q. (q, b) \<notin> prs t" "ins t hs bids = Inr (t1, n)"
  shows "\<exists>t2. rem t1 bids = Inr t2 \<and> ok t2 \<and> prs t2 = prs t"
proof -
  have t1: "ok t1" "prs t1 = prs t \<union> rest_pairs [] hs bids" "cap t1 = cap t" using ins_ok[OF assms(1,2)] assms(4) by auto
  have len: "length bids = length hs" using assms(2) by (simp add: filable_def)
  have "\<forall>b\<in>set bids. unat b < cap t1" using assms(2) t1(3) by (auto simp: filable_def in_set_conv_nth)
  from rem_ok[OF t1(1) this] obtain t2 where t2: "rem t1 bids = Inr t2" "ok t2" "prs t2 = surv (set bids) (prs t1)" by blast
  have "surv (set bids) (prs t1) = prs t"
  proof (rule set_eqI)
    fix x :: "u64 list \<times> u64"
    obtain q b where x: "x = (q, b)" by (cases x)
    have nb: "b' \<in> set bids" if "(p, b') \<in> rest_pairs [] hs bids" for p b' using that len by (auto simp: rest_pairs_def)
    show "x \<in> surv (set bids) (prs t1) \<longleftrightarrow> x \<in> prs t"
    proof
      assume "x \<in> surv (set bids) (prs t1)"
      then have "(q, b) \<in> prs t1" "b \<notin> set bids" by (simp_all add: x surv_def)
      with nb show "x \<in> prs t" by (auto simp: x t1(2))
    next
      assume *: "x \<in> prs t"
      then have "x \<in> surv {} (prs t)" using closed[OF assms(1)] by simp
      then have "\<exists>b'. (p, b') \<in> prs t" if "p \<noteq> []" "prefix p q" for p using that by (auto simp: x surv_def)
      then have "\<exists>b'. b' \<notin> set bids \<and> (p, b') \<in> prs t1" if "p \<noteq> []" "prefix p q" for p
        using that assms(3) unfolding t1(2) by blast
      moreover have "b \<notin> set bids" "(q, b) \<in> prs t1" using * assms(3) by (auto simp: x t1(2))
      ultimately show "x \<in> surv (set bids) (prs t1)" by (simp add: x surv_def)
    qed
  qed
  with t2 show ?thesis by simp
qed

end

text \<open>Running a sequence of operations.\<close>

fun rt_run :: "matcher_op list \<Rightarrow> radix_tree \<Rightarrow> radix_tree outcome" where
  "rt_run [] t = Inr t"
| "rt_run (Insert hs bids # xs) t = obind (rt_insert t hs bids) (\<lambda>(t', n). rt_run xs t')"
| "rt_run (Remove bids # xs) t = obind (rt_remove t bids) (rt_run xs)"

interpretation rt: path_matcher rt_new rt_insert rt_get rt_remove rt_epoch rt_ok rt_pairs rt_capacity
proof
  show "rt_ok (rt_new n)" "rt_pairs (rt_new n) = {}" "rt_capacity (rt_new n) = n" for n by (fact rt_new_ok)+
next
  fix t :: radix_tree and hs bids
  assume "rt_ok t" "filable (rt_capacity t) (rt_pairs t) hs bids"
  then show "\<exists>t'. rt_insert t hs bids = Inr (t', length hs - rt_get t hs) \<and> rt_ok t' \<and> rt_pairs t' = rt_pairs t \<union> rest_pairs [] hs bids \<and>
      rt_capacity t' = rt_capacity t \<and> rt_epoch t' = rt_epoch t + 1"
    using rt_insert_ok[of t hs bids] by (auto simp: insertable_def filable_def)
next
  fix t :: radix_tree and bids :: "u64 list"
  assume "rt_ok t" "\<forall>b\<in>set bids. unat b < rt_capacity t"
  from rt_remove_ok[OF this]
  show "\<exists>t'. rt_remove t bids = Inr t' \<and> rt_ok t' \<and> rt_pairs t' = surv (set bids) (rt_pairs t) \<and> rt_capacity t' = rt_capacity t \<and>
      rt_epoch t' = rt_epoch t + 1" by blast
next
  fix t :: radix_tree and q
  assume "rt_ok t"
  from rt_get_ok[OF this]
  show "rt_get t q \<le> length q \<and> (\<forall>i<length q. (\<exists>b. (take (Suc i) q, b) \<in> rt_pairs t) \<longleftrightarrow> i < rt_get t q)" by (simp add: stored_rt)
next
  show "rt_ok t \<Longrightarrow> surv {} (rt_pairs t) = rt_pairs t" for t by (rule surv_empty)
qed

lemma rt_run_ok:
  "rt_ok t \<Longrightarrow> allowed (rt_capacity t) (rt_pairs t) xs \<Longrightarrow>
     \<exists>t'. rt_run xs t = Inr t' \<and> rt_ok t' \<and> rt_pairs t' = foldl (\<lambda>P x. spec_op x P) (rt_pairs t) xs"
proof (induction xs arbitrary: t)
  case (Cons x xs)
  show ?case
  proof (cases x)
    case (Insert hs bids)
    with Cons.prems have "filable (rt_capacity t) (rt_pairs t) hs bids" by simp
    from rt.ins_ok[OF Cons.prems(1) this] obtain t' where "rt_insert t hs bids = Inr (t', length hs - rt_get t hs)"
      "rt_ok t'" "rt_pairs t' = rt_pairs t \<union> rest_pairs [] hs bids" "rt_capacity t' = rt_capacity t" by blast
    with Cons.IH[of t'] Cons.prems(2) Insert show ?thesis by auto
  next
    case (Remove bids)
    with Cons.prems have "\<forall>b\<in>set bids. unat b < rt_capacity t" by simp
    from rt.rem_ok[OF Cons.prems(1) this] obtain t' where "rt_remove t bids = Inr t'"
      "rt_ok t'" "rt_pairs t' = surv (set bids) (rt_pairs t)" "rt_capacity t' = rt_capacity t" by blast
    with Cons.IH[of t'] Cons.prems(2) Remove show ?thesis by auto
  qed
qed simp

section \<open>Deallocation\<close>

lemma drop_stack_addrs: "mset (drop_stack st post) = mset post + sum_list (map addrs st)"
proof (induction st post rule: drop_stack.induct)
  case (2 n st post)
  have "sum_list (map addrs (rev xs)) = sum_list (map addrs xs)" for xs :: "rnode list"
    by (induction xs) (auto simp: add.commute)
  with 2 show ?case by (simp add: addrs_eq[of n] addrs_ch_def)
qed simp


lemma rt_drop_addrs: "mset (rt_drop t) = addrs (rt_root t)"
  unfolding rt_drop_def drop_stack_addrs by simp

section \<open>Epochs\<close>

definition rt_mutates :: "radix_tree \<Rightarrow> radix_tree \<Rightarrow> bool" where
  "rt_mutates t t' \<longleftrightarrow>
     rt_ok t \<and> (\<exists>hs bids n. insertable t hs bids \<and> rt_insert t hs bids = Inr (t', n)) \<or>
     rt_ok t \<and> (\<exists>bids. (\<forall>b\<in>set bids. unat b < rt_capacity t) \<and> rt_remove t bids = Inr t')"

interpretation rt_epoch: epoch_counter rt_epoch rt_mutates
proof
  fix t t' assume "rt_mutates t t'"
  then show "rt_epoch t' = rt_epoch t + 1"
    unfolding rt_mutates_def using rt_insert_ok[of t] rt_remove_ok[of t] by fastforce
qed

section \<open>The hash table and the tree\<close>

text \<open>
  The two implementations hold the same blocks when the hash table files every block under the last hash
  of its path.
\<close>

definition same_blocks :: "hash_table \<Rightarrow> radix_tree \<Rightarrow> bool" where
  "same_blocks u t \<longleftrightarrow> (\<forall>b h. occupied u b = Some h \<longleftrightarrow> (\<exists>q. (q, b) \<in> rt_pairs t \<and> last q = h))"

text \<open>
  Block hashes are chained: a hash determines the hashes before it. For a query and the stored paths
  this means that a stored path ending with the hash at position \<open>i\<close> is the prefix of the query up to it.
\<close>

definition chained :: "(u64 list \<times> u64) set \<Rightarrow> u64 list \<Rightarrow> bool" where
  "chained P q \<longleftrightarrow> (\<forall>(p, b)\<in>P. \<forall>i<length q. last p = q ! i \<longrightarrow> p = take (Suc i) q)"

lemma matchers_agree:
  assumes "ht_ok u" "rt_ok t" "same_blocks u t" "chained (rt_pairs t) q"
  shows "ht_get u q = rt_get t q"
proof (rule sym, rule rt.get_eqI[OF assms(2)])
  let ?n = "ht_get u q"
  have n: "?n = length (takeWhile (\<lambda>h. h \<in> ran (occupied u)) q)" by (rule ht.get_ok[OF assms(1)])
  then show "?n \<le> length q" by (simp add: length_takeWhile_le)
  have ran: "q ! i \<in> ran (occupied u) \<longleftrightarrow> (\<exists>b. (take (Suc i) q, b) \<in> rt_pairs t)" if "i < length q" for i
  proof -
    have "last (take (Suc i) q) = q ! i" using that by (simp add: last_conv_nth take_Suc_conv_app_nth)
    have "q ! i \<in> ran (occupied u) \<longleftrightarrow> (\<exists>b p. (p, b) \<in> rt_pairs t \<and> last p = q ! i)"
      using assms(3) by (auto simp: ran_def same_blocks_def)
    also have "\<dots> \<longleftrightarrow> (\<exists>b. (take (Suc i) q, b) \<in> rt_pairs t)"
      using assms(4) that \<open>last (take (Suc i) q) = q ! i\<close> unfolding chained_def by blast
    finally show ?thesis .
  qed
  show "\<forall>i<length q. (\<exists>b. (take (Suc i) q, b) \<in> rt_pairs t) \<longleftrightarrow> i < ?n"
  proof (intro allI impI)
    fix i assume i: "i < length q"
    show "(\<exists>b. (take (Suc i) q, b) \<in> rt_pairs t) \<longleftrightarrow> i < ?n"
    proof
      assume "i < ?n"
      then have "q ! i \<in> ran (occupied u)" using ht.get_prefix[OF assms(1)] by blast
      then show "\<exists>b. (take (Suc i) q, b) \<in> rt_pairs t" using ran[OF i] by simp
    next
      assume *: "\<exists>b. (take (Suc i) q, b) \<in> rt_pairs t"
      show "i < ?n"
      proof (rule ccontr)
        assume "\<not> i < ?n"
        then have le: "?n \<le> i" by simp
        then have lt: "?n < length q" using i by simp
        then have no: "q ! ?n \<notin> ran (occupied u)" using nth_length_takeWhile[of "\<lambda>h. h \<in> ran (occupied u)" q] n by simp
        obtain b where "(take (Suc i) q, b) \<in> rt_pairs t" using * by blast
        moreover have "prefix (take (Suc ?n) q) (take (Suc i) q)"
          using le take_is_prefix[of "Suc ?n" "take (Suc i) q"] by (simp add: min_absorb1)
        moreover have "take (Suc ?n) q \<noteq> []" using lt by auto
        ultimately have "\<exists>b. (take (Suc ?n) q, b) \<in> rt_pairs t" using pairs_closed[OF assms(2)] by blast
        then show False using ran[OF lt] no by simp
      qed
    qed
  qed
qed

lemma assignable_distinct:
  "distinct (map snd ps) \<Longrightarrow> \<forall>(h, b)\<in>set ps. m b = None \<or> m b = Some h \<Longrightarrow> assignable ps m"
proof (induction ps arbitrary: m)
  case (Cons p ps)
  obtain h b where p: "p = (h, b)" by (cases p)
  have "c \<noteq> b" if "(g, c) \<in> set ps" for g c using that Cons.prems(1) p by force
  then have "\<forall>(g, c)\<in>set ps. (m(b \<mapsto> h)) c = None \<or> (m(b \<mapsto> h)) c = Some g" using Cons.prems(2) by auto
  then have "assignable ps (m(b \<mapsto> h))" using Cons.IH Cons.prems(1) by simp
  with Cons.prems(2) p show ?case by auto
qed simp

lemma assign_distinct:
  "distinct (map snd ps) \<Longrightarrow> (h, b) \<in> set ps \<Longrightarrow> assign ps m b = Some h"
proof (induction ps arbitrary: m)
  case (Cons p ps)
  obtain g c where p: "p = (g, c)" by (cases p)
  show ?case
  proof (cases "p = (h, b)")
    case True
    then have "b \<notin> snd ` set ps" using Cons.prems(1) by auto
    with True show ?thesis using ht.assign_other[of b ps "m(b \<mapsto> h)"] by simp
  next
    case False
    with Cons p show ?thesis by auto
  qed
qed simp

lemma same_blocks_insert:
  assumes "ht_ok u" "rt_ok t" "same_blocks u t" "insertable t hs bids" "chained (rt_pairs t) hs" "rt_capacity t = capacity u"
    and "ht_insert u hs bids = Inr (u', k)" "rt_insert t hs bids = Inr (t', n)"
  shows "same_blocks u' t'"
proof -
  have len: "length bids = length hs" and dist: "distinct bids" using assms(4) by (simp_all add: insertable_def)
  have pairs': "rt_pairs t' = rt_pairs t \<union> rest_pairs [] hs bids" using rt_insert_ok[OF assms(2,4)] assms(8) by auto
  have last: "last (take (Suc i) hs) = hs ! i" if "i < length hs" for i
    using that by (simp add: last_conv_nth take_Suc_conv_app_nth)
  have "occupied u b = None \<or> occupied u b = Some h" if hb: "(h, b) \<in> set (zip hs bids)" for h b
  proof (cases "occupied u b")
    case (Some y)
    obtain i where i: "i < length hs" "h = hs ! i" "b = bids ! i" using hb by (auto simp: in_set_zip)
    obtain q where q: "(q, b) \<in> rt_pairs t" "last q = y" using assms(3) Some by (auto simp: same_blocks_def)
    then have "q = take (Suc i) hs" using assms(4) i len by (auto simp: insertable_def)
    with last[OF i(1)] q(2) i(2) Some show ?thesis by simp
  qed simp
  then have "\<forall>(h, b)\<in>set (zip hs bids). occupied u b = None \<or> occupied u b = Some h" by auto
  then have asg: "assignable (zip hs bids) (occupied u)" using dist len by (intro assignable_distinct) (auto simp: map_snd_zip)
  have rng: "\<forall>p\<in>set (zip hs bids). unat (snd p) < capacity u"
    using assms(4,6) by (auto simp: insertable_def in_set_zip)
  from ht.ins_ok[OF assms(1) rng asg] assms(7) have occ: "occupied u' = assign (zip hs bids) (occupied u)" by auto
  show ?thesis unfolding same_blocks_def
  proof (intro allI)
    fix b h
    show "occupied u' b = Some h \<longleftrightarrow> (\<exists>q. (q, b) \<in> rt_pairs t' \<and> last q = h)"
    proof (cases "b \<in> set bids")
      case True
      then obtain i where i: "i < length hs" "b = bids ! i" using len by (auto simp: in_set_conv_nth)
      have only: "(q, b) \<in> rt_pairs t' \<longleftrightarrow> q = take (Suc i) hs" for q
      proof -
        have "(q, b) \<in> rest_pairs [] hs bids \<longleftrightarrow> q = take (Suc i) hs"
          using i len dist by (auto simp: rest_pairs_def nth_eq_iff_index_eq)
        moreover have "(q, b) \<in> rt_pairs t \<Longrightarrow> q = take (Suc i) hs" using assms(4) i len by (auto simp: insertable_def)
        ultimately show ?thesis unfolding pairs' by blast
      qed
      have "(hs ! i, b) \<in> set (zip hs bids)" using i len by (auto simp: in_set_zip)
      then have "occupied u' b = Some (hs ! i)"
        unfolding occ using dist len by (intro assign_distinct) (auto simp: map_snd_zip)
      with only last[OF i(1)] show ?thesis by auto
    next
      case False
      then have "(q, b) \<in> rt_pairs t' \<longleftrightarrow> (q, b) \<in> rt_pairs t" for q using len by (auto simp: pairs' rest_pairs_def)
      moreover have "occupied u' b = occupied u b"
        unfolding occ using False by (intro ht.assign_other) (auto dest: set_zip_rightD)
      ultimately show ?thesis using assms(3) by (simp add: same_blocks_def)
    qed
  qed
qed

section \<open>Properties\<close>

lemma rest_pairs_Nil [simp]: "rest_pairs q [] bs = {}"
  by (simp add: rest_pairs_def)

lemma rest_pairs_Cons [simp]:
  "length bs = length hs \<Longrightarrow> rest_pairs q (h # hs) (b # bs) = insert (q @ [h], b) (rest_pairs (q @ [h]) hs bs)"
  using rest_pairs_append[of "[b]" "[h]" bs hs q] by (simp add: rest_pairs_def[of q "[h]"])

text \<open>C13: any sequence of operations that files blocks in range, each under one path at a time,
  runs on a new tree without a panic and without following a dangling pointer; the tree then stands for
  the abstract matcher: a query matches as many hashes as it has prefixes that some block is
  filed under.\<close>

theorem rt_run_refines:
  assumes "allowed n {} ops"
  shows "\<exists>t. rt_run ops (rt_new n) = Inr t \<and> rt_pairs t = foldl (\<lambda>P x. spec_op x P) {} ops \<and>
    (\<forall>q. \<forall>i<length q. i < rt_get t q \<longleftrightarrow> (\<exists>b. (take (Suc i) q, b) \<in> foldl (\<lambda>P x. spec_op x P) {} ops))"
proof -
  obtain t where "rt_run ops (rt_new n) = Inr t" "rt_ok t" "rt_pairs t = foldl (\<lambda>P x. spec_op x P) {} ops"
    using rt_run_ok[of "rt_new n" ops] assms by (auto simp: rt_new_ok)
  with rt.get_ok[of t] show ?thesis by auto
qed

lemma rt_run_refines_witness:
  "\<exists>t. rt_run [Insert [1, 2] [0, 1], Insert [1, 3] [2, 3], Remove [0]] (rt_new 8) = Inr t \<and> ([1, 3], 3) \<in> rt_pairs t"
proof -
  have "allowed 8 {} [Insert [1, 2] [0, 1], Insert [1, 3] [2, 3], Remove [0]]"
    by (auto simp: filable_def less_Suc_eq)
  from rt_run_refines[OF this] obtain t where
    "rt_run [Insert [1, 2] [0, 1], Insert [1, 3] [2, 3], Remove [0]] (rt_new 8) = Inr t"
    "rt_pairs t = surv {0} {([1], 2), ([1, 3], 3), ([1], 0), ([1, 2], 1)}" by (auto simp del: rt_run.simps)
  moreover have "\<exists>b'. b' \<notin> {0} \<and> (p, b') \<in> {([1], 2), ([1, 3 :: u64], 3 :: u64), ([1], 0), ([1, 2], 1)}"
    if "p \<noteq> []" "prefix p [1, 3]" for p
  proof -
    have "p = [1] \<or> p = [1, 3]" using that by (auto simp: prefix_Cons)
    then show ?thesis
    proof
      assume "p = [1]"
      then show ?thesis by (intro exI[of _ 2]) simp
    next
      assume "p = [1, 3]"
      then show ?thesis by (intro exI[of _ 3]) simp
    qed
  qed
  then have "([1, 3], 3) \<in> surv {0} {([1], 2), ([1, 3 :: u64], 3 :: u64), ([1], 0), ([1, 2], 1)}"
    unfolding surv_def by simp
  ultimately show ?thesis by blast
qed

text \<open>C14: an insertion of blocks that the tree does not know, or that are already filed at their
  place, succeeds, files every block under its prefix of the key, keeps the invariant, returns the number of
  prefixes of the key that were not stored, and afterwards the whole key matches.\<close>

theorem rt_insert_refines:
  assumes "rt_ok t" "filable (rt_capacity t) (rt_pairs t) hs bids"
  shows "\<exists>t'. rt_insert t hs bids = Inr (t', length hs - rt_get t hs) \<and> rt_ok t' \<and>
    rt_pairs t' = rt_pairs t \<union> {(take (Suc i) hs, bids ! i) | i. i < length hs} \<and> rt_get t' hs = length hs"
proof -
  obtain t' where "rt_insert t hs bids = Inr (t', length hs - rt_get t hs)" "rt_ok t'" "rt_pairs t' = rt_pairs t \<union> rest_pairs [] hs bids"
    using rt.ins_ok[OF assms] by blast
  with rt.get_inserted[OF assms] show ?thesis by (simp add: rest_pairs_def)
qed

lemma rt_insert_refines_witness:
  "\<exists>t'. rt_insert (rt_new 4) [7, 9] [0, 3] = Inr (t', 2) \<and> rt_get t' [7, 9] = 2"
proof -
  have g: "rt_get (rt_new 4) [7, 9] = 0" by (rule rt.get_eqI) (simp_all add: rt_new_ok)
  have "filable (rt_capacity (rt_new 4)) (rt_pairs (rt_new 4)) [7, 9] [0, 3]"
    by (auto simp: filable_def rt_new_ok less_Suc_eq)
  from rt_insert_refines[OF rt_new_ok(1) this] g show ?thesis by auto
qed

text \<open>The counter of a removal is the number of blocks that leave the tree.\<close>

lemma size_nodup: "nodup M \<Longrightarrow> size M = card (set_mset M)"
  by (induction M) (auto)

lemma cells_card:
  assumes "rt_ok t"
  shows "size (cells (rt_root t)) = card (rt_pairs t)"
proof -
  have nd: "nodup (image_mset bid_of (cells (rt_root t)))" using assms by (simp add: rt_ok_def tab_def)
  have "snd ` rt_pairs t = bid_of ` set_mset (cells (rt_root t))"
    by (force simp: rt_pairs_def pairs_def)
  moreover have "inj_on snd (rt_pairs t)" using pair_unique[OF assms] by (auto intro!: inj_onI)
  ultimately have "card (rt_pairs t) = card (bid_of ` set_mset (cells (rt_root t)))" by (metis card_image)
  also have "\<dots> = size (image_mset bid_of (cells (rt_root t)))" using size_nodup[OF nd] by simp
  finally show ?thesis by simp
qed

lemma remove_canary:
  assumes "rt_ok t" "\<forall>b\<in>set bids. unat b < rt_capacity t" "rt_remove t bids = Inr t'" "rt_ok t'"
  shows "\<exists>t1 n. remove_inner bids (t\<lparr>rt_epoch := rt_epoch t + 1\<rparr>) = Inr (t1, n) \<and> n + card (rt_pairs t') = card (rt_pairs t)"
proof -
  let ?t = "t\<lparr>rt_epoch := rt_epoch t + 1\<rparr>"
  have "rt_ok ?t" using assms(1) by (simp add: rt_ok_def)
  from fold_remove_block_ok[OF this, of "rev bids" 0] assms(2) obtain t1 n where t1:
    "remove_inner bids ?t = Inr (t1, n)" "n + size (cells (rt_root t1)) = size (cells (rt_root t))"
    by (auto simp: remove_inner_def rt_capacity_def)
  then have "rt_root t' = rt_root t1" using assms(3) by (auto simp: rt_remove_def)
  with t1 cells_card[OF assms(1)] cells_card[OF assms(4)] show ?thesis by simp
qed

text \<open>
  The debug assertion at the end of \<^verbatim>\<open>remove_inner\<close> takes the counter to be at most the number of blocks asked for;
  it is not, since the blocks below a cut position go too.
\<close>

lemma canary_exceeds:
  "\<exists>t t1. rt_run [Insert [1, 2] [0, 1]] (rt_new 2) = Inr t \<and> remove_inner [0] t = Inr (t1, 2)"
proof -
  have "(case rt_run [Insert [1, 2] [0, 1]] (rt_new 2) of
      Inr t \<Rightarrow> (case remove_inner [0] t of Inr (t1, n) \<Rightarrow> n = 2 | Inl _ \<Rightarrow> False) | Inl _ \<Rightarrow> False)" by code_simp
  then show ?thesis by (auto split: sum.splits)
qed

text \<open>C15: removing blocks in range succeeds; the blocks that survive are those outside the
  removed set, filed under a path all of whose prefixes are still held by some block outside it,
  whatever the order of the removed blocks; and the counter of the removal is the number of blocks that left.
  Blocks that share a position with a removed one therefore stay, as in the witness, which is the tree of
  the test \<^verbatim>\<open>bug_cascading_remove_shared_prefix\<close>: its comment says that removing block 1 clears blocks 2 and
  3 as well. In a debug build the removal panics when the counter exceeds the number of blocks asked for
  (\<open>canary_exceeds\<close>).\<close>

theorem rt_remove_survivors:
  assumes "rt_ok t" "\<forall>b\<in>set bids. unat b < rt_capacity t"
  shows "\<exists>t'. rt_remove t bids = Inr t' \<and> rt_ok t' \<and>
    (\<forall>q b. (q, b) \<in> rt_pairs t' \<longleftrightarrow> (q, b) \<in> rt_pairs t \<and> b \<notin> set bids \<and>
       (\<forall>p. p \<noteq> [] \<longrightarrow> prefix p q \<longrightarrow> (\<exists>b'. b' \<notin> set bids \<and> (p, b') \<in> rt_pairs t))) \<and>
    (\<exists>t1 n. remove_inner bids (t\<lparr>rt_epoch := rt_epoch t + 1\<rparr>) = Inr (t1, n) \<and> n + card (rt_pairs t') = card (rt_pairs t))"
proof -
  obtain t' where t': "rt_remove t bids = Inr t'" "rt_ok t'" "rt_pairs t' = surv (set bids) (rt_pairs t)"
    using rt.rem_ok[OF assms] by blast
  then have "(q, b) \<in> rt_pairs t' \<longleftrightarrow> (q, b) \<in> rt_pairs t \<and> b \<notin> set bids \<and>
       (\<forall>p. p \<noteq> [] \<longrightarrow> prefix p q \<longrightarrow> (\<exists>b'. b' \<notin> set bids \<and> (p, b') \<in> rt_pairs t))" for q b by (simp add: surv_def)
  with t'(1,2) remove_canary[OF assms t'(1,2)] show ?thesis by blast
qed

lemma rt_remove_survivors_witness:
  "\<exists>t t'. rt_run [Insert [1, 2] [0, 1], Insert [1, 3] [2, 3]] (rt_new 10) = Inr t \<and> rt_remove t [1] = Inr t' \<and>
     rt_pairs t' = {([1], 0), ([1], 2), ([1, 3], 3)}"
proof -
  let ?ops = "[Insert [1, 2] [0, 1], Insert [1, 3] [2, 3]]"
  have r: "rest_pairs [] [1, 2] [0, 1] = {([1], 0), ([1, 2], 1)}" "rest_pairs [] [1, 3] [2, 3] = {([1], 2), ([1, 3], 3)}"
    by (auto simp: rest_pairs_def less_Suc_eq intro: exI[of _ 1])
  have "allowed (rt_capacity (rt_new 10)) (rt_pairs (rt_new 10)) ?ops"
    by (auto simp: rt_new_ok filable_def r less_Suc_eq)
  from rt_run_ok[OF rt_new_ok(1) this] obtain t where t: "rt_run ?ops (rt_new 10) = Inr t" "rt_ok t"
    "rt_pairs t = {([1], 0), ([1, 2], 1), ([1], 2), ([1, 3], 3)}" by (auto simp: rt_new_ok r)
  have "\<exists>t. rt_run ?ops (rt_new 10) = Inr t \<and> rt_capacity t = 10"
  proof -
    have "(case rt_run ?ops (rt_new 10) of Inr t \<Rightarrow> rt_capacity t = 10 | Inl _ \<Rightarrow> False)" by code_simp
    then show ?thesis by (auto split: sum.splits)
  qed
  with t(1) have "\<forall>b\<in>set [1]. unat (b :: u64) < rt_capacity t" by auto
  from rt_remove_survivors[OF t(2) this] obtain t' where t': "rt_remove t [1] = Inr t'"
    "\<And>q b. (q, b) \<in> rt_pairs t' \<longleftrightarrow> (q, b) \<in> rt_pairs t \<and> b \<notin> set [1] \<and>
       (\<forall>p. p \<noteq> [] \<longrightarrow> prefix p q \<longrightarrow> (\<exists>b'. b' \<notin> set [1] \<and> (p, b') \<in> rt_pairs t))" by blast
  have h: "\<exists>b'. b' \<noteq> (1 :: u64) \<and> (b' = 0 \<or> b' = 2)" by (rule exI[of _ 0]) simp
  have "(q, b) \<in> rt_pairs t' \<longleftrightarrow> (q, b) \<in> {([1], 0), ([1], 2), ([1, 3], 3)}" for q b
    unfolding t'(2) t(3) by (auto simp: prefix_Cons h)
  then have "rt_pairs t' = {([1], 0), ([1], 2), ([1, 3], 3)}" by (auto simp: set_eq_iff)
  with t(1) t'(1) show ?thesis by blast
qed

text \<open>C16: inserting blocks the tree does not know and removing the same blocks again restores every
  lookup.\<close>

theorem rt_insert_remove_roundtrip:
  assumes "rt_ok t" "filable (rt_capacity t) (rt_pairs t) hs bids" "\<forall>b\<in>set bids. \<forall>q. (q, b) \<notin> rt_pairs t"
    and "rt_insert t hs bids = Inr (t1, n)"
  shows "\<exists>t2. rt_remove t1 bids = Inr t2 \<and> rt_pairs t2 = rt_pairs t \<and> (\<forall>q. rt_get t2 q = rt_get t q)"
proof -
  obtain t2 where "rt_remove t1 bids = Inr t2" "rt_ok t2" "rt_pairs t2 = rt_pairs t"
    using rt.ins_rem[OF assms] by blast
  with rt.get_cong[of t2 t] assms(1) show ?thesis by auto
qed

lemma rt_insert_remove_roundtrip_witness:
  "\<exists>t1 n t2. rt_insert (rt_new 4) [7, 9] [0, 3] = Inr (t1, n) \<and> rt_remove t1 [0, 3] = Inr t2 \<and>
     (\<forall>q. rt_get t2 q = rt_get (rt_new 4) q)"
proof -
  have f: "filable (rt_capacity (rt_new 4)) (rt_pairs (rt_new 4)) [7, 9] [0, 3]"
    by (auto simp: filable_def rt_new_ok less_Suc_eq)
  then obtain t1 where t1: "rt_insert (rt_new 4) [7, 9] [0, 3] = Inr (t1, length [7 :: u64, 9] - rt_get (rt_new 4) [7, 9])"
    using rt.ins_ok[OF rt_new_ok(1)] by blast
  from rt_insert_remove_roundtrip[OF rt_new_ok(1) f _ t1] t1 show ?thesis by (auto simp: rt_new_ok)
qed

text \<open>C18: dropping a tree frees every node exactly once, and the number of nodes freed is the
  node counter that the operations maintain.\<close>

theorem rt_drop_frees_all:
  assumes "rt_ok t"
  shows "distinct (rt_drop t) \<and> set (rt_drop t) = set_mset (addrs (rt_root t)) \<and>
    rt_nodes t = of_nat (length (rt_drop t))"
proof -
  have "nodup (mset (rt_drop t))" using assms unfolding rt_drop_addrs by (simp add: rt_ok_def root_ok_def)
  moreover have "set (rt_drop t) = set_mset (addrs (rt_root t))" by (metis rt_drop_addrs set_mset_mset)
  moreover have "rt_nodes t = of_nat (length (rt_drop t))"
    using assms by (metis rt_drop_addrs rt_ok_def size_mset)
  ultimately show ?thesis by simp
qed

lemma rt_drop_frees_all_witness: "distinct (rt_drop (rt_new 3))"
  using rt_drop_frees_all[OF rt_new_ok(1)] by blast

text \<open>once no block is filed, the tree consists of its root and at most one layer of empty
  nodes that wait for collection: no label, no payload and no deeper node is left.\<close>

theorem rt_drained:
  assumes "rt_ok t" "rt_pairs t = {}"
  shows "drained t"
proof -
  have r: "rvalue (rt_root t) = []" "rpayload (rt_root t) = []" "rwf (rt_root t)" using assms(1) by (simp_all add: rt_ok_def root_ok_def)
  have none: "\<not> stored (rt_root t) q" for q using assms(2) by (simp add: stored_rt)
  have "rvalue c = [] \<and> rpayload c = [] \<and> children_is_empty (rchildren c)" if c: "c \<in> set (kids (rchildren (rt_root t)))" for c
  proof -
    have w: "rwf c" "childless_empty c" using rwf_kid[OF r(3) c] by auto
    have "rvalue c = []"
    proof (rule ccontr)
      assume "rvalue c \<noteq> []"
      then have "stored c (rvalue c)" using stored_own[OF w(1)] by simp
      then have "stored_ch (rchildren (rt_root t)) (rvalue c)" using c by (auto simp: stored_def stored_ch_def in_cells_ch)
      then show False using stored_below[of "rvalue c" "rt_root t"] \<open>rvalue c \<noteq> []\<close> r(1) none by simp
    qed
    with w show ?thesis by (auto simp: rwf_eq[of c] childless_empty_def children_is_empty_def)
  qed
  with r show ?thesis by (simp add: drained_def)
qed

lemma rt_drained_witness: "drained (rt_new 5)"
  by (rule rt_drained) (fact rt_new_ok)+

text \<open>C19: the two prefix matchers agree on a query when they hold the same blocks and hashes are
  chained (a stored path that ends with a hash of the query is the prefix of the query up to it).\<close>

theorem rt_ht_agree:
  assumes "ht_ok u" "rt_ok t" "same_blocks u t" "chained (rt_pairs t) q"
  shows "ht_get u q = rt_get t q"
  using assms by (rule matchers_agree)

lemma rt_ht_agree_witness:
  "\<exists>t u n k. rt_insert (rt_new 4) [7, 9] [0, 3] = Inr (t, n) \<and> ht_insert (ht_new 4) [7, 9] [0, 3] = Inr (u, k) \<and>
     ht_get u [7, 9, 8] = rt_get t [7, 9, 8]"
proof -
  have f: "filable (rt_capacity (rt_new 4)) (rt_pairs (rt_new 4)) [7, 9] [0, 3]"
    by (auto simp: filable_def rt_new_ok less_Suc_eq)
  then have i: "insertable (rt_new 4) [7, 9] [0, 3]" by (simp add: insertable_def filable_def)
  obtain t n where t: "rt_insert (rt_new 4) [7, 9] [0, 3] = Inr (t, n)" "rt_ok t" "rt_pairs t = {([7], 0), ([7, 9], 3)}"
    using rt.ins_ok[OF rt_new_ok(1) f] by (auto simp: rt_new_ok)
  obtain u k where u: "ht_insert (ht_new 4) [7, 9] [0, 3] = Inr (u, k)" "ht_ok u"
    using ht.ins_ok[OF ht.new_ok(1), of "[7, 9]" "[0, 3]" 4] by (auto simp: ht.new_ok)
  have "same_blocks (ht_new 4) (rt_new 4)" by (simp add: same_blocks_def rt_new_ok)
  then have "same_blocks u t"
    using same_blocks_insert[OF ht.new_ok(1) rt_new_ok(1) _ i _ _ u(1) t(1)] by (simp add: chained_def rt_new_ok ht.new_ok)
  moreover have "chained (rt_pairs t) [7, 9, 8]" unfolding t(3) by (auto simp: chained_def less_Suc_eq)
  ultimately have "ht_get u [7, 9, 8] = rt_get t [7, 9, 8]" using rt_ht_agree[OF u(2) t(2)] by blast
  with t(1) u(1) show ?thesis by blast
qed

text \<open>
  The length a tree reports: an alias is not counted when it is inserted but is when it is removed, so a
  tree that still matches a hash can report to be empty.
\<close>

lemma rt_len_miscounts:
  "\<exists>t. rt_run [Insert [1] [0], Insert [1] [1], Remove [0]] (rt_new 2) = Inr t \<and> rt_is_empty t \<and> rt_get t [1] = 1"
proof -
  have "(case rt_run [Insert [1] [0], Insert [1] [1], Remove [0]] (rt_new 2) of
      Inr t \<Rightarrow> rt_is_empty t \<and> rt_get t [1] = 1 | Inl _ \<Rightarrow> False)" by code_simp
  then show ?thesis by (auto split: sum.splits)
qed

end
