(* ===== verification/Entry.thy ===== *)
theory Entry
  imports BlockHashState Complex_Main
begin

text \<open>
  The queued request \<^verbatim>\<open>Entry\<close> of \<^verbatim>\<open>router/src/scheduler/policies/mod.rs\<close> with its
  validated request and its response channel. Tracing spans are not modelled. The receiver of the
  channel is the client: it may go away at any time, so the channel carries the number of messages
  after which it does (\<open>None\<close>: it stays), and a send after that fails. The text of a token (decoded
  by the tokenizer crate) is not modelled, its id is. Durations are real seconds, instants
  nanoseconds.
\<close>

section \<open>Request and response channel\<close>

record valid_request =
  req_id :: u64
  req_input_length :: u32
  max_new_tokens :: u32
  input_tokens :: "u32 list"

datatype response =
    RPrefill
  | RIntermediate u32
  | REnd
  | RGenerationError

record channel =
  sent :: "response list"
  closes_after :: "nat option"

text \<open>\<^verbatim>\<open>UnboundedSender::send\<close>: the pair's second part says whether it succeeded.\<close>

definition chan_send :: "response \<Rightarrow> channel \<Rightarrow> channel \<times> bool" where
  "chan_send r ch =
     (if (case closes_after ch of None \<Rightarrow> True | Some n \<Rightarrow> length (sent ch) < n)
      then (ch\<lparr>sent := sent ch @ [r]\<rparr>, True) else (ch, False))"

section \<open>Entries\<close>

record entry =
  request :: valid_request
  bhs :: block_hash_state
  response_tx :: channel
  queue_time :: nat
  batch_time :: "nat option"
  generated_token_cnt :: nat
  time_of_per_token :: "real option"

definition append_tbt_to_tpot :: "real \<Rightarrow> entry \<Rightarrow> entry" where
  "append_tbt_to_tpot t e =
     (case time_of_per_token e of
        Some old \<Rightarrow>
          (let s = generated_token_cnt e;
               cnt = s + 1
           in e\<lparr>generated_token_cnt := cnt,
                time_of_per_token := Some ((old * real s + t) / real cnt)\<rparr>)
      | None \<Rightarrow> e\<lparr>generated_token_cnt := generated_token_cnt e + 1, time_of_per_token := Some t\<rparr>)"

definition append_state ::
    "(u32 list \<Rightarrow> u64 \<Rightarrow> u64) \<Rightarrow> u32 list \<Rightarrow> real \<Rightarrow> entry \<Rightarrow> entry" where
  "append_state xxh new_tokens t e =
     (let e' = append_tbt_to_tpot t e in e'\<lparr>bhs := append_tokens xxh new_tokens (bhs e')\<rparr>)"

definition entry_id :: "entry \<Rightarrow> u64" where
  "entry_id e = req_id (request e)"

lemma append_state_simps [simp]:
  "request (append_state xxh toks t e) = request e"
  "response_tx (append_state xxh toks t e) = response_tx e"
  "queue_time (append_state xxh toks t e) = queue_time e"
  "batch_time (append_state xxh toks t e) = batch_time e"
  "entry_id (append_state xxh toks t e) = entry_id e"
  "generated_token_cnt (append_state xxh toks t e) = generated_token_cnt e + 1"
  "bhs (append_state xxh toks t e) = append_tokens xxh toks (bhs e)"
  "time_of_per_token (append_state xxh toks t e) \<noteq> None"
  by (simp_all add: append_state_def append_tbt_to_tpot_def entry_id_def Let_def split: option.split)

section \<open>Properties\<close>

text \<open>The time per token recorded after the steps \<open>ts\<close> of a request.\<close>

definition mean_tpot :: "real list \<Rightarrow> real option" where
  "mean_tpot ts = (if ts = [] then None else Some (sum_list ts / real (length ts)))"

lemma append_state_mean:
  assumes "generated_token_cnt e = length ts" "time_of_per_token e = mean_tpot ts"
  shows "time_of_per_token (append_state xxh toks t e) = mean_tpot (ts @ [t])"
proof (cases "ts = []")
  case True
  with assms show ?thesis
    by (simp add: append_state_def append_tbt_to_tpot_def mean_tpot_def Let_def)
next
  case False
  then have "real (length ts) \<noteq> 0" by simp
  with False assms show ?thesis
    by (simp add: append_state_def append_tbt_to_tpot_def mean_tpot_def Let_def)
qed

text \<open>the incremental update of an entry's time per token is exact: after a step of latency
  \<open>t\<close> for each pair of tokens and latency, starting from a fresh entry, the generated count is the
  number of steps and the time per token is the arithmetic mean of their latencies.\<close>

theorem append_state_tpot_mean:
  assumes "generated_token_cnt e = 0" "time_of_per_token e = None"
  shows "let e' = fold (\<lambda>st. append_state xxh (fst st) (snd st)) steps e in
     generated_token_cnt e' = length steps \<and> time_of_per_token e' = mean_tpot (map snd steps)"
proof (induction steps rule: rev_induct)
  case Nil
  with assms show ?case by (simp add: mean_tpot_def)
next
  case (snoc st steps)
  let ?e = "fold (\<lambda>st. append_state xxh (fst st) (snd st)) steps e"
  from snoc have "generated_token_cnt ?e = length (map snd steps)"
    "time_of_per_token ?e = mean_tpot (map snd steps)" by (simp_all add: Let_def)
  from append_state_mean[OF this, of xxh "fst st" "snd st"] snoc show ?case
    by (simp add: Let_def split_beta)
qed

definition example_entry :: "u64 \<Rightarrow> u32 list \<Rightarrow> entry" where
  "example_entry rid toks =
     \<lparr>request = \<lparr>req_id = rid, req_input_length = of_nat (length toks), max_new_tokens = 8, input_tokens = toks\<rparr>,
      bhs = \<lparr>block_hashes = [], block_indices = [], sync_nblks = 0, pred_hit_nblks = none_sentinel,
             real_hit_nblks = None, block_size = 16, prev_hash = default_block_hash,
             token_in_last_block = toks, decision_epoch = 0\<rparr>,
      response_tx = \<lparr>sent = [], closes_after = None\<rparr>, queue_time = 0, batch_time = None,
      generated_token_cnt = 0, time_of_per_token = None\<rparr>"

lemma append_state_tpot_mean_witness:
  "time_of_per_token (fold (\<lambda>st. append_state (\<lambda>_ h. h) (fst st) (snd st)) [([1], 2), ([2], 4)] (example_entry 1 [7])) = Some 3"
  using append_state_tpot_mean [of "example_entry 1 [7]" "\<lambda>_ h. h" "[([1], 2), ([2], 4)]"]
  by (simp add: example_entry_def mean_tpot_def Let_def)

text \<open>the client reads exactly the messages sent before it goes away: a send succeeds as long as
  the channel is open, appends to what was sent, and after the first failure nothing is added.\<close>

theorem chan_send_log:
  "sent (fold (\<lambda>r ch. fst (chan_send r ch)) rs ch) =
     sent ch @ (case closes_after ch of None \<Rightarrow> rs | Some n \<Rightarrow> take (n - length (sent ch)) rs)"
proof (induction rs arbitrary: ch)
  case (Cons r rs)
  show ?case
  proof (cases "closes_after ch")
    case None
    with Cons show ?thesis by (simp add: chan_send_def)
  next
    case (Some n)
    with Cons show ?thesis
      by (cases "length (sent ch) < n") (simp_all add: chan_send_def take_Cons')
  qed
qed (simp split: option.split)

end
