(* ===== verification/Validation.thy ===== *)
theory Validation
  imports Entry
begin

text \<open>
  The gateway's request validation, \<^verbatim>\<open>gateway/validation.rs\<close>, with the request types of
  \<^verbatim>\<open>gateway/api_types.rs\<close>, the pass-through renderer of \<^verbatim>\<open>gateway/chat_template.rs\<close> and the limits
  \<^verbatim>\<open>main.rs\<close> starts the server with. The tokenizer (crate \<^verbatim>\<open>tokenizers\<close>) and the template engine are
  parameters; \<^verbatim>\<open>f32\<close> values are real numbers. The channel to a tokenizer worker is a call: the worker
  answers with \<open>prepare_input\<close> of what it was sent.
\<close>

section \<open>Requests\<close>

record chat_message =
  role :: string
  content :: string

record generate_parameters =
  gp_best_of :: "usize option"
  gp_temperature :: "real option"
  gp_repetition_penalty :: "real option"
  gp_top_k :: "32 word option"
  gp_top_p :: "real option"
  gp_max_new_tokens :: "u32 option"
  gp_stop :: "string list"
  gp_truncate :: "usize option"
  gp_decoder_input_details :: bool
  gp_seed :: "u64 option"
  gp_top_n_tokens :: "u32 option"

definition default_max_new_tokens :: "u32 option" where
  "default_max_new_tokens = Some 100"

definition default_parameters :: generate_parameters where
  "default_parameters = \<lparr>gp_best_of = None, gp_temperature = None, gp_repetition_penalty = None, gp_top_k = None,
     gp_top_p = None, gp_max_new_tokens = default_max_new_tokens, gp_stop = [], gp_truncate = None,
     gp_decoder_input_details = False, gp_seed = None, gp_top_n_tokens = None\<rparr>"

record generate_request =
  gr_inputs :: string
  gr_parameters :: generate_parameters
  gr_chat_messages :: "chat_message list option"

text \<open>The validated request; the fields the scheduler reads are those of \<open>valid_request\<close>.\<close>

record generation_params =
  temperature :: real
  repetition_penalty :: real
  top_k :: u32
  top_p :: real
  seed :: u64
  stop_sequences :: "string list"
  ignore_eos_token :: bool

record valid_generate_request = valid_request +
  vr_messages :: "chat_message list"
  vr_inputs :: string
  vr_truncate :: u32
  vr_decoder_input_details :: bool
  vr_params :: generation_params
  vr_top_n_tokens :: u32

datatype validation_error =
    BestOf usize usize
  | BestOfDisabled
  | BestOfSampling
  | BestOfSeed
  | BestOfStream
  | TopNTokens u32 u32
  | TopNTokensDisabled
  | PrefillDetailsStream
  | Temperature
  | RepetitionPenalty
  | TopP
  | TopK
  | Truncate usize usize
  | UnsetMaxNewTokens
  | NegativeMaxNewTokens
  | MaxNewTokens usize u32
  | MaxTotalTokens usize usize u32
  | InputLength usize usize
  | EmptyInput
  | StopSequence usize usize
  | Tokenizer string

record validation =
  max_best_of :: usize
  max_stop_sequences :: usize
  max_top_n_tokens :: u32
  max_input_length :: usize
  max_total_tokens :: usize

text \<open>\<^verbatim>\<open>Option::unwrap_or\<close> and the idiom \<^verbatim>\<open>value.map(check).unwrap_or(Ok(default))\<close>.\<close>

definition or_default :: "'a option \<Rightarrow> 'a \<Rightarrow> 'a" where
  "or_default x d = (case x of None \<Rightarrow> d | Some v \<Rightarrow> v)"

definition check_or :: "'a option \<Rightarrow> 'b \<Rightarrow> ('a \<Rightarrow> 'e + 'b) \<Rightarrow> 'e + 'b" where
  "check_or x d f = (case x of None \<Rightarrow> Inr d | Some v \<Rightarrow> f v)"

section \<open>Tokenization\<close>

text \<open>\<open>shorten n ids\<close> is \<^verbatim>\<open>Encoding::truncate\<close> to \<open>n\<close> tokens.\<close>

record tokenizer =
  encode :: "string \<Rightarrow> string + u32 list"
  decode :: "u32 list \<Rightarrow> string + string"
  shorten :: "nat \<Rightarrow> u32 list \<Rightarrow> u32 list"

text \<open>\<^verbatim>\<open>ChatRenderer::None\<close>: the first message is the prompt.\<close>

definition render_none :: "chat_message list \<Rightarrow> validation_error + string" where
  "render_none ms = Inr (case ms of [] \<Rightarrow> '''' | m # _ \<Rightarrow> content m)"

text \<open>The later messages of a conversation do not reach the engine.\<close>

lemma render_none_first_only: "render_none (m # ms) = render_none [m]"
  by (simp add: render_none_def)

definition user_message :: "string \<Rightarrow> chat_message list" where
  "user_message s = [\<lparr>role = ''user'', content = s\<rparr>]"

definition map_error :: "('e \<Rightarrow> 'f) \<Rightarrow> 'e + 'a \<Rightarrow> 'f + 'a" where
  "map_error f x = map_sum f id x"

definition prepare_input ::
    "tokenizer \<Rightarrow> (chat_message list \<Rightarrow> validation_error + string) \<Rightarrow> string \<Rightarrow> usize option \<Rightarrow> chat_message list option \<Rightarrow>
       validation_error + (chat_message list \<times> string \<times> usize \<times> u32 list)" where
  "prepare_input tk render inputs trunc_to chat_messages =
     (let messages = or_default chat_messages (user_message inputs)
      in obind (render messages) (\<lambda>inputs.
         obind (map_error Tokenizer (encode tk inputs)) (\<lambda>encoding.
         if (case trunc_to of None \<Rightarrow> False | Some n \<Rightarrow> unat n < length encoding)
         then let encoding' = shorten tk (unat (the trunc_to)) encoding
              in obind (map_error Tokenizer (decode tk encoding')) (\<lambda>inputs'.
                 Inr (messages, inputs', of_nat (length encoding'), encoding'))
         else Inr (messages, inputs, of_nat (length encoding), encoding))))"

section \<open>Validation\<close>

text \<open>\<open>prep\<close> is the tokenizer worker, when the server has one.\<close>

type_synonym worker = "string \<Rightarrow> usize option \<Rightarrow> chat_message list option \<Rightarrow>
  validation_error + (chat_message list \<times> string \<times> usize \<times> u32 list)"

definition validate_input ::
    "worker option \<Rightarrow> validation \<Rightarrow> string \<Rightarrow> usize option \<Rightarrow> u32 option \<Rightarrow> chat_message list option \<Rightarrow>
       validation_error + (chat_message list \<times> string \<times> usize \<times> u32 \<times> u32 list)" where
  "validate_input worker cfg inputs trunc_to max_new chat_messages =
     (case worker of
        Some prep \<Rightarrow>
          obind (prep inputs trunc_to chat_messages) (\<lambda>(messages, inputs', input_length, tokens).
            let new = or_default max_new (ucast (sat_sub (max_total_tokens cfg) input_length));
                total = input_length + ucast new
            in reject_if (total > max_total_tokens cfg) (MaxTotalTokens (max_total_tokens cfg) input_length new)
              (reject_if (input_length > max_input_length cfg) (InputLength (max_input_length cfg) input_length)
              (Inr (messages, inputs', input_length, new, tokens))))
      | None \<Rightarrow>
          obind (case max_new of Some n \<Rightarrow> Inr n
                 | None \<Rightarrow> (case trunc_to of Some t \<Rightarrow> Inr (ucast (sat_sub (max_total_tokens cfg) t))
                            | None \<Rightarrow> Inl UnsetMaxNewTokens)) (\<lambda>new.
            let input_length = or_default trunc_to (max_input_length cfg)
            in reject_if ((ucast input_length :: u32) + new > ucast (max_total_tokens cfg))
                 (MaxNewTokens (max_total_tokens cfg - max_input_length cfg) new)
                 (Inr (or_default chat_messages (user_message inputs), inputs, input_length, new, []))))"

text \<open>\<open>rng\<close> is the seed drawn when the request has none.\<close>

definition validate_params :: "validation \<Rightarrow> u64 \<Rightarrow> generate_request \<Rightarrow> validation_error + (generation_params \<times> u32 \<times> usize option)" where
  "validate_params cfg rng req =
     (let p = gr_parameters req;
          best_of = or_default (gp_best_of p) 1;
          sampling = (gp_temperature p \<noteq> None \<or> gp_top_k p \<noteq> None \<or> gp_top_p p \<noteq> None);
          temp = or_default (gp_temperature p) 1;
          penalty = or_default (gp_repetition_penalty p) 1
      in reject_if (best_of > 1 \<and> \<not> sampling) BestOfSampling
        (reject_if (temp \<le> 0) Temperature
        (reject_if (penalty \<le> 0) RepetitionPenalty
        (obind (check_or (gp_top_p p) 1 (\<lambda>v. reject_if (v \<le> 0 \<or> v \<ge> 1) TopP (Inr v))) (\<lambda>topp.
         obind (check_or (gp_top_k p) 0 (\<lambda>v. reject_if (sint v \<le> 0) TopK (Inr v))) (\<lambda>topk.
         reject_if (gp_max_new_tokens p = Some 0) NegativeMaxNewTokens
        (reject_if (length (gp_stop p) > unat (max_stop_sequences cfg))
           (StopSequence (max_stop_sequences cfg) (of_nat (length (gp_stop p))))
        (obind (check_or (gp_seed p) rng (\<lambda>s. reject_if (best_of > 1) BestOfSeed (Inr s))) (\<lambda>sd.
         obind (check_or (gp_top_n_tokens p) 0
           (\<lambda>v. reject_if (v > max_top_n_tokens cfg) (TopNTokens (max_top_n_tokens cfg) v) (Inr v))) (\<lambda>top_n.
         reject_if (gr_inputs req = [] \<and> gr_chat_messages req = None) EmptyInput
        (obind (check_or (gp_truncate p) None
           (\<lambda>v. reject_if (v = 0 \<or> v > max_input_length cfg) (Truncate (max_input_length cfg) v) (Inr (Some v)))) (\<lambda>tr.
         Inr (\<lparr>temperature = temp, repetition_penalty = penalty, top_k = topk, top_p = topp, seed = sd,
               stop_sequences = gp_stop p, ignore_eos_token = False\<rparr>, top_n, tr)))))))))))))"

text \<open>The request id comes from the global counter \<open>rid\<close>, which a rejected request does not use up.\<close>

definition validate :: "worker option \<Rightarrow> validation \<Rightarrow> u64 \<Rightarrow> generate_request \<Rightarrow> u64 \<Rightarrow> (validation_error + valid_generate_request) \<times> u64" where
  "validate worker cfg rng req rid =
     (case obind (validate_params cfg rng req) (\<lambda>(params, top_n, trunc_to).
           obind (validate_input worker cfg (gr_inputs req) trunc_to (gp_max_new_tokens (gr_parameters req)) (gr_chat_messages req))
             (\<lambda>(messages, inputs, input_length, new, tokens).
             Inr (params, top_n, trunc_to, messages, inputs, input_length, new, tokens))) of
        Inl err \<Rightarrow> (Inl err, rid)
      | Inr (params, top_n, trunc_to, messages, inputs, input_length, new, tokens) \<Rightarrow>
          (Inr \<lparr>req_id = rid, req_input_length = ucast input_length, max_new_tokens = new, input_tokens = tokens,
                vr_messages = messages, vr_inputs = inputs,
                vr_truncate = ucast (or_default trunc_to (max_input_length cfg)),
                vr_decoder_input_details = gp_decoder_input_details (gr_parameters req),
                vr_params = params, vr_top_n_tokens = top_n\<rparr>, rid + 1))"

definition validate_best_of :: "validation \<Rightarrow> usize \<Rightarrow> validation_error + usize" where
  "validate_best_of cfg b =
     reject_if (max_best_of cfg = 1 \<and> b \<noteq> 1) BestOfDisabled
       (reject_if (b > max_best_of cfg) (BestOf (max_best_of cfg) b) (Inr b))"

section \<open>The limits the server is started with\<close>

text \<open>\<^verbatim>\<open>main\<close>: the options win over \<^verbatim>\<open>config.json\<close>; \<open>None\<close> is the refusal to start.\<close>

definition resolve_limits :: "usize option \<Rightarrow> usize option \<Rightarrow> usize option \<Rightarrow> (usize \<times> usize) option" where
  "resolve_limits cli_max_total cli_max_input auto_max_total =
     (let max_total = (case (cli_max_total, auto_max_total) of
                         (Some user, _) \<Rightarrow> user
                       | (None, Some auto_total) \<Rightarrow> auto_total
                       | (None, None) \<Rightarrow> 2048);
          max_input = (case cli_max_input of Some user \<Rightarrow> user | None \<Rightarrow> sat_sub max_total 1)
      in if max_input \<ge> max_total then None else Some (max_total, max_input))"

section \<open>Distribution over the tokenizer workers\<close>

text \<open>
  \<^verbatim>\<open>round_robin_task\<close>: \<open>cur\<close> are the senders the current pass of the \<^verbatim>\<open>for\<close> loop has left. Without
  any sender the outer loop spins for ever, here \<open>None\<close>.
\<close>

function round_robin_task :: "'w list \<Rightarrow> 'w list \<Rightarrow> 'r list \<Rightarrow> ('w \<times> 'r) list option" where
  "round_robin_task senders (w # cur) (r # rs) = map_option ((#) (w, r)) (round_robin_task senders cur rs)"
| "round_robin_task senders (w # cur) [] = Some []"
| "round_robin_task senders [] rs = (if senders = [] then None else round_robin_task senders senders rs)"
  by pat_completeness auto
termination
  by (relation "measures [\<lambda>(all, cur, rs). length rs, \<lambda>(all, cur, rs). if cur = [] then 1 else 0]") auto

section \<open>What passes\<close>

text \<open>The documented constraints on the parameters of a request.\<close>

definition params_ok :: "validation \<Rightarrow> generate_request \<Rightarrow> bool" where
  "params_ok cfg req \<longleftrightarrow>
     (let p = gr_parameters req; many = or_default (gp_best_of p) 1 > 1
      in (many \<longrightarrow> gp_temperature p \<noteq> None \<or> gp_top_k p \<noteq> None \<or> gp_top_p p \<noteq> None) \<and>
         0 < or_default (gp_temperature p) 1 \<and> 0 < or_default (gp_repetition_penalty p) 1 \<and>
         (\<forall>v. gp_top_p p = Some v \<longrightarrow> 0 < v \<and> v < 1) \<and> (\<forall>v. gp_top_k p = Some v \<longrightarrow> 0 < sint v) \<and>
         gp_max_new_tokens p \<noteq> Some 0 \<and> length (gp_stop p) \<le> unat (max_stop_sequences cfg) \<and>
         (\<forall>s. gp_seed p = Some s \<longrightarrow> \<not> many) \<and> (\<forall>v. gp_top_n_tokens p = Some v \<longrightarrow> v \<le> max_top_n_tokens cfg) \<and>
         (gr_inputs req \<noteq> [] \<or> gr_chat_messages req \<noteq> None) \<and>
         (\<forall>v. gp_truncate p = Some v \<longrightarrow> v \<noteq> 0 \<and> v \<le> max_input_length cfg))"

definition checked_params :: "u64 \<Rightarrow> generate_parameters \<Rightarrow> generation_params" where
  "checked_params rng p =
     \<lparr>temperature = or_default (gp_temperature p) 1, repetition_penalty = or_default (gp_repetition_penalty p) 1,
      top_k = or_default (gp_top_k p) 0, top_p = or_default (gp_top_p p) 1, seed = or_default (gp_seed p) rng,
      stop_sequences = gp_stop p, ignore_eos_token = False\<rparr>"

lemma check_or_Inr:
  "check_or x d (\<lambda>v. reject_if (c v) (err v) (Inr v)) = Inr y \<longleftrightarrow> or_default x d = y \<and> (\<forall>v. x = Some v \<longrightarrow> \<not> c v)"
  "check_or x None (\<lambda>v. reject_if (c v) (err v) (Inr (Some v))) = Inr y' \<longleftrightarrow> x = y' \<and> (\<forall>v. x = Some v \<longrightarrow> \<not> c v)"
  by (auto simp: check_or_def or_default_def reject_if_def split: option.split)

lemma validate_params_Inr:
  "validate_params cfg rng req = Inr (params, top_n, tr) \<longleftrightarrow> params_ok cfg req \<and>
     checked_params rng (gr_parameters req) = params \<and> or_default (gp_top_n_tokens (gr_parameters req)) 0 = top_n \<and>
     gp_truncate (gr_parameters req) = tr"
  unfolding validate_params_def params_ok_def Let_def checked_params_def reject_if_eq_Inr obind_eq_Inr check_or_Inr
  by (auto simp: not_le not_less)

section \<open>The limits hold\<close>

text \<open>What the model relies on of the tokenizer crate.\<close>

definition tokenizer_ok :: "tokenizer \<Rightarrow> bool" where
  "tokenizer_ok tk \<longleftrightarrow> (\<forall>s ids. encode tk s = Inr ids \<longrightarrow> length ids < 2 ^ 64) \<and>
     (\<forall>n ids. n < length ids \<longrightarrow> length (shorten tk n ids) = n)"

lemma map_error_Inr [simp]: "map_error f x = Inr y \<longleftrightarrow> x = Inr y"
  by (cases x) (simp_all add: map_error_def)

lemma prepare_input_Inr:
  assumes "tokenizer_ok tk" "prepare_input tk render inp tr ms = Inr (ms', s, n, ids)"
  shows "unat n = length ids \<and> (\<forall>k. tr = Some k \<longrightarrow> length ids \<le> unat k)"
proof -
  have len: "unat (of_nat (length xs) :: usize) = length xs" if "length xs < 2 ^ 64" for xs :: "u32 list"
    using that by (simp add: unsigned_of_nat take_bit_nat_eq_self)
  from assms(2) obtain t enc where enc: "encode tk t = Inr enc"
    "(if (case tr of None \<Rightarrow> False | Some k \<Rightarrow> unat k < length enc) then n = of_nat (length ids) \<and> ids = shorten tk (unat (the tr)) enc
      else n = of_nat (length ids) \<and> ids = enc)"
    by (auto simp: prepare_input_def Let_def obind_eq_Inr split: if_splits)
  have l: "length enc < 2 ^ 64" using assms(1) enc(1) by (auto simp: tokenizer_ok_def)
  show ?thesis
  proof (cases "case tr of None \<Rightarrow> False | Some k \<Rightarrow> unat k < length enc")
    case True
    then obtain k where k: "tr = Some k" "unat k < length enc" by (auto split: option.splits)
    then have "length ids = unat k" using enc(2) assms(1) by (auto simp: tokenizer_ok_def)
    with k l enc(2) len[of ids] show ?thesis by auto
  next
    case False
    with enc(2) len[OF l] show ?thesis by (auto split: option.splits)
  qed
qed

lemma validate_worker_Inr:
  assumes "validate (Some prep) cfg rng req rid = (Inr r, rid')"
  obtains ms s n ids where "params_ok cfg req"
    "prep (gr_inputs req) (gp_truncate (gr_parameters req)) (gr_chat_messages req) = Inr (ms, s, n, ids)"
    "n \<le> max_input_length cfg" "n + ucast (max_new_tokens r) \<le> max_total_tokens cfg"
    "max_new_tokens r = or_default (gp_max_new_tokens (gr_parameters req)) (ucast (sat_sub (max_total_tokens cfg) n))"
    "req_input_length r = ucast n" "input_tokens r = ids" "req_id r = rid" "rid' = rid + 1"
  using assms unfolding validate_def
  by (auto simp: validate_input_def Let_def obind_eq_Inr reject_if_eq_Inr validate_params_Inr not_less split: sum.splits prod.splits)

lemma resolve_limits_less: "resolve_limits a b c = Some (mt, mi) \<Longrightarrow> mi < mt"
  by (auto simp: resolve_limits_def Let_def split: if_splits)

lemma unat_add_small:
  fixes n m :: usize
  assumes "n \<le> b" "unat m < 2 ^ 32" "unat b < 2 ^ 32"
  shows "unat (n + m) = unat n + unat m"
proof -
  have "unat n + unat m < 2 ^ 33" using assms by (simp add: word_le_nat_alt)
  then show ?thesis by (simp add: unat_word_ariths)
qed


lemma default_new_tokens:
  fixes n mt :: usize
  assumes "n \<le> mt" "unat mt < 2 ^ 32"
  shows "unat (ucast (sat_sub mt n) :: u32) = unat mt - unat n"
proof -
  have "unat (sat_sub mt n) = unat mt - unat n" using assms(1)
    by (auto simp: sat_sub_def unat_sub word_le_nat_alt word_less_nat_alt)
  then show ?thesis using assms(2) by (simp add: unsigned_ucast_eq take_bit_nat_eq_self)
qed

lemma unat_widen: "unat (ucast (m :: u32) :: usize) = unat m"
proof -
  have "unat m < 2 ^ 32" using unsigned_less[of m] by simp
  then show ?thesis by (simp add: unsigned_ucast_eq take_bit_nat_eq_self)
qed

text \<open>When the sum of the worker's length and the generation budget stays within the limit.\<close>

lemma worker_total_le:
  fixes n mi mt :: usize
  assumes mi: "mi < mt" "unat mt < 2 ^ 32" and n: "n \<le> mi"
  shows "n + ucast (or_default mx (ucast (sat_sub mt n)) :: u32) \<le> mt \<longleftrightarrow> (\<forall>m. mx = Some m \<longrightarrow> unat n + unat m \<le> unat mt)"
proof (cases mx)
  case None
  have le: "n \<le> mt" using mi(1) n by simp
  have "unat (n + ucast (ucast (sat_sub mt n) :: u32)) = unat n + unat (ucast (sat_sub mt n) :: u32)"
    using unat_add_small[of n mt "ucast (ucast (sat_sub mt n) :: u32)"] le mi(2) default_new_tokens[OF le mi(2)]
    by (simp add: unat_widen)
  then show ?thesis using None le by (simp add: or_default_def word_le_nat_alt default_new_tokens[OF le mi(2)])
next
  case (Some m)
  have "unat m < 2 ^ 32" using unsigned_less[of m] by simp
  then have "unat (n + ucast m) = unat n + unat m"
    using unat_add_small[of n mt "ucast m"] mi n by (simp add: unat_widen)
  then show ?thesis using Some by (simp add: or_default_def word_le_nat_alt)
qed

section \<open>Properties\<close>

lemma validate_Inr: "(\<exists>r. fst (validate worker cfg rng req rid) = Inr r) \<longleftrightarrow>
    params_ok cfg req \<and> (\<exists>x. validate_input worker cfg (gr_inputs req) (gp_truncate (gr_parameters req))
      (gp_max_new_tokens (gr_parameters req)) (gr_chat_messages req) = Inr x)"
proof (cases "params_ok cfg req")
  case True
  let ?p = "gr_parameters req"
  have "validate_params cfg rng req = Inr (checked_params rng ?p, or_default (gp_top_n_tokens ?p) 0, gp_truncate ?p)"
    using True by (simp add: validate_params_Inr)
  with True show ?thesis
    by (cases "validate_input worker cfg (gr_inputs req) (gp_truncate ?p) (gp_max_new_tokens ?p) (gr_chat_messages req)")
      (auto simp: validate_def split: prod.splits)
next
  case False
  then have "\<nexists>x. validate_params cfg rng req = Inr x" by (auto simp: validate_params_Inr)
  then obtain err where "validate_params cfg rng req = Inl err" by (cases "validate_params cfg rng req") auto
  with False show ?thesis by (simp add: validate_def)
qed

text \<open>Without a tokenizer: the declared length and the new tokens, added as 32-bit words.\<close>

lemma unat_narrow: "unat (x :: usize) < 2 ^ 32 \<Longrightarrow> unat (ucast x :: u32) = unat x"
  by (simp add: unsigned_ucast_eq unsigned_take_bit_eq take_bit_nat_eq_self)

lemma default_fills:
  assumes "v \<le> mi" "(mi :: usize) < mt" "unat mt < 2 ^ 32"
  shows "(ucast v :: u32) + ucast (sat_sub mt v) \<le> ucast mt"
proof -
  have v: "unat v < unat mt" using assms(1,2) by (simp add: word_le_nat_alt word_less_nat_alt)
  have s: "unat (sat_sub mt v) = unat mt - unat v"
    using v by (simp add: sat_sub_def unat_sub_if' word_le_nat_alt word_less_nat_alt)
  have "unat ((ucast v :: u32) + ucast (sat_sub mt v)) = (unat v + (unat mt - unat v)) mod 2 ^ 32"
    using v assms(3) s by (simp add: unat_word_ariths unat_narrow)
  also have "\<dots> = unat mt" using v assms(3) by simp
  finally show ?thesis using unat_narrow[OF assms(3)] by (simp add: word_le_nat_alt)
qed

lemma validate_input_none:
  assumes "max_input_length cfg < max_total_tokens cfg" "unat (max_total_tokens cfg) < 2 ^ 32"
    and "\<forall>v. tr = Some v \<longrightarrow> v \<le> max_input_length cfg"
  shows "(\<exists>x. validate_input None cfg inputs tr new ms = Inr x) \<longleftrightarrow>
    (case new of Some m \<Rightarrow> (unat (or_default tr (max_input_length cfg)) + unat m) mod 2 ^ 32 \<le> unat (max_total_tokens cfg)
     | None \<Rightarrow> tr \<noteq> None)"
proof -
  have le: "or_default tr (max_input_length cfg) \<le> max_input_length cfg" using assms(3) by (cases tr) (simp_all add: or_default_def)
  have small: "unat (or_default tr (max_input_length cfg)) < 2 ^ 32"
    using le assms(1,2) by (simp add: word_le_nat_alt word_less_nat_alt)
  show ?thesis
  proof (cases new)
    case None
    then show ?thesis
      using default_fills[OF _ assms(1,2)] assms(3)
      by (cases tr) (auto simp: validate_input_def Let_def or_default_def reject_if_eq_Inr not_less)
  next
    case (Some m)
    have "(ucast (or_default tr (max_input_length cfg)) :: u32) + m \<le> ucast (max_total_tokens cfg) \<longleftrightarrow>
        (unat (or_default tr (max_input_length cfg)) + unat m) mod 2 ^ 32 \<le> unat (max_total_tokens cfg)"
      using unat_narrow[OF small] unat_narrow[OF assms(2)] by (simp add: word_le_nat_alt unat_word_ariths)
    with Some show ?thesis by (simp add: validate_input_def Let_def reject_if_eq_Inr not_less)
  qed
qed

text \<open>C28: which requests \<^verbatim>\<open>validate\<close> accepts, with limits in order and a total below \<open>2 ^ 32\<close>. With a tokenizer, exactly
  those whose parameters pass the checks of the code (\<open>params_ok\<close>), whose input the worker can render and
  tokenize, whose prompt is within the input limit, and whose prompt and requested generation together fit
  into the total limit; no wrap-around of \<^verbatim>\<open>input_length + max_new_tokens\<close> lets a request through. Without a
  tokenizer, exactly those whose parameters pass and that either give no \<^verbatim>\<open>max_new_tokens\<close> but a
  truncation, or whose declared length and \<^verbatim>\<open>max_new_tokens\<close> are within the total limit when added as 32-bit
  words, wrap-around included. The checks are laxer than the error texts: a truncation equal to the input limit and a
  \<^verbatim>\<open>best_of\<close> of 0 pass.\<close>

theorem validate_accepts_iff:
  assumes "max_input_length cfg < max_total_tokens cfg" "unat (max_total_tokens cfg) < 2 ^ 32"
  shows "((\<exists>r. fst (validate (Some prep) cfg rng req rid) = Inr r) \<longleftrightarrow>
      params_ok cfg req \<and>
      (\<exists>ms s n ids. prep (gr_inputs req) (gp_truncate (gr_parameters req)) (gr_chat_messages req) = Inr (ms, s, n, ids) \<and>
         n \<le> max_input_length cfg \<and>
         (\<forall>m. gp_max_new_tokens (gr_parameters req) = Some m \<longrightarrow> unat n + unat m \<le> unat (max_total_tokens cfg)))) \<and>
    ((\<exists>r. fst (validate None cfg rng req rid) = Inr r) \<longleftrightarrow>
      params_ok cfg req \<and>
      (case gp_max_new_tokens (gr_parameters req) of
         Some m \<Rightarrow> (unat (or_default (gp_truncate (gr_parameters req)) (max_input_length cfg)) + unat m) mod 2 ^ 32
                    \<le> unat (max_total_tokens cfg)
       | None \<Rightarrow> gp_truncate (gr_parameters req) \<noteq> None))"
proof (intro conjI)
  let ?p = "gr_parameters req"
  have "(\<exists>x. validate_input (Some prep) cfg (gr_inputs req) (gp_truncate ?p) (gp_max_new_tokens ?p) (gr_chat_messages req) = Inr x) \<longleftrightarrow>
      (\<exists>ms s n ids. prep (gr_inputs req) (gp_truncate ?p) (gr_chat_messages req) = Inr (ms, s, n, ids) \<and>
         n \<le> max_input_length cfg \<and> (\<forall>m. gp_max_new_tokens ?p = Some m \<longrightarrow> unat n + unat m \<le> unat (max_total_tokens cfg)))"
    using worker_total_le[OF assms] by (fastforce simp: validate_input_def Let_def obind_eq_Inr reject_if_eq_Inr not_less)
  then show "(\<exists>r. fst (validate (Some prep) cfg rng req rid) = Inr r) \<longleftrightarrow> params_ok cfg req \<and>
      (\<exists>ms s n ids. prep (gr_inputs req) (gp_truncate ?p) (gr_chat_messages req) = Inr (ms, s, n, ids) \<and>
         n \<le> max_input_length cfg \<and> (\<forall>m. gp_max_new_tokens ?p = Some m \<longrightarrow> unat n + unat m \<le> unat (max_total_tokens cfg)))"
    unfolding validate_Inr by simp
  have "params_ok cfg req \<Longrightarrow> \<forall>v. gp_truncate ?p = Some v \<longrightarrow> v \<le> max_input_length cfg" by (simp add: params_ok_def Let_def)
  from validate_input_none[OF assms this]
  show "(\<exists>r. fst (validate None cfg rng req rid) = Inr r) \<longleftrightarrow> params_ok cfg req \<and>
      (case gp_max_new_tokens ?p of
         Some m \<Rightarrow> (unat (or_default (gp_truncate ?p) (max_input_length cfg)) + unat m) mod 2 ^ 32 \<le> unat (max_total_tokens cfg)
       | None \<Rightarrow> gp_truncate ?p \<noteq> None)"
    unfolding validate_Inr by blast
qed

text \<open>Two requests the error texts would exclude.\<close>

lemma params_ok_lax:
  "params_ok cfg \<lparr>gr_inputs = ''abc'', gr_parameters = default_parameters\<lparr>gp_best_of := Some 0\<rparr>, gr_chat_messages = None\<rparr>"
  "max_input_length cfg \<noteq> 0 \<Longrightarrow> params_ok cfg \<lparr>gr_inputs = ''abc'',
     gr_parameters = default_parameters\<lparr>gp_truncate := Some (max_input_length cfg)\<rparr>, gr_chat_messages = None\<rparr>"
  by (simp_all add: params_ok_def default_parameters_def default_max_new_tokens_def or_default_def)

lemma validated_limits:
  assumes "tokenizer_ok tk" "resolve_limits a b c = Some (max_total_tokens cfg, max_input_length cfg)"
    "unat (max_total_tokens cfg) < 2 ^ 32" "validate (Some (prepare_input tk render)) cfg rng req rid = (Inr r, rid')"
  shows "unat (req_input_length r) = length (input_tokens r) \<and> length (input_tokens r) \<le> unat (max_input_length cfg) \<and>
    0 < unat (max_new_tokens r) \<and> length (input_tokens r) + unat (max_new_tokens r) \<le> unat (max_total_tokens cfg) \<and>
    (\<forall>k. gp_truncate (gr_parameters req) = Some k \<longrightarrow> length (input_tokens r) \<le> unat k) \<and>
    req_id r = rid \<and> rid' = rid + 1"
proof -
  note lt = resolve_limits_less[OF assms(2)]
  from assms(4) obtain ms s n ids where v: "params_ok cfg req"
    "prepare_input tk render (gr_inputs req) (gp_truncate (gr_parameters req)) (gr_chat_messages req) = Inr (ms, s, n, ids)"
    "n \<le> max_input_length cfg" "n + ucast (max_new_tokens r) \<le> max_total_tokens cfg"
    "max_new_tokens r = or_default (gp_max_new_tokens (gr_parameters req)) (ucast (sat_sub (max_total_tokens cfg) n))"
    "req_input_length r = ucast n" "input_tokens r = ids" "req_id r = rid" "rid' = rid + 1"
    by (rule validate_worker_Inr)
  note p = prepare_input_Inr[OF assms(1) v(2)]
  have le: "n \<le> max_total_tokens cfg" "unat n < unat (max_total_tokens cfg)" "unat n < 2 ^ 32"
    using v(3) lt assms(3) by (auto simp: word_le_nat_alt word_less_nat_alt)
  have new: "unat n + unat (max_new_tokens r) \<le> unat (max_total_tokens cfg)"
    using worker_total_le[OF lt assms(3) v(3), of "gp_max_new_tokens (gr_parameters req)"] v(4,5) default_new_tokens[OF le(1) assms(3)] le(2)
    by (cases "gp_max_new_tokens (gr_parameters req)") (auto simp: or_default_def)
  have pos: "0 < unat (max_new_tokens r)"
  proof (cases "gp_max_new_tokens (gr_parameters req)")
    case None
    then show ?thesis using v(5) default_new_tokens[OF le(1) assms(3)] le(2) by (simp add: or_default_def)
  next
    case (Some m)
    then have "m \<noteq> 0" using v(1) by (auto simp: params_ok_def Let_def)
    then show ?thesis using Some v(5) by (simp add: or_default_def unat_gt_0)
  qed
  have "unat (ucast n :: u32) = unat n" using le(3) by (simp add: unsigned_ucast_eq take_bit_nat_eq_self)
  with new pos v p show ?thesis by (auto simp: word_le_nat_alt)
qed

text \<open>end to end: started with limits \<^verbatim>\<open>main\<close> resolved, whatever the request, a request that validation lets
  through has a prompt of as many tokens as it says, no longer than the input limit or its own truncation, a
  positive number of tokens to generate and a total within the limit; it gets the next request id.\<close>

theorem validated_within_limits:
  assumes "tokenizer_ok tk" "resolve_limits a b c = Some (max_total_tokens cfg, max_input_length cfg)"
    "unat (max_total_tokens cfg) < 2 ^ 32" "validate (Some (prepare_input tk render)) cfg rng req rid = (Inr r, rid')"
  shows "unat (req_input_length r) = length (input_tokens r) \<and> length (input_tokens r) \<le> unat (max_input_length cfg) \<and>
    0 < unat (max_new_tokens r) \<and> length (input_tokens r) + unat (max_new_tokens r) \<le> unat (max_total_tokens cfg) \<and>
    (\<forall>k. gp_truncate (gr_parameters req) = Some k \<longrightarrow> length (input_tokens r) \<le> unat k) \<and>
    req_id r = rid \<and> rid' = rid + 1"
  using validated_limits[OF assms] .

lemma round_robin_pass:
  assumes "senders \<noteq> []" "cur = drop j senders" "j \<le> length senders"
  shows "round_robin_task senders cur rs =
    Some (map (\<lambda>k. (senders ! ((j + k) mod length senders), rs ! k)) [0..<length rs])"
  using assms
proof (induction senders cur rs arbitrary: j rule: round_robin_task.induct)
  case (1 senders w cur r rs)
  then have j: "j < length senders" "senders ! j = w" "cur = drop (Suc j) senders"
    by (metis drop_eq_Nil linorder_not_less list.discI, metis nth_via_drop, metis drop_Suc tl_drop list.sel(3))
  have "[0..<Suc (length rs)] = 0 # map Suc [0..<length rs]" by (simp add: upt_conv_Cons map_Suc_upt del: upt_Suc)
  moreover have "round_robin_task senders cur rs =
      Some (map (\<lambda>k. (senders ! ((Suc j + k) mod length senders), rs ! k)) [0..<length rs])"
    using 1(2) j by (intro 1(1)) auto
  ultimately show ?case using j by (simp add: comp_def del: upt_Suc)
next
  case (3 senders rs)
  have *: "(j + k) mod length senders = k mod length senders" for k using 3 by (cases "j = length senders") auto
  from 3 have "round_robin_task senders senders rs =
      Some (map (\<lambda>k. (senders ! ((0 + k) mod length senders), rs ! k)) [0..<length rs])" by (intro 3(1)) auto
  then show ?case using 3 * by simp
next
  case (2 senders w cur)
  then show ?case by (metis list.map_disc_iff list.size(3) round_robin_task.simps(2) upt_0)
qed

text \<open>the tokenizer requests go to the workers in strict rotation: the \<open>k\<close>-th request is sent to worker
  \<open>k mod n\<close>, no request is lost or sent twice, and the task ends when the channel closes.\<close>

theorem round_robin_rotates:
  assumes "senders \<noteq> []"
  shows "round_robin_task senders senders rs = Some (map (\<lambda>k. (senders ! (k mod length senders), rs ! k)) [0..<length rs])"
  using round_robin_pass[of senders senders 0 rs] assms by simp

theorem round_robin_rotates_witness:
  "round_robin_task [0 :: nat, 1] [0, 1] ''abc'' = Some [(0, CHR ''a''), (1, CHR ''b''), (0, CHR ''c'')]"
  using round_robin_rotates[of "[0 :: nat, 1]" "''abc''"] by (simp add: upt_conv_Cons)

section \<open>A concrete server\<close>

definition demo_limits :: validation where
  "demo_limits = \<lparr>max_best_of = 2, max_stop_sequences = 4, max_top_n_tokens = 5, max_input_length = 9, max_total_tokens = 10\<rparr>"

definition demo_tokenizer :: tokenizer where
  "demo_tokenizer = \<lparr>encode = (\<lambda>s. Inr (map (\<lambda>c. of_nat (of_char c)) (take 1000 s))), decode = (\<lambda>ids. Inr ''ab''),
     shorten = (\<lambda>n ids. drop (length ids - n) ids)\<rparr>"

definition demo_request :: generate_request where
  "demo_request = \<lparr>gr_inputs = ''abc'', gr_parameters = default_parameters\<lparr>gp_max_new_tokens := Some 7, gp_truncate := Some 2\<rparr>,
     gr_chat_messages = None\<rparr>"

lemma demo_tokenizer_ok: "tokenizer_ok demo_tokenizer"
  by (auto simp: tokenizer_ok_def demo_tokenizer_def)

lemma demo_validate:
  "\<exists>r. validate (Some (prepare_input demo_tokenizer render_none)) demo_limits 0 demo_request 5 = (Inr r, 6)"
  by (simp add: validate_def validate_params_def validate_input_def prepare_input_def reject_if_def check_or_def or_default_def
      demo_tokenizer_def demo_limits_def demo_request_def default_parameters_def render_none_def user_message_def map_error_def
      sat_sub_def Let_def unat_word_ariths)

theorem validate_accepts_iff_witness: "params_ok demo_limits demo_request"
  using validate_accepts_iff[of demo_limits "prepare_input demo_tokenizer render_none" 0 demo_request 5] demo_validate
  by (auto simp: demo_limits_def)

theorem validated_within_limits_witness:
  "\<exists>r rid'. validate (Some (prepare_input demo_tokenizer render_none)) demo_limits 0 demo_request 5 = (Inr r, rid') \<and>
     length (input_tokens r) \<le> 2 \<and> 0 < unat (max_new_tokens r) \<and> rid' = 6"
proof -
  obtain r where r: "validate (Some (prepare_input demo_tokenizer render_none)) demo_limits 0 demo_request 5 = (Inr r, 6)"
    using demo_validate by blast
  have "resolve_limits (Some 10) None None = Some (max_total_tokens demo_limits, max_input_length demo_limits)"
    by (simp add: resolve_limits_def demo_limits_def sat_sub_def)
  from validated_within_limits[OF demo_tokenizer_ok this _ r] r show ?thesis
    by (auto simp: demo_limits_def demo_request_def default_parameters_def)
qed

text \<open>
  Without a tokenizer the sum is formed in \<^verbatim>\<open>u32\<close> before it is compared: a request for \<open>2 ^ 32 - 1\<close> new
  tokens passes the total limit of ten.
\<close>

lemma no_tokenizer_limit_wraps:
  "\<exists>r. validate None demo_limits 0 \<lparr>gr_inputs = ''abc'', gr_parameters = default_parameters\<lparr>gp_max_new_tokens := Some (- 1)\<rparr>,
     gr_chat_messages = None\<rparr> 5 = (Inr r, 6) \<and> max_new_tokens r = - 1"
  by (simp add: validate_def validate_params_def validate_input_def reject_if_def check_or_def or_default_def
      demo_limits_def default_parameters_def user_message_def Let_def)

section \<open>What is reported\<close>

text \<open>
  The checks of the parameters in their order, each with its error; \<open>first_fault\<close> reports the first that fails.
\<close>

definition first_fault :: "(bool \<times> 'e) list \<Rightarrow> 'e + 'a \<Rightarrow> 'e + 'a" where
  "first_fault fs x = foldr (\<lambda>(c, e). reject_if c e) fs x"

definition param_faults :: "validation \<Rightarrow> generate_request \<Rightarrow> (bool \<times> validation_error) list" where
  "param_faults cfg req =
     (let p = gr_parameters req; many = or_default (gp_best_of p) 1 > 1
      in [(many \<and> gp_temperature p = None \<and> gp_top_k p = None \<and> gp_top_p p = None, BestOfSampling),
          (or_default (gp_temperature p) 1 \<le> 0, Temperature),
          (or_default (gp_repetition_penalty p) 1 \<le> 0, RepetitionPenalty),
          (\<exists>v. gp_top_p p = Some v \<and> (v \<le> 0 \<or> v \<ge> 1), TopP),
          (\<exists>v. gp_top_k p = Some v \<and> sint v \<le> 0, TopK),
          (gp_max_new_tokens p = Some 0, NegativeMaxNewTokens),
          (length (gp_stop p) > unat (max_stop_sequences cfg), StopSequence (max_stop_sequences cfg) (of_nat (length (gp_stop p)))),
          (gp_seed p \<noteq> None \<and> many, BestOfSeed),
          (\<exists>v. gp_top_n_tokens p = Some v \<and> v > max_top_n_tokens cfg, TopNTokens (max_top_n_tokens cfg) (or_default (gp_top_n_tokens p) 0)),
          (gr_inputs req = [] \<and> gr_chat_messages req = None, EmptyInput),
          (\<exists>v. gp_truncate p = Some v \<and> (v = 0 \<or> v > max_input_length cfg),
             Truncate (max_input_length cfg) (or_default (gp_truncate p) 0))])"

text \<open>All checks of a server with a tokenizer, the worker's errors and the limits after the parameters.\<close>

definition request_faults :: "worker \<Rightarrow> validation \<Rightarrow> generate_request \<Rightarrow> (bool \<times> validation_error) list" where
  "request_faults prep cfg req = param_faults cfg req @
     (case prep (gr_inputs req) (gp_truncate (gr_parameters req)) (gr_chat_messages req) of
        Inl e \<Rightarrow> [(True, e)]
      | Inr (ms, s, n, ids) \<Rightarrow>
          (let new = or_default (gp_max_new_tokens (gr_parameters req)) (ucast (sat_sub (max_total_tokens cfg) n))
           in [(n + ucast new > max_total_tokens cfg, MaxTotalTokens (max_total_tokens cfg) n new),
               (n > max_input_length cfg, InputLength (max_input_length cfg) n)]))"

lemma first_fault_append: "first_fault (fs @ gs) x = first_fault fs (first_fault gs x)"
  by (simp add: first_fault_def)

lemma first_fault_filter: "first_fault fs x = (case filter fst fs of [] \<Rightarrow> x | (_, e) # _ \<Rightarrow> Inl e)"
  by (induction fs) (auto simp: first_fault_def reject_if_def)

lemma obind_check_or:
  "obind (check_or x d (\<lambda>v. reject_if (P v) (E v) (Inr (f v)))) k =
     reject_if (\<exists>v. x = Some v \<and> P v) (E (the x)) (k (case x of None \<Rightarrow> d | Some v \<Rightarrow> f v))"
  by (cases x) (auto simp: check_or_def reject_if_def)

lemma reject_if_cong: "c = c' \<Longrightarrow> (c \<Longrightarrow> e = e') \<Longrightarrow> (\<not> c \<Longrightarrow> x = x') \<Longrightarrow> reject_if c e x = reject_if c' e' x'"
  by (simp add: reject_if_def)

lemma obind_reject_if: "obind (reject_if c e x) k = reject_if c e (obind x k)"
  by (simp add: reject_if_def)

lemma validate_params_faults:
  "validate_params cfg rng req = first_fault (param_faults cfg req)
    (Inr (checked_params rng (gr_parameters req), or_default (gp_top_n_tokens (gr_parameters req)) 0, gp_truncate (gr_parameters req)))"
  unfolding validate_params_def first_fault_def param_faults_def Let_def obind_check_or foldr.simps o_def id_def split_conv
  by (intro reject_if_cong) (auto simp: or_default_def checked_params_def split: option.splits)

lemma validate_input_faults:
  assumes "prep inputs tr cm = Inr (ms, s, n, ids)"
  shows "validate_input (Some prep) cfg inputs tr mx cm = first_fault
    (let new = or_default mx (ucast (sat_sub (max_total_tokens cfg) n))
     in [(n + ucast new > max_total_tokens cfg, MaxTotalTokens (max_total_tokens cfg) n new),
         (n > max_input_length cfg, InputLength (max_input_length cfg) n)])
    (Inr (ms, s, n, or_default mx (ucast (sat_sub (max_total_tokens cfg) n)), ids))"
  using assms by (simp add: validate_input_def first_fault_def Let_def)

lemma first_fault_obind: "obind (first_fault fs x) k = first_fault fs (obind x k)"
  by (induction fs) (auto simp: first_fault_def obind_reject_if)

text \<open>C27: what a server with a tokenizer answers: the first check that fails, in the order parameters, tokenizer, total
  limit, input limit, decides the error, whatever else is wrong, and the rejected request uses up no
  request id; when none fails the request is accepted and uses up one.\<close>

theorem validate_reports_first_fault:
  "case filter fst (request_faults prep cfg req) of
     [] \<Rightarrow> \<exists>r. validate (Some prep) cfg rng req rid = (Inr r, rid + 1)
   | (_, e) # _ \<Rightarrow> validate (Some prep) cfg rng req rid = (Inl e, rid)"
proof (cases "prep (gr_inputs req) (gp_truncate (gr_parameters req)) (gr_chat_messages req)")
  case (Inl e)
  then have "validate_input (Some prep) cfg (gr_inputs req) (gp_truncate (gr_parameters req)) mx (gr_chat_messages req) = Inl e" for mx
    by (simp add: validate_input_def)
  then show ?thesis using Inl
    by (auto simp: validate_def request_faults_def validate_params_faults first_fault_obind first_fault_filter split: list.split)
next
  case (Inr q)
  then obtain ms s n ids where "prep (gr_inputs req) (gp_truncate (gr_parameters req)) (gr_chat_messages req) = Inr (ms, s, n, ids)"
    by (metis surj_pair)
  then show ?thesis
    by (auto simp: validate_def request_faults_def validate_params_faults first_fault_obind validate_input_faults Let_def
        first_fault_filter split: list.split)
qed

end
