(* ===== verification/Infer.thy ===== *)
theory Infer
  imports Validation
begin

text \<open>
  The inference front, \<^verbatim>\<open>scheduler/infer.rs\<close>: the semaphore that limits concurrent requests, the
  construction of the queue entry, and the collection of a whole answer. The messages it reads are
  those the event loop sends (\<^verbatim>\<open>on_prefill\<close>, \<^verbatim>\<open>on_decode\<close>, \<^verbatim>\<open>on_finish_request\<close> in
  \<^verbatim>\<open>engine/colocation.rs\<close>). The clock is read once per message; \<^verbatim>\<open>f32\<close> values are real numbers;
  durations and instants are nanoseconds. Appending to the queue is recorded in \<open>appended\<close>.
\<close>

section \<open>Messages and errors\<close>

record token =
  tok_id :: u32
  tok_text :: string
  logprob :: real

definition token_default :: token where
  "token_default = \<lparr>tok_id = 0, tok_text = '''', logprob = 0\<rparr>"

record generated_text =
  gt_text :: string
  generated_tokens :: u32
  finish_reason :: "32 word"
  gt_seed :: "u64 option"

definition generated_text_default :: generated_text where
  "generated_text_default = \<lparr>gt_text = '''', generated_tokens = 0, finish_reason = 0, gt_seed = None\<rparr>"

datatype infer_stream_response =
    Prefill
  | Intermediate token "token list"
  | End token "token list" generated_text nat nat nat

datatype try_acquire_error = Closed | NoPermits

datatype infer_error =
    GenerationError string
  | Overloaded try_acquire_error
  | ValidationError validation_error
  | IncompleteGeneration

definition error_type :: "infer_error \<Rightarrow> string" where
  "error_type err = (case err of
     GenerationError _ \<Rightarrow> ''generation''
   | Overloaded _ \<Rightarrow> ''overloaded''
   | ValidationError _ \<Rightarrow> ''validation''
   | IncompleteGeneration \<Rightarrow> ''incomplete_generation'')"

text \<open>
  What the event loop puts into its messages: the text of a token is decoded with the shared
  tokenizer, when there is one; the end marker carries default values and the times of the entry.
\<close>

definition token_text :: "tokenizer option \<Rightarrow> u32 \<Rightarrow> string" where
  "token_text tk t = (case tk of None \<Rightarrow> '''' | Some k \<Rightarrow> (case decode k [t] of Inl _ \<Rightarrow> '''' | Inr s \<Rightarrow> s))"

definition wire :: "tokenizer option \<Rightarrow> nat \<Rightarrow> nat \<Rightarrow> response \<Rightarrow> infer_error + infer_stream_response" where
  "wire tk start queued r = (case r of
     RPrefill \<Rightarrow> Inr Prefill
   | RIntermediate t \<Rightarrow> Inr (Intermediate \<lparr>tok_id = t, tok_text = token_text tk t, logprob = 0\<rparr> [])
   | REnd \<Rightarrow> Inr (End token_default [] generated_text_default start queued 0)
   | RGenerationError \<Rightarrow> Inl (GenerationError ''Engine refused to serve!''))"

section \<open>Admission\<close>

record infer =
  permits :: nat
  rid_generator :: u64
  appended :: "entry list"

definition infer_new :: "nat \<Rightarrow> infer" where
  "infer_new max_concurrent = \<lparr>permits = max_concurrent, rid_generator = 0, appended = []\<rparr>"

definition entry_new :: "valid_generate_request \<Rightarrow> block_hash_state \<Rightarrow> channel \<Rightarrow> nat \<Rightarrow> entry" where
  "entry_new r b tx now =
     \<lparr>request = valid_request.truncate r, bhs = b, response_tx = tx, queue_time = now, batch_time = None,
      generated_token_cnt = 0, time_of_per_token = None\<rparr>"

text \<open>
  \<^verbatim>\<open>generate_stream\<close>: the permit is given back when validation fails and otherwise held until the
  stream is closed. \<open>n\<close> is how many messages the client reads.
\<close>

definition generate_stream ::
    "(u32 list \<Rightarrow> u64 \<Rightarrow> u64) \<Rightarrow> nat \<Rightarrow> worker option \<Rightarrow> validation \<Rightarrow> u64 \<Rightarrow> nat \<Rightarrow> nat option \<Rightarrow> generate_request \<Rightarrow> infer \<Rightarrow>
       ((infer_error + u64) \<times> infer) outcome" where
  "generate_stream xxh bs worker cfg rng now n req s =
     (if permits s = 0 then Inr (Inl (Overloaded NoPermits), s)
      else let s1 = s\<lparr>permits := permits s - 1\<rparr>
           in case validate worker cfg rng req (rid_generator s1) of
                (Inl err, rid) \<Rightarrow> Inr (Inl (ValidationError err), s1\<lparr>permits := permits s1 + 1, rid_generator := rid\<rparr>)
              | (Inr r, rid) \<Rightarrow>
                  obind (bhs_new xxh (input_tokens r) bs) (\<lambda>b.
                    Inr (Inr (req_id r),
                         s1\<lparr>rid_generator := rid, appended := appended s1 @ [entry_new r b \<lparr>sent = [], closes_after = n\<rparr> now]\<rparr>)))"

text \<open>The permit is dropped with the handler.\<close>

definition close_stream :: "infer \<Rightarrow> infer" where
  "close_stream s = s\<lparr>permits := permits s + 1\<rparr>"

section \<open>Collecting an answer\<close>

record collected =
  result_tokens :: "token list"
  result_top_tokens :: "token list list"
  result_generated_text :: "generated_text option"
  result_start :: "nat option"
  result_queued :: "nat option"
  result_max_tbt :: "nat option"
  time_between_tokens :: "nat list"
  output_length :: nat
  interval :: nat
  first_token_time :: "nat option"

definition collected_new :: "nat \<Rightarrow> collected" where
  "collected_new now = \<lparr>result_tokens = [], result_top_tokens = [], result_generated_text = None, result_start = None,
     result_queued = None, result_max_tbt = None, time_between_tokens = [], output_length = 0, interval = now,
     first_token_time = None\<rparr>"

text \<open>The loop over the stream: messages with the time they are read; \<open>t0\<close> is the time it starts.\<close>

fun collect :: "nat \<Rightarrow> (nat \<times> (infer_error + infer_stream_response)) list \<Rightarrow> collected \<Rightarrow> (infer_error + collected) outcome" where
  "collect t0 [] a = Inr (Inr a)"
| "collect t0 ((now, Inl err) # ms) a = Inr (Inl err)"
| "collect t0 ((now, Inr Prefill) # ms) a =
     collect t0 ms (a\<lparr>first_token_time := (case first_token_time a of None \<Rightarrow> Some (now - t0) | Some t \<Rightarrow> Some t), interval := now\<rparr>)"
| "collect t0 ((now, Inr (Intermediate tok tops)) # ms) a =
     collect t0 ms (a\<lparr>result_tokens := result_tokens a @ [tok], result_top_tokens := result_top_tokens a @ [tops],
       time_between_tokens := time_between_tokens a @ [now - interval a], interval := now\<rparr>)"
| "collect t0 ((now, Inr (End tok tops txt start queued max_tbt)) # ms) a =
     (case time_between_tokens a of
        [] \<Rightarrow> Inl SliceOutOfRange
      | _ # tbts \<Rightarrow>
          Inr (Inr (a\<lparr>result_generated_text := Some txt, result_start := Some start, result_queued := Some queued,
            result_max_tbt := Some max_tbt, time_between_tokens := tbts, output_length := length (result_tokens a)\<rparr>)))"

record infer_response =
  ir_request_id :: u64
  ir_tokens :: "token list"
  ir_generated_text :: generated_text
  ir_queued :: nat
  ir_start :: nat
  ir_top_tokens :: "token list list"
  ir_first_token_time :: nat
  ir_max_tbt :: nat
  ir_max_tbt_except_first :: nat
  ir_first_decode_time :: nat
  ir_avg_tbt :: nat
  ir_p90_tbt :: nat
  ir_p95_tbt :: nat
  ir_p99_tbt :: nat
  ir_input_length :: nat
  ir_output_length :: nat

text \<open>\<^verbatim>\<open>(len as f32 * q) as usize\<close>; and the division of a \<^verbatim>\<open>Duration\<close> by a \<^verbatim>\<open>u32\<close>, which panics for zero.\<close>

definition quantile :: "real \<Rightarrow> nat list \<Rightarrow> nat outcome" where
  "quantile q xs = (let i = nat \<lfloor>real (length xs) * q\<rfloor> in if i < length xs then Inr (xs ! i) else Inl SliceOutOfRange)"

definition avg_duration :: "nat list \<Rightarrow> nat outcome" where
  "avg_duration xs = (let n = unat (of_nat (length xs) :: u32) in if n = 0 then Inl ExplicitPanic else Inr (sum_list xs div n))"

record tbt_stats =
  s_max :: nat
  s_except_first :: nat
  s_first_decode :: nat
  s_avg :: nat
  s_p90 :: nat
  s_p95 :: nat
  s_p99 :: nat

definition tbt_statistics :: "nat \<Rightarrow> nat list \<Rightarrow> tbt_stats outcome" where
  "tbt_statistics max_tbt tbts =
     (if tbts = [] then Inr \<lparr>s_max = max_tbt, s_except_first = 0, s_first_decode = 0, s_avg = 0, s_p90 = 0, s_p95 = 0, s_p99 = 0\<rparr>
      else let sorted_tbts = sort tbts; n = length sorted_tbts
           in obind (avg_duration sorted_tbts) (\<lambda>avg.
              obind (quantile (9 / 10) sorted_tbts) (\<lambda>p90.
              obind (quantile (95 / 100) sorted_tbts) (\<lambda>p95.
              obind (quantile (99 / 100) sorted_tbts) (\<lambda>p99.
              Inr \<lparr>s_max = List.last sorted_tbts, s_except_first = (if n < 2 then 0 else sorted_tbts ! (n - 2)),
                   s_first_decode = hd tbts, s_avg = avg, s_p90 = p90, s_p95 = p95, s_p99 = p99\<rparr>)))))"

text \<open>The prompt length is initialised with zero and never assigned.\<close>

definition finish_generate :: "u64 \<Rightarrow> bool \<Rightarrow> collected \<Rightarrow> (infer_error + infer_response) outcome" where
  "finish_generate rid use_top_tokens a =
     (case (result_generated_text a, result_queued a, result_start a) of
        (Some txt, Some queued, Some start) \<Rightarrow>
          obind (tbt_statistics (case result_max_tbt a of None \<Rightarrow> 0 | Some t \<Rightarrow> t) (time_between_tokens a)) (\<lambda>st.
            case first_token_time a of
              None \<Rightarrow> Inl ExpectFailed
            | Some first \<Rightarrow>
                Inr (Inr \<lparr>ir_request_id = rid, ir_tokens = result_tokens a, ir_generated_text = txt, ir_queued = queued,
                  ir_start = start, ir_top_tokens = (if use_top_tokens then result_top_tokens a else []),
                  ir_first_token_time = first, ir_max_tbt = s_max st, ir_max_tbt_except_first = s_except_first st,
                  ir_first_decode_time = s_first_decode st, ir_avg_tbt = s_avg st, ir_p90_tbt = s_p90 st,
                  ir_p95_tbt = s_p95 st, ir_p99_tbt = s_p99 st, ir_input_length = 0, ir_output_length = output_length a\<rparr>))
      | _ \<Rightarrow> Inr (Inl IncompleteGeneration))"

text \<open>\<^verbatim>\<open>generate\<close> after the stream is open: what comes of the messages \<open>ms\<close>.\<close>

definition generate :: "u64 \<Rightarrow> generate_request \<Rightarrow> nat \<Rightarrow> (nat \<times> (infer_error + infer_stream_response)) list \<Rightarrow>
    (infer_error + infer_response) outcome" where
  "generate rid req t0 ms =
     obind (collect t0 ms (collected_new t0)) (\<lambda>r.
       case r of
         Inl err \<Rightarrow> Inr (Inl err)
       | Inr a \<Rightarrow> finish_generate rid (case gp_top_n_tokens (gr_parameters req) of None \<Rightarrow> False | Some x \<Rightarrow> x > 0) a)"

section \<open>Best of several answers\<close>

text \<open>
  The mean of no log-probabilities is a NaN, which is greater than nothing; \<open>f32_min\<close> is
  \<^verbatim>\<open>f32::MIN\<close>.
\<close>

definition f32_min :: real where
  "f32_min = - (2 ^ 128 - 2 ^ 104)"

definition sequence_logprob :: "infer_response \<Rightarrow> real option" where
  "sequence_logprob r =
     (if ir_tokens r = [] then None else Some (sum_list (map logprob (ir_tokens r)) / real (length (ir_tokens r))))"

fun max_logprob_index :: "nat \<Rightarrow> infer_response list \<Rightarrow> nat \<times> real \<Rightarrow> nat \<times> real" where
  "max_logprob_index i [] m = m"
| "max_logprob_index i (r # rs) (k, best) =
     max_logprob_index (Suc i) rs (case sequence_logprob r of None \<Rightarrow> (k, best) | Some x \<Rightarrow> if x > best then (i, x) else (k, best))"

text \<open>When several generations fail, the error is that of the first in order.\<close>

fun try_join_all :: "(infer_error + infer_response) list \<Rightarrow> infer_error + infer_response list" where
  "try_join_all [] = Inr []"
| "try_join_all (Inl err # rs) = Inl err"
| "try_join_all (Inr r # rs) = obind (try_join_all rs) (\<lambda>rest. Inr (r # rest))"

text \<open>\<open>answer i\<close> is the result of the \<open>i\<close>-th generation.\<close>

definition generate_best_of :: "validation \<Rightarrow> usize \<Rightarrow> (nat \<Rightarrow> infer_error + infer_response) \<Rightarrow>
    (infer_error + (infer_response \<times> infer_response list)) outcome" where
  "generate_best_of cfg best_of answer =
     (case obind (map_error ValidationError (validate_best_of cfg best_of)) (\<lambda>b. try_join_all (map answer [0..<unat b])) of
        Inl err \<Rightarrow> Inr (Inl err)
      | Inr rs \<Rightarrow>
          (let k = fst (max_logprob_index 0 rs (0, f32_min))
           in if k < length rs then Inr (Inr (rs ! k, vec_remove k rs)) else Inl SliceOutOfRange))"

section \<open>Admission is limited and numbers the requests\<close>

text \<open>What happens at the front: a request arrives, or a handler ends.\<close>

datatype front_op = Open u64 nat "nat option" generate_request | Close

definition front_step ::
    "(u32 list \<Rightarrow> u64 \<Rightarrow> u64) \<Rightarrow> nat \<Rightarrow> worker option \<Rightarrow> validation \<Rightarrow> front_op \<Rightarrow> infer \<times> nat \<Rightarrow> (infer \<times> nat) outcome" where
  "front_step xxh bs worker cfg ev = (\<lambda>(s, k).
     case ev of
       Open rng now n req \<Rightarrow>
         obind (generate_stream xxh bs worker cfg rng now n req s) (\<lambda>(res, s').
           Inr (s', case res of Inl _ \<Rightarrow> k | Inr _ \<Rightarrow> k + 1))
     | Close \<Rightarrow> Inr (if k = 0 then (s, k) else (close_stream s, k - 1)))"

definition front_inv :: "nat \<Rightarrow> (entry \<Rightarrow> bool) \<Rightarrow> infer \<times> nat \<Rightarrow> bool" where
  "front_inv limit P = (\<lambda>(s, k).
     permits s + k = limit \<and> rid_generator s = of_nat (length (appended s)) \<and>
     map entry_id (appended s) = map of_nat [0..<length (appended s)] \<and> (\<forall>e\<in>set (appended s). P e))"

lemma validate_req_id: "validate worker cfg rng req rid = (res, rid') \<Longrightarrow>
    (\<forall>r. res = Inr r \<longrightarrow> req_id r = rid \<and> rid' = rid + 1) \<and> (\<forall>err. res = Inl err \<longrightarrow> rid' = rid)"
  by (auto simp: validate_def split: sum.splits prod.splits)

lemma entry_id_new [simp]: "entry_id (entry_new r b tx now) = req_id r"
  by (simp add: entry_id_def entry_new_def valid_request.defs)

lemma generate_stream_cases:
  assumes "0 < bs"
  obtains (full) "permits s = 0" "generate_stream xxh bs worker cfg rng now n req s = Inr (Inl (Overloaded NoPermits), s)"
  | (rejected) err where "permits s \<noteq> 0" "validate worker cfg rng req (rid_generator s) = (Inl err, rid_generator s)"
      "generate_stream xxh bs worker cfg rng now n req s = Inr (Inl (ValidationError err), s)"
  | (accepted) r b where "permits s \<noteq> 0" "validate worker cfg rng req (rid_generator s) = (Inr r, rid_generator s + 1)"
      "bhs_new xxh (input_tokens r) bs = Inr b" "req_id r = rid_generator s"
      "generate_stream xxh bs worker cfg rng now n req s =
         Inr (Inr (rid_generator s), s\<lparr>permits := permits s - 1, rid_generator := rid_generator s + 1,
           appended := appended s @ [entry_new r b \<lparr>sent = [], closes_after = n\<rparr> now]\<rparr>)"
proof (cases "permits s = 0")
  case True
  then show ?thesis by (intro full) (simp_all add: generate_stream_def)
next
  case False
  obtain res rid where v: "validate worker cfg rng req (rid_generator s) = (res, rid)" by force
  note i = validate_req_id[OF v]
  show ?thesis
  proof (cases res)
    case (Inl err)
    then show ?thesis using False v i by (intro rejected) (auto simp: generate_stream_def)
  next
    case (Inr r)
    obtain b where "bhs_new xxh (input_tokens r) bs = Inr b"
      using assms by (cases "hash_chunks xxh bs (input_tokens r) default_block_hash []") (auto simp: bhs_new_def)
    then show ?thesis using False v i Inr by (intro accepted) (auto simp: generate_stream_def)
  qed
qed

lemma front_step_inv:
  assumes "0 < bs" "front_inv limit P sk"
    and P: "\<And>rng req rid r b tx now. validate worker cfg rng req rid = (Inr r, rid + 1) \<Longrightarrow> bhs_new xxh (input_tokens r) bs = Inr b \<Longrightarrow>
      P (entry_new r b tx now)"
  shows "\<exists>sk'. front_step xxh bs worker cfg ev sk = Inr sk' \<and> front_inv limit P sk'"
proof -
  obtain s k where sk: "sk = (s, k)" by force
  show ?thesis
  proof (cases ev)
    case Close
    then show ?thesis using assms(2) by (auto simp: sk front_step_def front_inv_def close_stream_def)
  next
    case (Open rng now n req)
    from assms(1) show ?thesis
    proof (cases rule: generate_stream_cases[of bs s xxh worker cfg rng now n req])
      case full
      with assms(2) show ?thesis by (auto simp: sk Open front_step_def)
    next
      case (rejected err)
      with assms(2) show ?thesis by (auto simp: sk Open front_step_def)
    next
      case (accepted r b)
      with assms(2) P[OF accepted(2,3)] show ?thesis by (auto simp: sk Open front_step_def front_inv_def)
    qed
  qed
qed

lemma front_run_inv:
  assumes "0 < bs" "front_inv limit P sk"
    and "\<And>rng req rid r b tx now. validate worker cfg rng req rid = (Inr r, rid + 1) \<Longrightarrow> bhs_new xxh (input_tokens r) bs = Inr b \<Longrightarrow>
      P (entry_new r b tx now)"
  shows "\<exists>sk'. fold_outcome (front_step xxh bs worker cfg) evs sk = Inr sk' \<and> front_inv limit P sk'"
  using assms(2)
proof (induction evs arbitrary: sk)
  case (Cons ev evs)
  have "\<exists>sk'. front_step xxh bs worker cfg ev sk = Inr sk' \<and> front_inv limit P sk'"
    by (rule front_step_inv[OF assms(1) Cons.prems]) (rule assms(3))
  then obtain sk1 where "front_step xxh bs worker cfg ev sk = Inr sk1" "front_inv limit P sk1" by blast
  with Cons.IH[of sk1] show ?case by simp
qed simp

text \<open>
  A server that can measure its requests: it has a tokenizer, whose answers are as documented, and the limits come from
  \<^verbatim>\<open>main\<close> with a total below \<open>2 ^ 32\<close>, the width of \<^verbatim>\<open>max_new_tokens\<close>.
\<close>

definition measured :: "worker option \<Rightarrow> validation \<Rightarrow> bool" where
  "measured worker cfg \<longleftrightarrow> (\<exists>tk render a b c. worker = Some (prepare_input tk render) \<and> tokenizer_ok tk \<and>
     resolve_limits a b c = Some (max_total_tokens cfg, max_input_length cfg) \<and> unat (max_total_tokens cfg) < 2 ^ 32)"

definition fits_context :: "validation \<Rightarrow> entry \<Rightarrow> bool" where
  "fits_context cfg e \<longleftrightarrow> 0 < unat (max_new_tokens (request e)) \<and>
     length (input_tokens (request e)) + unat (max_new_tokens (request e)) \<le> unat (max_total_tokens cfg)"

lemma measured_fits:
  assumes "measured worker cfg" "validate worker cfg rng req rid = (Inr r, rid')"
  shows "fits_context cfg (entry_new r b tx now)"
proof -
  from assms(1) obtain tk render a' b' c' where m: "worker = Some (prepare_input tk render)" "tokenizer_ok tk"
    "resolve_limits a' b' c' = Some (max_total_tokens cfg, max_input_length cfg)" "unat (max_total_tokens cfg) < 2 ^ 32"
    by (auto simp: measured_def)
  from validated_limits[OF m(2-4) assms(2)[unfolded m(1)]] show ?thesis
    by (simp add: fits_context_def entry_new_def valid_request.defs)
qed

lemma admission_limits:
  assumes "0 < bs"
  shows "\<exists>s k. fold_outcome (front_step xxh bs worker cfg) evs (infer_new limit, 0) = Inr (s, k) \<and>
    permits s + k = limit \<and> map entry_id (appended s) = map of_nat [0..<length (appended s)] \<and>
    (length (appended s) < 2 ^ 64 \<longrightarrow> distinct (map entry_id (appended s))) \<and>
    (measured worker cfg \<longrightarrow> (\<forall>e\<in>set (appended s). fits_context cfg e))"
proof -
  let ?P = "\<lambda>e. measured worker cfg \<longrightarrow> fits_context cfg e"
  obtain s k where r: "fold_outcome (front_step xxh bs worker cfg) evs (infer_new limit, 0) = Inr (s, k)"
    "front_inv limit ?P (s, k)"
    using front_run_inv[of bs limit ?P "(infer_new limit, 0)" worker cfg xxh evs] assms(1) measured_fits[of worker cfg]
    by (auto simp: front_inv_def infer_new_def)
  have "distinct (map (of_nat :: nat \<Rightarrow> u64) [0..<n])" if "n < 2 ^ 64" for n
    using that by (auto simp: distinct_map inj_on_def word_of_nat_eq_iff take_bit_nat_eq_self)
  with r show ?thesis by (auto simp: front_inv_def)
qed

text \<open>C25: for a block size other than 0, with or without a tokenizer, over any sequence of arriving requests and ending
  handlers nothing panics at the front; permits and open streams always add up to the configured limit, so
  never more streams are open; and the accepted requests are numbered from zero in the order they are
  appended, hence distinct. When the server can measure its requests (\<open>measured\<close>: it has a tokenizer, and the
  limits of start-up stay below \<open>2 ^ 32\<close>), each of them fits into the context of the model with its
  generation (\<open>fits_context\<close>); without a tokenizer it need not (\<open>no_tokenizer_limit_wraps\<close>).\<close>

theorem admission_limited:
  assumes "0 < bs"
  shows "\<exists>s k. fold_outcome (front_step xxh bs worker cfg) evs (infer_new limit, 0) = Inr (s, k) \<and>
    permits s + k = limit \<and> map entry_id (appended s) = map of_nat [0..<length (appended s)] \<and>
    (length (appended s) < 2 ^ 64 \<longrightarrow> distinct (map entry_id (appended s))) \<and>
    (measured worker cfg \<longrightarrow> (\<forall>e\<in>set (appended s). fits_context cfg e))"
  by (rule admission_limits[OF assms])

text \<open>A block size of 0, which the command line accepts, panics with the first request that is valid.\<close>

lemma zero_blocks_panic:
  assumes "validate worker cfg rng req (rid_generator s) = (Inr r, rid)" "permits s \<noteq> 0"
  shows "generate_stream xxh 0 worker cfg rng now n req s = Inl ExplicitPanic"
  using assms by (simp add: generate_stream_def bhs_new_def)

section \<open>A whole answer\<close>

definition is_data :: "nat \<times> (infer_error + infer_stream_response) \<Rightarrow> bool" where
  "is_data m = (case snd m of Inr Prefill \<Rightarrow> True | Inr (Intermediate _ _) \<Rightarrow> True | _ \<Rightarrow> False)"

definition stream_tokens :: "(nat \<times> (infer_error + infer_stream_response)) list \<Rightarrow> token list" where
  "stream_tokens ms = concat (map (\<lambda>m. case snd m of Inr (Intermediate tok _) \<Rightarrow> [tok] | _ \<Rightarrow> []) ms)"

fun token_gaps :: "nat \<Rightarrow> (nat \<times> (infer_error + infer_stream_response)) list \<Rightarrow> nat list" where
  "token_gaps t [] = []"
| "token_gaps t ((now, m) # ms) = (case m of Inr (Intermediate _ _) \<Rightarrow> (now - t) # token_gaps now ms | _ \<Rightarrow> token_gaps now ms)"

definition has_prefill :: "(nat \<times> (infer_error + infer_stream_response)) list \<Rightarrow> bool" where
  "has_prefill ms \<longleftrightarrow> Inr Prefill \<in> snd ` set ms"

lemma stream_tokens_simps [simp]:
  "stream_tokens [] = []"
  "stream_tokens ((t, Inr (Intermediate tok tops)) # ms) = tok # stream_tokens ms"
  "stream_tokens ((t, Inr Prefill) # ms) = stream_tokens ms"
  by (simp_all add: stream_tokens_def)

lemma has_prefill_simps [simp]:
  "\<not> has_prefill []" "has_prefill ((t, m) # ms) \<longleftrightarrow> m = Inr Prefill \<or> has_prefill ms"
  by (auto simp: has_prefill_def)

lemma collect_data:
  assumes "\<forall>m\<in>set pre. is_data m"
  obtains a' where "\<And>ms. collect t0 (pre @ ms) a = collect t0 ms a'"
    "result_tokens a' = result_tokens a @ stream_tokens pre"
    "time_between_tokens a' = time_between_tokens a @ token_gaps (interval a) pre"
    "first_token_time a' = None \<longleftrightarrow> first_token_time a = None \<and> \<not> has_prefill pre"
    "result_generated_text a' = result_generated_text a"
proof -
  have "\<exists>a'. (\<forall>ms. collect t0 (pre @ ms) a = collect t0 ms a') \<and>
    result_tokens a' = result_tokens a @ stream_tokens pre \<and>
    time_between_tokens a' = time_between_tokens a @ token_gaps (interval a) pre \<and>
    (first_token_time a' = None \<longleftrightarrow> first_token_time a = None \<and> \<not> has_prefill pre) \<and>
    result_generated_text a' = result_generated_text a"
    using assms
  proof (induction pre arbitrary: a)
    case Nil
    show ?case by (rule exI[of _ a]) (simp add: has_prefill_def)
  next
    case (Cons m pre)
    define a1 where "a1 = (case snd m of
        Inr Prefill \<Rightarrow> a\<lparr>first_token_time := (case first_token_time a of None \<Rightarrow> Some (fst m - t0) | Some t \<Rightarrow> Some t), interval := fst m\<rparr>
      | Inr (Intermediate tok tops) \<Rightarrow> a\<lparr>result_tokens := result_tokens a @ [tok], result_top_tokens := result_top_tokens a @ [tops],
           time_between_tokens := time_between_tokens a @ [fst m - interval a], interval := fst m\<rparr>
      | _ \<Rightarrow> a)"
    obtain now x where m: "m = (now, x)" by force
    from Cons.prems have x: "x = Inr Prefill \<or> (\<exists>tok tops. x = Inr (Intermediate tok tops))"
      by (auto simp: m is_data_def split: sum.splits infer_stream_response.splits)
    have step: "collect t0 ((m # pre) @ ms) a = collect t0 (pre @ ms) a1" for ms
      using x by (auto simp: m a1_def cong: option.case_cong)
    have eff: "result_tokens a1 @ stream_tokens pre = result_tokens a @ stream_tokens (m # pre)"
      "time_between_tokens a1 @ token_gaps (interval a1) pre = time_between_tokens a @ token_gaps (interval a) (m # pre)"
      "result_generated_text a1 = result_generated_text a"
      using x by (auto simp: m a1_def)
    have pf: "first_token_time a1 = None \<and> \<not> has_prefill pre \<longleftrightarrow> first_token_time a = None \<and> \<not> has_prefill (m # pre)"
      using x
    proof
      assume "x = Inr Prefill"
      then show ?thesis by (simp add: m a1_def split: option.split)
    next
      assume "\<exists>tok tops. x = Inr (Intermediate tok tops)"
      then obtain tok tops where x: "x = Inr (Intermediate tok tops)" by blast
      have "first_token_time a1 = first_token_time a" by (simp add: m x a1_def)
      moreover have "has_prefill (m # pre) \<longleftrightarrow> has_prefill pre" by (simp add: m x)
      ultimately show ?thesis by argo
    qed
    from Cons.prems have "\<forall>m\<in>set pre. is_data m" by simp
    from Cons.IH[OF this, of a1] show ?case unfolding step eff pf .
  qed
  then show thesis by (elim exE conjE) (rule that, (erule spec | assumption)+)
qed

lemma quantile_in_range:
  assumes "xs \<noteq> []" "0 \<le> q" "q < 1"
  shows "quantile q xs = Inr (xs ! nat \<lfloor>real (length xs) * q\<rfloor>)" "nat \<lfloor>real (length xs) * q\<rfloor> < length xs"
proof -
  have "real (length xs) * q < real (length xs)" using assms by simp
  then show "nat \<lfloor>real (length xs) * q\<rfloor> < length xs" using assms(2) by (simp add: nat_less_iff floor_less_iff)
  then show "quantile q xs = Inr (xs ! nat \<lfloor>real (length xs) * q\<rfloor>)" by (simp add: quantile_def Let_def)
qed

lemma avg_le_last:
  fixes xs :: "nat list"
  assumes "sorted xs" "xs \<noteq> []"
  shows "sum_list xs div length xs \<le> List.last xs"
proof -
  have "x \<le> List.last xs" if "x \<in> set xs" for x
  proof -
    from that obtain j where "j < length xs" "x = xs ! j" by (metis in_set_conv_nth)
    then show ?thesis using assms by (simp add: last_conv_nth sorted_nth_mono)
  qed
  moreover have "(\<forall>x\<in>set ys. x \<le> M) \<Longrightarrow> sum_list ys \<le> length ys * M" for ys :: "nat list" and M
    by (induction ys) auto
  ultimately have "sum_list xs \<le> length xs * List.last xs" by blast
  then show ?thesis using assms(2) by (metis div_le_mono length_0_conv nonzero_mult_div_cancel_left)
qed

text \<open>The statistics of the times between tokens: ordered, and the maximum is the greatest time.\<close>

lemma tbt_statistics_ok:
  assumes "length tbts < 2 ^ 32" "tbts \<noteq> []"
  shows "\<exists>st. tbt_statistics mx tbts = Inr st \<and> s_p90 st \<le> s_p95 st \<and> s_p95 st \<le> s_p99 st \<and> s_p99 st \<le> s_max st \<and>
    s_max st \<in> set tbts \<and> (\<forall>t\<in>set tbts. t \<le> s_max st) \<and> s_avg st \<le> s_max st \<and> s_first_decode st = hd tbts"
proof -
  let ?xs = "sort tbts"
  have ne: "?xs \<noteq> []" using assms(2) by (metis length_0_conv length_sort)
  let ?i = "\<lambda>q :: real. nat \<lfloor>real (length tbts) * q\<rfloor>"
  have i: "?i (9/10) \<le> ?i (95/100)" "?i (95/100) \<le> ?i (99/100)" "?i (99/100) < length tbts"
    using quantile_in_range(2)[of tbts "99/100"] assms(2) by (auto intro!: nat_mono floor_mono mult_left_mono)
  have mono: "?xs ! j \<le> ?xs ! k" if "j \<le> k" "k < length tbts" for j k
    using that by (auto intro: sorted_nth_mono)
  have l: "List.last ?xs = ?xs ! (length tbts - 1)" using ne by (simp add: last_conv_nth)
  have max: "\<forall>t\<in>set tbts. t \<le> List.last ?xs"
  proof
    fix t assume "t \<in> set tbts"
    then obtain j where "j < length tbts" "t = ?xs ! j" by (metis in_set_conv_nth length_sort set_sort)
    with mono[of j "length tbts - 1"] l show "t \<le> List.last ?xs" by simp
  qed
  have n: "unat (of_nat (length tbts) :: u32) = length tbts" using assms(1) by (simp add: unsigned_of_nat take_bit_nat_eq_self)
  have avg: "avg_duration ?xs = Inr (sum_list ?xs div length tbts)" using n assms(2) by (simp add: avg_duration_def Let_def)
  have "sum_list ?xs div length ?xs \<le> List.last ?xs" by (rule avg_le_last) (use ne in auto)
  moreover have "List.last ?xs \<in> set tbts" using last_in_set[OF ne] by simp
  ultimately show ?thesis
    using i max mono assms(2) ne by (simp add: tbt_statistics_def Let_def avg quantile_in_range(1) l)
qed


text \<open>C29: what \<^verbatim>\<open>generate\<close> makes of a stream, whatever its messages: the first error is passed on; a
  stream that ends without an end marker is an incomplete generation; with the end marker the answer holds
  every token in order, their number, the text of the marker, and latency quantiles that are ordered and
  bounded by the maximum. An end marker before any token, or without a prefill notice, panics, and these
  are the only panics.\<close>

theorem generate_outcome:
  assumes "\<forall>m\<in>set pre. is_data m" "length pre < 2 ^ 32"
  shows "generate rid req t0 pre = Inr (Inl IncompleteGeneration) \<and>
    generate rid req t0 (pre @ (t, Inl err) # rest) = Inr (Inl err) \<and>
    (if stream_tokens pre = [] \<or> \<not> has_prefill pre
      then \<exists>p. generate rid req t0 (pre @ (t, Inr (End tok tops txt start queued mx)) # rest) = Inl p
      else \<exists>r. generate rid req t0 (pre @ (t, Inr (End tok tops txt start queued mx)) # rest) = Inr (Inr r) \<and>
        ir_request_id r = rid \<and> ir_tokens r = stream_tokens pre \<and> ir_output_length r = length (stream_tokens pre) \<and>
        ir_generated_text r = txt \<and> ir_queued r = queued \<and> ir_start r = start \<and>
        ir_p90_tbt r \<le> ir_p95_tbt r \<and> ir_p95_tbt r \<le> ir_p99_tbt r \<and> ir_p99_tbt r \<le> ir_max_tbt r)"
proof (intro conjI)
  let ?a = "collected_new t0"
  obtain a' where a': "\<And>ms. collect t0 (pre @ ms) ?a = collect t0 ms a'"
    "result_tokens a' = stream_tokens pre" "time_between_tokens a' = token_gaps t0 pre"
    "first_token_time a' = None \<longleftrightarrow> \<not> has_prefill pre" "result_generated_text a' = None"
    using collect_data[OF assms(1), of t0 ?a] by (auto simp: collected_new_def)
  have "length (token_gaps u ms) \<le> length ms" for u and ms :: "(nat \<times> (infer_error + infer_stream_response)) list"
    by (induction u ms rule: token_gaps.induct) (auto split: sum.split infer_stream_response.split)
  then have len: "length (token_gaps t0 pre) < 2 ^ 32" using assms(2) le_less_trans by blast
  have "token_gaps u ms = [] \<longleftrightarrow> stream_tokens ms = []" for u and ms :: "(nat \<times> (infer_error + infer_stream_response)) list"
    by (induction u ms rule: token_gaps.induct) (auto simp: stream_tokens_def split: sum.split infer_stream_response.split)
  note gaps = this[of t0 pre]
  show "generate rid req t0 pre = Inr (Inl IncompleteGeneration)"
    using a'(1)[of "[]"] a'(5) by (simp add: generate_def finish_generate_def)
  show "generate rid req t0 (pre @ (t, Inl err) # rest) = Inr (Inl err)"
    by (simp add: generate_def a'(1))
  show "if stream_tokens pre = [] \<or> \<not> has_prefill pre
      then \<exists>p. generate rid req t0 (pre @ (t, Inr (End tok tops txt start queued mx)) # rest) = Inl p
      else \<exists>r. generate rid req t0 (pre @ (t, Inr (End tok tops txt start queued mx)) # rest) = Inr (Inr r) \<and>
        ir_request_id r = rid \<and> ir_tokens r = stream_tokens pre \<and> ir_output_length r = length (stream_tokens pre) \<and>
        ir_generated_text r = txt \<and> ir_queued r = queued \<and> ir_start r = start \<and>
        ir_p90_tbt r \<le> ir_p95_tbt r \<and> ir_p95_tbt r \<le> ir_p99_tbt r \<and> ir_p99_tbt r \<le> ir_max_tbt r"
  proof (cases "token_gaps t0 pre")
    case Nil
    then show ?thesis using gaps by (simp add: generate_def a'(1,3))
  next
    case (Cons g gs)
    have "\<exists>st. tbt_statistics mx gs = Inr st \<and> s_p90 st \<le> s_p95 st \<and> s_p95 st \<le> s_p99 st \<and> s_p99 st \<le> s_max st"
    proof (cases "gs = []")
      case True
      then show ?thesis by (simp add: tbt_statistics_def)
    next
      case False
      with tbt_statistics_ok[of gs mx] len Cons show ?thesis by auto
    qed
    then obtain st where "tbt_statistics mx gs = Inr st" "s_p90 st \<le> s_p95 st" "s_p95 st \<le> s_p99 st" "s_p99 st \<le> s_max st" by blast
    then show ?thesis using Cons gaps a'(2,4)
      by (cases "first_token_time a'") (auto simp: generate_def a'(1,3) finish_generate_def)
  qed
qed


theorem generate_outcome_witness:
  "\<exists>r. generate 3 demo_request 0 [(5, Inr Prefill), (7, Inr (Intermediate token_default [])),
     (9, Inr (Intermediate token_default [])), (9, Inr (End token_default [] generated_text_default 1 2 0))] = Inr (Inr r) \<and>
     ir_tokens r = [token_default, token_default]"
  using generate_outcome[of "[(5, Inr Prefill), (7, Inr (Intermediate token_default [])), (9, Inr (Intermediate token_default []))]"
    3 demo_request 0 9 IncompleteGeneration "[]" token_default "[]" generated_text_default 1 2 0]
  by (auto simp: is_data_def)

lemma demo_measured: "measured (Some (prepare_input demo_tokenizer render_none)) demo_limits"
proof -
  have "resolve_limits (Some 10) None None = Some (max_total_tokens demo_limits, max_input_length demo_limits)"
    "unat (max_total_tokens demo_limits) < 2 ^ 32"
    by (simp_all add: resolve_limits_def demo_limits_def sat_sub_def)
  then show ?thesis using demo_tokenizer_ok unfolding measured_def by blast
qed

theorem admission_limited_witness:
  "\<exists>s k. fold_outcome (front_step (\<lambda>_ h. h) 16 (Some (prepare_input demo_tokenizer render_none)) demo_limits)
     [Open 0 0 None demo_request, Open 0 0 None demo_request, Close] (infer_new 1, 0) = Inr (s, k) \<and> permits s + k = 1 \<and>
     (\<forall>e\<in>set (appended s). fits_context demo_limits e)"
  using admission_limited[of 16 "\<lambda>_ h. h" "Some (prepare_input demo_tokenizer render_none)" demo_limits
      "[Open 0 0 None demo_request, Open 0 0 None demo_request, Close]" 1] demo_measured by fastforce

text \<open>
  The messages of the event loop carry default values at the end: whatever was generated, the answer
  \<^verbatim>\<open>generate\<close> makes of them has an empty text, no generated tokens and the finish reason \<open>0\<close>.
\<close>

definition end_text :: "nat \<times> (infer_error + infer_stream_response) \<Rightarrow> generated_text option" where
  "end_text m = (case snd m of Inr (End _ _ txt _ _ _) \<Rightarrow> Some txt | _ \<Rightarrow> None)"

lemma collect_text:
  assumes "collect t0 ms a = Inr (Inr a')" "result_generated_text a' = Some txt"
  shows "result_generated_text a = Some txt \<or> (\<exists>m\<in>set ms. end_text m = Some txt)"
  using assms by (induction t0 ms a rule: collect.induct) (auto simp: end_text_def split: list.splits)

lemma generate_of_loop_is_empty:
  assumes "generate rid req t0 ms = Inr (Inr r)" "\<forall>m\<in>set ms. \<exists>x. snd m = wire tk start queued x"
  shows "ir_generated_text r = generated_text_default \<and> ir_input_length r = 0"
proof -
  from assms(1) obtain a where a: "collect t0 ms (collected_new t0) = Inr (Inr a)"
    "finish_generate rid (case gp_top_n_tokens (gr_parameters req) of None \<Rightarrow> False | Some x \<Rightarrow> x > 0) a = Inr (Inr r)"
    by (auto simp: generate_def obind_def split: sum.splits)
  then have r: "result_generated_text a = Some (ir_generated_text r)" "ir_input_length r = 0"
    by (auto simp: finish_generate_def obind_eq_Inr split: option.splits)
  with collect_text[OF a(1)] obtain m where m: "m \<in> set ms" "end_text m = Some (ir_generated_text r)"
    by (auto simp: collected_new_def)
  from assms(2) m(1) obtain x where "snd m = wire tk start queued x" by blast
  with m(2) r(2) show ?thesis by (cases x) (auto simp: wire_def end_text_def)
qed

section \<open>The best of several answers\<close>

lemma max_logprob_index_spec:
  assumes "max_logprob_index i rs (k, best) = (k', best')"
  shows "(k' = k \<and> best' = best \<or> i \<le> k' \<and> k' < i + length rs \<and> sequence_logprob (rs ! (k' - i)) = Some best' \<and> best < best') \<and>
    (\<forall>r\<in>set rs. \<forall>x. sequence_logprob r = Some x \<longrightarrow> x \<le> best') \<and> best \<le> best'"
  using assms
proof (induction rs arbitrary: i k best)
  case (Cons r rs)
  define kb where "kb = (case sequence_logprob r of None \<Rightarrow> (k, best) | Some x \<Rightarrow> if x > best then (i, x) else (k, best))"
  obtain k1 best1 where kb1: "kb = (k1, best1)" by force
  from Cons.prems have rec: "max_logprob_index (Suc i) rs (k1, best1) = (k', best')" by (simp add: kb_def[symmetric] kb1)
  have one: "best \<le> best1 \<and> (k1 = k \<and> best1 = best \<or> k1 = i \<and> sequence_logprob r = Some best1 \<and> best < best1) \<and>
      (\<forall>x. sequence_logprob r = Some x \<longrightarrow> x \<le> best1)"
    using kb1 by (auto simp: kb_def split: option.splits if_splits)
  from Cons.IH[OF rec] one show ?case
    by (auto simp: nth_Cons' Suc_le_eq)
qed simp

text \<open>\<^verbatim>\<open>generate_best_of\<close> returns an answer whose mean log-probability no other answer exceeds, and the
  others in their order; it fails with the first failure, and only an empty \<^verbatim>\<open>best_of\<close> (which validation lets
  through) makes it panic.\<close>

theorem generate_best_of_picks:
  assumes "validate_best_of cfg n = Inr n" "0 < n" "\<forall>i<unat n. answer i = Inr (resp i)"
    "\<forall>i<unat n. \<forall>x. sequence_logprob (resp i) = Some x \<longrightarrow> f32_min < x"
  shows "\<exists>k<unat n. generate_best_of cfg n answer = Inr (Inr (resp k, vec_remove k (map resp [0..<unat n]))) \<and>
    (\<forall>i<unat n. \<forall>x. sequence_logprob (resp i) = Some x \<longrightarrow> (\<exists>y\<ge>x. sequence_logprob (resp k) = Some y))"
proof -
  let ?rs = "map resp [0..<unat n]"
  have join: "try_join_all (map Inr rs) = Inr rs" for rs by (induction rs) simp_all
  have eq: "map answer [0..<unat n] = map Inr ?rs" using assms(3) by simp
  have j: "try_join_all (map answer [0..<unat n]) = Inr ?rs" unfolding eq by (rule join)
  obtain k best where kb: "max_logprob_index 0 ?rs (0, f32_min) = (k, best)" by force
  note sp = max_logprob_index_spec[OF kb]
  have pos: "0 < unat n" using assms(2) by (simp add: unat_gt_0 word_neq_0_conv)
  have k: "k < unat n" using sp pos by auto
  have "generate_best_of cfg n answer = Inr (Inr (resp k, vec_remove k ?rs))"
    using j kb k by (simp add: generate_best_of_def assms(1) map_error_def Let_def)
  moreover have "\<exists>y\<ge>x. sequence_logprob (resp k) = Some y" if i: "i < unat n" "sequence_logprob (resp i) = Some x" for i x
  proof -
    have x: "x \<le> best" "f32_min < x" using sp i assms(4) by auto
    then have "sequence_logprob (resp k) = Some best" using sp k by auto
    with x show ?thesis by blast
  qed
  ultimately show ?thesis using k by blast
qed

lemma generate_best_of_zero_panics: "generate_best_of demo_limits 0 answer = Inl SliceOutOfRange"
  by (simp add: generate_best_of_def validate_best_of_def reject_if_def demo_limits_def map_error_def)

end
