(* ===== verification/ExceptMgmt.thy ===== *)
theory ExceptMgmt
  imports Entry
begin

text \<open>
  The lifecycle phase of a request and the exception context of the event loop, from
  \<^verbatim>\<open>router/src/engine/colocation.rs\<close> (\<^verbatim>\<open>RequestPhase\<close> and the module
  \<^verbatim>\<open>except_management\<close>). The map of entries is a partial function, the vector of states a list;
  \<^verbatim>\<open>expect\<close> on a missing state or entry is a panic.
\<close>

section \<open>Request phases\<close>

datatype request_phase = Waiting | Prefilling | Decoding | Excepted

definition transition :: "request_phase \<Rightarrow> string \<Rightarrow> bool \<Rightarrow> request_phase outcome" where
  "transition ph sse_state fin =
     (if ph = Waiting \<and> sse_state = ''PREFILL'' then Inr (if fin then Prefilling else Prefilling)
      else if ph = Prefilling \<and> sse_state = ''PREFILL'' then Inr Prefilling
      else if ph = Waiting \<and> sse_state = ''DECODE'' then Inr Decoding
      else if ph = Prefilling \<and> sse_state = ''DECODE'' then Inr Decoding
      else if ph = Decoding \<and> sse_state = ''DECODE'' then Inr Decoding
      else if ph = Decoding \<and> sse_state = ''PREFILL'' then Inr Prefilling
      else if ph = Excepted then Inr Excepted
      else Inl ExplicitPanic)"

section \<open>The exception state of one request\<close>

datatype ext_state =
    Abort u64 entry
  | Fault u64 entry
  | Term u64
  | Exit u64
  | Live u64

text \<open>The argument of the first two states is the \<^verbatim>\<open>live\<close> flag, that of the third \<^verbatim>\<open>waiting_term\<close>.\<close>

datatype ext_st_inner =
    WaitingTerm bool
  | Faulted bool
  | Exited bool

definition on_live :: "ext_st_inner \<Rightarrow> ext_st_inner" where
  "on_live st = (case st of WaitingTerm _ \<Rightarrow> WaitingTerm True | Faulted _ \<Rightarrow> Faulted True | Exited w \<Rightarrow> Exited w)"

definition on_exit :: "ext_st_inner \<Rightarrow> bool \<times> ext_st_inner" where
  "on_exit st =
     (case st of
        WaitingTerm _ \<Rightarrow> (True, Exited True)
      | Faulted _ \<Rightarrow> (True, Exited False)
      | Exited w \<Rightarrow> (False, Exited w))"

definition on_term :: "ext_st_inner \<Rightarrow> bool" where
  "on_term st = (case st of WaitingTerm _ \<Rightarrow> True | Faulted _ \<Rightarrow> True | Exited w \<Rightarrow> False)"

definition clear_live_flag :: "ext_st_inner \<Rightarrow> ext_st_inner" where
  "clear_live_flag st =
     (case st of WaitingTerm _ \<Rightarrow> WaitingTerm False | Faulted _ \<Rightarrow> Faulted False | Exited w \<Rightarrow> Exited w)"

definition is_drop_ready :: "ext_st_inner \<Rightarrow> bool" where
  "is_drop_ready st \<longleftrightarrow> st = Faulted False"

section \<open>The exception context\<close>

record ext_context =
  ext_entries :: "u64 \<rightharpoonup> entry"
  ext_states :: "(u64 \<times> ext_st_inner) list"

definition ext_new :: ext_context where
  "ext_new = \<lparr>ext_entries = Map.empty, ext_states = []\<rparr>"

text \<open>\<^verbatim>\<open>self.entries.remove(&id)\<close>: what was filed under the id, and the map without it.\<close>

definition take_entry :: "u64 \<Rightarrow> ext_context \<Rightarrow> entry option \<times> ext_context" where
  "take_entry rid ctx = (ext_entries ctx rid, ctx\<lparr>ext_entries := (ext_entries ctx)(rid := None)\<rparr>)"

definition put_exit :: "u64 \<Rightarrow> ext_context \<Rightarrow> (entry option \<times> ext_context) outcome" where
  "put_exit rid ctx =
     (case position (\<lambda>s. fst s = rid) (ext_states ctx) of
        None \<Rightarrow> Inl ExpectFailed
      | Some i \<Rightarrow>
          (let (first, st) = on_exit (snd (ext_states ctx ! i));
               ctx' = ctx\<lparr>ext_states := (ext_states ctx)[i := (rid, st)]\<rparr>
           in Inr (if first then take_entry rid ctx' else (None, ctx'))))"

definition put_term :: "u64 \<Rightarrow> ext_context \<Rightarrow> (entry option \<times> ext_context) outcome" where
  "put_term rid ctx =
     (case position (\<lambda>s. fst s = rid) (ext_states ctx) of
        None \<Rightarrow> Inl ExpectFailed
      | Some i \<Rightarrow>
          (let has_entry = on_term (snd (ext_states ctx ! i));
               ctx' = ctx\<lparr>ext_states := vec_remove i (ext_states ctx)\<rparr>
           in Inr (if has_entry then take_entry rid ctx' else (None, ctx'))))"

definition put :: "ext_state \<Rightarrow> ext_context \<Rightarrow> (entry option \<times> ext_context) outcome" where
  "put ev ctx =
     (case ev of
        Abort rid e \<Rightarrow> Inr (None, ctx\<lparr>ext_entries := (ext_entries ctx)(rid \<mapsto> e),
                                        ext_states := ext_states ctx @ [(rid, WaitingTerm False)]\<rparr>)
      | Fault rid e \<Rightarrow> Inr (None, ctx\<lparr>ext_entries := (ext_entries ctx)(rid \<mapsto> e),
                                        ext_states := ext_states ctx @ [(rid, Faulted True)]\<rparr>)
      | Live rid \<Rightarrow>
          Inr (None, case position (\<lambda>s. fst s = rid) (ext_states ctx) of
                       None \<Rightarrow> ctx
                     | Some i \<Rightarrow> ctx\<lparr>ext_states := (ext_states ctx)[i := (rid, on_live (snd (ext_states ctx ! i)))]\<rparr>)
      | Exit rid \<Rightarrow> put_exit rid ctx
      | Term rid \<Rightarrow> put_term rid ctx)"

text \<open>The body of the loop of \<^verbatim>\<open>filter_drop\<close>, over the entries, \<^verbatim>\<open>rem\<close> and \<^verbatim>\<open>dropped\<close>.\<close>

type_synonym drop_acc = "(u64 \<rightharpoonup> entry) \<times> (u64 \<times> ext_st_inner) list \<times> (u64 \<times> entry) list"

definition drop_one :: "u64 \<times> ext_st_inner \<Rightarrow> drop_acc \<Rightarrow> drop_acc outcome" where
  "drop_one = (\<lambda>(rid, st) (es, keep, dropped).
     if is_drop_ready st
     then case es rid of
            None \<Rightarrow> Inl ExpectFailed
          | Some e \<Rightarrow> Inr (es(rid := None), keep, dropped @ [(rid, e)])
     else Inr (es, keep @ [(rid, clear_live_flag st)], dropped))"

definition filter_drop :: "ext_context \<Rightarrow> ((u64 \<times> entry) list \<times> ext_context) outcome" where
  "filter_drop ctx =
     (case fold_outcome drop_one (ext_states ctx) (ext_entries ctx, [], []) of
        Inl p \<Rightarrow> Inl p
      | Inr (es, keep, dropped) \<Rightarrow> Inr (dropped, ctx\<lparr>ext_entries := es, ext_states := keep\<rparr>))"

section \<open>The states as a map\<close>

lemma map_of_position:
  "map_of xs k = (case position (\<lambda>s. fst s = k) xs of None \<Rightarrow> None | Some i \<Rightarrow> Some (snd (xs ! i)))"
  by (induction xs) (auto split: option.splits)

lemma position_map_of:
  assumes "map_of xs k = Some v"
  obtains i where "position (\<lambda>s. fst s = k) xs = Some i" "i < length xs" "xs ! i = (k, v)"
proof -
  obtain i where i: "position (\<lambda>s. fst s = k) xs = Some i" "snd (xs ! i) = v"
    using assms by (auto simp: map_of_position split: option.splits)
  from position_SomeD[OF i(1)] that[OF i(1)] i(2) show ?thesis by (cases "xs ! i") auto
qed

lemma keys_update: "i < length xs \<Longrightarrow> xs ! i = (k, v) \<Longrightarrow> map fst (xs[i := (k, w)]) = map fst xs"
  by (simp add: map_update list_update_same_conv)

lemma map_of_list_update:
  "position (\<lambda>s. fst s = k) xs = Some i \<Longrightarrow> map_of (xs[i := (k, w)]) = (map_of xs)(k \<mapsto> w)"
proof (induction xs arbitrary: i)
  case (Cons x xs)
  then show ?case by (cases "fst x = k") (auto simp: fun_upd_twist)
qed simp

lemma map_of_filter_key: "map_of (filter (\<lambda>s. fst s \<noteq> k) xs) = (map_of xs)(k := None)"
  by (induction xs) (auto simp: fun_eq_iff)

lemma map_of_vec_remove:
  assumes "distinct (map fst xs)" "position (\<lambda>s. fst s = k) xs = Some i"
  shows "map_of (vec_remove i xs) = (map_of xs)(k := None)"
  by (simp add: vec_remove_filter[OF assms] map_of_filter_key)

lemma position_app_new:
  "k \<notin> fst ` set xs \<Longrightarrow> map_of (xs @ [(k, v)]) = (map_of xs)(k \<mapsto> v)"
  by (induction xs) (auto simp: fun_eq_iff)

section \<open>Invariant and abstract machine\<close>

text \<open>
  Every request has one state, and its entry is held exactly until the state is \<open>Exited\<close>.
\<close>

definition holds_entry :: "ext_st_inner \<Rightarrow> bool" where
  "holds_entry st = (case st of Exited w \<Rightarrow> False | _ \<Rightarrow> True)"

definition st_of :: "ext_context \<Rightarrow> u64 \<rightharpoonup> ext_st_inner" where
  "st_of ctx = map_of (ext_states ctx)"

definition ext_inv :: "ext_context \<Rightarrow> bool" where
  "ext_inv ctx \<longleftrightarrow> distinct (map fst (ext_states ctx)) \<and>
     (\<forall>rid. ext_entries ctx rid = None \<longleftrightarrow> (case st_of ctx rid of None \<Rightarrow> True | Some st \<Rightarrow> \<not> holds_entry st))"

text \<open>
  The abstract machine: a map from the tracked requests to their state and the entry held. An event
  changes one key; an exit or a termination hands out whatever is held.
\<close>

type_synonym ext_view = "u64 \<rightharpoonup> ext_st_inner \<times> entry option"

definition view :: "ext_context \<Rightarrow> ext_view" where
  "view ctx rid = map_option (\<lambda>st. (st, ext_entries ctx rid)) (st_of ctx rid)"

fun spec_put :: "ext_state \<Rightarrow> ext_view \<Rightarrow> entry option \<times> ext_view" where
  "spec_put (Abort rid e) m = (None, m(rid \<mapsto> (WaitingTerm False, Some e)))"
| "spec_put (Fault rid e) m = (None, m(rid \<mapsto> (Faulted True, Some e)))"
| "spec_put (Live rid) m = (None, m(rid := map_option (\<lambda>(st, e). (on_live st, e)) (m rid)))"
| "spec_put (Exit rid) m = (Option.bind (m rid) snd, m(rid := map_option (\<lambda>(st, e). (snd (on_exit st), None)) (m rid)))"
| "spec_put (Term rid) m = (Option.bind (m rid) snd, m(rid := None))"

definition spec_drop :: "ext_view \<Rightarrow> ext_view" where
  "spec_drop m rid =
     (case m rid of
        None \<Rightarrow> None
      | Some (st, e) \<Rightarrow> if st = Faulted False then None else Some (clear_live_flag st, e))"

text \<open>The events the event loop may send: a request enters once, and only a tracked one leaves.\<close>

fun event_ok :: "ext_state \<Rightarrow> ext_context \<Rightarrow> bool" where
  "event_ok (Abort rid e) ctx \<longleftrightarrow> st_of ctx rid = None"
| "event_ok (Fault rid e) ctx \<longleftrightarrow> st_of ctx rid = None"
| "event_ok (Live rid) ctx \<longleftrightarrow> True"
| "event_ok (Exit rid) ctx \<longleftrightarrow> st_of ctx rid \<noteq> None"
| "event_ok (Term rid) ctx \<longleftrightarrow> st_of ctx rid \<noteq> None"

lemma holds_entry_simps [simp]:
  "holds_entry (WaitingTerm b)" "holds_entry (Faulted b)" "\<not> holds_entry (Exited w)"
  by (simp_all add: holds_entry_def)

lemma holds_clear [simp]: "holds_entry (clear_live_flag st) = holds_entry st"
  by (cases st) (simp_all add: clear_live_flag_def)

lemma holds_live [simp]: "holds_entry (on_live st) = holds_entry st"
  by (cases st) (simp_all add: on_live_def)

lemma holds_exit [simp]: "\<not> holds_entry (snd (on_exit st)) \<and> fst (on_exit st) = holds_entry st"
  by (cases st) (simp_all add: on_exit_def)

lemma on_term_holds [simp]: "on_term st = holds_entry st"
  by (cases st) (simp_all add: on_term_def)

lemma ext_inv_new [inv_intros]: "ext_inv ext_new"
  by (simp add: ext_inv_def ext_new_def st_of_def)

lemma ext_invD:
  assumes "ext_inv ctx"
  shows "distinct (map fst (ext_states ctx))"
    "st_of ctx rid = None \<Longrightarrow> ext_entries ctx rid = None"
    "st_of ctx rid = Some st \<Longrightarrow> ext_entries ctx rid = None \<longleftrightarrow> \<not> holds_entry st"
  using assms by (auto simp: ext_inv_def split: option.splits)

text \<open>Changing the state of one key, with or without its entry.\<close>

lemma view_upd:
  assumes "ext_inv ctx" "distinct (map fst sts)" "map_of sts = (st_of ctx)(rid := so)"
    and "es = (ext_entries ctx)(rid := eo)" "eo = None \<longleftrightarrow> (case so of None \<Rightarrow> True | Some st \<Rightarrow> \<not> holds_entry st)"
    and "ctx' = ctx\<lparr>ext_entries := es, ext_states := sts\<rparr>"
  shows "ext_inv ctx' \<and> view ctx' = (view ctx)(rid := map_option (\<lambda>st. (st, eo)) so)"
proof
  have st: "st_of ctx' = (st_of ctx)(rid := so)" using assms(3,6) by (simp add: st_of_def)
  show "ext_inv ctx'"
    unfolding ext_inv_def st using assms by (auto simp: ext_inv_def)
  show "view ctx' = (view ctx)(rid := map_option (\<lambda>st. (st, eo)) so)"
  proof -
    have es: "ext_entries ctx' = (ext_entries ctx)(rid := eo)" using assms(4,6) by simp
    show ?thesis by (rule ext) (simp add: view_def st es)
  qed
qed

lemma put_enter:
  assumes "ext_inv ctx" "st_of ctx rid = None" "holds_entry st"
    and "ctx' = ctx\<lparr>ext_entries := (ext_entries ctx)(rid \<mapsto> e), ext_states := ext_states ctx @ [(rid, st)]\<rparr>"
  shows "ext_inv ctx' \<and> view ctx' = (view ctx)(rid \<mapsto> (st, Some e))"
proof -
  have k: "rid \<notin> fst ` set (ext_states ctx)" using assms(2) by (simp add: st_of_def map_of_eq_None_iff)
  then have d: "distinct (map fst (ext_states ctx @ [(rid, st)]))" using ext_invD(1)[OF assms(1)] by auto
  have m: "map_of (ext_states ctx @ [(rid, st)]) = (st_of ctx)(rid \<mapsto> st)"
    using position_app_new[OF k] by (simp add: st_of_def)
  from view_upd[OF assms(1) d m refl, of "Some e" ctx'] assms(3,4) show ?thesis by simp
qed

lemma state_position:
  assumes "ext_inv ctx" "st_of ctx rid = Some st"
  obtains i where "position (\<lambda>s. fst s = rid) (ext_states ctx) = Some i" "ext_states ctx ! i = (rid, st)"
    "distinct (map fst ((ext_states ctx)[i := (rid, st')]))"
    "map_of ((ext_states ctx)[i := (rid, st')]) = (st_of ctx)(rid \<mapsto> st')"
    "distinct (map fst (vec_remove i (ext_states ctx)))"
    "map_of (vec_remove i (ext_states ctx)) = (st_of ctx)(rid := None)"
proof -
  obtain i where i: "position (\<lambda>s. fst s = rid) (ext_states ctx) = Some i" "i < length (ext_states ctx)"
    "ext_states ctx ! i = (rid, st)" using assms(2) unfolding st_of_def by (rule position_map_of)
  note d = ext_invD(1)[OF assms(1)]
  show ?thesis
    using that[OF i(1,3)] keys_update[OF i(2,3), of st'] d map_of_list_update[OF i(1)]
      map_of_vec_remove[OF d i(1)] distinct_vec_remove[OF d, of i] by (simp add: map_vec_remove st_of_def)
qed

lemma take_if:
  assumes "\<not> b \<Longrightarrow> ext_entries ctx rid = None"
  shows "(if b then take_entry rid (ctx\<lparr>ext_states := sts\<rparr>) else (None, ctx\<lparr>ext_states := sts\<rparr>)) =
    (ext_entries ctx rid, ctx\<lparr>ext_entries := (ext_entries ctx)(rid := None), ext_states := sts\<rparr>)"
  using assms by (cases ctx) (simp add: take_entry_def fun_upd_idem)

lemma put_exit_view:
  assumes "ext_inv ctx" "st_of ctx rid = Some st"
  shows "\<exists>ctx'. put_exit rid ctx = Inr (ext_entries ctx rid, ctx') \<and> ext_inv ctx' \<and>
    view ctx' = (view ctx)(rid \<mapsto> (snd (on_exit st), None))"
proof -
  obtain i where i: "position (\<lambda>s. fst s = rid) (ext_states ctx) = Some i" "ext_states ctx ! i = (rid, st)"
    "distinct (map fst ((ext_states ctx)[i := (rid, snd (on_exit st))]))"
    "map_of ((ext_states ctx)[i := (rid, snd (on_exit st))]) = (st_of ctx)(rid \<mapsto> snd (on_exit st))"
    by (rule state_position[OF assms])
  let ?c = "ctx\<lparr>ext_entries := (ext_entries ctx)(rid := None), ext_states := (ext_states ctx)[i := (rid, snd (on_exit st))]\<rparr>"
  have e: "\<not> holds_entry st \<Longrightarrow> ext_entries ctx rid = None" using ext_invD(3)[OF assms] by simp
  have "put_exit rid ctx = Inr (ext_entries ctx rid, ?c)"
    using i(1,2) holds_exit[of st, THEN conjunct2] take_if[of "holds_entry st", OF e]
    by (cases "on_exit st") (simp add: put_exit_def Let_def del: if_split)
  moreover from view_upd[OF assms(1) i(3,4) refl, of None ?c]
  have "ext_inv ?c \<and> view ?c = (view ctx)(rid \<mapsto> (snd (on_exit st), None))" by simp
  ultimately show ?thesis by blast
qed

lemma put_term_view:
  assumes "ext_inv ctx" "st_of ctx rid = Some st"
  shows "\<exists>ctx'. put_term rid ctx = Inr (ext_entries ctx rid, ctx') \<and> ext_inv ctx' \<and>
    view ctx' = (view ctx)(rid := None)"
proof -
  obtain i where i: "position (\<lambda>s. fst s = rid) (ext_states ctx) = Some i" "ext_states ctx ! i = (rid, st)"
    "distinct (map fst (vec_remove i (ext_states ctx)))"
    "map_of (vec_remove i (ext_states ctx)) = (st_of ctx)(rid := None)"
    by (rule state_position[OF assms])
  let ?c = "ctx\<lparr>ext_entries := (ext_entries ctx)(rid := None), ext_states := vec_remove i (ext_states ctx)\<rparr>"
  have e: "\<not> holds_entry st \<Longrightarrow> ext_entries ctx rid = None" using ext_invD(3)[OF assms] by simp
  have "put_term rid ctx = Inr (ext_entries ctx rid, ?c)"
    using i(1,2) take_if[of "holds_entry st", OF e] by (simp add: put_term_def Let_def del: if_split)
  moreover from view_upd[OF assms(1) i(3,4) refl, of None ?c]
  have "ext_inv ?c \<and> view ?c = (view ctx)(rid := None)" by simp
  ultimately show ?thesis by blast
qed

lemma put_live_view:
  assumes "ext_inv ctx"
  shows "\<exists>ctx'. put (Live rid) ctx = Inr (None, ctx') \<and> ext_inv ctx' \<and>
    view ctx' = (view ctx)(rid := map_option (\<lambda>(st, e). (on_live st, e)) (view ctx rid))"
proof (cases "st_of ctx rid")
  case None
  then have "position (\<lambda>s. fst s = rid) (ext_states ctx) = None"
    by (simp add: st_of_def map_of_position split: option.splits)
  with None assms show ?thesis by (auto simp: put_def view_def fun_eq_iff)
next
  case (Some st)
  obtain i where i: "position (\<lambda>s. fst s = rid) (ext_states ctx) = Some i" "ext_states ctx ! i = (rid, st)"
    "distinct (map fst ((ext_states ctx)[i := (rid, on_live st)]))"
    "map_of ((ext_states ctx)[i := (rid, on_live st)]) = (st_of ctx)(rid \<mapsto> on_live st)"
    by (rule state_position[OF assms Some])
  let ?c = "ctx\<lparr>ext_states := (ext_states ctx)[i := (rid, on_live st)]\<rparr>"
  have "put (Live rid) ctx = Inr (None, ?c)" using i(1,2) by (simp add: put_def)
  moreover have "ext_inv ?c \<and> view ?c = (view ctx)(rid := map_option (\<lambda>s. (s, ext_entries ctx rid)) (Some (on_live st)))"
    by (rule view_upd[OF assms i(3,4)]) (use ext_invD(3)[OF assms Some] in \<open>simp_all, cases ctx, simp\<close>)
  ultimately show ?thesis using Some by (auto simp: view_def)
qed

section \<open>The end of a cycle\<close>

lemma fold_drop:
  assumes "distinct (map fst sts)" "\<forall>s\<in>set sts. is_drop_ready (snd s) \<longrightarrow> es (fst s) \<noteq> None"
  shows "fold_outcome drop_one sts (es, keep, dropped) =
    Inr (es |` (- fst ` {s \<in> set sts. is_drop_ready (snd s)}),
         keep @ map (apsnd clear_live_flag) (filter (\<lambda>s. \<not> is_drop_ready (snd s)) sts),
         dropped @ map (\<lambda>s. (fst s, the (es (fst s)))) (filter (\<lambda>s. is_drop_ready (snd s)) sts))"
  using assms
proof (induction sts arbitrary: es keep dropped)
  case Nil
  then show ?case by (simp add: restrict_map_def)
next
  case (Cons s sts)
  obtain k st where s: "s = (k, st)" by (cases s)
  show ?case
  proof (cases "is_drop_ready st")
    case False
    have "{x. (x = s \<or> x \<in> set sts) \<and> is_drop_ready (snd x)} = {x \<in> set sts. is_drop_ready (snd x)}"
      using False s by auto
    with False s Cons show ?thesis by (simp add: drop_one_def)
  next
    case True
    from True s Cons.prems obtain e where e: "es k = Some e" by auto
    have k: "k \<notin> fst ` set sts" using Cons.prems s by simp
    have IH: "fold_outcome drop_one sts (es(k := None), keep, dropped @ [(k, e)]) =
      Inr ((es(k := None)) |` (- fst ` {s \<in> set sts. is_drop_ready (snd s)}),
         keep @ map (apsnd clear_live_flag) (filter (\<lambda>s. \<not> is_drop_ready (snd s)) sts),
         (dropped @ [(k, e)]) @ map (\<lambda>s. (fst s, the ((es(k := None)) (fst s)))) (filter (\<lambda>s. is_drop_ready (snd s)) sts))"
    proof (rule Cons.IH)
      show "distinct (map fst sts)" using Cons.prems(1) by simp
      show "\<forall>x\<in>set sts. is_drop_ready (snd x) \<longrightarrow> (es(k := None)) (fst x) \<noteq> None"
        using Cons.prems(2) k by (auto simp: image_iff)
    qed
    have "map (\<lambda>s. (fst s, the ((es(k := None)) (fst s)))) (filter (\<lambda>s. is_drop_ready (snd s)) sts) =
        map (\<lambda>s. (fst s, the (es (fst s)))) (filter (\<lambda>s. is_drop_ready (snd s)) sts)"
      using k by (auto simp: image_iff)
    moreover have "(es(k := None)) |` (- fst ` {s \<in> set sts. is_drop_ready (snd s)}) =
        es |` (- fst ` {x \<in> set (s # sts). is_drop_ready (snd x)})"
    proof -
      have "fst ` {x \<in> set (s # sts). is_drop_ready (snd x)} = insert k (fst ` {s \<in> set sts. is_drop_ready (snd s)})"
        using True s by force
      then show ?thesis by (auto simp: restrict_map_def fun_eq_iff)
    qed
    ultimately show ?thesis using True s e IH by (simp add: drop_one_def del: fun_upd_apply)
  qed
qed

lemma map_of_keep:
  "distinct (map fst sts) \<Longrightarrow>
     map_of (map (apsnd clear_live_flag) (filter (\<lambda>s. \<not> is_drop_ready (snd s)) sts)) k =
     (case map_of sts k of None \<Rightarrow> None | Some st \<Rightarrow> if is_drop_ready st then None else Some (clear_live_flag st))"
proof (induction sts)
  case (Cons s sts)
  have "fst s = k \<Longrightarrow> map_of (map (apsnd clear_live_flag) (filter (\<lambda>s. \<not> is_drop_ready (snd s)) sts)) k = None"
    using Cons.prems by (auto simp: map_of_eq_None_iff image_iff)
  with Cons show ?case by (cases s) auto
qed simp

lemma filter_drop_view:
  assumes "ext_inv ctx"
  shows "\<exists>dropped ctx'. filter_drop ctx = Inr (dropped, ctx') \<and> ext_inv ctx' \<and> view ctx' = spec_drop (view ctx) \<and>
    distinct (map fst dropped) \<and> (\<forall>rid e. (rid, e) \<in> set dropped \<longleftrightarrow> view ctx rid = Some (Faulted False, Some e))"
proof -
  note d = ext_invD(1)[OF assms]
  define ready where "ready = fst ` {s \<in> set (ext_states ctx). is_drop_ready (snd s)}"
  have in_set: "(k, st) \<in> set (ext_states ctx) \<longleftrightarrow> st_of ctx k = Some st" for k st
    using d by (simp add: st_of_def)
  have ready: "k \<in> ready \<longleftrightarrow> st_of ctx k = Some (Faulted False)" for k
    unfolding ready_def by (simp add: image_iff Bex_def in_set is_drop_ready_def)
  have held: "\<forall>s\<in>set (ext_states ctx). is_drop_ready (snd s) \<longrightarrow> ext_entries ctx (fst s) \<noteq> None"
  proof (intro ballI impI)
    fix s assume s: "s \<in> set (ext_states ctx)" "is_drop_ready (snd s)"
    have "s = (fst s, Faulted False)" using s(2) by (cases s) (simp add: is_drop_ready_def)
    with s(1) have "st_of ctx (fst s) = Some (Faulted False)" by (metis in_set)
    from ext_invD(3)[OF assms this] show "ext_entries ctx (fst s) \<noteq> None" by simp
  qed
  let ?keep = "map (apsnd clear_live_flag) (filter (\<lambda>s. \<not> is_drop_ready (snd s)) (ext_states ctx))"
  let ?dropped = "map (\<lambda>s. (fst s, the (ext_entries ctx (fst s)))) (filter (\<lambda>s. is_drop_ready (snd s)) (ext_states ctx))"
  let ?c = "ctx\<lparr>ext_entries := ext_entries ctx |` (- ready), ext_states := ?keep\<rparr>"
  define c where "c = ?c"
  have run: "filter_drop ctx = Inr (?dropped, c)"
    using fold_drop[OF d held, of "[]" "[]"] by (simp add: filter_drop_def ready_def c_def)
  have st: "st_of c k = (case st_of ctx k of None \<Rightarrow> None
      | Some st \<Rightarrow> if st = Faulted False then None else Some (clear_live_flag st))" for k
    using map_of_keep[OF d] by (simp add: st_of_def c_def is_drop_ready_def cong: option.case_cong)
  have es: "ext_entries c k = (if st_of ctx k = Some (Faulted False) then None else ext_entries ctx k)" for k
    by (simp add: c_def restrict_map_def ready)
  have "distinct (map fst (ext_states c))" using d by (simp add: c_def comp_def distinct_map_filter)
  then have inv: "ext_inv c"
    using assms unfolding ext_inv_def st es by (auto split: option.splits)
  have vw: "view c = spec_drop (view ctx)"
    by (rule ext) (simp add: view_def spec_drop_def st es split: option.splits)
  have dd: "distinct (map fst ?dropped)" using d by (simp add: comp_def distinct_map_filter)
  have ds: "(rid, e) \<in> set ?dropped \<longleftrightarrow> view ctx rid = Some (Faulted False, Some e)" for rid e
  proof -
    have "(rid, e) \<in> set ?dropped \<longleftrightarrow> st_of ctx rid = Some (Faulted False) \<and> e = the (ext_entries ctx rid)"
      by (simp add: image_iff Bex_def in_set is_drop_ready_def)
    moreover have "st_of ctx rid = Some (Faulted False) \<Longrightarrow> ext_entries ctx rid \<noteq> None"
      using ext_invD(3)[OF assms] by simp
    ultimately show ?thesis by (auto simp: view_def)
  qed
  from run inv vw dd ds show ?thesis by blast
qed

text \<open>All events.\<close>

lemma put_view:
  assumes "ext_inv ctx" "event_ok ev ctx"
  shows "\<exists>ret ctx'. put ev ctx = Inr (ret, ctx') \<and> ext_inv ctx' \<and> (ret, view ctx') = spec_put ev (view ctx)"
proof (cases ev)
  case (Abort rid e)
  with put_enter[OF assms(1) _ _ refl, of rid "WaitingTerm False" e] assms(2) show ?thesis by (simp add: put_def)
next
  case (Fault rid e)
  with put_enter[OF assms(1) _ _ refl, of rid "Faulted True" e] assms(2) show ?thesis by (simp add: put_def)
next
  case (Term rid)
  with assms(2) obtain st where "st_of ctx rid = Some st" by auto
  with put_term_view[OF assms(1) this] Term show ?thesis by (auto simp: put_def view_def)
next
  case (Exit rid)
  with assms(2) obtain st where "st_of ctx rid = Some st" by auto
  with put_exit_view[OF assms(1) this] Exit show ?thesis by (auto simp: put_def view_def)
next
  case (Live rid)
  with put_live_view[OF assms(1), of rid] show ?thesis by auto
qed

section \<open>Effects on the two maps\<close>

lemma st_of_view: "st_of ctx rid = map_option fst (view ctx rid)"
  by (simp add: view_def option.map_comp comp_def option.map_ident)

lemma entries_view: "ext_inv ctx \<Longrightarrow> ext_entries ctx rid = Option.bind (view ctx rid) snd"
  using ext_invD(2)[of ctx rid] by (cases "st_of ctx rid") (simp_all add: view_def)

lemma view_upd_effect:
  assumes "ext_inv ctx" "ext_inv ctx'" "view ctx' = (view ctx)(rid := so)"
  shows "st_of ctx' = (st_of ctx)(rid := map_option fst so)"
    "ext_entries ctx' = (ext_entries ctx)(rid := Option.bind so snd)"
  using assms by (auto simp: fun_eq_iff st_of_view entries_view)

lemma put_exit_effect:
  assumes "put (Exit rid) ctx = Inr (r, ctx')" "ext_inv ctx"
  obtains st where "st_of ctx rid \<noteq> None" "r = ext_entries ctx rid" "ext_inv ctx'"
    "st_of ctx' = (st_of ctx)(rid \<mapsto> st)" "ext_entries ctx' = (ext_entries ctx)(rid := None)"
proof -
  have "st_of ctx rid \<noteq> None"
    using assms(1) by (auto simp: put_def put_exit_def st_of_def map_of_position split: option.splits)
  then obtain st where st: "st_of ctx rid = Some st" by blast
  from put_exit_view[OF assms(2) st] assms(1) have v: "r = ext_entries ctx rid" "ext_inv ctx'"
    "view ctx' = (view ctx)(rid \<mapsto> (snd (on_exit st), None))" by (auto simp: put_def)
  from view_upd_effect[OF assms(2) v(2,3)] v(1,2) st that[of "snd (on_exit st)"] show ?thesis by simp
qed

lemma put_term_effect:
  assumes "put (Term rid) ctx = Inr (r, ctx')" "ext_inv ctx"
  shows "st_of ctx rid \<noteq> None" "r = ext_entries ctx rid" "ext_inv ctx'"
    "st_of ctx' = (st_of ctx)(rid := None)" "ext_entries ctx' = (ext_entries ctx)(rid := None)"
proof -
  show "st_of ctx rid \<noteq> None"
    using assms(1) by (auto simp: put_def put_term_def st_of_def map_of_position split: option.splits)
  then obtain st where st: "st_of ctx rid = Some st" by blast
  from put_term_view[OF assms(2) st] assms(1) have v: "r = ext_entries ctx rid" "ext_inv ctx'"
    "view ctx' = (view ctx)(rid := None)" by (auto simp: put_def)
  then show "r = ext_entries ctx rid" "ext_inv ctx'" by simp_all
  from view_upd_effect[OF assms(2) v(2,3)] show "st_of ctx' = (st_of ctx)(rid := None)"
    "ext_entries ctx' = (ext_entries ctx)(rid := None)" by simp_all
qed

text \<open>The two events that enter a request.\<close>

definition entering :: "(entry \<Rightarrow> ext_state) \<Rightarrow> u64 \<Rightarrow> bool" where
  "entering ev rid \<longleftrightarrow> ev = Abort rid \<or> ev = Fault rid"

lemma put_enter_effect:
  assumes "entering ev rid" "ext_inv ctx" "st_of ctx rid = None"
  obtains st ctx' where "put (ev e) ctx = Inr (None, ctx')" "ext_inv ctx'"
    "st_of ctx' = (st_of ctx)(rid \<mapsto> st)" "ext_entries ctx' = (ext_entries ctx)(rid \<mapsto> e)"
proof -
  obtain st where st: "put (ev e) ctx = Inr (None, ctx\<lparr>ext_entries := (ext_entries ctx)(rid \<mapsto> e),
      ext_states := ext_states ctx @ [(rid, st)]\<rparr>)" "holds_entry st"
    using assms(1) by (auto simp: entering_def put_def)
  let ?c = "ctx\<lparr>ext_entries := (ext_entries ctx)(rid \<mapsto> e), ext_states := ext_states ctx @ [(rid, st)]\<rparr>"
  from put_enter[OF assms(2,3) st(2) refl] have v: "ext_inv ?c" "view ?c = (view ctx)(rid \<mapsto> (st, Some e))" by simp_all
  from view_upd_effect[OF assms(2) v] st(1) v(1) that[of ?c st] show ?thesis by simp
qed

lemma filter_drop_effect:
  assumes "ext_inv ctx"
  obtains dropped ctx' where "filter_drop ctx = Inr (dropped, ctx')" "ext_inv ctx'" "distinct (map fst dropped)"
    "\<forall>d\<in>set dropped. ext_entries ctx (fst d) = Some (snd d)"
    "\<forall>rid. st_of ctx' rid = None \<longleftrightarrow> st_of ctx rid = None \<or> rid \<in> fst ` set dropped"
    "ext_entries ctx' = ext_entries ctx |` (- fst ` set dropped)"
proof -
  obtain dropped ctx' where f: "filter_drop ctx = Inr (dropped, ctx')" "ext_inv ctx'" "view ctx' = spec_drop (view ctx)"
    "distinct (map fst dropped)" and
    d: "\<And>rid e. (rid, e) \<in> set dropped \<longleftrightarrow> view ctx rid = Some (Faulted False, Some e)"
    using filter_drop_view[OF assms] by blast
  have k: "rid \<in> fst ` set dropped \<longleftrightarrow> st_of ctx rid = Some (Faulted False)" for rid
  proof -
    have "rid \<in> fst ` set dropped \<longleftrightarrow> (\<exists>e. view ctx rid = Some (Faulted False, Some e))" using d by force
    also have "\<dots> \<longleftrightarrow> st_of ctx rid = Some (Faulted False)"
      using ext_invD(3)[OF assms, of rid "Faulted False"] by (auto simp: view_def)
    finally show ?thesis .
  qed
  have e: "\<forall>x\<in>set dropped. ext_entries ctx (fst x) = Some (snd x)"
    using d by (auto simp: entries_view[OF assms])
  have st: "\<forall>rid. st_of ctx' rid = None \<longleftrightarrow> st_of ctx rid = None \<or> rid \<in> fst ` set dropped"
    by (auto simp: k st_of_view f(3) spec_drop_def split: option.splits if_splits)
  have "ext_entries ctx' rid = (ext_entries ctx |` (- fst ` set dropped)) rid" for rid
    using k[of rid] by (auto simp: entries_view[OF assms] entries_view[OF f(2)] f(3) spec_drop_def st_of_view
        restrict_map_def split: option.splits)
  then have "ext_entries ctx' = ext_entries ctx |` (- fst ` set dropped)" by (rule ext)
  from that[OF f(1,2,4) e st this] show ?thesis .
qed

definition example_ctx :: "ext_st_inner \<Rightarrow> ext_context" where
  "example_ctx st = \<lparr>ext_entries = [1 \<mapsto> example_entry 1 [7]], ext_states = [(1, st)]\<rparr>"

lemma example_ctx_inv:
  "holds_entry st \<Longrightarrow> ext_inv (example_ctx st) \<and> st_of (example_ctx st) 1 = Some st \<and>
     view (example_ctx st) 1 = Some (st, Some (example_entry 1 [7]))"
  by (auto simp: example_ctx_def ext_inv_def st_of_def view_def)

lemma spec_drop_at:
  "view ctx rid = Some (Faulted True, e) \<Longrightarrow> spec_drop (view ctx) rid = Some (Faulted False, e)"
  "view ctx rid = Some (Faulted False, e) \<Longrightarrow> spec_drop (view ctx) rid = None"
  "view ctx rid = Some (Exited w, e) \<Longrightarrow> spec_drop (view ctx) rid = Some (Exited w, e)"
  by (simp_all add: spec_drop_def clear_live_flag_def)

text \<open>
  The transition from \<open>FaultedExited\<close> to \<open>DropReady\<close> at the end of the cycle, which the state diagram and the comment on
  \<^verbatim>\<open>Exited\<close> describe, is not what \<^verbatim>\<open>filter_drop\<close> does: a faulted request that exits keeps its state whatever the
  number of cycles.
\<close>

fun drop_cycles :: "nat \<Rightarrow> ext_context \<Rightarrow> ext_context outcome" where
  "drop_cycles 0 ctx = Inr ctx"
| "drop_cycles (Suc n) ctx = (case filter_drop ctx of Inl p \<Rightarrow> Inl p | Inr (d, ctx') \<Rightarrow> drop_cycles n ctx')"

lemma faulted_exited_never_dropped:
  assumes "ext_inv ctx" "view ctx rid = Some (Exited False, e)"
  shows "\<exists>ctx'. drop_cycles n ctx = Inr ctx' \<and> view ctx' rid = Some (Exited False, e)"
  using assms
proof (induction n arbitrary: ctx)
  case (Suc n)
  obtain d c where c: "filter_drop ctx = Inr (d, c)" "ext_inv c" "view c = spec_drop (view ctx)"
    using filter_drop_view[OF Suc.prems(1)] by blast
  then have "view c rid = Some (Exited False, e)" using spec_drop_at(3)[OF Suc.prems(2)] by simp
  with Suc.IH[OF c(2) this] c(1) show ?case by simp
qed simp

section \<open>Properties\<close>

text \<open>C11: the exception context implements the map machine of tracked requests: an event of a request
  that enters once, or of a tracked one, never panics, keeps one state per request and the entries of
  exactly the requests that have not exited, changes that request only, and hands out the entry held,
  if any, on exit or termination.\<close>

theorem ext_put_refines:
  assumes "ext_inv ctx" "event_ok ev ctx"
  shows "\<exists>ret ctx'. put ev ctx = Inr (ret, ctx') \<and> ext_inv ctx' \<and> (ret, view ctx') = spec_put ev (view ctx)"
  by (rule put_view[OF assms])

lemma ext_put_refines_witness:
  "\<exists>ctx'. put (Exit 1) (example_ctx (Faulted True)) = Inr (Some (example_entry 1 [7]), ctx')"
  using ext_put_refines [of "example_ctx (Faulted True)" "Exit 1"] example_ctx_inv [of "Faulted True"] by auto

text \<open>C12: the end of a cycle drops exactly the faulted requests that were not marked live in it, each with
  its entry, keeps every other request with its live mark cleared, and never panics. A faulted request that
  has exited is kept, after any number of cycles: the code departs here from its state diagram, by which the
  end of the cycle drops it.\<close>

theorem filter_drop_refines:
  assumes "ext_inv ctx"
  shows "(\<exists>dropped ctx'. filter_drop ctx = Inr (dropped, ctx') \<and> ext_inv ctx' \<and> view ctx' = spec_drop (view ctx) \<and>
      distinct (map fst dropped) \<and> (\<forall>rid e. (rid, e) \<in> set dropped \<longleftrightarrow> view ctx rid = Some (Faulted False, Some e))) \<and>
    (\<forall>rid e n. view ctx rid = Some (Exited False, e) \<longrightarrow>
       (\<exists>ctx'. drop_cycles n ctx = Inr ctx' \<and> view ctx' rid = Some (Exited False, e)))"
  using filter_drop_view[OF assms] faulted_exited_never_dropped[OF assms] by blast

lemma filter_drop_refines_witness:
  "\<exists>dropped ctx'. filter_drop (example_ctx (Faulted False)) = Inr (dropped, ctx') \<and> (1, example_entry 1 [7]) \<in> set dropped"
  using filter_drop_refines [of "example_ctx (Faulted False)"] example_ctx_inv [of "Faulted False"] by auto

text \<open>a faulted request stays for the rest of its cycle and one more: the first end of cycle
  keeps it, the second drops it with its entry, provided nothing marked it in between.\<close>

theorem fault_dropped_next_cycle:
  assumes "ext_inv ctx" "st_of ctx rid = None"
  shows "\<exists>c1 d2 c2 d3 c3. put (Fault rid e) ctx = Inr (None, c1) \<and> filter_drop c1 = Inr (d2, c2) \<and>
    view c2 rid = Some (Faulted False, Some e) \<and> rid \<notin> fst ` set d2 \<and>
    filter_drop c2 = Inr (d3, c3) \<and> (rid, e) \<in> set d3 \<and> view c3 rid = None"
proof -
  obtain c1 where c1: "put (Fault rid e) ctx = Inr (None, c1)" "ext_inv c1" "view c1 rid = Some (Faulted True, Some e)"
    using put_view[OF assms(1), of "Fault rid e"] assms(2) by auto
  obtain d2 c2 where c2: "filter_drop c1 = Inr (d2, c2)" "ext_inv c2" "view c2 = spec_drop (view c1)"
    "\<forall>rid e. (rid, e) \<in> set d2 \<longleftrightarrow> view c1 rid = Some (Faulted False, Some e)"
    using filter_drop_view[OF c1(2)] by blast
  obtain d3 c3 where c3: "filter_drop c2 = Inr (d3, c3)" "view c3 = spec_drop (view c2)"
    "\<forall>rid e. (rid, e) \<in> set d3 \<longleftrightarrow> view c2 rid = Some (Faulted False, Some e)"
    using filter_drop_view[OF c2(2)] by blast
  have v2: "view c2 rid = Some (Faulted False, Some e)" using c2(3) spec_drop_at(1)[OF c1(3)] by simp
  have v3: "view c3 rid = None" using c3(2) spec_drop_at(2)[OF v2] by simp
  have "rid \<notin> fst ` set d2" using c1(3) c2(4) by auto
  with c1 c2(1) c3(1,3) v2 v3 show ?thesis by blast
qed

lemma fault_dropped_next_cycle_witness:
  "\<exists>c1. put (Fault 2 (example_entry 2 [7])) (example_ctx (WaitingTerm False)) = Inr (None, c1)"
  using fault_dropped_next_cycle [of "example_ctx (WaitingTerm False)" 2 "example_entry 2 [7]"]
    example_ctx_inv [of "WaitingTerm False"] by (auto simp: example_ctx_def st_of_def)

end
