(* ===== verification/SlidingWindow.thy ===== *)
theory SlidingWindow
  imports Prelude Complex_Main
begin

text \<open>
  The time-windowed aggregate of \<^verbatim>\<open>radixtree/src/types/sliding_window.rs\<close>. An
  \<^verbatim>\<open>Instant\<close> is a natural number (nanoseconds since some epoch), so that
  \<^verbatim>\<open>saturating_duration_since\<close> is subtraction on naturals. The aggregate's \<^verbatim>\<open>add\<close> and
  \<^verbatim>\<open>sub\<close> are arguments, as in the generic Rust type; the contract the trait's comment states for
  them is a locale, interpreted for both implementations of the source. \<^verbatim>\<open>f64\<close> is modelled by
  the real numbers: for \<^verbatim>\<open>Sum\<close> the result is exact up to the rounding of \<^verbatim>\<open>f64\<close>.
\<close>

section \<open>Data and operations\<close>

record ('t, 'a) sliding_window =
  entries :: "(nat \<times> 't) list"
  agg :: 'a
  duration :: nat

definition sw_new :: "nat \<Rightarrow> 'a \<Rightarrow> ('t, 'a) sliding_window" where
  "sw_new d a0 = \<lparr>entries = [], agg = a0, duration = d\<rparr>"

definition sw_push :: "('a \<Rightarrow> 't \<Rightarrow> 'a) \<Rightarrow> nat \<Rightarrow> 't \<Rightarrow> ('t, 'a) sliding_window \<Rightarrow> ('t, 'a) sliding_window" where
  "sw_push add t item w = w\<lparr>agg := add (agg w) item, entries := entries w @ [(t, item)]\<rparr>"

fun expire_loop :: "('a \<Rightarrow> 't \<Rightarrow> 'a) \<Rightarrow> nat \<Rightarrow> nat \<Rightarrow> (nat \<times> 't) list \<Rightarrow> 'a \<Rightarrow> (nat \<times> 't) list \<times> 'a" where
  "expire_loop sub d now [] a = ([], a)"
| "expire_loop sub d now ((t, item) # es) a =
     (if now - t > d then expire_loop sub d now es (sub a item) else ((t, item) # es, a))"

definition sw_expire :: "('a \<Rightarrow> 't \<Rightarrow> 'a) \<Rightarrow> nat \<Rightarrow> ('t, 'a) sliding_window \<Rightarrow> ('t, 'a) sliding_window" where
  "sw_expire sub now w =
     (let (es, a) = expire_loop sub (duration w) now (entries w) (agg w)
      in w\<lparr>entries := es, agg := a\<rparr>)"

definition sw_len :: "('t, 'a) sliding_window \<Rightarrow> nat" where
  "sw_len w = length (entries w)"

definition aggregate_at :: "('a \<Rightarrow> 't \<Rightarrow> 'a) \<Rightarrow> nat \<Rightarrow> ('t, 'a) sliding_window \<Rightarrow> ('t, 'a) sliding_window \<times> 'a" where
  "aggregate_at sub now w = (let w' = sw_expire sub now w in (w', agg w'))"

definition len_at :: "('a \<Rightarrow> 't \<Rightarrow> 'a) \<Rightarrow> nat \<Rightarrow> ('t, 'a) sliding_window \<Rightarrow> ('t, 'a) sliding_window \<times> nat" where
  "len_at sub now w = (let w' = sw_expire sub now w in (w', sw_len w'))"

text \<open>The two implementations of the trait.\<close>

definition count_add :: "unit \<Rightarrow> unit \<Rightarrow> unit" where
  "count_add a x = a"

definition count_sub :: "unit \<Rightarrow> unit \<Rightarrow> unit" where
  "count_sub a x = a"

definition sum_add :: "real \<Rightarrow> real \<Rightarrow> real" where
  "sum_add a x = a + x"

definition sum_sub :: "real \<Rightarrow> real \<Rightarrow> real" where
  "sum_sub a x = a - x"

section \<open>What expire drops\<close>

definition fresh :: "nat \<Rightarrow> nat \<Rightarrow> nat \<times> 't \<Rightarrow> bool" where
  "fresh d now e \<longleftrightarrow> now - fst e \<le> d"

definition time_ordered :: "('t, 'a) sliding_window \<Rightarrow> bool" where
  "time_ordered w \<longleftrightarrow> sorted (map fst (entries w))"

lemma expire_loop_dropWhile: "fst (expire_loop sub d now es a) = dropWhile (\<lambda>e. \<not> fresh d now e) es"
  by (induction sub d now es a rule: expire_loop.induct) (auto simp: fresh_def)

lemma dropWhile_filter_sorted:
  "sorted (map fst es) \<Longrightarrow> dropWhile (\<lambda>e. \<not> fresh d now e) es = filter (fresh d now) es"
proof (induction es)
  case (Cons e es)
  show ?case
  proof (cases "fresh d now e")
    case True
    have "fresh d now e'" if "e' \<in> set es" for e'
    proof -
      have "fst e \<le> fst e'" using Cons.prems that by auto
      with True show ?thesis by (simp add: fresh_def)
    qed
    with True show ?thesis by (simp add: filter_id_conv[symmetric])
  next
    case False
    with Cons show ?thesis by simp
  qed
qed simp

lemma sw_expire_simps [simp]:
  "entries (sw_expire sub now w) = dropWhile (\<lambda>e. \<not> fresh (duration w) now e) (entries w)"
  "duration (sw_expire sub now w) = duration w"
  using expire_loop_dropWhile[of sub "duration w" now "entries w" "agg w"]
  by (simp_all add: sw_expire_def split_beta)

lemma time_ordered_push:
  "time_ordered w \<Longrightarrow> (\<forall>e\<in>set (entries w). fst e \<le> t) \<Longrightarrow> time_ordered (sw_push add t x w)"
  by (auto simp: time_ordered_def sw_push_def sorted_append)

lemma time_ordered_expire: "time_ordered w \<Longrightarrow> time_ordered (sw_expire sub now w)"
  by (simp add: time_ordered_def dropWhile_filter_sorted sorted_filter)

section \<open>The contract of an aggregate\<close>

text \<open>
  The trait's comment asks that \<^verbatim>\<open>sub\<close> of the item just added is a no-op. The window
  subtracts its oldest item, so it also relies on the order of additions not mattering.
\<close>

locale aggregate =
  fixes add :: "'a \<Rightarrow> 't \<Rightarrow> 'a" and sub :: "'a \<Rightarrow> 't \<Rightarrow> 'a"
  assumes sub_add: "sub (add a x) x = a"
    and add_swap: "add (add a x) y = add (add a y) x"
begin

lemma foldl_add_last: "foldl add (add a x) xs = add (foldl add a xs) x"
  by (induction xs arbitrary: a) (simp_all add: add_swap)

lemma sub_foldl: "sub (foldl add a (x # xs)) x = foldl add a xs"
  by (simp add: foldl_add_last sub_add)

lemma expire_loop_agg:
  "a = foldl add a0 (map snd es) \<Longrightarrow>
     snd (expire_loop sub d now es a) = foldl add a0 (map snd (fst (expire_loop sub d now es a)))"
proof (induction es arbitrary: a)
  case (Cons e es)
  obtain t x where e: "e = (t, x)" by (cases e)
  from Cons.prems have "sub a x = foldl add a0 (map snd es)" using sub_foldl[of a0 x] e by simp
  with Cons e show ?case by auto
qed simp

text \<open>The maintained value is the fold over the entries.\<close>

lemma push_agg:
  "agg w = foldl add a0 (map snd (entries w)) \<Longrightarrow>
     agg (sw_push add t x w) = foldl add a0 (map snd (entries (sw_push add t x w)))"
  by (simp add: sw_push_def)

lemma expire_agg:
  assumes "agg w = foldl add a0 (map snd (entries w))"
  shows "agg (sw_expire sub now w) = foldl add a0 (map snd (entries (sw_expire sub now w)))"
  using expire_loop_agg[OF assms, of "duration w" now] by (simp add: sw_expire_def split_beta)

end

interpretation count: aggregate count_add count_sub
  by unfold_locales simp_all

interpretation sum: aggregate sum_add sum_sub
  by unfold_locales (simp_all add: sum_add_def sum_sub_def)

section \<open>Runs of a window\<close>

text \<open>The operations of a window, with the times they are called at.\<close>

datatype 't sw_op = Push nat 't | Expire nat

fun sw_run :: "('a \<Rightarrow> 't \<Rightarrow> 'a) \<Rightarrow> ('a \<Rightarrow> 't \<Rightarrow> 'a) \<Rightarrow> 't sw_op list \<Rightarrow> ('t, 'a) sliding_window \<Rightarrow> ('t, 'a) sliding_window" where
  "sw_run add sub [] w = w"
| "sw_run add sub (Push t x # ops) w = sw_run add sub ops (sw_push add t x w)"
| "sw_run add sub (Expire now # ops) w = sw_run add sub ops (sw_expire sub now w)"

lemma foldl_sum_add: "foldl sum_add a xs = a + sum_list xs"
  by (induction xs arbitrary: a) (simp_all add: sum_add_def)

lemma sum_run_agg:
  "agg w = foldl sum_add 0 (map snd (entries w)) \<Longrightarrow>
     agg (sw_run sum_add sum_sub ops w) = foldl sum_add 0 (map snd (entries (sw_run sum_add sum_sub ops w)))"
  by (induction sum_add sum_sub ops w rule: sw_run.induct)
     (simp_all add: sum.push_agg sum.expire_agg del: sw_expire_simps)

section \<open>Properties\<close>

text \<open>the incrementally maintained \<^verbatim>\<open>Sum\<close> of a window equals, after any sequence of
  pushes and expirations, the sum over the entries the window holds.\<close>

theorem window_sum_exact:
  "agg (sw_run sum_add sum_sub ops (sw_new d 0)) =
     sum_list (map snd (entries (sw_run sum_add sum_sub ops (sw_new d 0))))"
  using sum_run_agg[of "sw_new d 0" ops] by (simp add: sw_new_def foldl_sum_add)

text \<open>when entries were pushed in time order, \<^verbatim>\<open>len_at\<close> counts exactly the entries at
  most \<^verbatim>\<open>duration\<close> old, an entry of exactly that age included.\<close>

theorem window_len_at:
  assumes "time_ordered w"
  shows "snd (len_at sub now w) = length (filter (\<lambda>e. now - fst e \<le> duration w) (entries w))"
proof -
  have "filter (fresh (duration w) now) (entries w) = filter (\<lambda>e. now - fst e \<le> duration w) (entries w)"
    by (rule filter_cong) (simp_all add: fresh_def)
  with assms show ?thesis
    by (simp add: len_at_def sw_len_def Let_def time_ordered_def dropWhile_filter_sorted)
qed

lemma window_len_at_witness:
  "snd (len_at count_sub 15 (sw_push count_add 10 () (sw_push count_add 2 () (sw_new 5 ())))) = 1"
  by (subst window_len_at) (simp_all add: time_ordered_def sw_push_def sw_new_def)

section \<open>What a run keeps\<close>

definition op_time :: "'t sw_op \<Rightarrow> nat" where
  "op_time x = (case x of Push t y \<Rightarrow> t | Expire t \<Rightarrow> t)"

definition pushed :: "'t sw_op list \<Rightarrow> (nat \<times> 't) list" where
  "pushed ops = concat (map (\<lambda>x. case x of Push t y \<Rightarrow> [(t, y)] | Expire t \<Rightarrow> []) ops)"

lemma pushed_simps [simp]:
  "pushed [] = []" "pushed (Push t y # ops) = (t, y) # pushed ops" "pushed (Expire t # ops) = pushed ops"
  by (simp_all add: pushed_def)

lemma op_time_simps [simp]: "op_time (Push t y) = t" "op_time (Expire t) = t"
  by (simp_all add: op_time_def)

lemma fresh_dropWhile:
  "t \<le> now \<Longrightarrow> filter (fresh d now) (dropWhile (\<lambda>e. \<not> fresh d t e) es) = filter (fresh d now) es"
  by (induction es) (auto simp: fresh_def)

lemma push_simps:
  "entries (sw_push add t x w) = entries w @ [(t, x)]" "duration (sw_push add t x w) = duration w"
  by (simp_all add: sw_push_def)

lemma sw_run_duration [simp]: "duration (sw_run add sub ops w) = duration w"
  by (induction add sub ops w rule: sw_run.induct) (simp_all add: push_simps)

text \<open>Expiring at an earlier time drops nothing that is fresh later.\<close>

lemma sw_run_fresh:
  "\<forall>x\<in>set ops. op_time x \<le> now \<Longrightarrow>
     filter (fresh (duration w) now) (entries (sw_run add sub ops w)) =
     filter (fresh (duration w) now) (entries w @ pushed ops)"
  by (induction add sub ops w rule: sw_run.induct) (simp_all add: fresh_dropWhile push_simps)

lemma sw_run_ordered:
  "time_ordered w \<Longrightarrow> sorted (map op_time ops) \<Longrightarrow> \<forall>e\<in>set (entries w). \<forall>x\<in>set ops. fst e \<le> op_time x \<Longrightarrow>
     time_ordered (sw_run add sub ops w)"
proof (induction add sub ops w rule: sw_run.induct)
  case (2 add sub t x ops w)
  then show ?case by (force simp: push_simps intro!: "2.IH" time_ordered_push)
next
  case (3 add sub now ops w)
  then show ?case by (force intro!: "3.IH" time_ordered_expire dest: set_dropWhileD)
qed simp

lemma expire_ordered:
  assumes "time_ordered w"
  shows "entries (sw_expire sub now w) = filter (fresh (duration w) now) (entries w)"
  using assms by (simp add: time_ordered_def dropWhile_filter_sorted)

text \<open>Reading a window after a run at non-decreasing times: what was pushed recently.\<close>

lemma sw_run_read:
  assumes "sorted (map op_time ops)" "\<forall>x\<in>set ops. op_time x \<le> now"
  shows "entries (sw_expire sub now (sw_run add sub ops (sw_new d a0))) = filter (fresh d now) (pushed ops)"
proof -
  have "time_ordered (sw_run add sub ops (sw_new d a0))"
    by (rule sw_run_ordered) (simp_all add: assms(1) time_ordered_def sw_new_def)
  from expire_ordered[OF this, of sub now] show ?thesis
    using sw_run_fresh[of ops now "sw_new d a0" add sub, OF assms(2)] by (simp add: sw_new_def)
qed

end
