(* ===== verification/LMetric.thy ===== *)
theory LMetric
  imports SlidingWindow
begin

text \<open>
  The per-replica load metrics of \<^verbatim>\<open>router/src/scheduler/state.rs\<close>. Counters keep their
  width (\<^verbatim>\<open>usize\<close>, \<^verbatim>\<open>isize\<close>); the release branch of \<^verbatim>\<open>SubAssign\<close> is modelled
  (saturating decrements, wrapping \<^verbatim>\<open>all_tokens\<close>). The floating-point averages are real
  numbers; \<^verbatim>\<open>tpot\<close> is \<open>None\<close> where the source's \<^verbatim>\<open>f32\<close> is not a number or infinite (no
  request in the batch). The clock read by \<^verbatim>\<open>sub_assign\<close> is an argument.
\<close>

definition tbt_ema_gamma :: real where
  "tbt_ema_gamma = 1 / 2"

record lmetric =
  bs :: usize
  waiting_reqs :: usize
  lm_prefill_tokens :: isize
  all_tokens :: usize
  tps :: nat
  tps_window :: "(unit, unit) sliding_window"
  tpot :: "real option"
  tbt :: real

definition lmetric_default :: lmetric where
  "lmetric_default = \<lparr>bs = 0, waiting_reqs = 0, lm_prefill_tokens = 0, all_tokens = 0, tps = 0,
     tps_window = sw_new (10 ^ 9) (), tpot = None, tbt = 0\<rparr>"

record lmetric_dec =
  bs_dec :: usize
  waiting_reqs_dec :: usize
  prefill_tokens_dec :: isize
  dec_all_tokens_inc :: isize
  dec_tbt :: real
  dec_tpot :: real

definition lmetric_dec_new :: "real \<Rightarrow> lmetric_dec" where
  "lmetric_dec_new t = \<lparr>bs_dec = 0, waiting_reqs_dec = 0, prefill_tokens_dec = 0,
     dec_all_tokens_inc = 0, dec_tbt = t, dec_tpot = 0\<rparr>"

definition lmetric_sub :: "nat \<Rightarrow> lmetric \<Rightarrow> lmetric_dec \<Rightarrow> lmetric" where
  "lmetric_sub now lm d =
     (let bs' = sat_sub (bs lm) (bs_dec d);
          w = sw_push count_add now () (tps_window lm);
          (w', n) = len_at count_sub now w
      in lm\<lparr>bs := bs',
            waiting_reqs := sat_sub (waiting_reqs lm) (waiting_reqs_dec d),
            lm_prefill_tokens := isize_sat_sub (lm_prefill_tokens lm) (prefill_tokens_dec d),
            all_tokens := all_tokens lm + dec_all_tokens_inc d,
            tbt := tbt lm * (1 - tbt_ema_gamma) + dec_tbt d * tbt_ema_gamma,
            tpot := (if bs' = 0 then None else Some (dec_tpot d / real (unat bs'))),
            tps_window := w', tps := n\<rparr>)"

record lmetric_inc =
  bs_inc :: usize
  waiting_reqs_inc :: usize
  prefill_tokens_inc :: usize
  inc_all_tokens_inc :: usize

definition lmetric_add :: "lmetric \<Rightarrow> lmetric_inc \<Rightarrow> lmetric" where
  "lmetric_add lm i =
     lm\<lparr>bs := bs lm + bs_inc i,
        waiting_reqs := waiting_reqs lm + waiting_reqs_inc i,
        lm_prefill_tokens := lm_prefill_tokens lm + prefill_tokens_inc i,
        all_tokens := all_tokens lm + inc_all_tokens_inc i\<rparr>"

section \<open>Accounting\<close>

lemma lmetric_sub_simps [simp]:
  "bs (lmetric_sub now lm d) = sat_sub (bs lm) (bs_dec d)"
  "waiting_reqs (lmetric_sub now lm d) = sat_sub (waiting_reqs lm) (waiting_reqs_dec d)"
  "lm_prefill_tokens (lmetric_sub now lm d) = isize_sat_sub (lm_prefill_tokens lm) (prefill_tokens_dec d)"
  "all_tokens (lmetric_sub now lm d) = all_tokens lm + dec_all_tokens_inc d"
  "tbt (lmetric_sub now lm d) = tbt lm * (1 - tbt_ema_gamma) + dec_tbt d * tbt_ema_gamma"
  "tps_window (lmetric_sub now lm d) =
     sw_expire count_sub now (sw_push count_add now () (tps_window lm))"
  "tps (lmetric_sub now lm d) =
     sw_len (sw_expire count_sub now (sw_push count_add now () (tps_window lm)))"
  by (simp_all add: lmetric_sub_def Let_def len_at_def)

lemma lmetric_add_simps [simp]:
  "bs (lmetric_add lm i) = bs lm + bs_inc i"
  "waiting_reqs (lmetric_add lm i) = waiting_reqs lm + waiting_reqs_inc i"
  "lm_prefill_tokens (lmetric_add lm i) = lm_prefill_tokens lm + prefill_tokens_inc i"
  "all_tokens (lmetric_add lm i) = all_tokens lm + inc_all_tokens_inc i"
  by (simp_all add: lmetric_add_def)

lemma sat_sub_add: "sat_sub ((a :: 'l::len word) + b) b = a" if "a \<le> a + b"
proof -
  have "unat (a + b) = unat a + unat b" 
    using that unsigned_less[of b, where ?'a = nat]
    by (auto simp: word_le_nat_alt unat_plus_if' simp del: unsigned_less split: if_splits)
  then have "unat (sat_sub (a + b) b) = unat a" by (simp add: unat_sat_sub)
  then show ?thesis by (simp only: word_unat_eq_iff)
qed

text \<open>The clock of the window: no recorded step is later than \<open>now\<close>.\<close>

definition clock_ok :: "nat \<Rightarrow> lmetric \<Rightarrow> bool" where
  "clock_ok now lm \<longleftrightarrow> time_ordered (tps_window lm) \<and> (\<forall>e\<in>set (entries (tps_window lm)). fst e \<le> now)"

lemma clock_ok_sub:
  assumes "clock_ok now lm" shows "clock_ok now (lmetric_sub now lm d)"
proof -
  have "time_ordered (sw_push count_add now () (tps_window lm))"
    using assms by (intro time_ordered_push) (auto simp: clock_ok_def)
  moreover have "\<forall>e\<in>set (entries (sw_push count_add now () (tps_window lm))). fst e \<le> now"
    using assms by (auto simp: clock_ok_def sw_push_def)
  ultimately show ?thesis
    by (auto simp: clock_ok_def time_ordered_expire dest: set_dropWhileD)
qed

section \<open>Properties\<close>

text \<open>what an admission adds to a replica's counters, the completion of the same request takes
  away: as long as the counters do not overflow, adding one request and subtracting one with the
  same amounts restores batch size, waiting requests, queued prefill tokens and total tokens.\<close>

theorem lmetric_add_sub:
  assumes "bs lm \<le> bs lm + bs_inc i" "waiting_reqs lm \<le> waiting_reqs lm + waiting_reqs_inc i"
    and "sint (lm_prefill_tokens lm) + sint (prefill_tokens_inc i) \<in> {- (2 ^ 63)..<2 ^ 63}"
    and "bs_dec d = bs_inc i" "waiting_reqs_dec d = waiting_reqs_inc i"
    and "prefill_tokens_dec d = prefill_tokens_inc i" "dec_all_tokens_inc d = - inc_all_tokens_inc i"
  shows "bs (lmetric_sub now (lmetric_add lm i) d) = bs lm \<and>
    waiting_reqs (lmetric_sub now (lmetric_add lm i) d) = waiting_reqs lm \<and>
    lm_prefill_tokens (lmetric_sub now (lmetric_add lm i) d) = lm_prefill_tokens lm \<and>
    all_tokens (lmetric_sub now (lmetric_add lm i) d) = all_tokens lm"
proof -
  let ?p = "lm_prefill_tokens lm" and ?q = "prefill_tokens_inc i"
  have "sint (?p + ?q) = sint ?p + sint ?q"
    using assms(3) by (simp add: sint_word_ariths signed_take_bit_int_eq_self)
  then have "sint (isize_sat_sub (?p + ?q) ?q) = sint ?p"
    using sint_ge[of ?p] sint_lt[of ?p] by (simp add: sint_isize_sat_sub)
  then have "isize_sat_sub (?p + ?q) ?q = ?p" by (rule signed_word_eqI)
  with assms show ?thesis by (simp add: sat_sub_add)
qed

lemma lmetric_add_sub_witness:
  "bs (lmetric_sub 5 (lmetric_add lmetric_default
       \<lparr>bs_inc = 1, waiting_reqs_inc = 1, prefill_tokens_inc = 30, inc_all_tokens_inc = 40\<rparr>)
     \<lparr>bs_dec = 1, waiting_reqs_dec = 1, prefill_tokens_dec = 30, dec_all_tokens_inc = - 40,
      dec_tbt = 0, dec_tpot = 0\<rparr>) = 0"
  by (subst lmetric_add_sub [THEN conjunct1]) (simp_all add: lmetric_default_def)

text \<open>\<^verbatim>\<open>tps\<close> is the number of engine steps of the last second: after a step at time
  \<open>now\<close> it counts this step and the earlier ones at most a second old.\<close>

theorem lmetric_tps:
  assumes "clock_ok now lm" "duration (tps_window lm) = 10 ^ 9"
  shows "tps (lmetric_sub now lm d) =
    length (filter (\<lambda>e. now - fst e \<le> 10 ^ 9) (entries (tps_window lm))) + 1"
proof -
  let ?w = "sw_push count_add now () (tps_window lm)"
  have "time_ordered ?w" using assms(1) by (intro time_ordered_push) (auto simp: clock_ok_def)
  then have "filter (fresh (duration ?w) now) (entries ?w) =
      dropWhile (\<lambda>e. \<not> fresh (duration ?w) now e) (entries ?w)"
    by (simp add: dropWhile_filter_sorted time_ordered_def)
  moreover have "filter (fresh (duration ?w) now) (entries ?w) =
      filter (\<lambda>e. now - fst e \<le> 10 ^ 9) (entries (tps_window lm)) @ [(now, ())]"
    using assms(2) by (simp add: sw_push_def fresh_def [abs_def])
  ultimately have "dropWhile (\<lambda>e. \<not> fresh (duration ?w) now e) (entries ?w) =
      filter (\<lambda>e. now - fst e \<le> 10 ^ 9) (entries (tps_window lm)) @ [(now, ())]"
    by (simp only:)
  then show ?thesis by (simp only: lmetric_sub_simps sw_len_def sw_expire_simps length_append) simp
qed

lemma lmetric_tps_witness: "tps (lmetric_sub 7 lmetric_default (lmetric_dec_new 0)) = 1"
  by (subst lmetric_tps) (simp_all add: clock_ok_def time_ordered_def lmetric_default_def sw_new_def)

end
