(* ===== verification/DslRuntime.thy ===== *)
theory DslRuntime
  imports Entry LMetric HashTable "HOL-Library.Product_Lexorder"
begin

text \<open>
  The runtime of the scheduling policies, \<^verbatim>\<open>policies/dsl_runtime.rs\<close>: the snapshot taken
  of every replica, the named functions of the policy language, the combinators and reducers, and
  the canonical mutation after a decision. The prefix matcher is used through its trait only; its
  \<^verbatim>\<open>get\<close> and \<^verbatim>\<open>epoch\<close> are the arguments \<open>get\<close> and \<open>epoch_of\<close>. Integer scores keep
  their width; floating-point scores are real numbers, so comparisons are total (the source treats
  a comparison with NaN as equality). The snapshot is an extensible record: the
  Preble policies add their fields to it (theory \<open>Preble\<close>), as their feature flags do, so the combinators
  are stated for all its extensions.
\<close>

section \<open>Scheduling contexts and observations\<close>

record 'b schedule_context =
  sc_lmetric :: lmetric
  sc_block_hash :: 'b

record observation =
  idx :: nat
  ob_bs :: usize
  ob_waiting :: usize
  ob_queued_tokens :: isize
  ob_all_tokens :: usize
  ob_block_size :: usize
  ob_hit_blocks :: usize
  ob_epoch :: u64

definition capture_one ::
    "('b \<Rightarrow> u64 list \<Rightarrow> nat) \<Rightarrow> ('b \<Rightarrow> u64) \<Rightarrow> entry \<Rightarrow> nat \<Rightarrow> 'b schedule_context \<Rightarrow> observation" where
  "capture_one get epoch_of e i sctx =
     \<lparr>idx = i, ob_bs = bs (sc_lmetric sctx), ob_waiting = waiting_reqs (sc_lmetric sctx),
      ob_queued_tokens = lm_prefill_tokens (sc_lmetric sctx), ob_all_tokens = all_tokens (sc_lmetric sctx),
      ob_block_size = of_nat (block_size (bhs e)),
      ob_hit_blocks = of_nat (get (sc_block_hash sctx) (block_hashes (bhs e))),
      ob_epoch = epoch_of (sc_block_hash sctx)\<rparr>"

definition capture_observations ::
    "('b \<Rightarrow> u64 list \<Rightarrow> nat) \<Rightarrow> ('b \<Rightarrow> u64) \<Rightarrow> entry \<Rightarrow> 'b schedule_context list \<Rightarrow> observation list" where
  "capture_observations get epoch_of e all_sctx =
     map (\<lambda>i. capture_one get epoch_of e i (all_sctx ! i)) [0..<length all_sctx]"

section \<open>Named functions\<close>

definition req_len :: "valid_request \<Rightarrow> usize" where
  "req_len r = of_nat (length (input_tokens r))"

definition new_tokens :: "valid_request \<Rightarrow> observation \<Rightarrow> usize" where
  "new_tokens r o1 = sat_sub (req_len r) (ob_hit_blocks o1 * ob_block_size o1)"

definition div_ceil :: "usize \<Rightarrow> usize \<Rightarrow> usize" where
  "div_ceil a b = (if a mod b > 0 then a div b + 1 else a div b)"

definition new_blocks :: "valid_request \<Rightarrow> observation \<Rightarrow> usize" where
  "new_blocks r o1 =
     (if ob_block_size o1 = 0 then 0
      else sat_sub (div_ceil (req_len r) (ob_block_size o1)) (ob_hit_blocks o1))"

definition queued_tokens :: "observation \<Rightarrow> usize" where
  "queued_tokens o1 = (if sint (ob_queued_tokens o1) < 0 then 0 else ob_queued_tokens o1)"

definition prefill_tokens_of :: "valid_request \<Rightarrow> observation \<Rightarrow> usize" where
  "prefill_tokens_of r o1 = queued_tokens o1 + new_tokens r o1"

definition hit_blocks :: "valid_request \<Rightarrow> observation \<Rightarrow> usize" where
  "hit_blocks r o1 = ob_hit_blocks o1"

definition hit_pct :: "valid_request \<Rightarrow> observation \<Rightarrow> real" where
  "hit_pct r o1 =
     (if input_tokens r = [] then 0
      else real (unat (ob_hit_blocks o1 * ob_block_size o1)) / real (length (input_tokens r)))"

definition decode_blocks :: "observation \<Rightarrow> usize" where
  "decode_blocks o1 = (if ob_block_size o1 = 0 then 0 else ob_all_tokens o1 div ob_block_size o1)"

section \<open>Combinators\<close>

definition filter_then ::
    "'z observation_scheme list \<Rightarrow> ('z observation_scheme \<Rightarrow> bool) \<Rightarrow> ('z observation_scheme list \<Rightarrow> nat option) \<Rightarrow>
       ('z observation_scheme list \<Rightarrow> nat option) \<Rightarrow> nat option" where
  "filter_then target pred on_pass on_fail =
     (let (passing, rejected) = partition pred target
      in if passing \<noteq> [] then on_pass passing else on_fail rejected)"

text \<open>
  \<^verbatim>\<open>Iterator::min_by\<close> keeps the earlier of two equal elements, \<^verbatim>\<open>max_by\<close> the later one.
\<close>

definition keep_min :: "('o \<Rightarrow> 's::linorder) \<Rightarrow> 'o \<Rightarrow> 'o \<Rightarrow> 'o" where
  "keep_min score acc x = (if score acc > score x then x else acc)"

definition keep_max :: "('o \<Rightarrow> 's::linorder) \<Rightarrow> 'o \<Rightarrow> 'o \<Rightarrow> 'o" where
  "keep_max score acc x = (if score acc > score x then acc else x)"

definition reduce :: "('o \<Rightarrow> 'o \<Rightarrow> 'o) \<Rightarrow> 'o list \<Rightarrow> 'o option" where
  "reduce f xs = (case xs of [] \<Rightarrow> None | x # ys \<Rightarrow> Some (foldl f x ys))"

definition select_min_by :: "'z observation_scheme list \<Rightarrow> ('z observation_scheme \<Rightarrow> 's::linorder) \<Rightarrow> nat option" where
  "select_min_by target score = map_option idx (reduce (keep_min score) target)"

definition select_max_by :: "'z observation_scheme list \<Rightarrow> ('z observation_scheme \<Rightarrow> 's::linorder) \<Rightarrow> nat option" where
  "select_max_by target score = map_option idx (reduce (keep_max score) target)"

text \<open>The sampler: \<open>u\<close> is the random number of \<^verbatim>\<open>rng.gen::<f32>()\<close>, in \<open>[0, 1)\<close>.\<close>

fun pick_loop :: "(nat \<times> real) list \<Rightarrow> nat \<Rightarrow> real \<Rightarrow> nat" where
  "pick_loop [] final r = final"
| "pick_loop ((i, w) # ws) final r = (if r \<le> max w 0 then i else pick_loop ws final (r - max w 0))"

definition weighted_pick :: "real \<Rightarrow> (nat \<times> real) list \<Rightarrow> nat" where
  "weighted_pick u ws =
     (let total = sum_list (map (\<lambda>(i, w). max w 0) ws)
      in if total \<le> 0 then fst (hd ws) else pick_loop ws (fst (last ws)) (u * total))"

definition select_rand_by :: "real \<Rightarrow> 'z observation_scheme list \<Rightarrow> ('z observation_scheme \<Rightarrow> real) \<Rightarrow> nat option" where
  "select_rand_by u target score =
     (if target = [] then None else Some (weighted_pick u (map (\<lambda>o1. (idx o1, score o1)) target)))"

section \<open>Reducers\<close>

definition mean_of_usize :: "observation list \<Rightarrow> (observation \<Rightarrow> usize) \<Rightarrow> real" where
  "mean_of_usize obs proj =
     (if obs = [] then 0 else sum_list (map (\<lambda>o1. real (unat (proj o1))) obs) / real (length obs))"

definition std_of_usize :: "observation list \<Rightarrow> (observation \<Rightarrow> usize) \<Rightarrow> real" where
  "std_of_usize obs proj =
     (if length obs \<le> 1 then 0
      else let m = mean_of_usize obs proj;
               var = sum_list (map (\<lambda>o1. (real (unat (proj o1)) - m) * (real (unat (proj o1)) - m)) obs)
                       / real (length obs - 1)
           in sqrt var)"

definition min_of_usize :: "observation list \<Rightarrow> (observation \<Rightarrow> usize) \<Rightarrow> usize" where
  "min_of_usize obs proj = (case map proj obs of [] \<Rightarrow> 0 | x # xs \<Rightarrow> foldl min x xs)"

definition max_of_usize :: "observation list \<Rightarrow> (observation \<Rightarrow> usize) \<Rightarrow> usize" where
  "max_of_usize obs proj = (case map proj obs of [] \<Rightarrow> 0 | x # xs \<Rightarrow> foldl max x xs)"

definition sum_of_usize :: "observation list \<Rightarrow> (observation \<Rightarrow> usize) \<Rightarrow> usize" where
  "sum_of_usize obs proj = sum_list (map proj obs)"

definition mean_of_f32 :: "observation list \<Rightarrow> (observation \<Rightarrow> real) \<Rightarrow> real" where
  "mean_of_f32 obs proj = (if obs = [] then 0 else sum_list (map proj obs) / real (length obs))"

definition std_of_f32 :: "observation list \<Rightarrow> (observation \<Rightarrow> real) \<Rightarrow> real" where
  "std_of_f32 obs proj =
     (if length obs \<le> 1 then 0
      else let m = mean_of_f32 obs proj;
               var = sum_list (map (\<lambda>o1. (proj o1 - m) * (proj o1 - m)) obs) / real (length obs - 1)
           in sqrt var)"

text \<open>
  The \<^verbatim>\<open>f32\<close> reducers fold from an infinity, which is the first element on non-empty lists; the
  policies never call them without observations.
\<close>

definition min_of_f32 :: "observation list \<Rightarrow> (observation \<Rightarrow> real) \<Rightarrow> real" where
  "min_of_f32 obs proj = (case map proj obs of [] \<Rightarrow> 0 | x # xs \<Rightarrow> foldl min x xs)"

definition max_of_f32 :: "observation list \<Rightarrow> (observation \<Rightarrow> real) \<Rightarrow> real" where
  "max_of_f32 obs proj = (case map proj obs of [] \<Rightarrow> 0 | x # xs \<Rightarrow> foldl max x xs)"

section \<open>The default mutation after a decision\<close>

definition apply_default_after ::
    "('b \<Rightarrow> u64 list \<Rightarrow> nat) \<Rightarrow> ('b \<Rightarrow> u64) \<Rightarrow> entry \<Rightarrow> 'b schedule_context \<Rightarrow> 'z observation_scheme \<Rightarrow>
       (entry \<times> 'b schedule_context) outcome" where
  "apply_default_after get epoch_of e sctx cached =
     (let current_epoch = epoch_of (sc_block_hash sctx);
          hit_nblks = (if ob_epoch cached = current_epoch then ob_hit_blocks cached
                       else of_nat (get (sc_block_hash sctx) (block_hashes (bhs e))))
      in case set_pred_block_hits hit_nblks (bhs e) of
           Inl p \<Rightarrow> Inl p
         | Inr b \<Rightarrow>
             (let new_ntkns = sat_sub (req_len (request e)) (hit_nblks * of_nat (block_size b))
              in Inr (e\<lparr>bhs := set_decision_epoch current_epoch b\<rparr>,
                      sctx\<lparr>sc_lmetric := lmetric_add (sc_lmetric sctx)
                        \<lparr>bs_inc = 1, waiting_reqs_inc = 1, prefill_tokens_inc = new_ntkns,
                         inc_all_tokens_inc = req_len (request e)\<rparr>\<rparr>)))"

section \<open>What the combinators select\<close>

lemma reduce_Some: "xs \<noteq> [] \<Longrightarrow> \<exists>x. reduce f xs = Some x"
  by (cases xs) (auto simp: reduce_def)

lemma keep_foldl_in:
  assumes "\<And>a b. f a b = a \<or> f a b = b"
  shows "foldl f x ys \<in> insert x (set ys)"
proof (induction ys arbitrary: x)
  case (Cons y ys)
  have "foldl f x (y # ys) \<in> insert (f x y) (set ys)" using Cons[of "f x y"] by simp
  moreover have "f x y \<in> {x, y}" using assms[of x y] by blast
  ultimately show ?case by auto
qed simp

lemma foldl_keep_min:
  "(\<forall>o1\<in>insert x (set ys). score (foldl (keep_min score) x ys) \<le> score o1)"
proof (induction ys arbitrary: x)
  case (Cons y ys)
  have "score (keep_min score x y) \<le> score x" "score (keep_min score x y) \<le> score y"
    by (auto simp: keep_min_def)
  with Cons[of "keep_min score x y"] show ?case by fastforce
qed simp

lemma foldl_keep_max:
  "(\<forall>o1\<in>insert x (set ys). score o1 \<le> score (foldl (keep_max score) x ys))"
proof (induction ys arbitrary: x)
  case (Cons y ys)
  have "score x \<le> score (keep_max score x y)" "score y \<le> score (keep_max score x y)"
    by (auto simp: keep_max_def)
  with Cons[of "keep_max score x y"] show ?case by fastforce
qed simp

lemma keep_cases: "keep_min score a b = a \<or> keep_min score a b = b" "keep_max score a b = a \<or> keep_max score a b = b"
  by (auto simp: keep_min_def keep_max_def)

lemma reduce_min:
  assumes "reduce (keep_min score) xs = Some x"
  shows "x \<in> set xs" "\<forall>y\<in>set xs. score x \<le> score y"
  using assms keep_foldl_in[of "keep_min score"] foldl_keep_min[of _ _ score] keep_cases(1)[of score]
  by (auto simp: reduce_def split: list.splits)

lemma reduce_max:
  assumes "reduce (keep_max score) xs = Some x"
  shows "x \<in> set xs" "\<forall>y\<in>set xs. score y \<le> score x"
  using assms keep_foldl_in[of "keep_max score"] foldl_keep_max[of _ _ score] keep_cases(2)[of score]
  by (auto simp: reduce_def split: list.splits)

lemma select_min_by_Some:
  assumes "select_min_by target score = Some i"
  obtains o1 where "o1 \<in> set target" "idx o1 = i" "\<forall>o2\<in>set target. score o1 \<le> score o2"
  using assms reduce_min[of score target] by (auto simp: select_min_by_def)

lemma select_max_by_Some:
  assumes "select_max_by target score = Some i"
  obtains o1 where "o1 \<in> set target" "idx o1 = i" "\<forall>o2\<in>set target. score o2 \<le> score o1"
  using assms reduce_max[of score target] by (auto simp: select_max_by_def)

text \<open>A combinator is total when it selects the index of some element of every non-empty target.\<close>

definition selects :: "('z observation_scheme list \<Rightarrow> nat option) \<Rightarrow> bool" where
  "selects f \<longleftrightarrow> (\<forall>target. target \<noteq> [] \<longrightarrow> (\<exists>o1\<in>set target. f target = Some (idx o1)))"

lemma selects_min [inv_intros]: "selects (\<lambda>t. select_min_by t score)"
proof -
  have "\<exists>o1\<in>set t. select_min_by t score = Some (idx o1)" if ne: "t \<noteq> []" for t
  proof -
    obtain x where "reduce (keep_min score) t = Some x" using reduce_Some[OF ne] by blast
    then show ?thesis using reduce_min(1)[of score t x] by (auto simp: select_min_by_def)
  qed
  then show ?thesis by (simp add: selects_def)
qed

lemma selects_max [inv_intros]: "selects (\<lambda>t. select_max_by t score)"
proof -
  have "\<exists>o1\<in>set t. select_max_by t score = Some (idx o1)" if ne: "t \<noteq> []" for t
  proof -
    obtain x where "reduce (keep_max score) t = Some x" using reduce_Some[OF ne] by blast
    then show ?thesis using reduce_max(1)[of score t x] by (auto simp: select_max_by_def)
  qed
  then show ?thesis by (simp add: selects_def)
qed

lemma selects_filter_then [inv_intros]:
  fixes f g :: "'z observation_scheme list \<Rightarrow> nat option"
  assumes "selects f" "selects g"
  shows "selects (\<lambda>t. filter_then t pred f g)"
  unfolding selects_def
proof (intro allI impI)
  fix t :: "'z observation_scheme list"
  assume "t \<noteq> []"
  show "\<exists>o1\<in>set t. filter_then t pred f g = Some (idx o1)"
  proof (cases "filter pred t = []")
    case False
    with assms(1) obtain o1 where "o1 \<in> set (filter pred t)" "f (filter pred t) = Some (idx o1)"
      unfolding selects_def by blast
    with False show ?thesis by (auto simp: filter_then_def)
  next
    case True
    then have "filter (Not \<circ> pred) t = t" by (auto simp: filter_empty_conv filter_id_conv)
    with True \<open>t \<noteq> []\<close> assms(2) show ?thesis
      by (auto simp: filter_then_def selects_def)
  qed
qed

lemma pick_loop_in: "pick_loop ws d r \<in> insert d (fst ` set ws)"
  by (induction ws d r rule: pick_loop.induct) auto

lemma weighted_pick_in: "ws \<noteq> [] \<Longrightarrow> weighted_pick u ws \<in> fst ` set ws"
  using pick_loop_in[of ws "fst (last ws)"] by (auto simp: weighted_pick_def Let_def)

lemma selects_rand [inv_intros]: "selects (\<lambda>t. select_rand_by u t score)"
proof -
  have "\<exists>o1\<in>set t. select_rand_by u t score = Some (idx o1)" if ne: "t \<noteq> []" for t
  proof -
    have "weighted_pick u (map (\<lambda>o1. (idx o1, score o1)) t) \<in> idx ` set t"
      using weighted_pick_in[of "map (\<lambda>o1. (idx o1, score o1)) t" u] ne by (auto simp: image_image)
    with ne show ?thesis by (auto simp: select_rand_by_def)
  qed
  then show ?thesis by (simp add: selects_def)
qed

lemma capture_nth:
  "i < length ss \<Longrightarrow> capture_observations get epoch_of e ss ! i = capture_one get epoch_of e i (ss ! i)"
  by (simp add: capture_observations_def)

lemma length_capture [simp]: "length (capture_observations get epoch_of e ss) = length ss"
  by (simp add: capture_observations_def)

lemma capture_idx: "o1 \<in> set (capture_observations get epoch_of e ss) \<Longrightarrow>
    idx o1 < length ss \<and> o1 = capture_observations get epoch_of e ss ! idx o1"
  by (auto simp: capture_observations_def capture_one_def)

lemma selects_capture:
  assumes "selects f" "ss \<noteq> []"
  shows "\<exists>i<length ss. f (capture_observations get epoch_of e ss) = Some i"
proof -
  have "capture_observations get epoch_of e ss \<noteq> []" using assms(2) by (simp add: capture_observations_def)
  with assms(1) show ?thesis unfolding selects_def using capture_idx by metis
qed

section \<open>The epoch-skip optimisation\<close>

text \<open>
  The decision made from the cached observation is the one a fresh lookup under the lock would
  make. The observation and the application see the same replica with \<open>n\<close> mutations in between.
\<close>

definition fresh_hits :: "('b \<Rightarrow> u64 list \<Rightarrow> nat) \<Rightarrow> entry \<Rightarrow> 'b schedule_context \<Rightarrow> usize" where
  "fresh_hits get e sctx = of_nat (get (sc_block_hash sctx) (block_hashes (bhs e)))"

lemma apply_fresh:
  assumes "ob_epoch cached = epoch_of (sc_block_hash sctx) \<Longrightarrow> ob_hit_blocks cached = fresh_hits get e sctx"
  shows "apply_default_after get epoch_of e sctx cached =
    apply_default_after get epoch_of e sctx (cached\<lparr>ob_hit_blocks := fresh_hits get e sctx\<rparr>)"
proof (cases "ob_epoch cached = epoch_of (sc_block_hash sctx)")
  case True
  from assms[OF this] have "cached\<lparr>ob_hit_blocks := fresh_hits get e sctx\<rparr> = cached" by simp
  then show ?thesis by (simp only:)
next
  case False
  then show ?thesis by (simp add: apply_default_after_def Let_def cong: sum.case_cong)
qed

text \<open>The canonical mutation of an entry that has no prediction yet succeeds, keeps the request and
  the matcher, and counts one more request.\<close>

lemma apply_default_after_ok:
  assumes "pred_hit_nblks (bhs e) = none_sentinel"
  obtains e' s' where "apply_default_after get epoch_of e s o1 = Inr (e', s')"
    "request e' = request e" "response_tx e' = response_tx e" "sc_block_hash s' = sc_block_hash s"
    "bs (sc_lmetric s') = bs (sc_lmetric s) + 1"
    "waiting_reqs (sc_lmetric s') = waiting_reqs (sc_lmetric s) + 1"
    "all_tokens (sc_lmetric s') = all_tokens (sc_lmetric s) + req_len (request e)"
  using assms by (simp add: apply_default_after_def Let_def set_pred_block_hits_def lmetric_add_def
      set_decision_epoch_def)

section \<open>Properties\<close>

lemma ceil_div:
  assumes "0 < (b :: nat)"
  shows "(n + b - 1) div b = (if n mod b = 0 then n div b else Suc (n div b))"
proof -
  define q r where "q = n div b" and "r = n mod b"
  have n: "n = r + q * b" and r: "r < b" using assms by (simp_all add: q_def r_def)
  show ?thesis
  proof (cases "r = 0")
    case True
    with n assms have eq: "n + b - 1 = (b - 1) + q * b" by simp
    have "((b - 1) + q * b) div b = q + (b - 1) div b" by (rule div_mult_self1) (use assms in simp)
    with True assms show ?thesis unfolding eq by (simp add: q_def r_def)
  next
    case False
    with n assms have eq: "n + b - 1 = (r - 1) + Suc q * b" by simp
    have "((r - 1) + Suc q * b) div b = Suc q + (r - 1) div b" by (rule div_mult_self1) (use assms in simp)
    with False r show ?thesis unfolding eq by (simp add: q_def r_def less_imp_diff_less)
  qed
qed

text \<open>the score functions name what they say: when the cached part of the request does not
  overflow, the uncached tokens of a request are its length minus the cached tokens (zero when
  everything is cached), and the uncached blocks round the length up to whole blocks.\<close>

theorem new_tokens_blocks:
  assumes "length (input_tokens r) < 2 ^ 64"
    and "unat (ob_hit_blocks o1) * unat (ob_block_size o1) < 2 ^ 64" "ob_block_size o1 \<noteq> 0"
  shows "unat (new_tokens r o1) = length (input_tokens r) - unat (ob_hit_blocks o1) * unat (ob_block_size o1) \<and>
    unat (new_blocks r o1) =
      (length (input_tokens r) + unat (ob_block_size o1) - 1) div unat (ob_block_size o1) - unat (ob_hit_blocks o1)"
proof -
  let ?n = "length (input_tokens r)" and ?b = "unat (ob_block_size o1)"
  have n: "unat (req_len r) = ?n" using assms(1) by (simp add: req_len_def unsigned_of_nat take_bit_nat_eq_self)
  have b: "0 < ?b" using assms(3) by (simp add: unat_gt_0)
  have "unat (new_tokens r o1) = ?n - unat (ob_hit_blocks o1) * ?b"
    using assms(2) by (simp add: new_tokens_def unat_sat_sub n unat_word_ariths)
  moreover have "unat (div_ceil (req_len r) (ob_block_size o1)) = (?n + ?b - 1) div ?b"
  proof (cases "?n mod ?b = 0")
    case True
    then have "req_len r mod ob_block_size o1 = 0" by (simp add: n word_unat_eq_iff unat_mod)
    with True ceil_div[OF b, of ?n] show ?thesis by (simp add: div_ceil_def unat_div n)
  next
    case False
    then have m: "req_len r mod ob_block_size o1 > 0" by (simp add: word_less_nat_alt unat_mod n)
    have b2: "2 \<le> ?b" using False b by (cases "?b = 1") auto
    then have "?n div ?b \<le> ?n div 2" by (simp add: div_le_mono2)
    then have "Suc (?n div ?b) < 2 ^ 64" using assms(1) by simp
    then have "unat (req_len r div ob_block_size o1 + 1) = Suc (?n div ?b)"
      by (simp add: unat_word_ariths unat_div n)
    with False m ceil_div[OF b, of ?n] show ?thesis by (simp add: div_ceil_def)
  qed
  ultimately show ?thesis using assms(3) by (simp add: new_blocks_def unat_sat_sub)
qed

lemma new_tokens_blocks_witness:
  "unat (new_blocks (request (example_entry 1 (replicate 20 7)))
     \<lparr>idx = 0, ob_bs = 0, ob_waiting = 0, ob_queued_tokens = 0, ob_all_tokens = 0, ob_block_size = 16,
      ob_hit_blocks = 1, ob_epoch = 0\<rparr>) = 1"
  by (subst new_tokens_blocks [THEN conjunct2]) (simp_all add: example_entry_def)

text \<open>the epoch-skip optimisation is sound for the hash table: if the replica's matcher was
  mutated fewer than \<open>2 ^ 64\<close> times between the observation and the decision, applying the
  decision with the cached hits has the same effect as looking them up again.\<close>

theorem epoch_skip_sound:
  assumes "(ht_mutates ^^ n) (sc_block_hash s0) (sc_block_hash s1)" "n < 2 ^ 64"
  shows "apply_default_after ht_get ht_epoch e s1 (capture_one ht_get ht_epoch e i s0) =
    apply_default_after ht_get ht_epoch e s1
      ((capture_one ht_get ht_epoch e i s0)\<lparr>ob_hit_blocks := fresh_hits ht_get e s1\<rparr>)"
proof (rule apply_fresh)
  assume "ob_epoch (capture_one ht_get ht_epoch e i s0) = ht_epoch (sc_block_hash s1)"
  then have "ht_epoch (sc_block_hash s1) = ht_epoch (sc_block_hash s0)" by (simp add: capture_one_def)
  from ht_epoch.same_epoch_same_state[OF assms this]
  show "ob_hit_blocks (capture_one ht_get ht_epoch e i s0) = fresh_hits ht_get e s1"
    by (simp add: capture_one_def fresh_hits_def)
qed

lemma epoch_skip_sound_witness:
  "apply_default_after ht_get ht_epoch (example_entry 1 [7]) \<lparr>sc_lmetric = lmetric_default, sc_block_hash = ht_new 4\<rparr>
     (capture_one ht_get ht_epoch (example_entry 1 [7]) 0 \<lparr>sc_lmetric = lmetric_default, sc_block_hash = ht_new 4\<rparr>) =
   apply_default_after ht_get ht_epoch (example_entry 1 [7]) \<lparr>sc_lmetric = lmetric_default, sc_block_hash = ht_new 4\<rparr>
     ((capture_one ht_get ht_epoch (example_entry 1 [7]) 0 \<lparr>sc_lmetric = lmetric_default, sc_block_hash = ht_new 4\<rparr>)
       \<lparr>ob_hit_blocks := fresh_hits ht_get (example_entry 1 [7]) \<lparr>sc_lmetric = lmetric_default, sc_block_hash = ht_new 4\<rparr>\<rparr>)"
  by (rule epoch_skip_sound [where n = 0]) simp_all

end
