(* ===== verification/EventLoop.thy ===== *)
theory EventLoop
  imports EngineTypes ExceptMgmt DslRuntime
begin

text \<open>
  The event loop of one replica, \<^verbatim>\<open>task_assignment\<close> in
  \<^verbatim>\<open>router/src/engine/colocation.rs\<close>: one turn of \<^verbatim>\<open>completion_event_loop\<close> is
  \<open>completion_step\<close>, split at the comments of the source. What the loop reads from outside in one
  turn is an argument: the step received, the entries waiting in the work queue, the errors waiting
  in the error channel, the clock, and the iteration orders of the two hash maps of the step. The
  prefix matcher is used through its trait; its \<^verbatim>\<open>insert\<close> and \<^verbatim>\<open>remove\<close> are
  arguments. \<open>retired\<close> lists the entries that left the loop in the turn, with the channel their
  client reads. Logging, the Preble feature and the simulator's \<^verbatim>\<open>on_sse\<close> (a component of its
  own) are not part of the turn.
\<close>

section \<open>State\<close>

record completion_state =
  cq_entries :: "u64 \<rightharpoonup> entry"
  request_phases :: "u64 \<rightharpoonup> request_phase"
  cancel_req_ids :: "u64 list"
  except_context :: ext_context
  temp_leaving :: "(u64 \<times> entry) list"
  skipped_fault :: "u64 list"
  retired :: "entry list"

definition completion_new :: completion_state where
  "completion_new = \<lparr>cq_entries = Map.empty, request_phases = Map.empty, cancel_req_ids = [],
     except_context = ext_new, temp_leaving = [], skipped_fault = [], retired = []\<rparr>"

text \<open>
  The work loop: with room in the channel of 64 places it hands the next admitted request on. An
  error of \<^verbatim>\<open>add_request\<close> is logged only; the log line reads the admission time.
\<close>

definition work_step :: "(u64 \<times> entry) option \<Rightarrow> entry list \<Rightarrow> entry list outcome" where
  "work_step next wq =
     (if length wq < 64
      then case next of
             Some (rid, e) \<Rightarrow> (case batch_time e of None \<Rightarrow> Inl ExpectFailed | Some t \<Rightarrow> Inr (wq @ [e]))
           | None \<Rightarrow> Inr wq
      else Inr wq)"

section \<open>New requests\<close>

definition drain_one :: "entry \<Rightarrow> completion_state \<Rightarrow> completion_state" where
  "drain_one e s =
     s\<lparr>cq_entries := (cq_entries s)(entry_id e \<mapsto> e), request_phases := (request_phases s)(entry_id e \<mapsto> Waiting)\<rparr>"

definition drain_wqe :: "entry list \<Rightarrow> completion_state \<Rightarrow> completion_state" where
  "drain_wqe wq s = fold drain_one wq s"

section \<open>Fast path: metrics\<close>

text \<open>
  \<^verbatim>\<open>entries.get_mut(&id).or_else(|| except_context.entries.get_mut(&id))\<close> and the
  assignment through the reference it returns.
\<close>

definition lookup_held :: "u64 \<Rightarrow> completion_state \<Rightarrow> entry option" where
  "lookup_held rid s = (case cq_entries s rid of Some e \<Rightarrow> Some e | None \<Rightarrow> ext_entries (except_context s) rid)"

definition store_held :: "u64 \<Rightarrow> entry \<Rightarrow> completion_state \<Rightarrow> completion_state" where
  "store_held rid e s =
     (if cq_entries s rid \<noteq> None then s\<lparr>cq_entries := (cq_entries s)(rid \<mapsto> e)\<rparr>
      else s\<lparr>except_context := (except_context s)\<lparr>ext_entries := (ext_entries (except_context s))(rid \<mapsto> e)\<rparr>\<rparr>)"

definition input_len :: "entry \<Rightarrow> isize" where
  "input_len e = ucast (req_input_length (request e))"

definition gen_cnt :: "entry \<Rightarrow> isize" where
  "gen_cnt e = of_nat (generated_token_cnt e)"

definition leave_delta :: "isize \<Rightarrow> lmetric_dec \<Rightarrow> lmetric_dec" where
  "leave_delta toks d = d\<lparr>bs_dec := bs_dec d + 1, dec_all_tokens_inc := dec_all_tokens_inc d - toks\<rparr>"

text \<open>
  A finished request: one of \<^verbatim>\<open>entries\<close> is counted and stays for the slow path, one of the
  exception context exits it. \<open>toks\<close> is what each state subtracts.
\<close>

definition fast_finish ::
    "(entry \<Rightarrow> isize) \<Rightarrow> u64 \<Rightarrow> completion_state \<times> lmetric_dec \<Rightarrow> (completion_state \<times> lmetric_dec) outcome" where
  "fast_finish toks rid = (\<lambda>(s, d).
     case cq_entries s rid of
       Some e \<Rightarrow> Inr (s, leave_delta (toks e) d)
     | None \<Rightarrow>
         (case put (Exit rid) (except_context s) of
            Inl p \<Rightarrow> Inl p
          | Inr (Some e, ctx) \<Rightarrow>
              Inr (s\<lparr>except_context := ctx, temp_leaving := temp_leaving s @ [(rid, e)]\<rparr>, leave_delta (toks e) d)
          | Inr (None, ctx) \<Rightarrow> Inr (s\<lparr>except_context := ctx\<rparr>, d)))"

definition fast_prefill ::
    "(u32 list \<Rightarrow> u64 \<Rightarrow> u64) \<Rightarrow> real \<Rightarrow> request_step_output \<Rightarrow> completion_state \<times> lmetric_dec \<Rightarrow>
       (completion_state \<times> lmetric_dec) outcome" where
  "fast_prefill xxh dt out = (\<lambda>(s, d).
     let rid = request_id out;
         is_known = (cq_entries s rid \<noteq> None \<or> ext_entries (except_context s) rid \<noteq> None);
         d1 = (if is_known then d\<lparr>waiting_reqs_dec := waiting_reqs_dec d + 1\<rparr> else d);
         n = of_nat (length (new_token_ids out)) :: isize
     in if is_finished out then fast_finish input_len rid (s, d1)
        else let d2 = d1\<lparr>dec_all_tokens_inc := dec_all_tokens_inc d1 + n\<rparr>
             in case lookup_held rid s of
                  Some e \<Rightarrow>
                    (case set_real_token_hits_get_diff (hit_token_cnt out) (bhs e) of
                       Inl p \<Rightarrow> Inl p
                     | Inr (inc_hit_nblks, b) \<Rightarrow>
                         Inr (store_held rid (append_state xxh (new_token_ids out) dt (e\<lparr>bhs := b\<rparr>)) s,
                              d2\<lparr>prefill_tokens_dec := prefill_tokens_dec d2 + inc_hit_nblks * of_nat (block_size b)\<rparr>))
                | None \<Rightarrow> Inr (s, d2\<lparr>dec_all_tokens_inc := dec_all_tokens_inc d2 - n\<rparr>))"

definition fast_decode ::
    "(u32 list \<Rightarrow> u64 \<Rightarrow> u64) \<Rightarrow> real \<Rightarrow> request_step_output \<Rightarrow> completion_state \<times> lmetric_dec \<Rightarrow>
       (completion_state \<times> lmetric_dec) outcome" where
  "fast_decode xxh dt out = (\<lambda>(s, d).
     let rid = request_id out
     in if is_finished out then fast_finish (\<lambda>e. input_len e + gen_cnt e) rid (s, d)
        else case lookup_held rid s of
               Some e \<Rightarrow>
                 (let e' = append_state xxh (new_token_ids out) dt e
                  in case time_of_per_token e' of
                       None \<Rightarrow> Inl ExpectFailed
                     | Some t \<Rightarrow>
                         Inr (store_held rid e' s,
                              d\<lparr>dec_all_tokens_inc := dec_all_tokens_inc d + of_nat (length (new_token_ids out)),
                                dec_tpot := dec_tpot d + t\<rparr>))
             | None \<Rightarrow> Inr (s, d))"

definition fast_output ::
    "(u32 list \<Rightarrow> u64 \<Rightarrow> u64) \<Rightarrow> real \<Rightarrow> request_step_output \<Rightarrow> completion_state \<times> lmetric_dec \<Rightarrow>
       (completion_state \<times> lmetric_dec) outcome" where
  "fast_output xxh dt out sd =
     (if state out = ''PREFILL'' then fast_prefill xxh dt out sd
      else if state out = ''DECODE'' then fast_decode xxh dt out sd
      else Inl ExplicitPanic)"

definition fast_path ::
    "(u32 list \<Rightarrow> u64 \<Rightarrow> u64) \<Rightarrow> engine_step_output \<Rightarrow> completion_state \<Rightarrow> (completion_state \<times> lmetric_dec) outcome" where
  "fast_path xxh m s =
     (let dt = real (unat (latency m)) / 1000;
          d = (lmetric_dec_new dt)\<lparr>prefill_tokens_dec := prefill_tokens m\<rparr>
      in fold_outcome (fast_output xxh dt) (outputs m) (s, d))"

section \<open>Cache update and publication\<close>

text \<open>
  The entry of a request in any of the three places, and the assignment through the reference:
  \<^verbatim>\<open>entries\<close>, the exception context, or the entries leaving in this turn.
\<close>

definition modify_anywhere ::
    "u64 \<Rightarrow> (entry \<Rightarrow> (entry \<times> 'r) outcome) \<Rightarrow> completion_state \<Rightarrow> (completion_state \<times> 'r) outcome" where
  "modify_anywhere rid f s =
     (case lookup_held rid s of
        Some e \<Rightarrow> map_sum id (\<lambda>(e', r). (store_held rid e' s, r)) (f e)
      | None \<Rightarrow>
          (case position (\<lambda>l. fst l = rid) (temp_leaving s) of
             None \<Rightarrow> Inl ExpectFailed
           | Some i \<Rightarrow>
               map_sum id (\<lambda>(e', r). (s\<lparr>temp_leaving := (temp_leaving s)[i := (rid, e')]\<rparr>, r)) (f (snd (temp_leaving s ! i)))))"

definition update_bids :: "(u64 \<rightharpoonup> u64 list) \<Rightarrow> u64 \<Rightarrow> completion_state \<Rightarrow> completion_state outcome" where
  "update_bids used rid s =
     (case used rid of
        None \<Rightarrow> Inr s
      | Some [] \<Rightarrow> Inr s
      | Some bids \<Rightarrow>
          map_sum id fst (modify_anywhere rid (\<lambda>e. map_sum id (\<lambda>b. (e\<lparr>bhs := b\<rparr>, ())) (set_bids bids (bhs e))) s))"

definition insert_blocks ::
    "('b \<Rightarrow> u64 list \<Rightarrow> u64 list \<Rightarrow> ('b \<times> nat) outcome) \<Rightarrow> (u64 \<rightharpoonup> u64 list) \<Rightarrow> u64 \<Rightarrow>
       completion_state \<times> 'b \<times> nat \<Rightarrow> (completion_state \<times> 'b \<times> nat) outcome" where
  "insert_blocks bh_insert new_ids rid = (\<lambda>(s, bh, total_inserted).
     case new_ids rid of
       None \<Rightarrow> Inr (s, bh, total_inserted)
     | Some [] \<Rightarrow> Inr (s, bh, total_inserted)
     | Some bids \<Rightarrow>
         (case modify_anywhere rid (\<lambda>e. map_sum id (\<lambda>(r, b). (e\<lparr>bhs := b\<rparr>, r)) (get_onto_hashes bids (bhs e))) s of
            Inl p \<Rightarrow> Inl p
          | Inr (s', Onto onto_hashes) \<Rightarrow>
              map_sum id (\<lambda>(bh', n). (s', bh', total_inserted + n)) (bh_insert bh onto_hashes bids)
          | Inr (s', AllMarked backend_bids) \<Rightarrow> Inl ExplicitPanic))"

text \<open>\<open>ord_used\<close> and \<open>ord_new\<close> are the iteration orders of the two maps.\<close>

definition cache_update ::
    "('b \<Rightarrow> u64 list \<Rightarrow> u64 list \<Rightarrow> ('b \<times> nat) outcome) \<Rightarrow> ('b \<Rightarrow> u64 list \<Rightarrow> 'b outcome) \<Rightarrow>
       u64 list \<Rightarrow> u64 list \<Rightarrow> engine_step_output \<Rightarrow> completion_state \<Rightarrow> 'b \<Rightarrow> (completion_state \<times> 'b) outcome" where
  "cache_update bh_insert bh_remove ord_used ord_new m s bh =
     (case bh_remove bh (evicted_block_ids m) of
        Inl p \<Rightarrow> Inl p
      | Inr bh1 \<Rightarrow>
          (case fold_outcome (update_bids (cur_used_block_ids m)) ord_used s of
             Inl p \<Rightarrow> Inl p
           | Inr s1 \<Rightarrow>
               map_sum id (\<lambda>(s2, bh2, n). (s2, bh2))
                 (fold_outcome (insert_blocks bh_insert (new_block_hashes_ids m)) ord_new (s1, bh1, 0))))"

section \<open>Slow path: pass generations\<close>

definition send_resp :: "response \<Rightarrow> entry \<Rightarrow> entry \<times> bool" where
  "send_resp r e = (let (ch, sent_ok) = chan_send r (response_tx e) in (e\<lparr>response_tx := ch\<rparr>, sent_ok))"

fun send_tokens :: "u32 list \<Rightarrow> entry \<Rightarrow> entry \<times> bool" where
  "send_tokens [] e = (e, True)"
| "send_tokens (t # ts) e =
     (let (e', sent_ok) = send_resp (RIntermediate t) e in if sent_ok then send_tokens ts e' else (e', False))"

definition on_prefill :: "u32 list \<Rightarrow> entry \<Rightarrow> entry \<times> bool" where
  "on_prefill toks e =
     (let (e', sent_ok) = send_resp RPrefill e in if sent_ok then send_tokens toks e' else (e', False))"

definition on_decode :: "u32 list \<Rightarrow> entry \<Rightarrow> entry \<times> bool" where
  "on_decode toks e = send_tokens toks e"

definition on_finish_request :: "entry \<Rightarrow> entry outcome" where
  "on_finish_request e = (if batch_time e = None then Inl ExpectFailed else Inr (fst (send_resp REnd e)))"

text \<open>
  The arm of a request in \<^verbatim>\<open>entries\<close>, the same for both states but for the handler: a failed
  send asks for the cancellation, unless the request finishes in the same step.
\<close>

definition slow_known ::
    "(entry \<Rightarrow> entry \<times> bool) \<Rightarrow> u64 \<Rightarrow> bool \<Rightarrow> entry \<Rightarrow> completion_state \<Rightarrow> completion_state outcome" where
  "slow_known handler rid fin e s =
     (let (e', sent_ok) = handler e;
          s1 = s\<lparr>cq_entries := (cq_entries s)(rid \<mapsto> e'),
                 cancel_req_ids := (if sent_ok then cancel_req_ids s else cancel_req_ids s @ [rid])\<rparr>
      in if fin
         then case on_finish_request e' of
                Inl p \<Rightarrow> Inl p
              | Inr e'' \<Rightarrow>
                  Inr (s1\<lparr>cq_entries := (cq_entries s1)(rid := None),
                          request_phases := (request_phases s1)(rid := None),
                          retired := retired s1 @ [e''],
                          cancel_req_ids := (if cancel_req_ids s1 \<noteq> [] \<and> List.last (cancel_req_ids s1) = rid
                                             then butlast (cancel_req_ids s1) else cancel_req_ids s1)\<rparr>)
         else Inr s1)"

definition track_phase :: "request_step_output \<Rightarrow> completion_state \<Rightarrow> completion_state outcome" where
  "track_phase out s =
     (case request_phases s (request_id out) of
        None \<Rightarrow> Inr s
      | Some ph \<Rightarrow>
          map_sum id (\<lambda>ph'. s\<lparr>request_phases := (request_phases s)(request_id out \<mapsto> ph')\<rparr>)
            (transition ph (state out) (is_finished out)))"

definition slow_output :: "request_step_output \<Rightarrow> completion_state \<Rightarrow> completion_state outcome" where
  "slow_output out s =
     (case track_phase out s of
        Inl p \<Rightarrow> Inl p
      | Inr s1 \<Rightarrow>
          (let rid = request_id out
           in if state out = ''PREFILL''
              then case cq_entries s1 rid of
                     Some e \<Rightarrow> slow_known (on_prefill (new_token_ids out)) rid (is_finished out) e s1
                   | None \<Rightarrow> Inr s1
              else if state out = ''DECODE''
              then case cq_entries s1 rid of
                     Some e \<Rightarrow> slow_known (on_decode (new_token_ids out)) rid (is_finished out) e s1
                   | None \<Rightarrow> Inr s1
              else Inl Unreachable))"

section \<open>Exceptions and the end of the turn\<close>

definition mark_excepted :: "u64 \<Rightarrow> completion_state \<Rightarrow> completion_state" where
  "mark_excepted rid s =
     (if request_phases s rid \<noteq> None then s\<lparr>request_phases := (request_phases s)(rid \<mapsto> Excepted)\<rparr> else s)"

definition except_one ::
    "(entry \<Rightarrow> ext_state) \<Rightarrow> u64 \<Rightarrow> entry \<Rightarrow> completion_state \<Rightarrow> completion_state outcome" where
  "except_one ev rid e s =
     (let s1 = mark_excepted rid (s\<lparr>cq_entries := (cq_entries s)(rid := None)\<rparr>)
      in map_sum id (\<lambda>(r, ctx). s1\<lparr>except_context := ctx\<rparr>) (put (ev e) (except_context s1)))"

definition abort_one :: "u64 \<Rightarrow> completion_state \<Rightarrow> completion_state outcome" where
  "abort_one rid s =
     (let s1 = s\<lparr>skipped_fault := skipped_fault s @ [rid]\<rparr>
      in case cq_entries s1 rid of
           None \<Rightarrow> Inl ExpectFailed
         | Some e \<Rightarrow> except_one (Abort rid) rid e s1)"

text \<open>\<^verbatim>\<open>while let Some(id) = cancel_req_ids.pop()\<close>: the last one first.\<close>

definition on_frontend_abort :: "completion_state \<Rightarrow> completion_state outcome" where
  "on_frontend_abort s = fold_outcome abort_one (rev (cancel_req_ids s)) (s\<lparr>cancel_req_ids := []\<rparr>)"

definition fault_one :: "u64 \<Rightarrow> completion_state \<Rightarrow> completion_state outcome" where
  "fault_one rid s =
     (if rid \<in> set (skipped_fault s) then Inr s
      else case cq_entries s rid of
             None \<Rightarrow> Inl ExpectFailed
           | Some e \<Rightarrow> except_one (Fault rid) rid (fst (send_resp RGenerationError e)) s)"

definition on_backend_fault :: "u64 list \<Rightarrow> completion_state \<Rightarrow> completion_state outcome" where
  "on_backend_fault errs s = fold_outcome fault_one errs s"

text \<open>The counters of the two loops: requests and tokens to take off the load metrics.\<close>

definition retire :: "entry \<Rightarrow> completion_state \<times> usize \<times> isize \<Rightarrow> completion_state \<times> usize \<times> isize" where
  "retire e = (\<lambda>(s, n, toks). (s\<lparr>retired := retired s @ [e]\<rparr>, n + 1, toks - (input_len e + gen_cnt e)))"

definition term_one ::
    "u64 \<Rightarrow> completion_state \<times> usize \<times> isize \<Rightarrow> (completion_state \<times> usize \<times> isize) outcome" where
  "term_one rid = (\<lambda>(s, n, toks).
     let s1 = s\<lparr>request_phases := (request_phases s)(rid := None)\<rparr>
     in case put (Term rid) (except_context s1) of
          Inl p \<Rightarrow> Inl p
        | Inr (None, ctx) \<Rightarrow> Inr (s1\<lparr>except_context := ctx\<rparr>, n, toks)
        | Inr (Some e, ctx) \<Rightarrow> Inr (retire e (s1\<lparr>except_context := ctx\<rparr>, n, toks)))"

definition drop_entry :: "u64 \<times> entry \<Rightarrow> completion_state \<times> usize \<times> isize \<Rightarrow> completion_state \<times> usize \<times> isize" where
  "drop_entry re = (\<lambda>(s, n, toks).
     retire (snd re) (s\<lparr>request_phases := (request_phases s)(fst re := None)\<rparr>, n, toks))"

definition terminate_and_drop ::
    "u64 list \<Rightarrow> completion_state \<Rightarrow> (completion_state \<times> usize \<times> isize) outcome" where
  "terminate_and_drop term_requests s =
     (case fold_outcome term_one term_requests (s, 0, 0) of
        Inl p \<Rightarrow> Inl p
      | Inr (s1, n, toks) \<Rightarrow>
          (case filter_drop (except_context s1) of
             Inl p \<Rightarrow> Inl p
           | Inr (dropped, ctx) \<Rightarrow> Inr (fold drop_entry dropped (s1\<lparr>except_context := ctx\<rparr>, n, toks))))"

text \<open>The entries that finished in the exception context leave when the buffers are cleared.\<close>

definition renew :: "completion_state \<Rightarrow> completion_state" where
  "renew s = s\<lparr>retired := retired s @ map snd (temp_leaving s), temp_leaving := [], skipped_fault := []\<rparr>"

definition publish_terms :: "usize \<Rightarrow> isize \<Rightarrow> lmetric \<Rightarrow> lmetric" where
  "publish_terms n toks lm =
     (if n \<noteq> 0 then lm\<lparr>bs := sat_sub (bs lm) n, all_tokens := sat_add_signed (all_tokens lm) toks\<rparr> else lm)"

section \<open>One turn of the loop\<close>

definition control_path ::
    "engine_step_output \<Rightarrow> u64 list \<Rightarrow> completion_state \<Rightarrow> (completion_state \<times> usize \<times> isize) outcome" where
  "control_path m errs s =
     (case fold_outcome slow_output (outputs m) s of
        Inl p \<Rightarrow> Inl p
      | Inr s1 \<Rightarrow>
          (case on_frontend_abort s1 of
             Inl p \<Rightarrow> Inl p
           | Inr s2 \<Rightarrow>
               (case on_backend_fault errs s2 of
                  Inl p \<Rightarrow> Inl p
                | Inr s3 \<Rightarrow>
                    map_sum id (\<lambda>(s4, n, toks). (renew s4, n, toks)) (terminate_and_drop (aborted_requests m) s3))))"

definition completion_step ::
    "(u32 list \<Rightarrow> u64 \<Rightarrow> u64) \<Rightarrow> ('b \<Rightarrow> u64 list \<Rightarrow> u64 list \<Rightarrow> ('b \<times> nat) outcome) \<Rightarrow> ('b \<Rightarrow> u64 list \<Rightarrow> 'b outcome) \<Rightarrow>
       nat \<Rightarrow> engine_step_output \<Rightarrow> entry list \<Rightarrow> u64 list \<Rightarrow> u64 list \<Rightarrow> u64 list \<Rightarrow>
       completion_state \<times> 'b schedule_context \<Rightarrow> (completion_state \<times> 'b schedule_context) outcome" where
  "completion_step xxh bh_insert bh_remove now m wq errs ord_used ord_new = (\<lambda>(s, sctx).
     case fast_path xxh m (drain_wqe wq s) of
       Inl p \<Rightarrow> Inl p
     | Inr (s1, metric_delta) \<Rightarrow>
         (case cache_update bh_insert bh_remove ord_used ord_new m s1 (sc_block_hash sctx) of
            Inl p \<Rightarrow> Inl p
          | Inr (s2, bh) \<Rightarrow>
              (let sctx1 = \<lparr>sc_lmetric = lmetric_sub now (sc_lmetric sctx) metric_delta, sc_block_hash = bh\<rparr>
               in map_sum id
                    (\<lambda>(s3, n, toks). (s3, sctx1\<lparr>sc_lmetric := publish_terms n toks (sc_lmetric sctx1)\<rparr>))
                    (control_path m errs s2))))"

text \<open>What \<^verbatim>\<open>recv_step\<close> returns, with the other inputs of the turn.\<close>

record turn =
  t_step :: engine_step_output
  t_wq :: "entry list"
  t_errs :: "u64 list"
  t_used :: "u64 list"
  t_new :: "u64 list"
  t_now :: nat

datatype received = Step turn | RecvError | StreamEnded

text \<open>The loop: it ends when the stream does, and goes on after any other error.\<close>

fun completion_event_loop ::
    "(u32 list \<Rightarrow> u64 \<Rightarrow> u64) \<Rightarrow> ('b \<Rightarrow> u64 list \<Rightarrow> u64 list \<Rightarrow> ('b \<times> nat) outcome) \<Rightarrow> ('b \<Rightarrow> u64 list \<Rightarrow> 'b outcome) \<Rightarrow>
       received list \<Rightarrow> completion_state \<times> 'b schedule_context \<Rightarrow> (completion_state \<times> 'b schedule_context) outcome" where
  "completion_event_loop xxh bh_insert bh_remove [] sc = Inr sc"
| "completion_event_loop xxh bh_insert bh_remove (r # rs) sc =
     (case r of
        StreamEnded \<Rightarrow> Inr sc
      | RecvError \<Rightarrow> completion_event_loop xxh bh_insert bh_remove rs sc
      | Step t \<Rightarrow>
          (case completion_step xxh bh_insert bh_remove (t_now t) (t_step t) (t_wq t) (t_errs t) (t_used t) (t_new t) sc of
             Inl p \<Rightarrow> Inl p
           | Inr sc' \<Rightarrow> completion_event_loop xxh bh_insert bh_remove rs sc'))"

section \<open>Helpers\<close>

text \<open>A loop preserves what its body preserves.\<close>

lemma fold_outcome_inv:
  assumes "\<And>x s s'. P s \<Longrightarrow> f x s = Inr s' \<Longrightarrow> P s'" "P s" "fold_outcome f xs s = Inr s'"
  shows "P s'"
  using assms(2,3)
proof (induction xs arbitrary: s)
  case (Cons x xs)
  then obtain s1 where "f x s = Inr s1" "fold_outcome f xs s1 = Inr s'" by (auto split: sum.splits)
  with Cons assms(1) show ?case by blast
qed simp

lemma entry_id_bhs [simp]: "entry_id (e\<lparr>bhs := b\<rparr>) = entry_id e"
  by (simp add: entry_id_def)

text \<open>The parts of a turn.\<close>

lemma completion_step_parts:
  assumes "completion_step xxh bh_insert bh_remove now m wq errs ord_used ord_new (s, sctx) = Inr (s', sctx')"
  obtains s1 d s2 bh n toks where "fast_path xxh m (drain_wqe wq s) = Inr (s1, d)"
    "cache_update bh_insert bh_remove ord_used ord_new m s1 (sc_block_hash sctx) = Inr (s2, bh)"
    "control_path m errs s2 = Inr (s', n, toks)"
    "sc_lmetric sctx' = publish_terms n toks (lmetric_sub now (sc_lmetric sctx) d)"
  using assms by (auto simp: completion_step_def Let_def map_sum_def split: sum.splits)

lemma control_path_parts:
  assumes "control_path m errs s = Inr (s', n, toks)"
  obtains s1 s2 s3 s4 where "fold_outcome slow_output (outputs m) s = Inr s1" "on_frontend_abort s1 = Inr s2"
    "on_backend_fault errs s2 = Inr s3" "terminate_and_drop (aborted_requests m) s3 = Inr (s4, n, toks)" "s' = renew s4"
  using assms by (auto simp: control_path_def map_sum_def split: sum.splits)

section \<open>A concrete run\<close>

definition batched_entry :: "u64 \<Rightarrow> u32 list \<Rightarrow> entry" where
  "batched_entry rid toks = (example_entry rid toks)\<lparr>batch_time := Some 3\<rparr>"

definition plain_turn :: "engine_step_output \<Rightarrow> entry list \<Rightarrow> turn" where
  "plain_turn m wq = \<lparr>t_step = m, t_wq = wq, t_errs = [], t_used = [], t_new = [], t_now = 5\<rparr>"

definition example_sctx :: "hash_table schedule_context" where
  "example_sctx = \<lparr>sc_lmetric = lmetric_default\<lparr>bs := 2\<rparr>, sc_block_hash = ht_new 4\<rparr>"

definition example_step :: engine_step_output where
  "example_step = empty_step\<lparr>outputs := [output_of 1 ''DECODE'' True, output_of 2 ''DECODE'' False]\<rparr>"

definition example_run :: "received list" where
  "example_run = [Step (plain_turn example_step [batched_entry 1 [7], batched_entry 2 [8]]), RecvError, StreamEnded]"

lemmas turn_defs =
  completion_step_def drain_wqe_def drain_one_def fast_path_def fast_output_def fast_decode_def fast_finish_def
  leave_delta_def lookup_held_def store_held_def append_state_def append_tbt_to_tpot_def append_tokens_def
  cache_update_def ht_remove_def control_path_def slow_output_def track_phase_def transition_def slow_known_def
  on_decode_def on_finish_request_def send_resp_def chan_send_def on_frontend_abort_def on_backend_fault_def
  terminate_and_drop_def filter_drop_def renew_def Let_def

lemmas example_defs =
  example_run_def example_step_def plain_turn_def output_of_def empty_step_def completion_new_def ext_new_def
  batched_entry_def example_entry_def entry_id_def example_sctx_def

lemma example_run_returns:
  "\<exists>s c. completion_event_loop (\<lambda>_ h. h) ht_insert ht_remove example_run (completion_new, example_sctx) = Inr (s, c) \<and>
     map entry_id (retired s) = [1]"
  by (simp add: turn_defs example_defs)

lemma example_step_returns:
  "\<exists>s c. completion_step (\<lambda>_ h. h) ht_insert ht_remove 5 example_step [batched_entry 1 [7], batched_entry 2 [8]] [] [] []
     (completion_new, example_sctx) = Inr (s, c) \<and> length (retired s) = 1"
  by (simp add: turn_defs example_defs)

end
