(* ===== verification/LoopInvariant.thy ===== *)
theory LoopInvariant
  imports EventLoop
begin

text \<open>
  The invariant of the event loop of one replica: where every request handed to it is. It is shown
  for every part of a turn, hence for any sequence of turns.
\<close>

section \<open>The invariant\<close>

text \<open>
  \<open>I\<close> is the set of requests handed to the loop so far. Each is in \<^verbatim>\<open>entries\<close>, held by the
  exception context, or gone exactly once; what is in \<^verbatim>\<open>entries\<close> has a phase and no
  exception state; what has an exception state has no other phase than \<open>Excepted\<close>.
\<close>

definition keyed :: "(u64 \<rightharpoonup> entry) \<Rightarrow> bool" where
  "keyed m \<longleftrightarrow> (\<forall>rid e. m rid = Some e \<longrightarrow> entry_id e = rid)"

definition gone :: "completion_state \<Rightarrow> u64 list" where
  "gone s = map entry_id (retired s) @ map fst (temp_leaving s)"

definition held :: "completion_state \<Rightarrow> u64 set" where
  "held s = dom (cq_entries s) \<union> dom (ext_entries (except_context s))"

definition phases_ok :: "completion_state \<Rightarrow> bool" where
  "phases_ok s \<longleftrightarrow> dom (cq_entries s) \<subseteq> dom (request_phases s) \<and>
     (\<forall>rid. cq_entries s rid \<noteq> None \<longrightarrow> st_of (except_context s) rid = None) \<and>
     (\<forall>rid ph. st_of (except_context s) rid \<noteq> None \<longrightarrow> request_phases s rid = Some ph \<longrightarrow> ph = Excepted)"

definition loop_inv :: "u64 set \<Rightarrow> completion_state \<Rightarrow> bool" where
  "loop_inv I s \<longleftrightarrow> ext_inv (except_context s) \<and> phases_ok s \<and> dom (st_of (except_context s)) \<subseteq> I \<and>
     keyed (cq_entries s) \<and> keyed (ext_entries (except_context s)) \<and> (\<forall>l\<in>set (temp_leaving s). entry_id (snd l) = fst l) \<and>
     distinct (gone s) \<and> set (gone s) \<inter> held s = {} \<and> set (gone s) \<union> held s = I"

lemma loop_invI:
  assumes "ext_inv (except_context s)" "phases_ok s" "dom (st_of (except_context s)) \<subseteq> I"
    "keyed (cq_entries s)" "keyed (ext_entries (except_context s))"
    "\<forall>l\<in>set (temp_leaving s). entry_id (snd l) = fst l" "distinct (gone s)" "set (gone s) \<inter> held s = {}"
    "set (gone s) \<union> held s = I"
  shows "loop_inv I s"
  using assms by (simp add: loop_inv_def)

lemma loop_invD:
  assumes "loop_inv I s"
  shows "ext_inv (except_context s)" "phases_ok s" "dom (st_of (except_context s)) \<subseteq> I"
    "keyed (cq_entries s)" "keyed (ext_entries (except_context s))"
    "\<forall>l\<in>set (temp_leaving s). entry_id (snd l) = fst l" "distinct (gone s)" "set (gone s) \<inter> held s = {}"
    "set (gone s) \<union> held s = I"
  using assms by (simp_all add: loop_inv_def)

lemma loop_inv_disjoint:
  assumes "loop_inv I s" "cq_entries s rid = Some e"
  shows "ext_entries (except_context s) rid = None" "st_of (except_context s) rid = None"
proof -
  show "st_of (except_context s) rid = None" using assms by (auto simp: loop_inv_def phases_ok_def)
  then show "ext_entries (except_context s) rid = None" using assms(1) by (auto simp: loop_inv_def dest: ext_invD(2))
qed

lemma keyed_upd: "keyed m \<Longrightarrow> entry_id e = rid \<Longrightarrow> keyed (m(rid \<mapsto> e))" "keyed m \<Longrightarrow> keyed (m(rid := None))"
  by (simp_all add: keyed_def)

lemma keyedD: "keyed m \<Longrightarrow> m rid = Some e \<Longrightarrow> entry_id e = rid"
  by (simp add: keyed_def)

lemma loop_inv_new [inv_intros]: "loop_inv {} completion_new"
  by (simp add: loop_inv_def completion_new_def phases_ok_def keyed_def gone_def held_def ext_inv_new)
     (simp add: ext_new_def st_of_def)

lemma drain_one_inv:
  assumes "loop_inv I s" "entry_id e \<notin> I"
  shows "loop_inv (insert (entry_id e) I) (drain_one e s)"
proof (rule loop_invI)
  note d = loop_invD[OF assms(1)]
  have st: "st_of (except_context s) (entry_id e) = None" using d(3) assms(2) by auto
  show "phases_ok (drain_one e s)" using d(2) st by (auto simp: phases_ok_def drain_one_def)
  show "keyed (cq_entries (drain_one e s))" using d(4) by (simp add: drain_one_def keyed_upd)
  have h: "held (drain_one e s) = insert (entry_id e) (held s)" by (auto simp: held_def drain_one_def)
  have g: "gone (drain_one e s) = gone s" by (simp add: gone_def drain_one_def)
  show "set (gone (drain_one e s)) \<inter> held (drain_one e s) = {}" using d(8,9) assms(2) g h by auto
  show "set (gone (drain_one e s)) \<union> held (drain_one e s) = insert (entry_id e) I" using d(9) g h by auto
qed (use loop_invD[OF assms(1)] in \<open>auto simp: drain_one_def gone_def\<close>)

lemma drain_wqe_inv:
  assumes "loop_inv I s" "distinct (map entry_id wq)" "set (map entry_id wq) \<inter> I = {}"
  shows "loop_inv (I \<union> set (map entry_id wq)) (drain_wqe wq s)"
  using assms
proof (induction wq arbitrary: I s)
  case (Cons e wq)
  from drain_one_inv[OF Cons.prems(1), of e] Cons.prems
  have "loop_inv (insert (entry_id e) I \<union> set (map entry_id wq)) (drain_wqe wq (drain_one e s))"
    by (intro Cons.IH) auto
  then show ?case by (simp add: drain_wqe_def)
qed (simp add: drain_wqe_def)

lemma store_held_inv:
  assumes "loop_inv I s" "lookup_held rid s = Some e" "entry_id e' = entry_id e"
  shows "loop_inv I (store_held rid e' s)"
proof (cases "cq_entries s rid")
  case (Some e0)
  then have "entry_id e' = rid" using assms keyedD[OF loop_invD(4)[OF assms(1)] Some] by (simp add: lookup_held_def)
  with Some assms(1) show ?thesis
    by (auto simp: loop_inv_def store_held_def phases_ok_def keyed_upd gone_def held_def)
next
  case None
  then have x: "ext_entries (except_context s) rid = Some e" using assms(2) by (simp add: lookup_held_def)
  then have id: "entry_id e' = rid" using assms(3) keyedD[OF loop_invD(5)[OF assms(1)] x] by simp
  let ?c = "(except_context s)\<lparr>ext_entries := (ext_entries (except_context s))(rid \<mapsto> e')\<rparr>"
  have st: "st_of ?c = st_of (except_context s)" by (simp add: st_of_def)
  have "ext_entries ?c r = None \<longleftrightarrow> ext_entries (except_context s) r = None" for r using x by simp
  then have "ext_inv ?c" using loop_invD(1)[OF assms(1)] unfolding ext_inv_def st by simp
  moreover have "dom (ext_entries ?c) = dom (ext_entries (except_context s))" using x by auto
  ultimately show ?thesis
    using None assms(1) id by (simp add: loop_inv_def store_held_def phases_ok_def keyed_upd gone_def held_def st)
qed

lemma fast_finish_inv:
  assumes "loop_inv I s" "fast_finish toks rid (s, d) = Inr (s', d')"
  shows "loop_inv I s'"
proof (cases "cq_entries s rid")
  case (Some e)
  with assms show ?thesis by (simp add: fast_finish_def)
next
  case None
  note d = loop_invD[OF assms(1)]
  obtain r ctx where p: "put (Exit rid) (except_context s) = Inr (r, ctx)"
    using assms(2) None by (auto simp: fast_finish_def split: sum.splits)
  obtain st where x: "st_of (except_context s) rid \<noteq> None" "r = ext_entries (except_context s) rid" "ext_inv ctx"
    "st_of ctx = (st_of (except_context s))(rid \<mapsto> st)" "ext_entries ctx = (ext_entries (except_context s))(rid := None)"
    by (rule put_exit_effect[OF p d(1)])
  have keep: "dom (st_of ctx) \<subseteq> I" "keyed (ext_entries ctx)" using d(3,5) x by (auto simp: keyed_upd)
  show ?thesis
  proof (cases r)
    case None2: None
    then have "ext_entries ctx = ext_entries (except_context s)" using x(2,5) by (simp add: fun_upd_idem)
    moreover have s': "s' = s\<lparr>except_context := ctx\<rparr>" using None2 None p assms(2) by (simp add: fast_finish_def)
    ultimately have eq: "held s' = held s" "gone s' = gone s" by (simp_all add: held_def gone_def)
    show ?thesis
    proof (rule loop_invI)
      show "phases_ok s'" using d(2) x(1,4) s' None by (auto simp: phases_ok_def)
    qed (use d keep x(3) s' eq in \<open>simp_all\<close>)
  next
    case (Some e)
    have s': "s' = s\<lparr>except_context := ctx, temp_leaving := temp_leaving s @ [(rid, e)]\<rparr>"
      using Some None p assms(2) by (simp add: fast_finish_def)
    have e: "ext_entries (except_context s) rid = Some e" "entry_id e = rid"
      using Some x(2) keyedD[OF d(5)] by auto
    have h: "held s = insert rid (held s')" "rid \<notin> held s'" using None e(1) x(5) s' by (auto simp: held_def)
    have g: "gone s' = gone s @ [rid]" using s' by (simp add: gone_def)
    show ?thesis
    proof (rule loop_invI)
      show "phases_ok s'" using d(2) x(1,4) None s' by (auto simp: phases_ok_def)
      show "distinct (gone s')" "set (gone s') \<inter> held s' = {}" "set (gone s') \<union> held s' = I"
        using d(7-9) h g by auto
    qed (use d keep x(3) s' e(2) in \<open>auto\<close>)
  qed
qed

lemma fast_output_inv:
  assumes "loop_inv I s" "fast_output xxh dt out (s, d) = Inr (s', d')"
  shows "loop_inv I s'"
proof (cases "is_finished out")
  case True
  then show ?thesis
    using assms fast_finish_inv[OF assms(1)]
    by (auto simp: fast_output_def fast_prefill_def fast_decode_def Let_def split: if_splits)
next
  case False
  show ?thesis
  proof (cases "lookup_held (request_id out) s")
    case None
    with False assms show ?thesis
      by (auto simp: fast_output_def fast_prefill_def fast_decode_def Let_def split: if_splits)
  next
    case (Some e)
    have "entry_id (append_state xxh t dt (e\<lparr>bhs := b\<rparr>)) = entry_id e" "entry_id (append_state xxh t dt e) = entry_id e" for t b
      by (simp_all add: entry_id_def)
    with False Some assms store_held_inv[OF assms(1) Some] show ?thesis
      by (auto simp: fast_output_def fast_prefill_def fast_decode_def Let_def split: if_splits sum.splits option.splits)
  qed
qed

lemma fast_path_inv:
  assumes "loop_inv I s" "fast_path xxh m s = Inr (s', d)"
  shows "loop_inv I s'"
proof -
  let ?f = "fast_output xxh (real (unat (latency m)) / 1000)"
  have step: "loop_inv I (fst t')" if "loop_inv I (fst t)" "?f x t = Inr t'" for x t t'
    using that fast_output_inv[of I "fst t" xxh _ x "snd t" "fst t'" "snd t'"] by simp
  from assms(2) obtain d0 where "fold_outcome ?f (outputs m) (s, d0) = Inr (s', d)"
    by (auto simp: fast_path_def Let_def)
  from fold_outcome_inv[of "\<lambda>t. loop_inv I (fst t)" ?f, OF step _ this] assms(1) show ?thesis by simp
qed

lemma modify_anywhere_inv:
  assumes "loop_inv I s" "modify_anywhere rid f s = Inr (s', r)" "\<And>e e' r. f e = Inr (e', r) \<Longrightarrow> entry_id e' = entry_id e"
  shows "loop_inv I s'"
proof (cases "lookup_held rid s")
  case (Some e)
  then obtain e' where "f e = Inr (e', r)" "s' = store_held rid e' s"
    using assms(2) by (cases "f e") (auto simp: modify_anywhere_def)
  with store_held_inv[OF assms(1) Some] assms(3) show ?thesis by simp
next
  case None
  then obtain i e' where i: "position (\<lambda>l. fst l = rid) (temp_leaving s) = Some i"
    "f (snd (temp_leaving s ! i)) = Inr (e', r)" "s' = s\<lparr>temp_leaving := (temp_leaving s)[i := (rid, e')]\<rparr>"
    using assms(2) by (auto simp: modify_anywhere_def map_sum_def split: option.splits sum.splits)
  from position_SomeD[OF i(1)] have l: "i < length (temp_leaving s)" "fst (temp_leaving s ! i) = rid" by auto
  have "entry_id e' = rid" using assms(3)[OF i(2)] loop_invD(6)[OF assms(1)] l by simp
  moreover have "map fst ((temp_leaving s)[i := (rid, e')]) = map fst (temp_leaving s)"
    using l by (simp add: map_update list_update_same_conv)
  ultimately show ?thesis
    using assms(1) i(3) by (auto simp: loop_inv_def phases_ok_def gone_def held_def dest!: set_update_subset_insert [THEN subsetD])
qed

lemma update_bids_inv:
  assumes "loop_inv I s" "update_bids used rid s = Inr s'"
  shows "loop_inv I s'"
proof (cases "used rid = None \<or> used rid = Some []")
  case True
  with assms show ?thesis by (auto simp: update_bids_def)
next
  case False
  then obtain b bids where "used rid = Some (b # bids)" by (metis list.exhaust not_Some_eq)
  then obtain r where "modify_anywhere rid (\<lambda>e. map_sum id (\<lambda>x. (e\<lparr>bhs := x\<rparr>, ())) (set_bids (b # bids) (bhs e))) s = Inr (s', r)"
    using assms(2) by (cases "modify_anywhere rid (\<lambda>e. map_sum id (\<lambda>x. (e\<lparr>bhs := x\<rparr>, ())) (set_bids (b # bids) (bhs e))) s")
      (auto simp: update_bids_def)
  then show ?thesis
  proof (rule modify_anywhere_inv [OF assms(1)])
    show "map_sum id (\<lambda>x. (e\<lparr>bhs := x\<rparr>, ())) (set_bids (b # bids) (bhs e)) = Inr (e', r) \<Longrightarrow> entry_id e' = entry_id e" for e e' r
      by (cases "set_bids (b # bids) (bhs e)") auto
  qed
qed

lemma insert_blocks_inv:
  assumes "loop_inv I s" "insert_blocks bh_insert new_ids rid (s, bh, k) = Inr (s', bh', k')"
  shows "loop_inv I s'"
proof (cases "new_ids rid = None \<or> new_ids rid = Some []")
  case True
  with assms show ?thesis by (auto simp: insert_blocks_def)
next
  case False
  then obtain b bids where n: "new_ids rid = Some (b # bids)" by (metis list.exhaust not_Some_eq)
  let ?f = "\<lambda>e. map_sum id (\<lambda>(r, x). (e\<lparr>bhs := x\<rparr>, r)) (get_onto_hashes (b # bids) (bhs e))"
  obtain r where "modify_anywhere rid ?f s = Inr (s', r)"
    using assms(2) n by (auto simp: insert_blocks_def map_sum_def split: sum.splits onto.splits)
  then show ?thesis
  proof (rule modify_anywhere_inv [OF assms(1)])
    show "?f e = Inr (e', r) \<Longrightarrow> entry_id e' = entry_id e" for e e' r
      by (cases "get_onto_hashes (b # bids) (bhs e)") auto
  qed
qed

lemma cache_update_inv:
  assumes "loop_inv I s" "cache_update bh_insert bh_remove ord_used ord_new m s bh = Inr (s', bh')"
  shows "loop_inv I s'"
proof -
  obtain bh1 s1 n where f: "fold_outcome (update_bids (cur_used_block_ids m)) ord_used s = Inr s1"
    "fold_outcome (insert_blocks bh_insert (new_block_hashes_ids m)) ord_new (s1, bh1, 0) = Inr (s', bh', n)"
    using assms(2) by (auto simp: cache_update_def map_sum_def split: sum.splits)
  have "loop_inv I s1" using fold_outcome_inv[of "loop_inv I", OF update_bids_inv assms(1) f(1)] .
  moreover have "loop_inv I (fst t')"
    if "loop_inv I (fst t)" "insert_blocks bh_insert (new_block_hashes_ids m) rid t = Inr t'" for rid t t'
    using that insert_blocks_inv[of I "fst t" bh_insert _ rid "fst (snd t)" "snd (snd t)"] by (cases t') auto
  ultimately show ?thesis
    using fold_outcome_inv[of "\<lambda>t. loop_inv I (fst t)" "insert_blocks bh_insert (new_block_hashes_ids m)", OF _ _ f(2)]
    by simp
qed

lemma send_resp_id [simp]: "entry_id (fst (send_resp r e)) = entry_id e"
  "batch_time (fst (send_resp r e)) = batch_time e"
  by (simp_all add: send_resp_def entry_id_def split: prod.split)

lemma send_tokens_id [simp]: "entry_id (fst (send_tokens ts e)) = entry_id e"
  "batch_time (fst (send_tokens ts e)) = batch_time e"
proof (induction ts arbitrary: e)
  case (Cons t ts)
  { case 1
    with Cons(1) send_resp_id(1)[of "RIntermediate t" e] show ?case by (cases "send_resp (RIntermediate t) e") simp }
  { case 2
    with Cons(2) send_resp_id(2)[of "RIntermediate t" e] show ?case by (cases "send_resp (RIntermediate t) e") simp }
qed simp_all

lemma handler_id [simp]:
  "entry_id (fst (on_prefill ts e)) = entry_id e" "batch_time (fst (on_prefill ts e)) = batch_time e"
  "entry_id (fst (on_decode ts e)) = entry_id e" "batch_time (fst (on_decode ts e)) = batch_time e"
  using send_resp_id[of RPrefill e] by (cases "send_resp RPrefill e"; simp add: on_prefill_def on_decode_def)+

lemma transition_excepted: "transition Excepted st fin = Inr Excepted"
  by (simp add: transition_def)

lemma track_phase_inv:
  assumes "loop_inv I s" "track_phase out s = Inr s'"
  shows "loop_inv I s'" "cq_entries s' = cq_entries s"
proof -
  have "loop_inv I s' \<and> cq_entries s' = cq_entries s"
  proof (cases "request_phases s (request_id out)")
    case None
    with assms show ?thesis by (simp add: track_phase_def)
  next
    case (Some ph)
    then obtain ph' where t: "transition ph (state out) (is_finished out) = Inr ph'"
      "s' = s\<lparr>request_phases := (request_phases s)(request_id out \<mapsto> ph')\<rparr>"
      using assms(2) by (cases "transition ph (state out) (is_finished out)") (auto simp: track_phase_def)
    have "ph = Excepted \<Longrightarrow> ph' = Excepted" using t(1) by (simp add: transition_excepted)
    with Some t(2) have "phases_ok s'" using loop_invD(2)[OF assms(1)] by (auto simp: phases_ok_def)
    with assms(1) t(2) show ?thesis by (simp add: loop_inv_def gone_def held_def)
  qed
  then show "loop_inv I s'" "cq_entries s' = cq_entries s" by simp_all
qed

lemma loop_inv_buffers [simp]:
  "loop_inv I (s\<lparr>cancel_req_ids := c\<rparr>) = loop_inv I s" "loop_inv I (s\<lparr>skipped_fault := k\<rparr>) = loop_inv I s"
  by (simp_all add: loop_inv_def phases_ok_def gone_def held_def)

lemma upd_entry_inv:
  assumes "loop_inv I s" "cq_entries s rid = Some e" "entry_id e' = entry_id e"
  shows "loop_inv I (s\<lparr>cq_entries := (cq_entries s)(rid \<mapsto> e')\<rparr>)"
  using store_held_inv[OF assms(1), of rid e e'] assms(2,3) by (simp add: store_held_def lookup_held_def)

lemma retire_entry_inv:
  assumes "loop_inv I s" "cq_entries s rid = Some e" "entry_id e' = rid"
  shows "loop_inv I (s\<lparr>cq_entries := (cq_entries s)(rid := None), request_phases := (request_phases s)(rid := None),
    retired := retired s @ [e']\<rparr>)" (is "loop_inv I ?s")
proof (rule loop_invI)
  note d = loop_invD[OF assms(1)]
  have x: "ext_entries (except_context s) rid = None" by (rule loop_inv_disjoint[OF assms(1,2)])
  have h: "held s = insert rid (held ?s)" "rid \<notin> held ?s" using assms(2) x by (auto simp: held_def)
  have g: "gone ?s = map entry_id (retired s) @ rid # map fst (temp_leaving s)" using assms(3) by (simp add: gone_def)
  then have g': "set (gone ?s) = insert rid (set (gone s))" by (auto simp: gone_def)
  have "rid \<notin> set (gone s)" using d(8) h by blast
  then show "distinct (gone ?s)" using d(7) unfolding g by (auto simp: gone_def)
  show "set (gone ?s) \<inter> held ?s = {}" "set (gone ?s) \<union> held ?s = I" using d(8,9) h g' by auto
  show "phases_ok ?s" using d(2) by (auto simp: phases_ok_def)
qed (use loop_invD[OF assms(1)] in \<open>simp_all add: keyed_upd\<close>)

lemma slow_known_inv:
  assumes "loop_inv I s" "cq_entries s rid = Some e" "slow_known handler rid fin e s = Inr s'"
    and h: "entry_id (fst (handler e)) = entry_id e"
  shows "loop_inv I s'"
proof -
  obtain e' b where e': "handler e = (e', b)" by (cases "handler e")
  with h have id: "entry_id e' = entry_id e" by simp
  have rid: "entry_id e = rid" by (rule keyedD[OF loop_invD(4)[OF assms(1)] assms(2)])
  let ?s1 = "s\<lparr>cq_entries := (cq_entries s)(rid \<mapsto> e')\<rparr>"
  have i1: "loop_inv I ?s1" by (rule upd_entry_inv[OF assms(1,2) id])
  show ?thesis
  proof (cases fin)
    case False
    then have "s' = ?s1\<lparr>cancel_req_ids := (if b then cancel_req_ids s else cancel_req_ids s @ [rid])\<rparr>"
      using assms(3) e' by (simp add: slow_known_def Let_def)
    with i1 show ?thesis by simp
  next
    case True
    then obtain e'' where f: "on_finish_request e' = Inr e''" using assms(3) e'
      by (cases "on_finish_request e'") (simp_all add: slow_known_def Let_def)
    have "entry_id e'' = rid" using f id rid by (auto simp: on_finish_request_def split: if_splits)
    from retire_entry_inv[OF i1 _ this, of e'] have
      "loop_inv I (?s1\<lparr>cq_entries := (cq_entries s)(rid := None), request_phases := (request_phases s)(rid := None),
         retired := retired s @ [e'']\<rparr>)" by simp
    moreover have "\<exists>c. s' = (?s1\<lparr>cq_entries := (cq_entries s)(rid := None), request_phases := (request_phases s)(rid := None),
         retired := retired s @ [e'']\<rparr>)\<lparr>cancel_req_ids := c\<rparr>"
      using assms(3) e' True f by (auto simp: slow_known_def Let_def)
    ultimately show ?thesis by fastforce
  qed
qed

lemma slow_output_inv:
  assumes "loop_inv I s" "slow_output out s = Inr s'"
  shows "loop_inv I s'"
proof -
  obtain s1 where s1: "track_phase out s = Inr s1" using assms(2) by (auto simp: slow_output_def split: sum.splits)
  have i: "loop_inv I s1" by (rule track_phase_inv[OF assms(1) s1])
  show ?thesis
  proof (cases "cq_entries s1 (request_id out)")
    case None
    with assms(2) s1 i show ?thesis by (auto simp: slow_output_def Let_def split: if_splits)
  next
    case (Some e)
    with assms(2) s1 slow_known_inv[OF i Some] show ?thesis
      by (auto simp: slow_output_def Let_def split: if_splits)
  qed
qed

lemma except_one_inv:
  assumes "loop_inv I s" "cq_entries s rid = Some e0" "entry_id e = rid" "entering ev rid"
    and "except_one ev rid e s = Inr s'"
  shows "loop_inv I s'"
proof -
  note d = loop_invD[OF assms(1)]
  let ?s1 = "mark_excepted rid (s\<lparr>cq_entries := (cq_entries s)(rid := None)\<rparr>)"
  have f: "except_context ?s1 = except_context s" "cq_entries ?s1 = (cq_entries s)(rid := None)"
    "retired ?s1 = retired s" "temp_leaving ?s1 = temp_leaving s" by (simp_all add: mark_excepted_def)
  obtain st ctx where p: "put (ev e) (except_context s) = Inr (None, ctx)" "ext_inv ctx"
    "st_of ctx = (st_of (except_context s))(rid \<mapsto> st)" "ext_entries ctx = (ext_entries (except_context s))(rid \<mapsto> e)"
    by (rule put_enter_effect[OF assms(4) d(1) loop_inv_disjoint(2)[OF assms(1,2)]])
  have s': "s' = ?s1\<lparr>except_context := ctx\<rparr>" using assms(5) p(1) f(1) by (simp add: except_one_def Let_def)
  have held: "held s' = held s" using assms(2) s' f p(4) by (auto simp: held_def)
  have gone: "gone s' = gone s" using s' f by (simp add: gone_def)
  have rid: "rid \<in> I" using d(9) assms(2) by (auto simp: held_def)
  show ?thesis
  proof (rule loop_invI)
    show "phases_ok s'"
      using d(2) s' f p(3) by (auto simp: phases_ok_def mark_excepted_def)
    show "dom (st_of (except_context s')) \<subseteq> I" using s' p(3) d(3) rid by auto
  qed (use d s' f p(2,4) held gone assms(3) in \<open>simp_all add: keyed_upd\<close>)
qed

lemma abort_one_inv:
  assumes "loop_inv I s" "abort_one rid s = Inr s'"
  shows "loop_inv I s'"
proof -
  let ?s1 = "s\<lparr>skipped_fault := skipped_fault s @ [rid]\<rparr>"
  obtain e where e: "cq_entries ?s1 rid = Some e" "except_one (Abort rid) rid e ?s1 = Inr s'"
    using assms(2) by (auto simp: abort_one_def split: option.splits)
  have "loop_inv I ?s1" using assms(1) by simp
  moreover from this have "entry_id e = rid" by (rule keyedD[OF loop_invD(4) e(1)])
  ultimately show ?thesis using except_one_inv[OF _ e(1) _ _ e(2)] by (simp add: entering_def)
qed

lemma fault_one_inv:
  assumes "loop_inv I s" "fault_one rid s = Inr s'"
  shows "loop_inv I s'"
proof (cases "rid \<in> set (skipped_fault s)")
  case True
  with assms show ?thesis by (simp add: fault_one_def)
next
  case False
  then obtain e where e: "cq_entries s rid = Some e"
    "except_one (Fault rid) rid (fst (send_resp RGenerationError e)) s = Inr s'"
    using assms(2) by (auto simp: fault_one_def split: option.splits)
  have "entry_id e = rid" by (rule keyedD[OF loop_invD(4)[OF assms(1)] e(1)])
  with except_one_inv[OF assms(1) e(1) _ _ e(2)] show ?thesis by (simp add: entering_def)
qed

lemma term_one_inv:
  assumes "loop_inv I s" "term_one rid (s, n, toks) = Inr (s', n', toks')"
  shows "loop_inv I s'"
proof -
  note d = loop_invD[OF assms(1)]
  obtain r ctx where p: "put (Term rid) (except_context s) = Inr (r, ctx)"
    using assms(2) by (auto simp: term_one_def Let_def split: sum.splits)
  note x = put_term_effect[OF p d(1)]
  have cq: "cq_entries s rid = None" using d(2) x(1) by (auto simp: phases_ok_def)
  let ?s = "s\<lparr>request_phases := (request_phases s)(rid := None), except_context := ctx,
    retired := retired s @ (case r of None \<Rightarrow> [] | Some e \<Rightarrow> [e])\<rparr>"
  have s': "s' = ?s" using assms(2) p by (cases s; cases r) (auto simp: term_one_def retire_def Let_def)
  have g: "set (gone s') = set (gone s) \<union> (case r of None \<Rightarrow> {} | Some e \<Rightarrow> {rid})"
    using s' x(2) keyedD[OF d(5)] by (auto simp: gone_def split: option.splits)
  have h: "held s = held s' \<union> (case r of None \<Rightarrow> {} | Some e \<Rightarrow> {rid})" "rid \<notin> held s'"
    using s' x(2,5) cq by (auto simp: held_def split: option.splits if_splits)
  show ?thesis
  proof (rule loop_invI)
    show "phases_ok s'" using d(2) s' x(4) cq by (auto simp: phases_ok_def)
    show "dom (st_of (except_context s')) \<subseteq> I" using d(3) s' x(4) by auto
    show "distinct (gone s')"
    proof (cases r)
      case None
      with d(7) s' show ?thesis by (simp add: gone_def)
    next
      case (Some e)
      then have "entry_id e = rid" using x(2) keyedD[OF d(5)] by simp
      moreover have "rid \<notin> set (gone s)" using d(8) h Some by auto
      ultimately show ?thesis using d(7) s' Some by (auto simp: gone_def)
    qed
    show "set (gone s') \<inter> held s' = {}" "set (gone s') \<union> held s' = I"
      using d(8,9) g h by (auto split: option.splits)
  qed (use d x s' in \<open>simp_all add: keyed_upd\<close>)
qed

definition leaving_tokens :: "entry list \<Rightarrow> isize" where
  "leaving_tokens es = sum_list (map (\<lambda>e. input_len e + gen_cnt e) es)"

lemma fold_drop_entry:
  "fold drop_entry dropped (s, n, toks) =
     (s\<lparr>request_phases := request_phases s |` (- fst ` set dropped), retired := retired s @ map snd dropped\<rparr>,
      n + of_nat (length dropped), toks - leaving_tokens (map snd dropped))"
proof (induction dropped arbitrary: s n toks)
  case Nil
  then show ?case by (cases s) (simp add: leaving_tokens_def restrict_map_def)
next
  case (Cons d ds)
  have "(request_phases s)(fst d := None) |` (- fst ` set ds) = request_phases s |` (- fst ` set (d # ds))"
    by (auto simp: restrict_map_def fun_eq_iff)
  with Cons show ?case
    by (cases s) (simp add: drop_entry_def retire_def leaving_tokens_def algebra_simps del: fun_upd_apply)
qed

lemma terminate_and_drop_inv:
  assumes "loop_inv I s" "terminate_and_drop ts s = Inr (s', n, toks)"
  shows "loop_inv I s'"
proof -
  obtain s1 n1 toks1 where f: "fold_outcome term_one ts (s, 0, 0) = Inr (s1, n1, toks1)"
    using assms(2) by (auto simp: terminate_and_drop_def split: sum.splits)
  have "loop_inv I (fst t')" if "loop_inv I (fst t)" "term_one rid t = Inr t'" for rid t t'
    using that term_one_inv[of I "fst t" rid "fst (snd t)" "snd (snd t)"] by (cases t') auto
  from fold_outcome_inv[of "\<lambda>t. loop_inv I (fst t)" term_one, OF this _ f] assms(1) have i: "loop_inv I s1" by simp
  note d = loop_invD[OF i]
  obtain dropped ctx where x: "filter_drop (except_context s1) = Inr (dropped, ctx)" "ext_inv ctx" "distinct (map fst dropped)"
    "\<forall>d\<in>set dropped. ext_entries (except_context s1) (fst d) = Some (snd d)"
    "\<forall>rid. st_of ctx rid = None \<longleftrightarrow> st_of (except_context s1) rid = None \<or> rid \<in> fst ` set dropped"
    "ext_entries ctx = ext_entries (except_context s1) |` (- fst ` set dropped)"
    by (rule filter_drop_effect[OF d(1)])
  have s': "s' = s1\<lparr>except_context := ctx, request_phases := request_phases s1 |` (- fst ` set dropped),
      retired := retired s1 @ map snd dropped\<rparr>"
    using assms(2) f x(1) by (cases s1) (simp add: terminate_and_drop_def fold_drop_entry)
  have ids: "map (entry_id \<circ> snd) dropped = map fst dropped" using x(4) keyedD[OF d(5)] by auto
  have inx: "fst ` set dropped \<subseteq> dom (ext_entries (except_context s1))" using x(4) by auto
  have nocq: "cq_entries s1 rid = None" if "rid \<in> fst ` set dropped" for rid
    using that inx loop_inv_disjoint(1)[OF i] by (cases "cq_entries s1 rid") auto
  have "dom (cq_entries s1) \<inter> fst ` set dropped = {}"
  proof (rule equals0I)
    fix r assume "r \<in> dom (cq_entries s1) \<inter> fst ` set dropped"
    then have "r \<in> fst ` set dropped" "cq_entries s1 r \<noteq> None" by (simp_all add: domIff)
    with nocq[of r] show False by simp
  qed
  moreover have "held s' = dom (cq_entries s1) \<union> (dom (ext_entries (except_context s1)) - fst ` set dropped)"
    using s' x(6) by (simp add: held_def) blast
  ultimately have h: "held s1 = held s' \<union> fst ` set dropped" "held s' \<inter> fst ` set dropped = {}"
    using inx unfolding held_def by blast+
  have g: "gone s' = map entry_id (retired s1) @ map fst dropped @ map fst (temp_leaving s1)"
    using s' ids by (simp add: gone_def)
  have g': "set (gone s') = set (gone s1) \<union> fst ` set dropped" using g by (auto simp: gone_def)
  show ?thesis
  proof (rule loop_invI)
    show "phases_ok s'"
      unfolding phases_ok_def
    proof (intro conjI allI impI subsetI)
      fix rid assume "rid \<in> dom (cq_entries s')"
      then have c: "cq_entries s1 rid \<noteq> None" using s' by (simp add: domIff)
      then have "request_phases s1 rid \<noteq> None" using d(2) by (auto simp: phases_ok_def)
      moreover have "rid \<notin> fst ` set dropped" using c by (rule contrapos_nn) (rule nocq)
      ultimately show "rid \<in> dom (request_phases s')" using s' by (simp add: domIff restrict_map_def)
    next
      fix rid assume "cq_entries s' rid \<noteq> None"
      then show "st_of (except_context s') rid = None" using d(2) s' x(5) by (simp add: phases_ok_def)
    next
      fix rid ph assume "st_of (except_context s') rid \<noteq> None" "request_phases s' rid = Some ph"
      then show "ph = Excepted" using d(2) s' x(5) by (auto simp: phases_ok_def restrict_map_def split: if_splits)
    qed
    have "dom (st_of ctx) \<subseteq> dom (st_of (except_context s1))" using x(5) by (simp add: domIff subset_iff)
    then show "dom (st_of (except_context s')) \<subseteq> I" using d(3) s' by simp
    show "distinct (gone s')" using d(7,8) h(1) x(3) g by (auto simp: gone_def)
    show "set (gone s') \<inter> held s' = {}" "set (gone s') \<union> held s' = I" using d(8,9) g' h by auto
    show "keyed (ext_entries (except_context s'))" using d(5) s' x(6) by (auto simp: keyed_def restrict_map_def split: if_splits)
  qed (use d x s' in \<open>simp_all\<close>)
qed

lemma renew_inv:
  assumes "loop_inv I s" shows "loop_inv I (renew s)"
proof -
  have "map (entry_id \<circ> snd) (temp_leaving s) = map fst (temp_leaving s)" using loop_invD(6)[OF assms] by auto
  then have "gone (renew s) = gone s" by (simp add: gone_def renew_def)
  with assms show ?thesis by (simp add: loop_inv_def renew_def phases_ok_def held_def)
qed

lemma control_path_inv:
  assumes "loop_inv I s" "control_path m errs s = Inr (s', n, toks)"
  shows "loop_inv I s'"
proof -
  obtain s1 s2 s3 s4 where f: "fold_outcome slow_output (outputs m) s = Inr s1" "on_frontend_abort s1 = Inr s2"
    "on_backend_fault errs s2 = Inr s3" "terminate_and_drop (aborted_requests m) s3 = Inr (s4, n, toks)" "s' = renew s4"
    by (rule control_path_parts[OF assms(2)])
  have "loop_inv I s1" using fold_outcome_inv[of "loop_inv I", OF slow_output_inv assms(1) f(1)] .
  then have "loop_inv I (s1\<lparr>cancel_req_ids := []\<rparr>)" by simp
  from fold_outcome_inv[of "loop_inv I", OF abort_one_inv this f(2)[unfolded on_frontend_abort_def]] have "loop_inv I s2" .
  from fold_outcome_inv[of "loop_inv I", OF fault_one_inv this f(3)[unfolded on_backend_fault_def]] have "loop_inv I s3" .
  from renew_inv[OF terminate_and_drop_inv[OF this f(4)]] f(5) show ?thesis by simp
qed

lemma completion_step_inv:
  assumes "loop_inv I s" "distinct (map entry_id wq)" "set (map entry_id wq) \<inter> I = {}"
    and "completion_step xxh bh_insert bh_remove now m wq errs ord_used ord_new (s, sctx) = Inr (s', sctx')"
  shows "loop_inv (I \<union> set (map entry_id wq)) s'"
proof -
  obtain s1 d s2 bh n toks where f: "fast_path xxh m (drain_wqe wq s) = Inr (s1, d)"
    "cache_update bh_insert bh_remove ord_used ord_new m s1 (sc_block_hash sctx) = Inr (s2, bh)"
    "control_path m errs s2 = Inr (s', n, toks)"
    by (rule completion_step_parts[OF assms(4)])
  from control_path_inv[OF cache_update_inv[OF fast_path_inv[OF drain_wqe_inv[OF assms(1-3)] f(1)] f(2)] f(3)]
  show ?thesis .
qed

lemma completion_step_buffers:
  assumes "completion_step xxh bh_insert bh_remove now m wq errs ord_used ord_new (s, sctx) = Inr (s', sctx')"
  shows "temp_leaving s' = [] \<and> skipped_fault s' = []"
  by (rule completion_step_parts[OF assms], erule control_path_parts) (simp add: renew_def)

section \<open>The whole loop\<close>

text \<open>The requests handed to the loop before the stream ends.\<close>

fun handed :: "received list \<Rightarrow> u64 list" where
  "handed [] = []"
| "handed (r # rs) =
     (case r of Step t \<Rightarrow> map entry_id (t_wq t) @ handed rs | RecvError \<Rightarrow> handed rs | StreamEnded \<Rightarrow> [])"

lemma completion_event_loop_inv:
  assumes "loop_inv I s" "distinct (handed rs)" "set (handed rs) \<inter> I = {}"
    and "completion_event_loop xxh bh_insert bh_remove rs (s, sctx) = Inr (s', sctx')"
  shows "loop_inv (I \<union> set (handed rs)) s'"
  using assms
proof (induction rs arbitrary: I s sctx)
  case (Cons r rs)
  show ?case
  proof (cases r)
    case (Step t)
    obtain s1 sctx1 where st: "completion_step xxh bh_insert bh_remove (t_now t) (t_step t) (t_wq t) (t_errs t)
        (t_used t) (t_new t) (s, sctx) = Inr (s1, sctx1)"
      "completion_event_loop xxh bh_insert bh_remove rs (s1, sctx1) = Inr (s', sctx')"
      using Cons.prems(4) Step by (auto split: sum.splits)
    have "loop_inv (I \<union> set (map entry_id (t_wq t))) s1"
      by (rule completion_step_inv[OF Cons.prems(1) _ _ st(1)]) (use Cons.prems(2,3) Step in auto)
    from Cons.IH[OF this _ _ st(2)] Cons.prems(2,3) Step show ?thesis by (simp add: Un_assoc) blast
  qed (use Cons in auto)
qed simp

section \<open>Properties\<close>

text \<open>C3: the event loop never loses or duplicates a request, whatever the engine reports: as long as
  request ids are not reused and the task has not panicked, every request handed to it is, at the
  end of any sequence of turns, either in \<^verbatim>\<open>entries\<close> (with a phase and no exception state), held
  by the exception context, or gone exactly once, and never in two of these places.\<close>

theorem event_loop_keeps_requests:
  assumes "distinct (handed rs)"
    and "completion_event_loop xxh bh_insert bh_remove rs (completion_new, sctx) = Inr (s, sctx')"
  shows "set (handed rs) = dom (cq_entries s) \<union> dom (ext_entries (except_context s)) \<union> set (gone s) \<and>
    dom (cq_entries s) \<inter> dom (ext_entries (except_context s)) = {} \<and>
    (dom (cq_entries s) \<union> dom (ext_entries (except_context s))) \<inter> set (gone s) = {} \<and> distinct (gone s) \<and>
    phases_ok s"
proof -
  have i: "loop_inv (set (handed rs)) s"
    using completion_event_loop_inv[OF loop_inv_new assms(1) _ assms(2)] by simp
  have "dom (cq_entries s) \<inter> dom (ext_entries (except_context s)) = {}"
    using loop_inv_disjoint(1)[OF i] by (fastforce simp: disjoint_iff domIff)
  with loop_invD(2,7-9)[OF i] show ?thesis by (auto simp: held_def)
qed

lemma event_loop_keeps_requests_witness:
  "\<exists>s c. completion_event_loop (\<lambda>_ h. h) ht_insert ht_remove example_run (completion_new, example_sctx) = Inr (s, c) \<and>
     dom (cq_entries s) \<union> dom (ext_entries (except_context s)) \<union> set (gone s) = {1, 2}"
proof -
  have h: "handed example_run = [1, 2]"
    by (simp add: example_run_def plain_turn_def batched_entry_def example_entry_def entry_id_def)
  obtain s c where r: "completion_event_loop (\<lambda>_ h. h) ht_insert ht_remove example_run (completion_new, example_sctx) = Inr (s, c)"
    using example_run_returns by blast
  from event_loop_keeps_requests[OF _ r] h r show ?thesis by (intro exI conjI) auto
qed

end
