(* ===== verification/LoopAccounting.thy ===== *)
theory LoopAccounting
  imports LoopInvariant
begin

text \<open>
  What one turn of the event loop does to the load metrics, to the clients, and when it cannot
  panic: the batch size is reduced by the requests that leave, a connected client is sent exactly the
  tokens of the step, and the slow path and the exception handling are total on the reports an
  engine may send.
\<close>

section \<open>Batch size\<close>

definition finishing :: "completion_state \<Rightarrow> request_step_output \<Rightarrow> bool" where
  "finishing s out \<longleftrightarrow> is_finished out \<and> cq_entries s (request_id out) \<noteq> None"

definition dom_cq :: "completion_state \<Rightarrow> u64 set" where
  "dom_cq s = dom (cq_entries s)"

lemma dom_store_held: "dom_cq (store_held rid e s) = dom_cq s" "retired (store_held rid e s) = retired s"
  "temp_leaving (store_held rid e s) = temp_leaving s"
  by (auto simp: store_held_def dom_cq_def)

lemma dom_cq_simps [simp]:
  "dom_cq (s\<lparr>temp_leaving := l\<rparr>) = dom_cq s" "dom_cq (s\<lparr>except_context := c\<rparr>) = dom_cq s"
  "dom_cq (s\<lparr>request_phases := p\<rparr>) = dom_cq s" "dom_cq (s\<lparr>retired := r\<rparr>) = dom_cq s"
  "dom_cq (s\<lparr>cancel_req_ids := i\<rparr>) = dom_cq s" "dom_cq (s\<lparr>skipped_fault := i\<rparr>) = dom_cq s"
  "dom_cq (s\<lparr>cq_entries := m\<rparr>) = dom m"
  by (simp_all add: dom_cq_def)

lemma fast_finish_effect:
  assumes "fast_finish toks rid (s, d) = Inr (s', d')"
  shows "\<exists>k. dom_cq s' = dom_cq s \<and> retired s' = retired s \<and> length (temp_leaving s') = length (temp_leaving s) + k \<and>
    bs_dec d' = bs_dec d + of_nat (k + (if cq_entries s rid \<noteq> None then 1 else 0))"
proof (cases "cq_entries s rid")
  case (Some e)
  with assms show ?thesis by (auto simp: fast_finish_def leave_delta_def)
next
  case None
  then obtain r ctx where "put (Exit rid) (except_context s) = Inr (r, ctx)"
    using assms by (auto simp: fast_finish_def split: sum.splits)
  with None assms show ?thesis
    by (cases r) (auto simp: fast_finish_def leave_delta_def dom_cq_def)
qed

lemma fast_output_effect:
  assumes "fast_output xxh dt out (s, d) = Inr (s', d')"
  shows "\<exists>k. dom_cq s' = dom_cq s \<and> retired s' = retired s \<and> length (temp_leaving s') = length (temp_leaving s) + k \<and>
    bs_dec d' = bs_dec d + of_nat (k + (if finishing s out then 1 else 0))"
proof (cases "is_finished out")
  case True
  then obtain toks d0 where "fast_finish toks (request_id out) (s, d0) = Inr (s', d')" "bs_dec d0 = bs_dec d"
    using assms by (auto simp: fast_output_def fast_prefill_def fast_decode_def Let_def split: if_splits)
  with fast_finish_effect[OF this(1)] True show ?thesis by (simp add: finishing_def)
next
  case False
  then have "dom_cq s' = dom_cq s \<and> retired s' = retired s \<and> temp_leaving s' = temp_leaving s \<and> bs_dec d' = bs_dec d"
    using assms by (auto simp: fast_output_def fast_prefill_def fast_decode_def Let_def dom_store_held
        split: if_splits sum.splits option.splits)
  with False show ?thesis by (intro exI[of _ 0]) (simp add: finishing_def)
qed

lemma finishing_dom: "dom_cq s = dom_cq s' \<Longrightarrow> finishing s = finishing s'"
  by (auto simp: finishing_def dom_cq_def fun_eq_iff domIff)

lemma fast_fold_effect:
  assumes "fold_outcome (fast_output xxh dt) outs (s, d) = Inr (s', d')"
  shows "\<exists>k. dom_cq s' = dom_cq s \<and> retired s' = retired s \<and> length (temp_leaving s') = length (temp_leaving s) + k \<and>
    bs_dec d' = bs_dec d + of_nat (k + length (filter (finishing s) outs))"
  using assms
proof (induction outs arbitrary: s d)
  case Nil
  then show ?case by (intro exI[of _ 0]) simp
next
  case (Cons out outs)
  then obtain s1 d1 where st: "fast_output xxh dt out (s, d) = Inr (s1, d1)"
    "fold_outcome (fast_output xxh dt) outs (s1, d1) = Inr (s', d')" by (auto split: sum.splits)
  obtain k where k: "dom_cq s1 = dom_cq s" "retired s1 = retired s" "length (temp_leaving s1) = length (temp_leaving s) + k"
    "bs_dec d1 = bs_dec d + of_nat (k + (if finishing s out then 1 else 0))"
    using fast_output_effect[OF st(1)] by blast
  obtain k2 where "dom_cq s' = dom_cq s1" "retired s' = retired s1" "length (temp_leaving s') = length (temp_leaving s1) + k2"
    "bs_dec d' = bs_dec d1 + of_nat (k2 + length (filter (finishing s1) outs))"
    using Cons.IH[OF st(2)] by blast
  with k finishing_dom[OF k(1)] show ?case by (intro exI[of _ "k + k2"]) simp
qed

lemma modify_anywhere_effect:
  assumes "modify_anywhere rid f s = Inr (s', r)"
  shows "dom_cq s' = dom_cq s \<and> retired s' = retired s \<and> length (temp_leaving s') = length (temp_leaving s)"
  using assms by (auto simp: modify_anywhere_def map_sum_def dom_store_held split: option.splits sum.splits)

lemma update_bids_effect:
  assumes "update_bids used rid s = Inr s'"
  shows "dom_cq s' = dom_cq s \<and> retired s' = retired s \<and> length (temp_leaving s') = length (temp_leaving s)"
  using assms modify_anywhere_effect
  by (fastforce simp: update_bids_def map_sum_def split: option.splits sum.splits list.splits)

lemma insert_blocks_effect:
  assumes "insert_blocks bh_insert new_ids rid t = Inr t'"
  shows "dom_cq (fst t') = dom_cq (fst t) \<and> retired (fst t') = retired (fst t) \<and>
    length (temp_leaving (fst t')) = length (temp_leaving (fst t))"
  using assms modify_anywhere_effect
  by (cases t) (fastforce simp: insert_blocks_def map_sum_def split: option.splits sum.splits list.splits onto.splits)

lemma cache_update_effect:
  assumes "cache_update bh_insert bh_remove ord_used ord_new m s bh = Inr (s', bh')"
  shows "dom_cq s' = dom_cq s \<and> retired s' = retired s \<and> length (temp_leaving s') = length (temp_leaving s)"
proof -
  let ?P = "\<lambda>t. dom_cq t = dom_cq s \<and> retired t = retired s \<and> length (temp_leaving t) = length (temp_leaving s)"
  obtain bh1 s1 n where f: "fold_outcome (update_bids (cur_used_block_ids m)) ord_used s = Inr s1"
    "fold_outcome (insert_blocks bh_insert (new_block_hashes_ids m)) ord_new (s1, bh1, 0) = Inr (s', bh', n)"
    using assms by (auto simp: cache_update_def map_sum_def split: sum.splits)
  have st1: "?P t'" if "?P t" "update_bids (cur_used_block_ids m) rid t = Inr t'" for rid t t'
    using that(1) update_bids_effect[OF that(2)] by simp
  have st2: "?P (fst t')" if "?P (fst t)" "insert_blocks bh_insert (new_block_hashes_ids m) rid t = Inr t'" for rid t t'
    using that(1) insert_blocks_effect[OF that(2)] by simp
  have "?P s1" by (rule fold_outcome_inv[where P = ?P, OF st1 _ f(1)]) simp_all
  then have "?P (fst (s', bh', n))"
    by (intro fold_outcome_inv[where P = "\<lambda>t. ?P (fst t)", OF st2 _ f(2)]) simp_all
  then show ?thesis by simp
qed

lemma slow_known_effect:
  assumes "slow_known handler rid fin e s = Inr s'" "rid \<in> dom_cq s"
  shows "dom_cq s' = (if fin then dom_cq s - {rid} else dom_cq s) \<and> temp_leaving s' = temp_leaving s \<and>
    length (retired s') = length (retired s) + (if fin then 1 else 0)"
  using assms
  by (cases "handler e") (auto simp: slow_known_def Let_def dom_cq_def split: if_splits sum.splits)

lemma track_phase_effect:
  assumes "track_phase out s = Inr s'"
  shows "cq_entries s' = cq_entries s" "temp_leaving s' = temp_leaving s" "retired s' = retired s"
    "cancel_req_ids s' = cancel_req_ids s" "skipped_fault s' = skipped_fault s" "except_context s' = except_context s"
  using assms by (auto simp: track_phase_def map_sum_def split: option.splits sum.splits)

lemma slow_output_effect:
  assumes "slow_output out s = Inr s'"
  shows "dom_cq s' = (if is_finished out then dom_cq s - {request_id out} else dom_cq s) \<and> temp_leaving s' = temp_leaving s \<and>
    length (retired s') = length (retired s) + (if finishing s out then 1 else 0)"
proof -
  obtain s1 where s1: "track_phase out s = Inr s1" using assms by (auto simp: slow_output_def split: sum.splits)
  note t = track_phase_effect[OF s1]
  have d: "dom_cq s1 = dom_cq s" using t(1) by (simp add: dom_cq_def)
  show ?thesis
  proof (cases "cq_entries s1 (request_id out)")
    case None
    then have "s' = s1" using assms s1 by (auto simp: slow_output_def Let_def split: if_splits)
    moreover have "request_id out \<notin> dom_cq s" using None t(1) by (simp add: dom_cq_def domIff)
    ultimately show ?thesis using t d by (simp add: finishing_def dom_cq_def domIff)
  next
    case (Some e)
    then obtain h where "slow_known h (request_id out) (is_finished out) e s1 = Inr s'"
      using assms s1 by (auto simp: slow_output_def Let_def split: if_splits)
    moreover have "request_id out \<in> dom_cq s1" using Some by (simp add: dom_cq_def domIff)
    ultimately show ?thesis using slow_known_effect Some t d by (fastforce simp: finishing_def)
  qed
qed

lemma slow_fold_effect:
  assumes "fold_outcome slow_output outs s = Inr s'" "distinct (map request_id outs)"
  shows "temp_leaving s' = temp_leaving s \<and> length (retired s') = length (retired s) + length (filter (finishing s) outs)"
  using assms
proof (induction outs arbitrary: s)
  case (Cons out outs)
  then obtain s1 where st: "slow_output out s = Inr s1" "fold_outcome slow_output outs s1 = Inr s'" by (auto split: sum.splits)
  note e = slow_output_effect[OF st(1)]
  have "finishing s1 o' = finishing s o'" if "o' \<in> set outs" for o'
  proof -
    have "request_id o' \<noteq> request_id out" using that Cons.prems(2)
      by (metis distinct.simps(2) image_eqI list.simps(9) list.set_map)
    then have "request_id o' \<in> dom_cq s1 \<longleftrightarrow> request_id o' \<in> dom_cq s" using e by auto
    then show ?thesis by (simp add: finishing_def dom_cq_def domIff)
  qed
  then have "filter (finishing s1) outs = filter (finishing s) outs" by (rule filter_cong[OF refl])
  with Cons.IH[OF st(2)] Cons.prems(2) e show ?case by simp
qed simp

lemma except_one_effect:
  assumes "except_one ev rid e s = Inr s'"
  shows "retired s' = retired s" "temp_leaving s' = temp_leaving s" "dom_cq s' = dom_cq s - {rid}"
    "cancel_req_ids s' = cancel_req_ids s" "skipped_fault s' = skipped_fault s"
  using assms by (auto simp: except_one_def mark_excepted_def Let_def map_sum_def dom_cq_def split: sum.splits if_splits)

lemma abort_fault_effect:
  "abort_one rid s = Inr s' \<Longrightarrow> retired s' = retired s \<and> temp_leaving s' = temp_leaving s"
  "fault_one rid s = Inr s' \<Longrightarrow> retired s' = retired s \<and> temp_leaving s' = temp_leaving s"
  by (auto simp: abort_one_def fault_one_def dest: except_one_effect(1) except_one_effect(2) split: option.splits if_splits)

lemma term_one_effect:
  assumes "term_one rid (s, n, toks) = Inr (s', n', toks')"
  shows "\<exists>k. n' = n + of_nat k \<and> length (retired s') = length (retired s) + k \<and> temp_leaving s' = temp_leaving s"
proof -
  obtain r ctx where "put (Term rid) (except_context s) = Inr (r, ctx)"
    using assms by (auto simp: term_one_def Let_def split: sum.splits)
  with assms show ?thesis
    by (cases r) (auto simp: term_one_def retire_def Let_def intro: exI[of _ 0] exI[of _ 1])
qed

lemma term_fold_effect:
  assumes "fold_outcome term_one ts (s, n, toks) = Inr (s', n', toks')"
  shows "\<exists>k. n' = n + of_nat k \<and> length (retired s') = length (retired s) + k \<and> temp_leaving s' = temp_leaving s"
  using assms
proof (induction ts arbitrary: s n toks)
  case Nil
  then show ?case by (auto intro: exI[of _ 0])
next
  case (Cons t ts)
  then obtain s1 n1 toks1 where st: "term_one t (s, n, toks) = Inr (s1, n1, toks1)"
    "fold_outcome term_one ts (s1, n1, toks1) = Inr (s', n', toks')" by (auto split: sum.splits)
  from term_one_effect[OF st(1)] Cons.IH[OF st(2)] show ?case by (elim exE) (rule exI, auto)
qed

lemma terminate_effect:
  assumes "terminate_and_drop ts s = Inr (s', n, toks)"
  shows "\<exists>k. n = of_nat k \<and> length (retired s') = length (retired s) + k \<and> temp_leaving s' = temp_leaving s"
proof -
  obtain s1 n1 toks1 dropped ctx where f: "fold_outcome term_one ts (s, 0, 0) = Inr (s1, n1, toks1)"
    "filter_drop (except_context s1) = Inr (dropped, ctx)"
    using assms by (auto simp: terminate_and_drop_def split: sum.splits)
  obtain k where "n1 = of_nat k" "length (retired s1) = length (retired s) + k" "temp_leaving s1 = temp_leaving s"
    using term_fold_effect[OF f(1)] by auto
  with f assms show ?thesis
    by (auto simp: terminate_and_drop_def fold_drop_entry intro: exI[of _ "k + length dropped"])
qed

lemma control_path_effect:
  assumes "control_path m errs s = Inr (s', n, toks)" "distinct (map request_id (outputs m))"
  shows "\<exists>k. n = of_nat k \<and> length (retired s') =
    length (retired s) + length (filter (finishing s) (outputs m)) + k + length (temp_leaving s)"
proof -
  obtain s1 s2 s3 s4 where f: "fold_outcome slow_output (outputs m) s = Inr s1" "on_frontend_abort s1 = Inr s2"
    "on_backend_fault errs s2 = Inr s3" "terminate_and_drop (aborted_requests m) s3 = Inr (s4, n, toks)" "s' = renew s4"
    by (rule control_path_parts[OF assms(1)])
  note e1 = slow_fold_effect[OF f(1) assms(2)]
  let ?P = "\<lambda>t. retired t = retired s1 \<and> temp_leaving t = temp_leaving s1"
  have p2: "?P s2"
    by (rule fold_outcome_inv[where P = ?P, OF _ _ f(2)[unfolded on_frontend_abort_def]]) (simp_all add: abort_fault_effect)
  have "?P s3"
    by (rule fold_outcome_inv[where P = ?P, OF _ p2 f(3)[unfolded on_backend_fault_def]]) (simp_all add: abort_fault_effect)
  with e1 terminate_effect[OF f(4)] f(5) show ?thesis by (auto simp: renew_def)
qed

lemma drain_effect: "retired (drain_wqe wq s) = retired s" "temp_leaving (drain_wqe wq s) = temp_leaving s"
  by (induction wq arbitrary: s) (simp_all add: drain_wqe_def drain_one_def)

lemma publish_bs: "unat (bs (publish_terms n toks lm)) = unat (bs lm) - unat n"
  by (simp add: publish_terms_def unat_sat_sub)

section \<open>The clients\<close>

definition open_channel :: "entry \<Rightarrow> bool" where
  "open_channel e \<longleftrightarrow> closes_after (response_tx e) = None"

lemma send_resp_open: "open_channel e \<Longrightarrow> send_resp r e = (e\<lparr>response_tx := (response_tx e)\<lparr>sent := sent (response_tx e) @ [r]\<rparr>\<rparr>, True)"
  by (simp add: send_resp_def chan_send_def open_channel_def)

lemma send_tokens_open:
  "open_channel e \<Longrightarrow>
     send_tokens ts e = (e\<lparr>response_tx := (response_tx e)\<lparr>sent := sent (response_tx e) @ map RIntermediate ts\<rparr>\<rparr>, True)"
proof (induction ts arbitrary: e)
  case (Cons t ts)
  have "open_channel (e\<lparr>response_tx := (response_tx e)\<lparr>sent := sent (response_tx e) @ [RIntermediate t]\<rparr>\<rparr>)"
    using Cons.prems by (simp add: open_channel_def)
  from Cons.IH[OF this] Cons.prems show ?case by (simp add: send_resp_open)
qed simp

definition step_responses :: "request_step_output \<Rightarrow> response list" where
  "step_responses out = (if state out = ''PREFILL'' then [RPrefill] else []) @ map RIntermediate (new_token_ids out)"

lemma handlers_open:
  assumes "open_channel e"
  shows "on_prefill ts e = (e\<lparr>response_tx := (response_tx e)\<lparr>sent := sent (response_tx e) @ RPrefill # map RIntermediate ts\<rparr>\<rparr>, True)"
    "on_decode ts e = (e\<lparr>response_tx := (response_tx e)\<lparr>sent := sent (response_tx e) @ map RIntermediate ts\<rparr>\<rparr>, True)"
proof -
  have "open_channel (e\<lparr>response_tx := (response_tx e)\<lparr>sent := sent (response_tx e) @ [RPrefill]\<rparr>\<rparr>)"
    using assms by (simp add: open_channel_def)
  from send_tokens_open[OF this] assms show
    "on_prefill ts e = (e\<lparr>response_tx := (response_tx e)\<lparr>sent := sent (response_tx e) @ RPrefill # map RIntermediate ts\<rparr>\<rparr>, True)"
    by (simp add: on_prefill_def send_resp_open)
  show "on_decode ts e = (e\<lparr>response_tx := (response_tx e)\<lparr>sent := sent (response_tx e) @ map RIntermediate ts\<rparr>\<rparr>, True)"
    using assms by (simp add: on_decode_def send_tokens_open)
qed

lemma transition_ok:
  "st \<in> {''PREFILL'', ''DECODE''} \<Longrightarrow> \<exists>ph'. transition ph st fin = Inr ph'"
  by (cases ph) (auto simp: transition_def)

lemma track_phase_ok:
  assumes "state out \<in> {''PREFILL'', ''DECODE''}"
  obtains s' where "track_phase out s = Inr s'"
proof (cases "request_phases s (request_id out)")
  case None
  then show ?thesis using that by (simp add: track_phase_def)
next
  case (Some ph)
  obtain ph' where "transition ph (state out) (is_finished out) = Inr ph'" using transition_ok[OF assms] by blast
  with Some that show ?thesis by (simp add: track_phase_def)
qed

text \<open>The entry with responses appended to what its client was sent.\<close>

definition sent_more :: "entry \<Rightarrow> response list \<Rightarrow> entry" where
  "sent_more e rs = e\<lparr>response_tx := (response_tx e)\<lparr>sent := sent (response_tx e) @ rs\<rparr>\<rparr>"

lemma sent_more_simps [simp]:
  "open_channel (sent_more e rs) = open_channel e" "batch_time (sent_more e rs) = batch_time e"
  "sent_more (sent_more e rs) rs' = sent_more e (rs @ rs')" "entry_id (sent_more e rs) = entry_id e"
  by (simp_all add: sent_more_def open_channel_def entry_id_def)

lemma on_finish_open:
  "open_channel e \<Longrightarrow> batch_time e \<noteq> None \<Longrightarrow> on_finish_request e = Inr (sent_more e [REnd])"
  by (simp add: on_finish_request_def send_resp_open sent_more_def)

lemma slow_known_open:
  assumes "handler e = (sent_more e rs, True)" "open_channel e" "batch_time e \<noteq> None" "rid \<notin> set (cancel_req_ids s)"
  shows "\<exists>s'. slow_known handler rid fin e s = Inr s' \<and> cancel_req_ids s' = cancel_req_ids s \<and>
    (if fin then cq_entries s' = (cq_entries s)(rid := None) \<and> request_phases s' rid = None \<and>
            retired s' = retired s @ [sent_more e (rs @ [REnd])]
     else cq_entries s' = (cq_entries s)(rid \<mapsto> sent_more e rs) \<and> retired s' = retired s)"
proof -
  have "cancel_req_ids s \<noteq> [] \<Longrightarrow> List.last (cancel_req_ids s) \<noteq> rid" using assms(4) last_in_set by metis
  moreover have "on_finish_request (sent_more e rs) = Inr (sent_more e (rs @ [REnd]))"
    using on_finish_open[of "sent_more e rs"] assms(2,3) by simp
  ultimately show ?thesis using assms(1) by (auto simp: slow_known_def Let_def)
qed

section \<open>Totality of the control path\<close>

text \<open>What holds between two outputs of the slow path, for outputs of distinct requests.\<close>

definition slow_ok :: "u64 set \<Rightarrow> completion_state \<Rightarrow> bool" where
  "slow_ok seen s \<longleftrightarrow> distinct (cancel_req_ids s) \<and> set (cancel_req_ids s) \<subseteq> dom_cq s \<inter> seen \<and>
     (\<forall>rid e. cq_entries s rid = Some e \<longrightarrow> batch_time e \<noteq> None)"

lemma slow_known_total:
  assumes "slow_ok seen s" "cq_entries s rid = Some e" "rid \<notin> seen" "batch_time (fst (handler e)) = batch_time e"
  shows "\<exists>s'. slow_known handler rid fin e s = Inr s' \<and> slow_ok (insert rid seen) s' \<and>
    skipped_fault s' = skipped_fault s \<and> except_context s' = except_context s"
proof -
  obtain e' b where h: "handler e = (e', b)" by (cases "handler e")
  have bt: "batch_time e' \<noteq> None" using assms(1,2,4) h by (auto simp: slow_ok_def)
  then obtain e'' where f: "on_finish_request e' = Inr e''" by (simp add: on_finish_request_def)
  have nin: "rid \<notin> set (cancel_req_ids s)" using assms(1,3) by (auto simp: slow_ok_def)
  then have nl: "cancel_req_ids s \<noteq> [] \<Longrightarrow> List.last (cancel_req_ids s) \<noteq> rid" using last_in_set by metis
  have dm: "rid \<in> dom_cq s" using assms(2) by (simp add: dom_cq_def domIff)
  show ?thesis
  proof (cases fin)
    case True
    have "\<exists>s'. slow_known handler rid fin e s = Inr s' \<and> cq_entries s' = (cq_entries s)(rid := None) \<and>
      cancel_req_ids s' = cancel_req_ids s \<and> skipped_fault s' = skipped_fault s \<and> except_context s' = except_context s"
      using True h f nl by (auto simp: slow_known_def Let_def)
    then obtain s' where "slow_known handler rid fin e s = Inr s'" "cq_entries s' = (cq_entries s)(rid := None)"
      "cancel_req_ids s' = cancel_req_ids s" "skipped_fault s' = skipped_fault s" "except_context s' = except_context s"
      by blast
    moreover from this nin assms(1) have "slow_ok (insert rid seen) s'" by (auto simp: slow_ok_def dom_cq_def)
    ultimately show ?thesis by blast
  next
    case False
    let ?s = "s\<lparr>cq_entries := (cq_entries s)(rid \<mapsto> e'), cancel_req_ids := (if b then cancel_req_ids s else cancel_req_ids s @ [rid])\<rparr>"
    have "slow_known handler rid fin e s = Inr ?s" using False h by (simp add: slow_known_def Let_def)
    moreover have "slow_ok (insert rid seen) ?s"
      using assms(1) nin bt dm by (auto simp: slow_ok_def dom_cq_def)
    ultimately show ?thesis by auto
  qed
qed

lemma slow_ok_mono: "slow_ok seen s \<Longrightarrow> slow_ok (insert rid seen) s"
  by (auto simp: slow_ok_def)

lemma slow_output_total:
  assumes "slow_ok seen s" "request_id out \<notin> seen" "state out \<in> {''PREFILL'', ''DECODE''}"
  shows "\<exists>s'. slow_output out s = Inr s' \<and> slow_ok (insert (request_id out) seen) s' \<and>
    skipped_fault s' = skipped_fault s \<and> except_context s' = except_context s"
proof -
  obtain s1 where s1: "track_phase out s = Inr s1" by (rule track_phase_ok[OF assms(3)])
  note t = track_phase_effect[OF s1]
  have ok: "slow_ok seen s1" using assms(1) t by (simp add: slow_ok_def dom_cq_def)
  show ?thesis
  proof (cases "cq_entries s1 (request_id out)")
    case None
    then show ?thesis using assms(3) s1 t slow_ok_mono[OF ok] by (auto simp: slow_output_def Let_def)
  next
    case (Some e)
    from slow_known_total[OF ok Some assms(2), of "on_prefill (new_token_ids out)" "is_finished out"]
      slow_known_total[OF ok Some assms(2), of "on_decode (new_token_ids out)" "is_finished out"]
    show ?thesis using assms(3) s1 t Some by (auto simp: slow_output_def Let_def)
  qed
qed

lemma slow_fold_total:
  assumes "slow_ok seen s" "distinct (map request_id outs)" "set (map request_id outs) \<inter> seen = {}"
    and "\<forall>out\<in>set outs. state out \<in> {''PREFILL'', ''DECODE''}"
  shows "\<exists>s'. fold_outcome slow_output outs s = Inr s' \<and> slow_ok (seen \<union> set (map request_id outs)) s' \<and>
    skipped_fault s' = skipped_fault s \<and> except_context s' = except_context s"
  using assms
proof (induction outs arbitrary: s seen)
  case (Cons out outs)
  obtain s1 where s1: "slow_output out s = Inr s1" "slow_ok (insert (request_id out) seen) s1"
    "skipped_fault s1 = skipped_fault s" "except_context s1 = except_context s"
    using slow_output_total[OF Cons.prems(1), of out] Cons.prems(3,4) by auto
  from Cons.IH[OF s1(2)] Cons.prems(2-4) s1 show ?case by auto
qed simp

definition tracked :: "completion_state \<Rightarrow> u64 set" where
  "tracked s = dom (st_of (except_context s))"

lemma except_one_total:
  assumes "loop_inv I s" "cq_entries s rid = Some e0" "entry_id e = rid" "entering ev rid"
  shows "\<exists>s'. except_one ev rid e s = Inr s' \<and> loop_inv I s' \<and> tracked s \<subseteq> tracked s'"
proof -
  obtain st ctx where p: "put (ev e) (except_context s) = Inr (None, ctx)"
    "st_of ctx = (st_of (except_context s))(rid \<mapsto> st)"
    by (rule put_enter_effect[OF assms(4) loop_invD(1)[OF assms(1)] loop_inv_disjoint(2)[OF assms(1,2)]])
  then have "\<exists>s'. except_one ev rid e s = Inr s' \<and> except_context s' = ctx"
    by (simp add: except_one_def mark_excepted_def Let_def)
  then obtain s' where s': "except_one ev rid e s = Inr s'" "except_context s' = ctx" by blast
  with except_one_inv[OF assms s'(1)] p(2) show ?thesis by (auto simp: tracked_def)
qed

lemma abort_fold_total:
  assumes "loop_inv I s" "distinct ids" "set ids \<subseteq> dom_cq s"
  shows "\<exists>s'. fold_outcome abort_one ids s = Inr s' \<and> loop_inv I s' \<and> dom_cq s' = dom_cq s - set ids \<and>
    set (skipped_fault s') = set (skipped_fault s) \<union> set ids \<and> tracked s \<subseteq> tracked s'"
  using assms
proof (induction ids arbitrary: s)
  case (Cons rid ids)
  obtain e where e: "cq_entries s rid = Some e" using Cons.prems(3) by (auto simp: dom_cq_def)
  let ?s = "s\<lparr>skipped_fault := skipped_fault s @ [rid]\<rparr>"
  have i: "loop_inv I ?s" using Cons.prems(1) by simp
  have id: "entry_id e = rid" by (rule keyedD[OF loop_invD(4)[OF Cons.prems(1)] e])
  obtain s1 where s1: "except_one (Abort rid) rid e ?s = Inr s1" "loop_inv I s1" "tracked ?s \<subseteq> tracked s1"
    using except_one_total[OF i _ id, of e "Abort rid"] e by (auto simp: entering_def)
  note x = except_one_effect[OF s1(1)]
  have "abort_one rid s = Inr s1" using e s1(1) by (simp add: abort_one_def)
  moreover obtain s' where "fold_outcome abort_one ids s1 = Inr s'" "loop_inv I s'" "dom_cq s' = dom_cq s1 - set ids"
    "set (skipped_fault s') = set (skipped_fault s1) \<union> set ids" "tracked s1 \<subseteq> tracked s'"
    using Cons.IH[OF s1(2)] Cons.prems(2,3) x(3) by auto
  moreover have "tracked s \<subseteq> tracked s1" using s1(3) by (simp add: tracked_def)
  ultimately show ?case using x(3,5) by auto
qed simp

lemma fault_fold_total:
  assumes "loop_inv I s" "distinct errs" "set errs \<subseteq> dom_cq s \<union> set (skipped_fault s)"
  shows "\<exists>s'. fold_outcome fault_one errs s = Inr s' \<and> loop_inv I s' \<and> tracked s \<subseteq> tracked s'"
  using assms
proof (induction errs arbitrary: s)
  case (Cons rid errs)
  show ?case
  proof (cases "rid \<in> set (skipped_fault s)")
    case True
    with Cons show ?thesis by (simp add: fault_one_def)
  next
    case False
    then obtain e where e: "cq_entries s rid = Some e" using Cons.prems(3) by (auto simp: dom_cq_def)
    have id: "entry_id (fst (send_resp RGenerationError e)) = rid"
      using keyedD[OF loop_invD(4)[OF Cons.prems(1)] e] by simp
    obtain s1 where s1: "except_one (Fault rid) rid (fst (send_resp RGenerationError e)) s = Inr s1" "loop_inv I s1"
      "tracked s \<subseteq> tracked s1"
      using except_one_total[OF Cons.prems(1) e id, of "Fault rid"] by (auto simp: entering_def)
    note x = except_one_effect[OF s1(1)]
    obtain s' where "fold_outcome fault_one errs s1 = Inr s'" "loop_inv I s'" "tracked s1 \<subseteq> tracked s'"
      using Cons.IH[OF s1(2)] Cons.prems(2,3) x(3,5) by auto
    have "fault_one rid s = Inr s1" using e s1(1) False by (simp add: fault_one_def)
    with \<open>fold_outcome fault_one errs s1 = Inr s'\<close> \<open>loop_inv I s'\<close> \<open>tracked s1 \<subseteq> tracked s'\<close> s1(3)
    show ?thesis by auto
  qed
qed simp

lemma term_fold_total:
  assumes "loop_inv I s" "distinct ts" "set ts \<subseteq> tracked s"
  shows "\<exists>t'. fold_outcome term_one ts (s, n, toks) = Inr t' \<and> loop_inv I (fst t')"
  using assms
proof (induction ts arbitrary: s n toks)
  case (Cons rid ts)
  have "event_ok (Term rid) (except_context s)" using Cons.prems(3) by (auto simp: tracked_def)
  then obtain r ctx where p: "put (Term rid) (except_context s) = Inr (r, ctx)"
    using put_view[OF loop_invD(1)[OF Cons.prems(1)]] by blast
  have "\<exists>s1 n1 toks1. term_one rid (s, n, toks) = Inr (s1, n1, toks1) \<and> except_context s1 = ctx"
    using p by (cases r) (auto simp: term_one_def retire_def Let_def)
  then obtain s1 n1 toks1 where s1: "term_one rid (s, n, toks) = Inr (s1, n1, toks1)" "except_context s1 = ctx" by blast
  have i: "loop_inv I s1" by (rule term_one_inv[OF Cons.prems(1) s1(1)])
  have "tracked s1 = tracked s - {rid}"
    using s1(2) put_term_effect(4)[OF p loop_invD(1)[OF Cons.prems(1)]] by (auto simp: tracked_def)
  then have "set ts \<subseteq> tracked s1" using Cons.prems(2,3) by auto
  from Cons.IH[OF i _ this] Cons.prems(2) s1(1) show ?case by simp
qed simp

lemma terminate_and_drop_total:
  assumes "loop_inv I s" "distinct ts" "set ts \<subseteq> tracked s"
  shows "\<exists>t'. terminate_and_drop ts s = Inr t'"
proof -
  obtain t' where f: "fold_outcome term_one ts (s, 0, 0) = Inr t'" "loop_inv I (fst t')"
    using term_fold_total[OF assms] by blast
  obtain dropped ctx where "filter_drop (except_context (fst t')) = Inr (dropped, ctx)"
    by (rule filter_drop_effect[OF loop_invD(1)[OF f(2)]])
  with f(1) show ?thesis by (cases t') (simp add: terminate_and_drop_def fold_drop_entry)
qed

text \<open>What an engine may report: valid states, one output per request, errors of distinct running
  requests that do not finish in the step, and acknowledgements of aborts it was asked for.\<close>

definition report_ok :: "engine_step_output \<Rightarrow> u64 list \<Rightarrow> completion_state \<Rightarrow> bool" where
  "report_ok m errs s \<longleftrightarrow>
     distinct (map request_id (outputs m)) \<and> (\<forall>out\<in>set (outputs m). state out \<in> {''PREFILL'', ''DECODE''}) \<and>
     distinct errs \<and> set errs \<subseteq> dom_cq s \<and> (\<forall>out\<in>set (outputs m). is_finished out \<longrightarrow> request_id out \<notin> set errs) \<and>
     distinct (aborted_requests m) \<and> set (aborted_requests m) \<subseteq> tracked s"

lemma slow_fold_dom:
  assumes "fold_outcome slow_output outs s = Inr s'" "\<forall>out\<in>set outs. is_finished out \<longrightarrow> request_id out \<notin> X"
    "X \<subseteq> dom_cq s"
  shows "X \<subseteq> dom_cq s'"
  using assms
proof (induction outs arbitrary: s)
  case (Cons out outs)
  then obtain s1 where st: "slow_output out s = Inr s1" "fold_outcome slow_output outs s1 = Inr s'" by (auto split: sum.splits)
  have "X \<subseteq> dom_cq s1" using slow_output_effect[OF st(1)] Cons.prems(2,3) by auto
  with Cons.IH[OF st(2)] Cons.prems(2) show ?case by simp
qed simp

lemma control_path_returns:
  assumes "loop_inv I s" "slow_ok {} s" "report_ok m errs s"
  shows "\<exists>t'. control_path m errs s = Inr t'"
proof -
  obtain s1 where s1: "fold_outcome slow_output (outputs m) s = Inr s1" "slow_ok (set (map request_id (outputs m))) s1"
    "except_context s1 = except_context s"
    using slow_fold_total[OF assms(2), of "outputs m"] assms(3) by (auto simp: report_ok_def)
  have i1: "loop_inv I s1" by (rule fold_outcome_inv[of "loop_inv I", OF slow_output_inv assms(1) s1(1)])
  have e1: "set errs \<subseteq> dom_cq s1"
    using slow_fold_dom[OF s1(1), of "set errs"] assms(3) by (auto simp: report_ok_def)
  let ?s1 = "s1\<lparr>cancel_req_ids := []\<rparr>"
  obtain s2 where s2: "fold_outcome abort_one (rev (cancel_req_ids s1)) ?s1 = Inr s2" "loop_inv I s2"
    "dom_cq s2 = dom_cq ?s1 - set (cancel_req_ids s1)"
    "set (skipped_fault s2) = set (skipped_fault ?s1) \<union> set (cancel_req_ids s1)" "tracked ?s1 \<subseteq> tracked s2"
    using abort_fold_total[of I ?s1 "rev (cancel_req_ids s1)"] i1 s1(2) by (auto simp: slow_ok_def)
  obtain s3 where s3: "fold_outcome fault_one errs s2 = Inr s3" "loop_inv I s3" "tracked s2 \<subseteq> tracked s3"
    using fault_fold_total[OF s2(2), of errs] e1 s2(3,4) assms(3) by (auto simp: report_ok_def)
  have "tracked s \<subseteq> tracked s3" using s1(3) s2(5) s3(3) by (auto simp: tracked_def)
  then have "set (aborted_requests m) \<subseteq> tracked s3" "distinct (aborted_requests m)"
    using assms(3) by (auto simp: report_ok_def)
  then obtain t' where "terminate_and_drop (aborted_requests m) s3 = Inr t'"
    using terminate_and_drop_total[OF s3(2)] by blast
  with s1(1) s2(1) s3(1) show ?thesis
    by (cases t') (simp add: control_path_def on_frontend_abort_def on_backend_fault_def)
qed

section \<open>Properties\<close>

text \<open>C5: the batch size of a replica counts the requests that have not left: over one turn that
  returns, with one output per request, it falls by exactly the number of requests that left the
  loop in the turn (finished, terminated or dropped), stopping at zero.\<close>

theorem batch_size_accounting:
  assumes "completion_step xxh bh_insert bh_remove now m wq errs ord_used ord_new (s, sctx) = Inr (s', sctx')"
    and "distinct (map request_id (outputs m))" "temp_leaving s = []" "length (retired s') < 2 ^ 64"
  shows "length (retired s) \<le> length (retired s') \<and>
    unat (bs (sc_lmetric sctx')) = unat (bs (sc_lmetric sctx)) - (length (retired s') - length (retired s))"
proof -
  let ?s0 = "drain_wqe wq s"
  obtain s1 d s2 bh n toks where f: "fast_path xxh m ?s0 = Inr (s1, d)"
    "cache_update bh_insert bh_remove ord_used ord_new m s1 (sc_block_hash sctx) = Inr (s2, bh)"
    "control_path m errs s2 = Inr (s', n, toks)"
    "sc_lmetric sctx' = publish_terms n toks (lmetric_sub now (sc_lmetric sctx) d)"
    by (rule completion_step_parts[OF assms(1)])
  let ?F = "length (filter (finishing ?s0) (outputs m))"
  obtain k where k: "dom_cq s1 = dom_cq ?s0" "retired s1 = retired s" "length (temp_leaving s1) = k"
    "bs_dec d = of_nat (k + ?F)"
    using fast_fold_effect[OF f(1)[unfolded fast_path_def Let_def]] assms(3)
    by (auto simp: lmetric_dec_new_def drain_effect)
  note c = cache_update_effect[OF f(2)]
  have "finishing s2 = finishing ?s0" using c k(1) by (intro finishing_dom) simp
  then obtain j where j: "n = of_nat j" "length (retired s') = length (retired s) + ?F + j + k"
    using control_path_effect[OF f(3) assms(2)] c k(2,3) by auto
  have small: "unat (of_nat x :: usize) = x" if "x < 2 ^ 64" for x
    using that by (simp add: unsigned_of_nat take_bit_nat_eq_self)
  have "unat (bs_dec d) = k + ?F" unfolding k(4) by (rule small) (use assms(4) j(2) in simp)
  moreover have "unat n = j" unfolding j(1) by (rule small) (use assms(4) j(2) in simp)
  ultimately show ?thesis using f(4) j(2) by (simp add: publish_bs unat_sat_sub)
qed

lemma batch_size_accounting_witness:
  "\<exists>s c. completion_step (\<lambda>_ h. h) ht_insert ht_remove 5 example_step [batched_entry 1 [7], batched_entry 2 [8]] [] [] []
     (completion_new, example_sctx) = Inr (s, c) \<and> unat (bs (sc_lmetric c)) = 1"
proof -
  obtain s c where r: "completion_step (\<lambda>_ h. h) ht_insert ht_remove 5 example_step [batched_entry 1 [7], batched_entry 2 [8]] [] [] []
     (completion_new, example_sctx) = Inr (s, c)" "length (retired s) = 1" using example_step_returns by blast
  have "distinct (map request_id (outputs example_step))" by (simp add: example_step_def output_of_def)
  from batch_size_accounting[OF r(1) this] r show ?thesis
    by (simp add: completion_new_def) (simp add: example_sctx_def)
qed

lemma slow_output_sends:
  assumes "cq_entries s (request_id out) = Some e" "open_channel e" "batch_time e \<noteq> None"
    and "state out \<in> {''PREFILL'', ''DECODE''}" "request_id out \<notin> set (cancel_req_ids s)"
  shows "\<exists>s'. slow_output out s = Inr s' \<and> cancel_req_ids s' = cancel_req_ids s \<and>
    (if is_finished out
     then cq_entries s' = (cq_entries s)(request_id out := None) \<and> request_phases s' (request_id out) = None \<and>
       retired s' = retired s @ [sent_more e (step_responses out @ [REnd])]
     else cq_entries s' = (cq_entries s)(request_id out \<mapsto> sent_more e (step_responses out)) \<and> retired s' = retired s)"
proof -
  obtain s1 where s1: "track_phase out s = Inr s1" by (rule track_phase_ok[OF assms(4)])
  note t = track_phase_effect[OF s1]
  define h where "h = (if state out = ''PREFILL'' then on_prefill (new_token_ids out) else on_decode (new_token_ids out))"
  have h: "h e = (sent_more e (step_responses out), True)"
    using handlers_open[OF assms(2)] assms(4) by (auto simp: h_def sent_more_def step_responses_def)
  have "slow_output out s = slow_known h (request_id out) (is_finished out) e s1"
    using assms(1,4) s1 t by (auto simp: slow_output_def Let_def h_def)
  with slow_known_open[where handler = h and e = e, OF h assms(2,3), of "request_id out" s1 "is_finished out"] assms(5) t show ?thesis
    by auto
qed

text \<open>C8: a connected client is sent exactly what the engine produced: for a request of
  \<^verbatim>\<open>entries\<close> whose client reads on, the slow path appends the prefill notice (for a prefill
  output), every new token in order, and the end marker exactly when the request finishes, in which
  case the request leaves; no cancellation is asked for and no other request is touched.\<close>

theorem slow_output_delivers:
  assumes "cq_entries s (request_id out) = Some e" "open_channel e" "batch_time e \<noteq> None"
    and "state out \<in> {''PREFILL'', ''DECODE''}" "request_id out \<notin> set (cancel_req_ids s)"
  shows "\<exists>s'. slow_output out s = Inr s' \<and> cancel_req_ids s' = cancel_req_ids s \<and>
    (if is_finished out
     then cq_entries s' = (cq_entries s)(request_id out := None) \<and> request_phases s' (request_id out) = None \<and>
       retired s' = retired s @ [sent_more e (step_responses out @ [REnd])]
     else cq_entries s' = (cq_entries s)(request_id out \<mapsto> sent_more e (step_responses out)) \<and> retired s' = retired s)"
  by (rule slow_output_sends[OF assms])

lemma slow_output_delivers_witness:
  "\<exists>s'. slow_output (output_of 1 ''PREFILL'' True) (completion_new\<lparr>cq_entries := [1 \<mapsto> batched_entry 1 [7]]\<rparr>) = Inr s' \<and>
     retired s' = [sent_more (batched_entry 1 [7]) [RPrefill, REnd]]"
proof -
  let ?s = "completion_new\<lparr>cq_entries := [1 \<mapsto> batched_entry 1 [7]]\<rparr>" and ?o = "output_of 1 ''PREFILL'' True"
  have "cq_entries ?s (request_id ?o) = Some (batched_entry 1 [7])" "open_channel (batched_entry 1 [7])"
    "batch_time (batched_entry 1 [7]) \<noteq> None" "state ?o \<in> {''PREFILL'', ''DECODE''}"
    "request_id ?o \<notin> set (cancel_req_ids ?s)"
    by (simp_all add: output_of_def completion_new_def open_channel_def batched_entry_def example_entry_def)
  from slow_output_delivers[OF this] show ?thesis
    by (auto simp: output_of_def step_responses_def completion_new_def)
qed

text \<open>C6: passing on the generations and handling the exceptions cannot panic: from a state of the
  invariant at the start of the slow path, for any report with valid states, one output per request,
  errors of distinct running requests that do not finish in the same step, and acknowledgements of
  aborts that were asked for, whichever clients have gone away, the rest of the turn returns, keeps
  the invariant and leaves the buffers of the turn empty.\<close>

theorem control_path_total:
  assumes "loop_inv I s" "slow_ok {} s" "report_ok m errs s"
  shows "\<exists>s' n toks. control_path m errs s = Inr (s', n, toks) \<and> loop_inv I s' \<and>
    temp_leaving s' = [] \<and> skipped_fault s' = []"
proof -
  obtain s' n toks where c: "control_path m errs s = Inr (s', n, toks)" using control_path_returns[OF assms] by auto
  then have "temp_leaving s' = [] \<and> skipped_fault s' = []" by (elim control_path_parts) (simp add: renew_def)
  with c control_path_inv[OF assms(1) c] show ?thesis by blast
qed

lemma control_path_total_witness:
  "\<exists>s' n toks. control_path (empty_step\<lparr>outputs := [output_of 1 ''DECODE'' False]\<rparr>) [1] (drain_wqe [batched_entry 1 [7]] completion_new) =
     Inr (s', n, toks)"
proof -
  have i: "loop_inv {1} (drain_wqe [batched_entry 1 [7]] completion_new)"
    using drain_wqe_inv[OF loop_inv_new, of "[batched_entry 1 [7]]"]
    by (simp add: batched_entry_def example_entry_def entry_id_def)
  have "slow_ok {} (drain_wqe [batched_entry 1 [7]] completion_new)"
    by (auto simp: slow_ok_def drain_wqe_def drain_one_def completion_new_def batched_entry_def)
  moreover have "report_ok (empty_step\<lparr>outputs := [output_of 1 ''DECODE'' False]\<rparr>) [1] (drain_wqe [batched_entry 1 [7]] completion_new)"
    by (simp add: report_ok_def empty_step_def output_of_def dom_cq_def drain_wqe_def drain_one_def completion_new_def
        batched_entry_def example_entry_def entry_id_def)
  ultimately show ?thesis using control_path_total[OF i] by blast
qed

end
