(* ===== verification/Decimal.thy ===== *)
theory Decimal
  imports Prelude
begin

text \<open>
  Numbers as text, where the program prints and parses them with the standard library: request ids in
  the engine's protocol, in headers and answers, ports in addresses, keys of the prediction tables.
\<close>

section \<open>Printing and parsing\<close>

text \<open>\<^verbatim>\<open>Display\<close> of an unsigned integer: its decimal digits.\<close>

fun decimal :: "nat \<Rightarrow> string" where
  "decimal n = (if n < 10 then [char_of (48 + n)] else decimal (n div 10) @ [char_of (48 + n mod 10)])"

declare decimal.simps [simp del]

definition show_word :: "'a::len word \<Rightarrow> string" where
  "show_word w = decimal (unat w)"

text \<open>\<^verbatim>\<open>str::parse::<u64>\<close>: decimal digits after an optional plus sign, at least one, within range.\<close>

definition digit_of :: "char \<Rightarrow> nat option" where
  "digit_of c = (if 48 \<le> (of_char c :: nat) \<and> (of_char c :: nat) \<le> 57 then Some (of_char c - 48) else None)"

fun parse_digits :: "nat \<Rightarrow> string \<Rightarrow> nat option" where
  "parse_digits n [] = Some n"
| "parse_digits n (c # cs) =
     (case digit_of c of
        None \<Rightarrow> None
      | Some d \<Rightarrow> if 10 * n + d < 2 ^ 64 then parse_digits (10 * n + d) cs else None)"

definition parse_u64 :: "string \<Rightarrow> u64 option" where
  "parse_u64 s =
     (let digits = (case s of CHR ''+'' # cs \<Rightarrow> cs | _ \<Rightarrow> s)
      in if digits = [] then None else map_option of_nat (parse_digits 0 digits))"

section \<open>Round trip\<close>

lemma parse_digits_append: "parse_digits n (xs @ ys) = Option.bind (parse_digits n xs) (\<lambda>k. parse_digits k ys)"
  by (induction n xs rule: parse_digits.induct) (auto split: option.split)

lemma digit_of_digit: "d < 10 \<Longrightarrow> digit_of (char_of (48 + d)) = Some d"
  by (simp add: digit_of_def)

lemma parse_decimal: "n < 2 ^ 64 \<Longrightarrow> parse_digits 0 (decimal n) = Some n"
proof (induction n rule: decimal.induct)
  case (1 n)
  show ?case
  proof (cases "n < 10")
    case True
    then show ?thesis by (simp add: decimal.simps[of n] digit_of_digit)
  next
    case False
    have eq: "10 * (n div 10) + n mod 10 = n" by simp
    from False 1 have "parse_digits 0 (decimal (n div 10)) = Some (n div 10)" by simp
    then show ?thesis using False 1(2) eq
      by (simp add: decimal.simps[of n] parse_digits_append digit_of_digit del: mult_div_mod_eq)
  qed
qed

lemma decimal_digits: "c \<in> set (decimal n) \<Longrightarrow> digit_of c \<noteq> None"
proof (induction n rule: decimal.induct)
  case (1 n)
  show ?case
  proof (cases "n < 10")
    case True
    with 1(2) show ?thesis by (simp add: decimal.simps[of n] digit_of_digit)
  next
    case False
    with 1 show ?thesis by (auto simp: decimal.simps[of n] digit_of_digit)
  qed
qed

lemma decimal_not_Nil [simp]: "decimal n \<noteq> []"
  by (subst decimal.simps) simp

lemma parse_show [simp]: "parse_u64 (show_word (rid :: u64)) = Some rid"
proof -
  obtain c cs where d: "decimal (unat rid) = c # cs" by (cases "decimal (unat rid)") auto
  have "digit_of c \<noteq> None" using decimal_digits[of c "unat rid"] d by simp
  then have "c \<noteq> CHR ''+''" by (auto simp: digit_of_def)
  then have "(case decimal (unat rid) of CHR ''+'' # xs \<Rightarrow> xs | _ \<Rightarrow> decimal (unat rid)) = decimal (unat rid)"
    unfolding d by (auto split: char.split bool.split)
  moreover have "unat rid < 2 ^ 64" using unsigned_less[of rid] by simp
  ultimately show ?thesis by (simp add: parse_u64_def show_word_def parse_decimal Let_def)
qed

section \<open>Fields of a line\<close>

text \<open>\<^verbatim>\<open>split(',')\<close> always yields at least one part; \<^verbatim>\<open>trim\<close> for the white space of ASCII.\<close>

fun split_on :: "char \<Rightarrow> string \<Rightarrow> string list" where
  "split_on sep [] = [[]]"
| "split_on sep (c # cs) =
     (if c = sep then [] # split_on sep cs
      else case split_on sep cs of [] \<Rightarrow> [[c]] | p # ps \<Rightarrow> (c # p) # ps)"

definition is_space :: "char \<Rightarrow> bool" where
  "is_space c \<longleftrightarrow> (of_char c :: nat) \<in> {9, 10, 11, 12, 13, 32}"

definition trim :: "string \<Rightarrow> string" where
  "trim s = rev (dropWhile is_space (rev (dropWhile is_space s)))"

lemma split_on_no_sep: "sep \<notin> set xs \<Longrightarrow> split_on sep xs = [xs]"
  by (induction xs) auto

lemma split_on_append: "sep \<notin> set xs \<Longrightarrow> split_on sep (xs @ sep # ys) = xs # split_on sep ys"
  by (induction xs) auto

lemma trim_id: "\<forall>c\<in>set s. \<not> is_space c \<Longrightarrow> trim s = s"
  by (simp add: trim_def dropWhile_eq_self_iff) (metis dropWhile_eq_self_iff hd_in_set rev_rev_ident set_rev)

lemma decimal_chars:
  assumes "c \<in> set (decimal n)"
  shows "\<not> is_space c \<and> c \<noteq> CHR '',''"
  using decimal_digits[OF assms] by (auto simp: digit_of_def is_space_def)

text \<open>\<^verbatim>\<open>{:?}\<close> of a string of printable ASCII characters, quotes, backslashes and line breaks.\<close>

definition escape_char :: "char \<Rightarrow> string" where
  "escape_char ch = (if ch = CHR 0x22 \<or> ch = CHR 0x5C then [CHR 0x5C, ch]
     else if ch = CHR 0x0A then [CHR 0x5C, CHR ''n''] else if ch = CHR 0x0D then [CHR 0x5C, CHR ''r'']
     else if ch = CHR 0x09 then [CHR 0x5C, CHR ''t''] else [ch])"

definition debug_string :: "string \<Rightarrow> string" where
  "debug_string s = [CHR 0x22] @ concat (map escape_char s) @ [CHR 0x22]"

end
