(* ===== verification/VidurRf.thy ===== *)
theory VidurRf
  imports Predictor Decimal
begin

text \<open>
  The offline latency predictor \<^verbatim>\<open>simulator/vidur_rf.rs\<close> with its configuration
  (\<^verbatim>\<open>simulator/config.rs\<close>): prediction tables read from CSV files and a sum of table entries per
  forward step. \<^verbatim>\<open>f32\<close> values are real numbers and their parser is an argument; a file is the list of
  its lines. Rounding to a granularity of zero divides by zero, a panic.
\<close>

section \<open>Configuration\<close>

datatype model_kind = Llama | Moe

record simulator_config =
  model_hash :: string
  cf_cache_dir :: string
  cf_model_kind :: model_kind
  num_layers :: usize
  num_pipeline_stages :: usize
  tensor_parallel_size :: usize
  post_attn_norm :: bool
  prefill_batching_overhead :: real
  decode_batching_overhead :: real
  cf_token_budget :: u32
  cf_block_size :: usize
  cf_num_blocks :: usize
  kv_granularity :: usize
  flops_granularity :: usize
  nccl_launch_overhead :: "real option"
  nccl_skew_overhead :: "real option"
  skip_cpu_overhead :: bool
  cf_learning_rate :: real
  linreg_warmup :: usize
  outlier_threshold_ms :: real

definition simulator_config_default :: simulator_config where
  "simulator_config_default = \<lparr>model_hash = ''9f4b3b9a'', cf_cache_dir = ''/nvme/zkx/Modified_vidur/cache'', cf_model_kind = Llama,
     num_layers = 28, num_pipeline_stages = 1, tensor_parallel_size = 1, post_attn_norm = True,
     prefill_batching_overhead = 1 / 10, decode_batching_overhead = 4 / 10, cf_token_budget = 1024, cf_block_size = 16,
     cf_num_blocks = 80860, kv_granularity = 64, flops_granularity = 1024, nccl_launch_overhead = None, nccl_skew_overhead = None,
     skip_cpu_overhead = True, cf_learning_rate = 1 / 10000, linreg_warmup = 10, outlier_threshold_ms = 1 / 2\<rparr>"

section \<open>Tables\<close>

type_synonym grid = "usize \<times> usize \<rightharpoonup> real"

record vidur =
  v_config :: simulator_config
  grids :: "string \<rightharpoonup> grid"
  full_token_cache :: "string \<rightharpoonup> real"

definition fallback_ms :: "string \<Rightarrow> real" where
  "fallback_ms op =
     (if op = ''attn_prefill'' then 400
      else if op = ''attn_decode'' then 30
      else if op = ''schedule'' then 10
      else if op = ''sampler_e2e'' then 80
      else if op \<in> {''attn_pre_proj'', ''attn_post_proj''} then 40
      else if op = ''moe_linear'' then 100
      else if op \<in> {''input_layernorm'', ''post_attention_layernorm'', ''add'', ''attn_rope'', ''attn_kv_cache_save''} then 10
      else 0)"

definition llama_full_token_ops :: "string list" where
  "llama_full_token_ops = [''attn_pre_proj'', ''attn_post_proj'', ''mlp_up_proj'', ''mlp_down_proj'', ''mlp_act'', ''attn_rope'',
     ''attn_kv_cache_save'', ''input_layernorm'', ''post_attention_layernorm'', ''add'']"

definition moe_full_token_ops :: "string list" where
  "moe_full_token_ops = [''attn_pre_proj'', ''attn_post_proj'', ''moe_linear'', ''attn_rope'', ''attn_kv_cache_save'',
     ''input_layernorm'', ''post_attention_layernorm'', ''add'']"

text \<open>One line of a table: the keys and the value, \<open>None\<close> when it is skipped.\<close>

definition parse_row :: "(string \<Rightarrow> real option) \<Rightarrow> string \<Rightarrow> ((usize \<times> usize) \<times> real) option" where
  "parse_row parse_f32 line =
     (let parts = split_on CHR '','' line
      in if length parts < 2 then None
         else case parse_u64 (trim (parts ! 0)) of
                None \<Rightarrow> None
              | Some r1 \<Rightarrow>
                  (let r2 = (if length parts = 2 then 0
                             else case parse_u64 (trim (parts ! 1)) of Some v \<Rightarrow> v | None \<Rightarrow> 0);
                       v = (case parse_f32 (trim (List.last parts)) of Some v \<Rightarrow> v | None \<Rightarrow> 0)
                   in Some ((r1, r2), v)))"

fun load_rows :: "(string \<Rightarrow> real option) \<Rightarrow> (string + string) list \<Rightarrow> grid \<Rightarrow> string + grid" where
  "load_rows parse_f32 [] g = Inr g"
| "load_rows parse_f32 (Inl e # ls) g = Inl e"
| "load_rows parse_f32 (Inr line # ls) g =
     load_rows parse_f32 ls (case parse_row parse_f32 line of None \<Rightarrow> g | Some (k, v) \<Rightarrow> g(k \<mapsto> v))"

definition csv_path :: "simulator_config \<Rightarrow> string \<Rightarrow> string" where
  "csv_path cfg op = cf_cache_dir cfg @ ''/'' @ op @ ''_'' @ model_hash cfg @ ''_predictions.csv''"

text \<open>\<open>files\<close>: opening a file gives its lines, each read or failing; the first is the header.\<close>

type_synonym file_system = "string \<Rightarrow> string + (string + string) list"

definition load_csv :: "(string \<Rightarrow> real option) \<Rightarrow> file_system \<Rightarrow> simulator_config \<Rightarrow> string \<Rightarrow> string + grid" where
  "load_csv parse_f32 files cfg op =
     obind (files (csv_path cfg op)) (\<lambda>ls. load_rows parse_f32 (drop 1 ls) Map.empty)"

definition vidur_ops :: "simulator_config \<Rightarrow> string list" where
  "vidur_ops cfg =
     [''attn_decode'', ''attn_prefill'', ''attn_pre_proj'', ''attn_post_proj'', ''attn_rope'', ''attn_kv_cache_save'',
      ''input_layernorm'', ''post_attention_layernorm'', ''add'', ''sampler_e2e'', ''schedule''] @
     (case cf_model_kind cfg of Llama \<Rightarrow> [''mlp_up_proj'', ''mlp_down_proj'', ''mlp_act''] | Moe \<Rightarrow> [''moe_linear'']) @
     (if num_pipeline_stages cfg > 1 then [''send_recv''] else []) @
     (if tensor_parallel_size cfg > 1 then [''all_reduce''] else [])"

definition full_token_ops :: "simulator_config \<Rightarrow> string list" where
  "full_token_ops cfg = (case cf_model_kind cfg of Llama \<Rightarrow> llama_full_token_ops | Moe \<Rightarrow> moe_full_token_ops)"

definition install_grid :: "string \<Rightarrow> grid \<Rightarrow> vidur \<Rightarrow> vidur" where
  "install_grid op g p =
     p\<lparr>full_token_cache :=
         (if op \<in> set (full_token_ops (v_config p))
          then case g (ucast (cf_token_budget (v_config p)), 0) of
                 Some v \<Rightarrow> (full_token_cache p)(op \<mapsto> v)
               | None \<Rightarrow> full_token_cache p
          else full_token_cache p),
       grids := (grids p)(op \<mapsto> g)\<rparr>"

fun load_models :: "(string \<Rightarrow> string + grid) \<Rightarrow> string list \<Rightarrow> vidur \<Rightarrow> string + vidur" where
  "load_models load [] p = Inr p"
| "load_models load (op # ops) p = (case load op of Inl e \<Rightarrow> Inl e | Inr g \<Rightarrow> load_models load ops (install_grid op g p))"

definition vidur_new :: "(string \<Rightarrow> real option) \<Rightarrow> file_system \<Rightarrow> simulator_config \<Rightarrow> string + vidur" where
  "vidur_new parse_f32 files cfg =
     load_models (load_csv parse_f32 files cfg) (vidur_ops cfg) \<lparr>v_config = cfg, grids = Map.empty, full_token_cache = Map.empty\<rparr>"

section \<open>Lookups\<close>

definition lookup :: "vidur \<Rightarrow> string \<Rightarrow> usize \<times> usize \<Rightarrow> real" where
  "lookup p op key =
     (case Option.bind (grids p op) (\<lambda>g. g key) of Some v \<Rightarrow> v | None \<Rightarrow> fallback_ms op)"

text \<open>The fast path of \<open>lookup_full_or\<close>, also taken by \<^verbatim>\<open>attn_kv_cache_save_ms\<close> for another count.\<close>

definition lookup_tokens :: "vidur \<Rightarrow> string \<Rightarrow> usize \<Rightarrow> real" where
  "lookup_tokens p op n =
     (if (ucast n :: u32) = cf_token_budget (v_config p)
      then case full_token_cache p op of Some v \<Rightarrow> v | None \<Rightarrow> lookup p op (n, 0)
      else lookup p op (n, 0))"

definition lookup_full_or :: "vidur \<Rightarrow> string \<Rightarrow> batch \<Rightarrow> real" where
  "lookup_full_or p op b = lookup_tokens p op (num_tokens_rounded b)"

definition round_up_to :: "usize \<Rightarrow> usize \<Rightarrow> usize outcome" where
  "round_up_to n g = (if g = 0 then Inl ExplicitPanic else Inr ((n + g - 1) div g * g))"

section \<open>Attention\<close>

text \<open>The loop over the prefill requests; \<^verbatim>\<open>zip\<close> stops with the shorter list.\<close>

fun prefill_max :: "vidur \<Rightarrow> (usize \<times> usize) list \<Rightarrow> real \<Rightarrow> real outcome" where
  "prefill_max p [] max_t = Inr max_t"
| "prefill_max p ((chunk, computed) # rest) max_t =
     obind (round_up_to computed (kv_granularity (v_config p))) (\<lambda>kv.
     obind (round_up_to (chunk * ((chunk + 1) div 2 + kv)) (flops_granularity (v_config p))) (\<lambda>flops.
       let t = lookup p ''attn_prefill'' (kv, flops)
       in prefill_max p rest (if t > max_t then t else max_t)))"

definition attn_prefill_ms :: "vidur \<Rightarrow> batch \<Rightarrow> real outcome" where
  "attn_prefill_ms p b =
     (if num_prefill_tokens b = [] then Inr 0
      else obind (prefill_max p (zip (num_prefill_tokens b) (num_prefill_computed_tokens b)) 0) (\<lambda>max_t.
        Inr (if length (num_prefill_tokens b) > 1 then max_t * (1 + prefill_batching_overhead (v_config p)) else max_t)))"

definition attn_decode_ms :: "vidur \<Rightarrow> batch \<Rightarrow> real outcome" where
  "attn_decode_ms p b =
     (let n = length (num_decode_computed_tokens b)
      in if n = 0 then Inr 0
         else let kv_avg = sum_list (num_decode_computed_tokens b) div of_nat n
              in obind (round_up_to kv_avg (kv_granularity (v_config p))) (\<lambda>kv.
                 Inr (lookup p ''attn_decode'' (of_nat n, kv) *
                      (1 + (if n > 1 then decode_batching_overhead (v_config p) else 0)))))"

section \<open>The other parts\<close>

definition schedule_ms :: "vidur \<Rightarrow> batch \<Rightarrow> real" where
  "schedule_ms p b = lookup p ''schedule'' (batch_size b, 0)"

definition sampler_e2e_ms :: "vidur \<Rightarrow> batch \<Rightarrow> real" where
  "sampler_e2e_ms p b = lookup p ''sampler_e2e'' (batch_size b, 0)"

definition attn_norm_ms :: "vidur \<Rightarrow> batch \<Rightarrow> real" where
  "attn_norm_ms p b = lookup_full_or p ''input_layernorm'' b"

definition mlp_norm_ms :: "vidur \<Rightarrow> batch \<Rightarrow> real" where
  "mlp_norm_ms p b = (if \<not> post_attn_norm (v_config p) then 0 else lookup_full_or p ''post_attention_layernorm'' b)"

definition add_ms :: "vidur \<Rightarrow> batch \<Rightarrow> real" where
  "add_ms p b = lookup_full_or p ''add'' b"

definition attn_rope_ms :: "vidur \<Rightarrow> batch \<Rightarrow> real" where
  "attn_rope_ms p b = lookup_full_or p ''attn_rope'' b"

definition attn_kv_cache_save_ms :: "vidur \<Rightarrow> batch \<Rightarrow> real" where
  "attn_kv_cache_save_ms p b = lookup_tokens p ''attn_kv_cache_save'' (num_tokens b)"

definition attn_pre_proj_ms :: "vidur \<Rightarrow> batch \<Rightarrow> real" where
  "attn_pre_proj_ms p b = lookup_full_or p ''attn_pre_proj'' b"

definition attn_post_proj_ms :: "vidur \<Rightarrow> batch \<Rightarrow> real" where
  "attn_post_proj_ms p b = lookup_full_or p ''attn_post_proj'' b"

definition mlp_up_proj_ms :: "vidur \<Rightarrow> batch \<Rightarrow> real" where
  "mlp_up_proj_ms p b = lookup_full_or p ''mlp_up_proj'' b"

definition mlp_down_proj_ms :: "vidur \<Rightarrow> batch \<Rightarrow> real" where
  "mlp_down_proj_ms p b =
     (let l = lookup_full_or p ''mlp_down_proj'' b in if l > 78125 / 100000 then l - 125 / 1000 else l)"

definition mlp_act_ms :: "vidur \<Rightarrow> batch \<Rightarrow> real" where
  "mlp_act_ms p b = lookup_full_or p ''mlp_act'' b"

definition moe_linear_ms :: "vidur \<Rightarrow> batch \<Rightarrow> real" where
  "moe_linear_ms p b = lookup_full_or p ''moe_linear'' b"

definition overhead_or_0 :: "real option \<Rightarrow> real" where
  "overhead_or_0 x = (case x of None \<Rightarrow> 0 | Some v \<Rightarrow> v)"

definition tp_comm_ms :: "vidur \<Rightarrow> batch \<Rightarrow> real" where
  "tp_comm_ms p b =
     (let cfg = v_config p
      in if tensor_parallel_size cfg = 1 then 0
         else lookup p ''all_reduce'' (num_tokens_rounded b, 0) + overhead_or_0 (nccl_launch_overhead cfg) +
              overhead_or_0 (nccl_skew_overhead cfg) * real (unat (tensor_parallel_size cfg)) powr (5 / 4))"

definition pp_comm_ms :: "vidur \<Rightarrow> batch \<Rightarrow> real" where
  "pp_comm_ms p b = (if num_pipeline_stages (v_config p) = 1 then 0 else lookup p ''send_recv'' (num_tokens_rounded b, 0))"

definition cpu_overhead_ms :: "vidur \<Rightarrow> batch \<Rightarrow> real" where
  "cpu_overhead_ms p b = (if skip_cpu_overhead (v_config p) then 0 else schedule_ms p b + sampler_e2e_ms p b)"

definition mlp_ms :: "vidur \<Rightarrow> batch \<Rightarrow> real" where
  "mlp_ms p b =
     (case cf_model_kind (v_config p) of
        Llama \<Rightarrow> mlp_up_proj_ms p b + mlp_down_proj_ms p b + mlp_act_ms p b + tp_comm_ms p b + mlp_norm_ms p b
      | Moe \<Rightarrow> moe_linear_ms p b + tp_comm_ms p b + mlp_norm_ms p b)"

definition block_ms :: "vidur \<Rightarrow> batch \<Rightarrow> real outcome" where
  "block_ms p b =
     obind (attn_decode_ms p b) (\<lambda>dec.
     obind (attn_prefill_ms p b) (\<lambda>pre.
       let attn = attn_pre_proj_ms p b + attn_post_proj_ms p b + attn_rope_ms p b + attn_kv_cache_save_ms p b + dec + pre +
                  tp_comm_ms p b + attn_norm_ms p b
       in Inr (attn + mlp_ms p b + add_ms p b)))"

definition model_ms :: "vidur \<Rightarrow> batch \<Rightarrow> real outcome" where
  "model_ms p b =
     (let layers_per_stage = num_layers (v_config p) div max (num_pipeline_stages (v_config p)) 1
      in obind (block_ms p b) (\<lambda>block. Inr (block * real (unat layers_per_stage) + pp_comm_ms p b)))"

definition vidur_predict :: "vidur \<Rightarrow> batch \<Rightarrow> real outcome" where
  "vidur_predict p b = obind (model_ms p b) (\<lambda>model. Inr (model + cpu_overhead_ms p b))"

section \<open>Loading\<close>

text \<open>A cached value is the entry of the operation's table at the token budget.\<close>

definition cache_ok :: "vidur \<Rightarrow> bool" where
  "cache_ok p \<longleftrightarrow> (\<forall>op v. full_token_cache p op = Some v \<longrightarrow>
     (\<exists>g. grids p op = Some g \<and> g (ucast (cf_token_budget (v_config p)), 0) = Some v))"

lemma install_grid_simps [simp]: "v_config (install_grid op g p) = v_config p" "grids (install_grid op g p) = (grids p)(op \<mapsto> g)"
  by (simp_all add: install_grid_def)

lemma install_grid_ok:
  assumes "cache_ok p" "grids p op = None"
  shows "cache_ok (install_grid op g p)"
proof -
  have "full_token_cache p op = None" using assms by (cases "full_token_cache p op") (fastforce simp: cache_ok_def)+
  with assms show ?thesis by (auto simp: cache_ok_def install_grid_def split: option.splits if_splits)
qed

lemma load_models_spec:
  assumes "load_models load ops p = Inr p'" "cache_ok p" "distinct ops" "\<forall>op\<in>set ops. grids p op = None"
  shows "cache_ok p' \<and> v_config p' = v_config p \<and> (\<forall>op\<in>set ops. map_sum id Some (load op) = Inr (grids p' op)) \<and>
    (\<forall>op. op \<notin> set ops \<longrightarrow> grids p' op = grids p op)"
  using assms
proof (induction ops arbitrary: p)
  case (Cons op ops)
  then obtain g where g: "load op = Inr g" "load_models load ops (install_grid op g p) = Inr p'" by (auto split: sum.splits)
  with Cons.prems have "cache_ok (install_grid op g p)" "\<forall>op'\<in>set ops. grids (install_grid op g p) op' = None"
    by (auto intro: install_grid_ok)
  with Cons.IH[OF g(2)] Cons.prems g(1) show ?case by auto
qed simp

lemma load_models_total: "(\<And>op. \<exists>g. load op = Inr g) \<Longrightarrow> \<exists>p'. load_models load ops p = Inr p'"
proof (induction ops arbitrary: p)
  case (Cons op ops)
  then obtain g where "load op = Inr g" by blast
  with Cons show ?case by simp
qed simp

lemma vidur_ops_distinct: "distinct (vidur_ops cfg)"
  by (auto simp: vidur_ops_def split: model_kind.split)

lemma vidur_new_spec:
  assumes "vidur_new parse_f32 files cfg = Inr p"
  shows "cache_ok p \<and> v_config p = cfg \<and>
    (\<forall>op\<in>set (vidur_ops cfg). map_sum id Some (load_csv parse_f32 files cfg op) = Inr (grids p op)) \<and>
    (\<forall>op. op \<notin> set (vidur_ops cfg) \<longrightarrow> grids p op = None)"
proof -
  have "cache_ok \<lparr>v_config = cfg, grids = Map.empty, full_token_cache = Map.empty\<rparr>" by (simp add: cache_ok_def)
  from load_models_spec[OF assms[unfolded vidur_new_def] this vidur_ops_distinct] show ?thesis by simp
qed

lemma lookup_tokens_eq:
  assumes "cache_ok p" "unat n < 2 ^ 32"
  shows "lookup_tokens p op n = lookup p op (n, 0)"
proof -
  have "n = ucast (cf_token_budget (v_config p))" if "(ucast n :: u32) = cf_token_budget (v_config p)"
    by (rule word_unat_eq_iff[THEN iffD2]) (use assms(2) in \<open>simp add: that[symmetric] unsigned_ucast_eq unsigned_take_bit_eq take_bit_nat_eq_self\<close>)
  with assms(1) show ?thesis by (fastforce simp: lookup_tokens_def lookup_def cache_ok_def split: option.split)
qed

text \<open>the cache of the tables is only an optimisation: after loading, for any step of fewer than \<open>2 ^ 32\<close>
  tokens, every cached lookup gives the entry of the file's table at that token count, and the fallback
  constant when the table has none.\<close>

theorem fast_path_exact:
  assumes "vidur_new parse_f32 files cfg = Inr p" "op \<in> set (vidur_ops cfg)" "unat (num_tokens_rounded b) < 2 ^ 32"
  shows "\<exists>g. load_csv parse_f32 files cfg op = Inr g \<and>
    lookup_full_or p op b = (case g (num_tokens_rounded b, 0) of Some v \<Rightarrow> v | None \<Rightarrow> fallback_ms op)"
proof -
  note v = vidur_new_spec[OF assms(1)]
  then obtain g where "load_csv parse_f32 files cfg op = Inr g" "grids p op = Some g"
    using assms(2) by (cases "load_csv parse_f32 files cfg op") force+
  moreover have "lookup_full_or p op b = lookup p op (num_tokens_rounded b, 0)"
    using lookup_tokens_eq v assms(3) by (simp add: lookup_full_or_def)
  ultimately show ?thesis by (auto simp: lookup_def)
qed

definition demo_files :: file_system where
  "demo_files path = Inr [Inr ''k,v'', Inr ''16,1'', Inr ''1024,2'']"

definition demo_f32 :: "string \<Rightarrow> real option" where
  "demo_f32 s = map_option (\<lambda>w. real (unat w)) (parse_u64 s)"

lemma demo_load: "\<exists>p. vidur_new demo_f32 demo_files simulator_config_default = Inr p"
proof -
  have "\<exists>g. load_csv demo_f32 demo_files cfg op = Inr g" for cfg op
    by (simp add: load_csv_def demo_files_def)
  then show ?thesis by (simp add: vidur_new_def load_models_total)
qed

section \<open>The printed table comes back\<close>

definition print_row :: "(real \<Rightarrow> string) \<Rightarrow> (usize \<times> usize) \<times> real \<Rightarrow> string" where
  "print_row print_f32 = (\<lambda>((a, b), v). show_word a @ '','' @ show_word b @ '','' @ print_f32 v)"

lemma show_word_no_comma: "CHR '','' \<notin> set (show_word w)"
  using decimal_chars[of "CHR '',''"] by (auto simp: show_word_def)

lemma trim_show_word: "trim (show_word w) = show_word w"
  by (rule trim_id) (use decimal_chars in \<open>auto simp: show_word_def\<close>)

lemma parse_print_row:
  assumes "parse_f32 (trim (print_f32 v)) = Some v" "CHR '','' \<notin> set (print_f32 v)"
  shows "parse_row parse_f32 (print_row print_f32 ((a, b), v)) = Some ((a, b), v)"
proof -
  have "split_on CHR '','' (print_row print_f32 ((a, b), v)) = [show_word a, show_word b, print_f32 v]"
    by (simp add: print_row_def split_on_append show_word_no_comma split_on_no_sep[OF assms(2)])
  then show ?thesis using assms(1) by (simp add: parse_row_def Let_def trim_show_word)
qed

text \<open>a table written as comma-separated rows is read back exactly, later rows winning, for any text format
  of the values that the parser reads back and that has no comma.\<close>

theorem csv_roundtrip:
  assumes "files (csv_path cfg op) = Inr (Inr header # map (\<lambda>r. Inr (print_row print_f32 r)) rows)"
    "\<forall>r\<in>set rows. parse_f32 (trim (print_f32 (snd r))) = Some (snd r) \<and> CHR '','' \<notin> set (print_f32 (snd r))"
  shows "load_csv parse_f32 files cfg op = Inr (map_of (rev rows))"
proof -
  have "load_rows parse_f32 (map (\<lambda>r. Inr (print_row print_f32 r)) rows) g = Inr (g ++ map_of (rev rows))" for g
    using assms(2)
  proof (induction rows arbitrary: g)
    case (Cons r rows)
    obtain a b v where r: "r = ((a, b), v)" by (metis surj_pair)
    with Cons.prems have row: "parse_row parse_f32 (print_row print_f32 r) = Some ((a, b), v)"
      using parse_print_row by auto
    define g1 where "g1 = g((a, b) \<mapsto> v)"
    have "g1 ++ map_of (rev rows) = g ++ map_of (rev (r # rows))"
      by (auto simp: g1_def r map_add_def fun_eq_iff split: option.split)
    moreover have "load_rows parse_f32 (map (\<lambda>r. Inr (print_row print_f32 r)) (r # rows)) g =
        load_rows parse_f32 (map (\<lambda>r. Inr (print_row print_f32 r)) rows) g1"
      using row by (simp add: g1_def r)
    moreover have "\<forall>r\<in>set rows. parse_f32 (trim (print_f32 (snd r))) = Some (snd r) \<and> CHR '','' \<notin> set (print_f32 (snd r))"
      using Cons.prems by simp
    ultimately show ?case using Cons.IH[of g1] by presburger
  qed simp
  then show ?thesis by (simp add: load_csv_def assms(1))
qed

theorem csv_roundtrip_witness:
  "load_csv demo_f32 (\<lambda>_. Inr [Inr ''k1,k2,v'', Inr (print_row (\<lambda>_. ''7'') ((1, 64), 7))]) simulator_config_default ''attn_decode'' =
     Inr [(1, 64) \<mapsto> 7]"
proof -
  have "parse_u64 ''7'' = Some 7" by (simp add: parse_u64_def digit_of_def)
  then have "demo_f32 (trim ''7'') = Some 7" by (simp add: demo_f32_def trim_def is_space_def)
  then show ?thesis
    using csv_roundtrip[of "\<lambda>_. Inr [Inr ''k1,k2,v'', Inr (print_row (\<lambda>_. ''7'') ((1, 64), 7))]" simulator_config_default "''attn_decode''"
      "''k1,k2,v''" "\<lambda>_. ''7''" "[((1, 64), 7)]" demo_f32] by simp
qed

lemma unsigned_real_nonneg: "0 \<le> (unsigned (w :: 'a::len word) :: real)"
proof -
  have "0 \<le> real (unat w)" by (rule of_nat_0_le_iff)
  then show ?thesis by (simp only: of_nat_unat)
qed

section \<open>Predictions are latencies\<close>

text \<open>Tables and overheads without negative numbers.\<close>

definition tables_nonneg :: "vidur \<Rightarrow> bool" where
  "tables_nonneg p \<longleftrightarrow> (\<forall>op g k v. grids p op = Some g \<longrightarrow> g k = Some v \<longrightarrow> 0 \<le> v) \<and>
     0 \<le> prefill_batching_overhead (v_config p) \<and> 0 \<le> decode_batching_overhead (v_config p) \<and>
     0 \<le> overhead_or_0 (nccl_launch_overhead (v_config p)) \<and> 0 \<le> overhead_or_0 (nccl_skew_overhead (v_config p))"

lemma fallback_nonneg: "0 \<le> fallback_ms op"
  by (simp add: fallback_ms_def)

lemma lookup_nonneg: "tables_nonneg p \<Longrightarrow> 0 \<le> lookup p op key"
  by (cases "grids p op"; cases key) (auto simp: lookup_def tables_nonneg_def fallback_nonneg split: option.split)

lemma lookup_tokens_nonneg: "tables_nonneg p \<Longrightarrow> cache_ok p \<Longrightarrow> 0 \<le> lookup_tokens p op n"
  by (fastforce simp: lookup_tokens_def lookup_nonneg tables_nonneg_def cache_ok_def split: option.split)

lemma prefill_max_ok:
  assumes "kv_granularity (v_config p) \<noteq> 0" "flops_granularity (v_config p) \<noteq> 0"
  shows "\<exists>m'. prefill_max p cs m = Inr m' \<and> m \<le> m'"
proof (induction cs arbitrary: m)
  case (Cons c cs)
  obtain chunk computed where c: "c = (chunk, computed)" by force
  obtain m1 where "prefill_max p (c # cs) m = prefill_max p cs m1" "m \<le> m1"
    using assms by (simp add: c round_up_to_def Let_def)
  with Cons.IH[of m1] show ?case by (metis order.trans)
qed simp

lemma attention_ok:
  assumes "kv_granularity (v_config p) \<noteq> 0" "flops_granularity (v_config p) \<noteq> 0" "tables_nonneg p"
  shows "\<exists>t. attn_prefill_ms p b = Inr t \<and> 0 \<le> t" "\<exists>t. attn_decode_ms p b = Inr t \<and> 0 \<le> t"
proof -
  obtain m where "prefill_max p (zip (num_prefill_tokens b) (num_prefill_computed_tokens b)) 0 = Inr m" "0 \<le> m"
    using prefill_max_ok[OF assms(1,2)] by blast
  then show "\<exists>t. attn_prefill_ms p b = Inr t \<and> 0 \<le> t" using assms(3) by (simp add: attn_prefill_ms_def tables_nonneg_def)
  show "\<exists>t. attn_decode_ms p b = Inr t \<and> 0 \<le> t"
    using assms(1,3) lookup_nonneg[OF assms(3)] by (auto simp: attn_decode_ms_def round_up_to_def Let_def tables_nonneg_def)
qed

lemma parts_nonneg:
  assumes "tables_nonneg p" "cache_ok p"
  shows "0 \<le> mlp_ms p b" "0 \<le> tp_comm_ms p b" "0 \<le> pp_comm_ms p b" "0 \<le> cpu_overhead_ms p b"
proof -
  note l = lookup_nonneg[OF assms(1)] lookup_tokens_nonneg[OF assms]
  show tp: "0 \<le> tp_comm_ms p b"
    using l assms(1) by (simp add: tp_comm_ms_def tables_nonneg_def Let_def)
  show "0 \<le> pp_comm_ms p b" "0 \<le> cpu_overhead_ms p b"
    using l by (simp_all add: pp_comm_ms_def cpu_overhead_ms_def schedule_ms_def sampler_e2e_ms_def)
  have "0 \<le> mlp_down_proj_ms p b" using l(2)[of "''mlp_down_proj''" "num_tokens_rounded b"]
    by (simp add: mlp_down_proj_ms_def lookup_full_or_def Let_def)
  with tp l show "0 \<le> mlp_ms p b"
    by (simp add: mlp_ms_def mlp_up_proj_ms_def mlp_act_ms_def moe_linear_ms_def mlp_norm_ms_def lookup_full_or_def split: model_kind.split)
qed

text \<open>a loaded predictor with positive granularities predicts every forward step, with a latency that is not
  negative when its tables and overheads are not, and never less than any single part of it: the
  \<^verbatim>\<open>0.125 ms\<close> shaved off the down projection cannot make it negative.\<close>

theorem vidur_predict_nonneg:
  assumes "vidur_new parse_f32 files cfg = Inr p" "tables_nonneg p" "kv_granularity cfg \<noteq> 0" "flops_granularity cfg \<noteq> 0"
  shows "\<exists>ms. vidur_predict p b = Inr ms \<and> 0 \<le> ms \<and> cpu_overhead_ms p b \<le> ms \<and> pp_comm_ms p b \<le> ms"
proof -
  have c: "cache_ok p" "v_config p = cfg" using vidur_new_spec[OF assms(1)] by auto
  note l = lookup_tokens_nonneg[OF assms(2) c(1)] and q = parts_nonneg[OF assms(2) c(1), of b]
  obtain dec pre where a: "attn_decode_ms p b = Inr dec" "0 \<le> dec" "attn_prefill_ms p b = Inr pre" "0 \<le> pre"
    using attention_ok[of p b] assms c(2) by auto
  obtain blk where blk: "block_ms p b = Inr blk" "0 \<le> blk"
    using a q l by (simp add: block_ms_def Let_def attn_pre_proj_ms_def attn_post_proj_ms_def attn_rope_ms_def
        attn_kv_cache_save_ms_def attn_norm_ms_def add_ms_def lookup_full_or_def)
  have "0 \<le> blk * unsigned w" for w :: usize using blk(2) by (intro mult_nonneg_nonneg unsigned_real_nonneg)
  then show ?thesis using q blk(1) by (simp add: vidur_predict_def model_ms_def Let_def)
qed

lemma load_rows_values:
  assumes "load_rows parse_f32 ls g = Inr g'" "\<And>s v. parse_f32 s = Some v \<Longrightarrow> 0 \<le> v" "\<And>k v. g k = Some v \<Longrightarrow> 0 \<le> v" "g' k = Some v"
  shows "0 \<le> v"
  using assms(1,3)
proof (induction ls arbitrary: g)
  case Nil
  then show ?case using assms(4) by auto
next
  case (Cons l ls)
  then obtain line where l: "l = Inr line" by (cases l) auto
  define h where "h = (case parse_row parse_f32 line of None \<Rightarrow> g | Some (k, v) \<Rightarrow> g(k \<mapsto> v))"
  have "0 \<le> v'" if "parse_row parse_f32 line = Some (k', v')" for k' v'
    using that assms(2) by (auto simp: parse_row_def Let_def split: if_splits option.splits)
  then have "0 \<le> v'" if "h k' = Some v'" for k' v'
    using that Cons.prems(2) by (cases k') (auto simp: h_def split: option.splits if_splits)
  then show ?case using Cons.IH[of h] Cons.prems(1) by (simp add: l h_def)
qed

lemma tables_nonneg_loaded:
  assumes "vidur_new parse_f32 files cfg = Inr p" "\<And>s v. parse_f32 s = Some v \<Longrightarrow> 0 \<le> v"
    "0 \<le> prefill_batching_overhead cfg" "0 \<le> decode_batching_overhead cfg"
    "0 \<le> overhead_or_0 (nccl_launch_overhead cfg)" "0 \<le> overhead_or_0 (nccl_skew_overhead cfg)"
  shows "tables_nonneg p"
proof -
  note v = vidur_new_spec[OF assms(1)]
  have "0 \<le> x" if "grids p op = Some g" "g k = Some x" for op g k x
  proof -
    have "op \<in> set (vidur_ops cfg)" using v that(1) by force
    with v that(1) have "load_csv parse_f32 files cfg op = Inr g" by (cases "load_csv parse_f32 files cfg op") force+
    then obtain ls where "load_rows parse_f32 ls Map.empty = Inr g" by (auto simp: load_csv_def obind_eq_Inr)
    from load_rows_values[OF this assms(2) _ that(2)] show ?thesis by simp
  qed
  with v assms(3-6) show ?thesis by (auto simp: tables_nonneg_def)
qed

theorem fast_path_exact_witness:
  "\<exists>p g. vidur_new demo_f32 demo_files simulator_config_default = Inr p \<and>
     load_csv demo_f32 demo_files simulator_config_default ''add'' = Inr g"
proof -
  obtain p where p: "vidur_new demo_f32 demo_files simulator_config_default = Inr p" using demo_load by blast
  have "''add'' \<in> set (vidur_ops simulator_config_default)" by (simp add: vidur_ops_def)
  from fast_path_exact[OF p this, of "batch_from_step empty_step 16"] p show ?thesis
    by (auto simp: batch_from_step_def empty_step_def round_up_def Let_def)
qed

theorem vidur_predict_nonneg_witness:
  "\<exists>p ms. vidur_new demo_f32 demo_files simulator_config_default = Inr p \<and>
     vidur_predict p (batch_from_step empty_step 16) = Inr ms \<and> 0 \<le> ms"
proof -
  obtain p where p: "vidur_new demo_f32 demo_files simulator_config_default = Inr p" using demo_load by blast
  have "tables_nonneg p"
    by (rule tables_nonneg_loaded[OF p]) (auto simp: demo_f32_def simulator_config_default_def overhead_or_0_def unsigned_real_nonneg)
  from vidur_predict_nonneg[OF p this, of "batch_from_step empty_step 16"] p show ?thesis
    by (auto simp: simulator_config_default_def)
qed

text \<open>A granularity of zero panics as soon as a decode is predicted.\<close>

lemma zero_granularity_panics:
  "kv_granularity (v_config p) = 0 \<Longrightarrow> num_decode_computed_tokens b \<noteq> [] \<Longrightarrow> vidur_predict p b = Inl ExplicitPanic"
  by (simp add: vidur_predict_def model_ms_def block_ms_def attn_decode_ms_def round_up_to_def Let_def)

end
