(* ===== verification/Policies.thy ===== *)
theory Policies
  imports DslRuntime
begin

text \<open>
  The scheduling policies of \<^verbatim>\<open>router/src/scheduler/policies/\<close>. Each \<^verbatim>\<open>policy!\<close>
  invocation is a body, a function of the request, the observations and the policy's global context;
  \<open>lowered\<close> is the \<^verbatim>\<open>schedule\<close> function the macro of \<^verbatim>\<open>policy-dsl/src/lower.rs\<close> emits
  around it. \<open>least_ttft_schedule\<close> is the hand-written policy. The Preble policies are in theory \<open>Preble\<close>.
\<close>

section \<open>The emitted schedule function\<close>

type_synonym 'g policy_body = "valid_request \<Rightarrow> observation list \<Rightarrow> 'g \<Rightarrow> nat option"
type_synonym ('b, 'g) scheduled = "nat option \<times> entry \<times> 'b schedule_context list \<times> 'g"

definition lowered ::
    "('b \<Rightarrow> u64 list \<Rightarrow> nat) \<Rightarrow> ('b \<Rightarrow> u64) \<Rightarrow> 'g policy_body \<Rightarrow> (observation list \<Rightarrow> 'g \<Rightarrow> 'g) \<Rightarrow>
       entry \<Rightarrow> 'b schedule_context list \<Rightarrow> 'g \<Rightarrow> ('b, 'g) scheduled outcome" where
  "lowered get epoch_of body after_extra e all_sctx g =
     (let observations = capture_observations get epoch_of e all_sctx;
          chosen = body (request e) observations g
      in case chosen of
           None \<Rightarrow> Inr (None, e, all_sctx, g)
         | Some i \<Rightarrow>
             if i < length observations
             then case apply_default_after get epoch_of e (all_sctx ! i) (observations ! i) of
                    Inl p \<Rightarrow> Inl p
                  | Inr (e', s') \<Rightarrow> Inr (Some i, e', all_sctx[i := s'], after_extra observations g)
             else Inl SliceOutOfRange)"

definition no_extra :: "observation list \<Rightarrow> 'g \<Rightarrow> 'g" where
  "no_extra obs g = g"

section \<open>Simple policies\<close>

definition random_q :: "real \<Rightarrow> unit policy_body" where
  "random_q u req obs g = select_rand_by u obs (\<lambda>o1. 1)"

text \<open>The global context of round robin is its \<^verbatim>\<open>next_replica_id\<close>.\<close>

definition round_robin_q :: "nat policy_body" where
  "round_robin_q req obs g = select_min_by obs (\<lambda>o1. if idx o1 = g then 0 else 1 :: u32)"

definition round_robin_after :: "observation list \<Rightarrow> nat \<Rightarrow> nat" where
  "round_robin_after obs g = (g + 1) mod max (length obs) 1"

definition least_wait_token_q :: "unit policy_body" where
  "least_wait_token_q req obs g = select_min_by obs (\<lambda>o1. prefill_tokens_of req o1)"

definition waiting_prefill_token_bound :: usize where
  "waiting_prefill_token_bound = 2048"

definition bounded_most_hit_q :: "unit policy_body" where
  "bounded_most_hit_q req obs g =
     filter_then obs (\<lambda>o1. queued_tokens o1 < waiting_prefill_token_bound)
       (\<lambda>t. select_max_by t (\<lambda>o1. hit_blocks req o1))
       (\<lambda>t. select_min_by t (\<lambda>o1. prefill_tokens_of req o1))"

section \<open>lmetric, vLLM, llm-d\<close>

definition lmetric_q :: "unit policy_body" where
  "lmetric_q req obs g = select_min_by obs (\<lambda>o1. prefill_tokens_of req o1 * (ob_bs o1 + 1))"

definition shortest_weight_q :: "unit policy_body" where
  "shortest_weight_q req obs g = select_min_by obs (\<lambda>o1. 4 * ob_waiting o1 + ob_bs o1)"

definition least_active_q :: "unit policy_body" where
  "least_active_q req obs g = select_min_by obs (\<lambda>o1. ob_all_tokens o1)"

definition least_bs_q :: "unit policy_body" where
  "least_bs_q req obs g = select_min_by obs (\<lambda>o1. ob_bs o1)"

definition least_token_load_q :: "unit policy_body" where
  "least_token_load_q req obs g = select_min_by obs (\<lambda>o1. queued_tokens o1 + ob_all_tokens o1)"

definition least_waiting_q :: "unit policy_body" where
  "least_waiting_q req obs g = select_min_by obs (\<lambda>o1. ob_waiting o1)"

definition most_hit_q :: "unit policy_body" where
  "most_hit_q req obs g = select_max_by obs (\<lambda>o1. hit_blocks req o1)"

text \<open>\<^verbatim>\<open>f32::clamp(0.0, 1.0)\<close> and the saturating casts of \<^verbatim>\<open>as i64\<close> and \<^verbatim>\<open>as u64\<close>.\<close>

definition clamp01 :: "real \<Rightarrow> real" where
  "clamp01 x = max 0 (min 1 x)"

definition trunc :: "real \<Rightarrow> int" where
  "trunc x = (if x \<ge> 0 then \<lfloor>x\<rfloor> else \<lceil>x\<rceil>)"

definition as_i64 :: "real \<Rightarrow> int" where
  "as_i64 x = max (- (2 ^ 63)) (min (2 ^ 63 - 1) (trunc x))"

definition as_u64 :: "real \<Rightarrow> int" where
  "as_u64 x = max 0 (min (2 ^ 64 - 1) (trunc x))"

definition ureal :: "usize \<Rightarrow> real" where
  "ureal w = real (unat w)"

definition eps_f32 :: real where
  "eps_f32 = 1 / 10 ^ 6"

definition load_aware_queue_t :: real where
  "load_aware_queue_t = 128"

text \<open>The min-max normalisation of the hits and the load-aware score, shared by two policies.\<close>

definition norm_hit :: "valid_request \<Rightarrow> observation list \<Rightarrow> observation \<Rightarrow> real" where
  "norm_hit req obs o1 =
     (let lo = ureal (min_of_usize obs (\<lambda>o1. hit_blocks req o1));
          hi = ureal (max_of_usize obs (\<lambda>o1. hit_blocks req o1))
      in clamp01 ((ureal (hit_blocks req o1) - lo) / max \<bar>hi - lo\<bar> eps_f32))"

definition load_aware :: "observation \<Rightarrow> real" where
  "load_aware o1 =
     (let w = ureal (ob_waiting o1)
      in if w = 0 then 1 / 2 else 1 / 2 * (1 - min w load_aware_queue_t / load_aware_queue_t))"

definition most_hit_load_q :: "unit policy_body" where
  "most_hit_load_q req obs g =
     select_max_by obs (\<lambda>o1. as_i64 ((10 * norm_hit req obs o1 + 1 * load_aware o1) * 1000))"

definition most_hit_load_active_q :: "unit policy_body" where
  "most_hit_load_active_q req obs g =
     (let lo_act = ureal (min_of_usize obs ob_all_tokens);
          hi_act = ureal (max_of_usize obs ob_all_tokens)
      in select_max_by obs (\<lambda>o1.
           let n_kv = clamp01 ((hi_act - ureal (ob_all_tokens o1)) / max \<bar>hi_act - lo_act\<bar> eps_f32)
           in as_i64 ((10 * norm_hit req obs o1 + 1 * load_aware o1 + 1 * n_kv) * 1000)))"

section \<open>Bailian, AIBrix, Dynamo\<close>

definition bailian_q :: "real \<Rightarrow> real \<Rightarrow> real \<Rightarrow> real \<Rightarrow> unit policy_body" where
  "bailian_q alpha beta gamma u req obs g =
     (let lo_hit = min_of_f32 obs (hit_pct req); hi_hit = max_of_f32 obs (hit_pct req);
          lo_bs = ureal (min_of_usize obs ob_bs); hi_bs = ureal (max_of_usize obs ob_bs);
          lo_tok = ureal (min_of_usize obs ob_all_tokens); hi_tok = ureal (max_of_usize obs ob_all_tokens)
      in select_rand_by u obs (\<lambda>o1.
           let n0 = clamp01 ((hit_pct req o1 - lo_hit) / max \<bar>hi_hit - lo_hit\<bar> eps_f32);
               n1 = clamp01 ((hi_bs - ureal (ob_bs o1)) / max \<bar>hi_bs - lo_bs\<bar> eps_f32);
               n2 = clamp01 ((hi_tok - ureal (ob_all_tokens o1)) / max \<bar>hi_tok - lo_tok\<bar> eps_f32);
               p = n0 * alpha + n1 * beta + n2 * gamma
           in if p > 0 then p else 0))"

text \<open>The inner filter of AIBrix, the same in both branches of the outer one.\<close>

definition aibrix_inner :: "valid_request \<Rightarrow> real \<Rightarrow> observation list \<Rightarrow> nat option" where
  "aibrix_inner req tau t =
     filter_then t (\<lambda>o1. ureal (ob_bs o1) \<le> tau)
       (\<lambda>tt. select_min_by tt (\<lambda>o1. (- hit_pct req o1, ob_bs o1)))
       (\<lambda>tt. select_max_by tt (\<lambda>o1. (- hit_pct req o1, ob_bs o1)))"

definition aibrix_q :: "unit policy_body" where
  "aibrix_q req obs g =
     (let lo = min_of_usize obs ob_bs; hi = max_of_usize obs ob_bs;
          gap = sat_sub hi lo;
          tau = mean_of_usize obs ob_bs + 1 * std_of_usize obs ob_bs
      in filter_then obs (\<lambda>o1. ob_bs o1 = lo \<and> gap > 8) (aibrix_inner req tau) (aibrix_inner req tau))"

definition dynamo_q :: "unit policy_body" where
  "dynamo_q req obs g = select_min_by obs (\<lambda>o1.
     let prefill_block = ureal (new_tokens req o1) / ureal (max (ob_block_size o1) 1);
         decode_block = ureal (new_blocks req o1 + decode_blocks o1)
     in as_u64 ((1 * prefill_block + decode_block) * 1000))"

definition dynamo_po_q :: "unit policy_body" where
  "dynamo_po_q req obs g = select_min_by obs (\<lambda>o1.
     let prefill_block = ureal (prefill_tokens_of req o1) / ureal (max (ob_block_size o1) 1);
         decode_block = real_of_int \<lfloor>prefill_block\<rfloor>
     in as_u64 ((1 * prefill_block + decode_block) * 1000))"

section \<open>least-ttft\<close>

text \<open>
  The simulator's answer for replica \<open>i\<close> and the cached hits \<open>h\<close> is the argument \<open>ttft i h\<close>.
\<close>

fun best_ttft :: "(nat \<Rightarrow> nat \<Rightarrow> real option) \<Rightarrow> (nat \<times> nat) list \<Rightarrow> (nat \<times> real) option \<Rightarrow> (nat \<times> real) option" where
  "best_ttft ttft [] best = best"
| "best_ttft ttft ((i, h) # ihs) best =
     best_ttft ttft ihs
       (case ttft i h of
          None \<Rightarrow> best
        | Some t \<Rightarrow> if (case best of None \<Rightarrow> True | Some (_, prev) \<Rightarrow> t < prev) then Some (i, t) else best)"

definition least_ttft_schedule ::
    "('b \<Rightarrow> u64 list \<Rightarrow> nat) \<Rightarrow> ('b \<Rightarrow> u64) \<Rightarrow> (nat \<Rightarrow> nat \<Rightarrow> real option) \<Rightarrow>
       entry \<Rightarrow> 'b schedule_context list \<Rightarrow> ('b, unit) scheduled outcome" where
  "least_ttft_schedule get epoch_of ttft e all_sctx =
     (if all_sctx = [] then Inr (None, e, all_sctx, ())
      else let hashes = block_hashes (bhs e);
               hits = map (\<lambda>i. (i, get (sc_block_hash (all_sctx ! i)) hashes)) [0..<length all_sctx];
               chosen = (case best_ttft ttft hits None of Some (i, _) \<Rightarrow> i | None \<Rightarrow> 0);
               s = all_sctx ! chosen;
               hit_nblks = (of_nat (get (sc_block_hash s) hashes) :: usize)
           in case set_pred_block_hits hit_nblks (bhs e) of
                Inl p \<Rightarrow> Inl p
              | Inr b \<Rightarrow>
                  (let new_ntkns = sat_sub (req_len (request e)) (hit_nblks * of_nat (block_size b));
                       s' = s\<lparr>sc_lmetric := lmetric_add (sc_lmetric s)
                              \<lparr>bs_inc = 1, waiting_reqs_inc = 1, prefill_tokens_inc = new_ntkns,
                               inc_all_tokens_inc = req_len (request e)\<rparr>\<rparr>
                   in Inr (Some chosen, e\<lparr>bhs := set_decision_epoch (epoch_of (sc_block_hash s)) b\<rparr>,
                           all_sctx[chosen := s'], ())))"

section \<open>Every policy selects\<close>

text \<open>
  The bodies declared with the macro over the plain observations and without a context of their own; \<open>alpha\<close>,
  \<open>beta\<close> and \<open>gamma\<close> are the weights of Bailian, \<open>u\<close> is the number drawn for \<^verbatim>\<open>Select rand\<close>. The
  other policies are round robin (with its cursor), the Preble policies and least-TTFT.
\<close>

definition policy_bodies :: "real \<Rightarrow> real \<Rightarrow> real \<Rightarrow> real \<Rightarrow> unit policy_body list" where
  "policy_bodies alpha beta gamma u =
     [random_q u, least_wait_token_q, bounded_most_hit_q, lmetric_q, shortest_weight_q, least_active_q,
      least_bs_q, least_token_load_q, least_waiting_q, most_hit_q, most_hit_load_q,
      most_hit_load_active_q, bailian_q alpha beta gamma u, aibrix_q, dynamo_q, dynamo_po_q]"

lemma selectsD: "selects f \<Longrightarrow> t \<noteq> [] \<Longrightarrow> \<exists>o1\<in>set t. f t = Some (idx o1)"
  by (simp add: selects_def)

lemma aibrix_inner_selects: "selects (aibrix_inner req tau)"
  unfolding aibrix_inner_def by (intro inv_intros)

lemmas policy_defs =
  random_q_def round_robin_q_def least_wait_token_q_def bounded_most_hit_q_def lmetric_q_def
  shortest_weight_q_def least_active_q_def least_bs_q_def least_token_load_q_def least_waiting_q_def
  most_hit_q_def most_hit_load_q_def most_hit_load_active_q_def bailian_q_def aibrix_q_def dynamo_q_def
  dynamo_po_q_def

text \<open>What the runner relies on: a policy finds a replica whenever it is given one.\<close>

locale total_policy =
  fixes body :: "'g policy_body"
  assumes body_total: "obs \<noteq> [] \<Longrightarrow> \<exists>o1\<in>set obs. body req obs g = Some (idx o1)"
begin

lemma chosen_in_range:
  assumes "all_sctx \<noteq> []"
  shows "\<exists>i<length all_sctx. body req (capture_observations get epoch_of e all_sctx) g = Some i"
proof -
  have "capture_observations get epoch_of e all_sctx \<noteq> []"
    using assms by (simp add: capture_observations_def)
  then show ?thesis using body_total capture_idx by metis
qed

lemma lowered_total:
  assumes "all_sctx \<noteq> []" "pred_hit_nblks (bhs e) = none_sentinel"
  shows "\<exists>i e' s'. i < length all_sctx \<and>
    lowered get epoch_of body after_extra e all_sctx g =
      Inr (Some i, e', all_sctx[i := s'], after_extra (capture_observations get epoch_of e all_sctx) g) \<and>
    request e' = request e \<and> response_tx e' = response_tx e \<and>
    sc_block_hash s' = sc_block_hash (all_sctx ! i) \<and>
    bs (sc_lmetric s') = bs (sc_lmetric (all_sctx ! i)) + 1 \<and>
    waiting_reqs (sc_lmetric s') = waiting_reqs (sc_lmetric (all_sctx ! i)) + 1"
proof -
  obtain i where i: "i < length all_sctx"
    "body (request e) (capture_observations get epoch_of e all_sctx) g = Some i"
    using chosen_in_range[OF assms(1)] by blast
  obtain e' s' where
    "apply_default_after get epoch_of e (all_sctx ! i) (capture_observations get epoch_of e all_sctx ! i) = Inr (e', s')"
    "request e' = request e" "response_tx e' = response_tx e" "sc_block_hash s' = sc_block_hash (all_sctx ! i)"
    "bs (sc_lmetric s') = bs (sc_lmetric (all_sctx ! i)) + 1"
    "waiting_reqs (sc_lmetric s') = waiting_reqs (sc_lmetric (all_sctx ! i)) + 1"
    by (rule apply_default_after_ok [OF assms(2)])
  with i have "i < length all_sctx \<and> lowered get epoch_of body after_extra e all_sctx g =
      Inr (Some i, e', all_sctx[i := s'], after_extra (capture_observations get epoch_of e all_sctx) g) \<and>
    request e' = request e \<and> response_tx e' = response_tx e \<and>
    sc_block_hash s' = sc_block_hash (all_sctx ! i) \<and>
    bs (sc_lmetric s') = bs (sc_lmetric (all_sctx ! i)) + 1 \<and>
    waiting_reqs (sc_lmetric s') = waiting_reqs (sc_lmetric (all_sctx ! i)) + 1"
    by (simp add: lowered_def Let_def)
  then show ?thesis by blast
qed

end

interpretation random: total_policy "random_q u" for u
  by unfold_locales (simp add: random_q_def selectsD [OF selects_rand])

interpretation round_robin: total_policy round_robin_q
  by unfold_locales (simp add: round_robin_q_def selectsD [OF selects_min])

interpretation least_wait: total_policy least_wait_token_q
  by unfold_locales (simp add: least_wait_token_q_def selectsD [OF selects_min])

interpretation bounded_most_hit: total_policy bounded_most_hit_q
  by unfold_locales (simp add: bounded_most_hit_q_def selectsD [OF selects_filter_then] selects_min selects_max)

interpretation lmetric: total_policy lmetric_q
  by unfold_locales (simp add: lmetric_q_def selectsD [OF selects_min])

interpretation shortest_weight: total_policy shortest_weight_q
  by unfold_locales (simp add: shortest_weight_q_def selectsD [OF selects_min])

interpretation least_active: total_policy least_active_q
  by unfold_locales (simp add: least_active_q_def selectsD [OF selects_min])

interpretation least_bs: total_policy least_bs_q
  by unfold_locales (simp add: least_bs_q_def selectsD [OF selects_min])

interpretation least_token_load: total_policy least_token_load_q
  by unfold_locales (simp add: least_token_load_q_def selectsD [OF selects_min])

interpretation least_waiting: total_policy least_waiting_q
  by unfold_locales (simp add: least_waiting_q_def selectsD [OF selects_min])

interpretation most_hit: total_policy most_hit_q
  by unfold_locales (simp add: most_hit_q_def selectsD [OF selects_max])

interpretation most_hit_load: total_policy most_hit_load_q
  by unfold_locales (simp add: most_hit_load_q_def selectsD [OF selects_max])

interpretation most_hit_load_active: total_policy most_hit_load_active_q
  by unfold_locales (simp add: most_hit_load_active_q_def Let_def selectsD [OF selects_max])

interpretation bailian: total_policy "bailian_q a b c u" for a b c u
  by unfold_locales (simp add: bailian_q_def Let_def selectsD [OF selects_rand])

interpretation aibrix: total_policy aibrix_q
  by unfold_locales (simp add: aibrix_q_def Let_def selectsD [OF selects_filter_then] aibrix_inner_selects)

interpretation dynamo: total_policy dynamo_q
  by unfold_locales (simp add: dynamo_q_def selectsD [OF selects_min])

interpretation dynamo_po: total_policy dynamo_po_q
  by unfold_locales (simp add: dynamo_po_q_def selectsD [OF selects_min])

lemma policies_total: "\<forall>body\<in>set (policy_bodies alpha beta gamma u). total_policy body"
  by (simp only: policy_bodies_def list_all_iff [symmetric] list.pred_inject simp_thms
      random.total_policy_axioms least_wait.total_policy_axioms bounded_most_hit.total_policy_axioms
      lmetric.total_policy_axioms shortest_weight.total_policy_axioms least_active.total_policy_axioms
      least_bs.total_policy_axioms least_token_load.total_policy_axioms least_waiting.total_policy_axioms
      most_hit.total_policy_axioms most_hit_load.total_policy_axioms most_hit_load_active.total_policy_axioms
      bailian.total_policy_axioms aibrix.total_policy_axioms dynamo.total_policy_axioms
      dynamo_po.total_policy_axioms)

section \<open>Round robin\<close>

text \<open>A sequence of decisions; the analysis of a policy over time, not a definition of the code.\<close>

fun decide_all ::
    "('b \<Rightarrow> u64 list \<Rightarrow> nat) \<Rightarrow> ('b \<Rightarrow> u64) \<Rightarrow> 'g policy_body \<Rightarrow> (observation list \<Rightarrow> 'g \<Rightarrow> 'g) \<Rightarrow>
       entry list \<Rightarrow> 'b schedule_context list \<Rightarrow> 'g \<Rightarrow> nat option list outcome" where
  "decide_all get epoch_of body after_extra [] ss g = Inr []"
| "decide_all get epoch_of body after_extra (e # es) ss g =
     (case lowered get epoch_of body after_extra e ss g of
        Inl p \<Rightarrow> Inl p
      | Inr (c, e', ss', g') \<Rightarrow> map_sum id (\<lambda>cs. c # cs) (decide_all get epoch_of body after_extra es ss' g'))"

lemma round_robin_choice:
  assumes "g < length ss" "round_robin_q req (capture_observations get epoch_of e ss) g = Some i"
  shows "i = g"
proof -
  let ?obs = "capture_observations get epoch_of e ss"
  obtain o1 where o1: "o1 \<in> set ?obs" "idx o1 = i"
    "\<forall>o2\<in>set ?obs. (if idx o1 = g then 0 else 1 :: u32) \<le> (if idx o2 = g then 0 else 1)"
    by (rule select_min_by_Some [OF assms(2) [unfolded round_robin_q_def]])
  have "?obs ! g \<in> set ?obs" using assms(1) by simp
  moreover have "idx (?obs ! g) = g" using assms(1) by (simp add: capture_nth capture_one_def)
  ultimately show ?thesis using o1(2,3) by (auto split: if_splits)
qed

lemma round_robin_step:
  assumes "g < length ss" "pred_hit_nblks (bhs e) = none_sentinel"
  obtains e' s' where "lowered get epoch_of round_robin_q round_robin_after e ss g =
    Inr (Some g, e', ss[g := s'], (g + 1) mod length ss)"
proof -
  from assms(1) have ne: "ss \<noteq> []" by auto
  from round_robin.lowered_total[OF ne assms(2), of get epoch_of round_robin_after g]
  obtain i e' s' where l: "lowered get epoch_of round_robin_q round_robin_after e ss g =
      Inr (Some i, e', ss[i := s'], round_robin_after (capture_observations get epoch_of e ss) g)" by metis
  obtain j where j: "round_robin_q (request e) (capture_observations get epoch_of e ss) g = Some j"
    using round_robin.chosen_in_range[OF ne] by blast
  from round_robin_choice[OF assms(1) j] have "j = g" .
  with l j have "i = g"
    by (auto simp: lowered_def Let_def split: sum.splits if_splits)
  moreover have "round_robin_after (capture_observations get epoch_of e ss) g = (g + 1) mod length ss"
  proof -
    have "max (length ss) 1 = length ss" using ne by (cases ss) simp_all
    then show ?thesis by (simp only: round_robin_after_def length_capture)
  qed
  ultimately show ?thesis using l that by simp
qed

section \<open>Properties\<close>

lemma best_ttft_inv:
  assumes "best_ttft ttft ihs best = Some (i, t)"
  shows "(best = Some (i, t) \<or> (\<exists>h. (i, h) \<in> set ihs \<and> ttft i h = Some t)) \<and>
    (\<forall>(j, h)\<in>set ihs. \<forall>t'. ttft j h = Some t' \<longrightarrow> t \<le> t') \<and> (\<forall>b. best = Some b \<longrightarrow> t \<le> snd b)"
  using assms
proof (induction ttft ihs best rule: best_ttft.induct)
  case (2 ttft j h ihs best)
  define best' where "best' = (case ttft j h of None \<Rightarrow> best
    | Some t \<Rightarrow> if (case best of None \<Rightarrow> True | Some (_, prev) \<Rightarrow> t < prev) then Some (j, t) else best)"
  have r: "best_ttft ttft ihs best' = Some (i, t)" using 2(2) by (simp add: best'_def)
  note ih = 2(1) [folded best'_def, OF r]
  have le: "\<forall>b. best = Some b \<longrightarrow> (\<exists>b'. best' = Some b' \<and> snd b' \<le> snd b)"
    by (auto simp: best'_def split: option.splits)
  have le': "\<forall>t'. ttft j h = Some t' \<longrightarrow> (\<exists>b'. best' = Some b' \<and> snd b' \<le> t')"
    by (auto simp: best'_def split: option.splits)
  have src: "best' = best \<or> (\<exists>t'. ttft j h = Some t' \<and> best' = Some (j, t'))"
    by (auto simp: best'_def split: option.splits)
  have c1: "best = Some (i, t) \<or> (\<exists>h'. (i, h') \<in> set ((j, h) # ihs) \<and> ttft i h' = Some t)"
    using ih src by auto
  have c2: "\<forall>t'. ttft j h = Some t' \<longrightarrow> t \<le> t'" using ih le' by force
  have c3: "\<forall>b. best = Some b \<longrightarrow> t \<le> snd b" using ih le by force
  from c1 c2 c3 ih show ?case by (simp del: split_paired_All)
qed auto

lemma best_ttft_None: "best_ttft ttft ihs best = None \<longleftrightarrow> best = None \<and> (\<forall>(i, h)\<in>set ihs. ttft i h = None)"
  by (induction ttft ihs best rule: best_ttft.induct) (auto split: option.splits)

text \<open>round robin is fair: starting from cursor \<open>g\<close> over \<open>n\<close> replicas, the \<open>k\<close>-th of a sequence
  of decisions goes to replica \<open>(g + k) mod n\<close>, whatever the load and the cached prefixes.\<close>

theorem round_robin_cycles:
  assumes "g < length ss" "\<forall>e\<in>set es. pred_hit_nblks (bhs e) = none_sentinel"
  shows "decide_all get epoch_of round_robin_q round_robin_after es ss g =
    Inr (map (\<lambda>k. Some ((g + k) mod length ss)) [0..<length es])"
  using assms
proof (induction es arbitrary: ss g)
  case (Cons e es)
  obtain e' s' where st: "lowered get epoch_of round_robin_q round_robin_after e ss g =
      Inr (Some g, e', ss[g := s'], (g + 1) mod length ss)"
    using round_robin_step[of g ss e get epoch_of] Cons.prems by auto
  have "decide_all get epoch_of round_robin_q round_robin_after es (ss[g := s']) ((g + 1) mod length ss) =
      Inr (map (\<lambda>k. Some (((g + 1) mod length ss + k) mod length ss)) [0..<length es])"
  proof -
    have "(g + 1) mod length ss < length (ss[g := s'])" using Cons.prems(1) by (cases "length ss") simp_all
    then show ?thesis using Cons.IH[of "(g + 1) mod length ss" "ss[g := s']"] Cons.prems(2) by simp
  qed
  moreover have "map (\<lambda>k. Some ((g + k) mod length ss)) [0..<length (e # es)] =
      Some g # map (\<lambda>k. Some (((g + 1) mod length ss + k) mod length ss)) [0..<length es]"
    using Cons.prems by (simp add: upt_conv_Cons mod_simps map_Suc_upt [symmetric] comp_def del: upt_Suc)
  ultimately show ?case using st by simp
qed simp

lemma round_robin_cycles_witness:
  "decide_all ht_get ht_epoch round_robin_q round_robin_after (replicate 3 (example_entry 1 [7]))
     (replicate 2 \<lparr>sc_lmetric = lmetric_default, sc_block_hash = ht_new 4\<rparr>) 1 = Inr [Some 1, Some 0, Some 1]"
  by (subst round_robin_cycles) (simp_all add: example_entry_def upt_rec)

text \<open>the hit-first policy with a load bound does what it says: when some replica queues fewer
  than 2048 prefill tokens, the chosen one does too and has the most cached blocks among those; when
  none does, the chosen one has the least prefill work.\<close>

theorem bounded_most_hit_choice:
  assumes "obs \<noteq> []"
  shows "\<exists>o1\<in>set obs. bounded_most_hit_q req obs g = Some (idx o1) \<and>
    (if \<exists>o2\<in>set obs. queued_tokens o2 < 2048
     then queued_tokens o1 < 2048 \<and>
       (\<forall>o2\<in>set obs. queued_tokens o2 < 2048 \<longrightarrow> ob_hit_blocks o2 \<le> ob_hit_blocks o1)
     else (\<forall>o2\<in>set obs. prefill_tokens_of req o1 \<le> prefill_tokens_of req o2))"
proof -
  have "\<exists>o1\<in>set obs. bounded_most_hit_q req obs () = Some (idx o1)"
    by (rule bounded_most_hit.body_total [OF assms])
  then obtain i where i: "bounded_most_hit_q req obs g = Some i" by auto
  show ?thesis
  proof (cases "\<exists>o2\<in>set obs. queued_tokens o2 < 2048")
    case True
    then have "select_max_by (filter (\<lambda>o1. queued_tokens o1 < 2048) obs) (hit_blocks req) = Some i"
      using i by (auto simp: bounded_most_hit_q_def filter_then_def waiting_prefill_token_bound_def filter_empty_conv)
    then show ?thesis
      using i True by (elim select_max_by_Some) (auto simp: hit_blocks_def)
  next
    case False
    then have "filter (\<lambda>o1. queued_tokens o1 < 2048) obs = []"
      "filter (Not \<circ> (\<lambda>o1. queued_tokens o1 < 2048)) obs = obs" by (auto simp: filter_empty_conv filter_id_conv)
    then have "select_min_by obs (prefill_tokens_of req) = Some i"
      using i by (simp add: bounded_most_hit_q_def filter_then_def waiting_prefill_token_bound_def)
    then show ?thesis using i False by (elim select_min_by_Some) auto
  qed
qed

definition example_obs :: "nat \<Rightarrow> usize \<Rightarrow> usize \<Rightarrow> observation" where
  "example_obs i q h = \<lparr>idx = i, ob_bs = 0, ob_waiting = 0, ob_queued_tokens = q, ob_all_tokens = 0,
     ob_block_size = 16, ob_hit_blocks = h, ob_epoch = 0\<rparr>"

lemma bounded_most_hit_choice_witness:
  "\<exists>o1\<in>set [example_obs 0 4096 9, example_obs 1 5 3]. idx o1 = 1 \<and>
     bounded_most_hit_q (request (example_entry 1 [7])) [example_obs 0 4096 9, example_obs 1 5 3] () = Some (idx o1)"
proof -
  have q: "queued_tokens (example_obs i 4096 9) = 4096" "queued_tokens (example_obs i 5 3) = 5" for i
    by (simp_all add: example_obs_def queued_tokens_def)
  have "\<exists>o1\<in>set [example_obs 0 4096 9, example_obs 1 5 3]. queued_tokens o1 < 2048 \<and>
      bounded_most_hit_q (request (example_entry 1 [7])) [example_obs 0 4096 9, example_obs 1 5 3] () = Some (idx o1)"
    using bounded_most_hit_choice [of "[example_obs 0 4096 9, example_obs 1 5 3]" "request (example_entry 1 [7])" "()"]
    by (simp only: list.set bex_simps ball_simps if_True q list.distinct not_False_eq_True) (simp add: q)
  then show ?thesis by (auto simp: q) (simp_all add: example_obs_def)
qed

text \<open>the least-TTFT search returns a replica whose simulated time to first token is minimal
  among the replicas the simulator could answer for, and fails exactly when it could answer for
  none.\<close>

theorem best_ttft_minimal:
  "case best_ttft ttft ihs None of
     None \<Rightarrow> \<forall>(i, h)\<in>set ihs. ttft i h = None
   | Some (i, t) \<Rightarrow> (\<exists>h. (i, h) \<in> set ihs \<and> ttft i h = Some t) \<and>
       (\<forall>(j, h)\<in>set ihs. \<forall>t'. ttft j h = Some t' \<longrightarrow> t \<le> t')"
proof (cases "best_ttft ttft ihs None")
  case None
  then show ?thesis using best_ttft_None[of ttft ihs None] by simp
next
  case (Some b)
  then show ?thesis using best_ttft_inv[of ttft ihs None "fst b" "snd b"] by (cases b) simp
qed

lemma best_ttft_minimal_witness:
  "snd (the (best_ttft (\<lambda>i h. Some (real i + real h)) [(0, 4), (1, 2), (2, 3)] None)) = 3"
  using best_ttft_minimal [where ttft = "\<lambda>i h. Some (real i + real h)" and ihs = "[(0, 4), (1, 2), (2, 3)]"]
  by (auto split: if_splits)

end
