(* ===== verification/PolicyRunner.thy ===== *)
theory PolicyRunner
  imports Policies
begin

text \<open>
  The queue task of \<^verbatim>\<open>policies/policy_runner.rs\<close>: the commands \<^verbatim>\<open>Append\<close> and
  \<^verbatim>\<open>NextRequest\<close> on the queue of requests no replica was chosen for, and the buffer of
  every replica. The policy is the argument \<open>sched\<close>, the \<^verbatim>\<open>schedule\<close> of the trait
  \<^verbatim>\<open>Policy\<close>. \<open>admit_log\<close> records the calls of \<^verbatim>\<open>simulator::on_admit\<close>. The
  scheduling contexts are shared with the event loops of the replicas, which may change them between
  two commands. The one-shot answer channel is the result of the command.
\<close>

section \<open>State and commands\<close>

type_synonym ('b, 'g) schedule_fn =
  "entry \<Rightarrow> 'b schedule_context list \<Rightarrow> 'g \<Rightarrow> ('b, 'g) scheduled outcome"

record ('b, 'g) runner =
  gctx :: 'g
  uncommit_buffer :: "entry list"
  commit_bufs :: "(u64 \<times> entry) list list"
  all_ctx :: "'b schedule_context list"
  admit_log :: "(nat \<times> entry) list"

datatype command =
    Append entry
  | NextRequest nat nat

definition runner_new :: "nat \<Rightarrow> 'b schedule_context list \<Rightarrow> 'g \<Rightarrow> ('b, 'g) runner" where
  "runner_new num_replicas ss g =
     \<lparr>gctx = g, uncommit_buffer = [], commit_bufs = replicate num_replicas [], all_ctx = ss, admit_log = []\<rparr>"

text \<open>
  Scheduling the front entry, the code both commands share: the entry moves to the buffer of the
  chosen replica. The flag says whether a replica was chosen.
\<close>

definition admit_front ::
    "('b, 'g) schedule_fn \<Rightarrow> entry \<Rightarrow> entry list \<Rightarrow> ('b, 'g) runner \<Rightarrow> (bool \<times> ('b, 'g) runner) outcome" where
  "admit_front sched e rest r =
     (case sched e (all_ctx r) (gctx r) of
        Inl p \<Rightarrow> Inl p
      | Inr (None, e', ss, g) \<Rightarrow> Inr (False, r\<lparr>uncommit_buffer := e' # rest, all_ctx := ss, gctx := g\<rparr>)
      | Inr (Some i, e', ss, g) \<Rightarrow>
          if i < length (commit_bufs r)
          then Inr (True, r\<lparr>uncommit_buffer := rest, all_ctx := ss, gctx := g,
                            admit_log := admit_log r @ [(i, e')],
                            commit_bufs := (commit_bufs r)[i := commit_bufs r ! i @ [(entry_id e', e')]]\<rparr>)
          else Inl SliceOutOfRange)"

definition run_append :: "('b, 'g) schedule_fn \<Rightarrow> entry \<Rightarrow> ('b, 'g) runner \<Rightarrow> ('b, 'g) runner outcome" where
  "run_append sched e r =
     (case uncommit_buffer r @ [e] of
        [] \<Rightarrow> Inl ExpectFailed
      | f # rest \<Rightarrow> map_sum id snd (admit_front sched f rest (r\<lparr>uncommit_buffer := f # rest\<rparr>)))"

text \<open>
  The loop of \<^verbatim>\<open>NextRequest\<close>: while the replica has nothing, admit the front entry. It stops
  when the queue is empty or the policy chooses no replica.
\<close>

function fill_loop :: "('b, 'g) schedule_fn \<Rightarrow> nat \<Rightarrow> ('b, 'g) runner \<Rightarrow> ('b, 'g) runner outcome" where
  "fill_loop sched k r =
     (if \<not> k < length (commit_bufs r) then Inl SliceOutOfRange
      else if commit_bufs r ! k \<noteq> [] then Inr r
      else case uncommit_buffer r of
             [] \<Rightarrow> Inr r
           | e # rest \<Rightarrow>
               (case admit_front sched e rest r of
                  Inl p \<Rightarrow> Inl p
                | Inr (True, r') \<Rightarrow> fill_loop sched k r'
                | Inr (False, r') \<Rightarrow> Inr r'))"
  by pat_completeness auto

lemma admit_front_length:
  "admit_front sched e rest r = Inr (True, r') \<Longrightarrow> uncommit_buffer r' = rest"
  by (auto simp: admit_front_def split: sum.splits option.splits if_splits)

termination fill_loop
  by (relation "measure (\<lambda>(_, _, r). length (uncommit_buffer r))") (auto dest: admit_front_length)

declare fill_loop.simps [simp del]

definition run_next ::
    "('b, 'g) schedule_fn \<Rightarrow> nat \<Rightarrow> nat \<Rightarrow> ('b, 'g) runner \<Rightarrow>
       ((u64 \<times> entry) option \<times> ('b, 'g) runner) outcome" where
  "run_next sched now k r =
     (case fill_loop sched k r of
        Inl p \<Rightarrow> Inl p
      | Inr r' \<Rightarrow>
          (case commit_bufs r' ! k of
             (rid, e) # rest \<Rightarrow>
               Inr (Some (rid, e\<lparr>batch_time := Some now\<rparr>), r'\<lparr>commit_bufs := (commit_bufs r')[k := rest]\<rparr>)
           | [] \<Rightarrow> Inr (None, r')))"

text \<open>One turn of the task: the answer is labelled with the replica that asked.\<close>

definition queue_task_step ::
    "('b, 'g) schedule_fn \<Rightarrow> command \<Rightarrow> ('b, 'g) runner \<Rightarrow>
       ((nat \<times> (u64 \<times> entry) option) option \<times> ('b, 'g) runner) outcome" where
  "queue_task_step sched c r =
     (case c of
        Append e \<Rightarrow> map_sum id (\<lambda>r'. (None, r')) (run_append sched e r)
      | NextRequest k now \<Rightarrow> map_sum id (\<lambda>(a, r'). (Some (k, a), r')) (run_next sched now k r))"

text \<open>
  The task over a sequence of commands, each with the scheduling contexts as it finds them. The
  result lists the answered requests with their replica.
\<close>

fun queue_task ::
    "('b, 'g) schedule_fn \<Rightarrow> ('b schedule_context list \<times> command) list \<Rightarrow> ('b, 'g) runner \<Rightarrow>
       ((nat \<times> u64 \<times> entry) list \<times> ('b, 'g) runner) outcome" where
  "queue_task sched [] r = Inr ([], r)"
| "queue_task sched ((ss, c) # cs) r =
     (case queue_task_step sched c (r\<lparr>all_ctx := ss\<rparr>) of
        Inl p \<Rightarrow> Inl p
      | Inr (a, r') \<Rightarrow>
          map_sum id (\<lambda>(as, r''). ((case a of Some (k, Some (rid, e)) \<Rightarrow> [(k, rid, e)] | _ \<Rightarrow> []) @ as, r''))
            (queue_task sched cs r'))"

section \<open>The contract of a policy\<close>

definition fresh :: "entry \<Rightarrow> bool" where
  "fresh e \<longleftrightarrow> pred_hit_nblks (bhs e) = none_sentinel"

text \<open>The invariant of the task, over the requests appended and answered so far.\<close>

definition runner_inv :: "nat \<Rightarrow> u64 list \<Rightarrow> (nat \<times> u64 \<times> entry) list \<Rightarrow> ('b, 'g) runner \<Rightarrow> bool" where
  "runner_inv n appended answered r \<longleftrightarrow>
     length (commit_bufs r) = n \<and> length (all_ctx r) = n \<and> (\<forall>e\<in>set (uncommit_buffer r). fresh e) \<and>
     map (entry_id \<circ> snd) (admit_log r) @ map entry_id (uncommit_buffer r) = appended \<and>
     (\<forall>k<n. map (fst \<circ> snd) (filter (\<lambda>a. fst a = k) answered) @ map fst (commit_bufs r ! k) =
        map (entry_id \<circ> snd) (filter (\<lambda>a. fst a = k) (admit_log r)))"

text \<open>What the task is sent: contexts of \<open>n\<close> replicas, fresh entries, replicas in range; and the
  requests appended by a sequence of commands.\<close>

definition command_ok :: "nat \<Rightarrow> 'b schedule_context list \<times> command \<Rightarrow> bool" where
  "command_ok n sc \<longleftrightarrow> length (fst sc) = n \<and>
     (case snd sc of Append e \<Rightarrow> fresh e | NextRequest k now \<Rightarrow> k < n)"

definition appended_ids :: "('b schedule_context list \<times> command) list \<Rightarrow> u64 list" where
  "appended_ids cs = concat (map (\<lambda>sc. case snd sc of Append e \<Rightarrow> [entry_id e] | NextRequest k now \<Rightarrow> []) cs)"

lemma appended_ids_simps [simp]:
  "appended_ids [] = []"
  "appended_ids ((ss, Append e) # cs) = entry_id e # appended_ids cs"
  "appended_ids ((ss, NextRequest k now) # cs) = appended_ids cs"
  by (simp_all add: appended_ids_def)

locale scheduler =
  fixes sched :: "('b, 'g) schedule_fn"
  assumes sched_ok: "ss \<noteq> [] \<Longrightarrow> fresh e \<Longrightarrow> \<exists>c e' ss' g'. sched e ss g = Inr (c, e', ss', g') \<and>
      request e' = request e \<and> length ss' = length ss \<and>
      (case c of None \<Rightarrow> fresh e' | Some i \<Rightarrow> i < length ss)"
begin

lemma admit_front_inv:
  assumes "runner_inv n appended answered r" "uncommit_buffer r = e # rest" "0 < n"
  obtains b r' where "admit_front sched e rest r = Inr (b, r')" "runner_inv n appended answered r'"
proof -
  have ne: "all_ctx r \<noteq> []" and fr: "fresh e" using assms by (auto simp: runner_inv_def)
  obtain c e' ss' g' where s: "sched e (all_ctx r) (gctx r) = Inr (c, e', ss', g')"
    "request e' = request e" "length ss' = length (all_ctx r)"
    "case c of None \<Rightarrow> fresh e' | Some i \<Rightarrow> i < length (all_ctx r)"
    using sched_ok[OF ne fr] by blast
  have ids: "entry_id e' = entry_id e" using s(2) by (simp add: entry_id_def)
  show ?thesis
  proof (cases c)
    case None
    then have "runner_inv n appended answered (r\<lparr>uncommit_buffer := e' # rest, all_ctx := ss', gctx := g'\<rparr>)"
      using assms s ids by (simp add: runner_inv_def)
    with None s that[of False "r\<lparr>uncommit_buffer := e' # rest, all_ctx := ss', gctx := g'\<rparr>"]
    show ?thesis by (simp add: admit_front_def)
  next
    case (Some i)
    let ?r = "r\<lparr>uncommit_buffer := rest, all_ctx := ss', gctx := g', admit_log := admit_log r @ [(i, e')],
      commit_bufs := (commit_bufs r)[i := commit_bufs r ! i @ [(entry_id e', e')]]\<rparr>"
    have "i < length (commit_bufs r)" using Some s assms(1) by (simp add: runner_inv_def)
    moreover from this have "runner_inv n appended answered ?r"
      using assms s ids by (auto simp: runner_inv_def nth_list_update)
    ultimately show ?thesis using Some s that[of True ?r] by (simp add: admit_front_def)
  qed
qed

lemma run_append_inv:
  assumes "runner_inv n appended answered r" "fresh e" "0 < n"
  obtains r' where "run_append sched e r = Inr r'" "runner_inv n (appended @ [entry_id e]) answered r'"
proof -
  obtain f rest where q: "uncommit_buffer r @ [e] = f # rest" by (cases "uncommit_buffer r") auto
  have "runner_inv n (appended @ [entry_id e]) answered (r\<lparr>uncommit_buffer := f # rest\<rparr>)"
  proof -
    have "runner_inv n (appended @ [entry_id e]) answered (r\<lparr>uncommit_buffer := uncommit_buffer r @ [e]\<rparr>)"
      using assms by (auto simp: runner_inv_def)
    then show ?thesis by (simp only: q)
  qed
  from admit_front_inv[OF this _ assms(3), of f rest] obtain b r' where
    "admit_front sched f rest (r\<lparr>uncommit_buffer := f # rest\<rparr>) = Inr (b, r')"
    "runner_inv n (appended @ [entry_id e]) answered r'" by auto
  with q that[of r'] show ?thesis by (simp add: run_append_def)
qed

lemma fill_loop_inv:
  assumes "runner_inv n appended answered r" "k < n"
  shows "\<exists>r'. fill_loop sched k r = Inr r' \<and> runner_inv n appended answered r'"
  using assms
proof (induction "length (uncommit_buffer r)" arbitrary: r rule: less_induct)
  case less
  have k: "k < length (commit_bufs r)" using less.prems by (simp add: runner_inv_def)
  show ?case
  proof (cases "commit_bufs r ! k = [] \<and> uncommit_buffer r \<noteq> []")
    case False
    then show ?thesis using k less.prems by (subst fill_loop.simps) (auto split: list.split)
  next
    case True
    then obtain e rest where q: "uncommit_buffer r = e # rest" by (cases "uncommit_buffer r") auto
    obtain b r' where a: "admit_front sched e rest r = Inr (b, r')" "runner_inv n appended answered r'"
      using admit_front_inv[OF less.prems(1) q] less.prems(2) by auto
    show ?thesis
    proof (cases b)
      case False
      then show ?thesis using True k q a by (subst fill_loop.simps) simp
    next
      case b: True
      then have "uncommit_buffer r' = rest" using a admit_front_length by fastforce
      then have "\<exists>r''. fill_loop sched k r' = Inr r'' \<and> runner_inv n appended answered r''"
        using less.hyps[of r'] a(2) less.prems(2) q by simp
      then show ?thesis using True k q a b by (subst fill_loop.simps) simp
    qed
  qed
qed

lemma run_next_inv:
  assumes "runner_inv n appended answered r" "k < n"
  obtains a r' where "run_next sched now k r = Inr (a, r')"
    "runner_inv n appended (answered @ (case a of Some (rid, e) \<Rightarrow> [(k, rid, e)] | None \<Rightarrow> [])) r'"
proof -
  obtain r1 where f: "fill_loop sched k r = Inr r1" and i: "runner_inv n appended answered r1"
    using fill_loop_inv[OF assms] by blast
  show ?thesis
  proof (cases "commit_bufs r1 ! k")
    case Nil
    then show ?thesis using f i that[of None r1] by (simp add: run_next_def)
  next
    case (Cons re rest)
    obtain rid e where re: "re = (rid, e)" by (cases re)
    let ?e = "e\<lparr>batch_time := Some now\<rparr>"
    have "runner_inv n appended (answered @ [(k, rid, ?e)]) (r1\<lparr>commit_bufs := (commit_bufs r1)[k := rest]\<rparr>)"
      unfolding runner_inv_def
    proof (intro conjI allI impI)
      fix j assume "j < n"
      with i have "map (fst \<circ> snd) (filter (\<lambda>a. fst a = j) answered) @ map fst (commit_bufs r1 ! j) =
          map (entry_id \<circ> snd) (filter (\<lambda>a. fst a = j) (admit_log r1))" by (simp add: runner_inv_def)
      then show "map (fst \<circ> snd) (filter (\<lambda>a. fst a = j) (answered @ [(k, rid, ?e)])) @
            map fst (commit_bufs (r1\<lparr>commit_bufs := (commit_bufs r1)[k := rest]\<rparr>) ! j) =
          map (entry_id \<circ> snd) (filter (\<lambda>a. fst a = j) (admit_log (r1\<lparr>commit_bufs := (commit_bufs r1)[k := rest]\<rparr>)))"
        using i Cons re assms(2) \<open>j < n\<close> by (cases "j = k") (simp_all add: runner_inv_def)
    qed (use i in \<open>simp_all add: runner_inv_def\<close>)
    then show ?thesis using f Cons re that[of "Some (rid, ?e)"] by (simp add: run_next_def)
  qed
qed

lemma queue_task_inv:
  assumes "runner_inv n appended answered r" "\<forall>sc\<in>set cs. command_ok n sc" "0 < n"
  shows "\<exists>as r'. queue_task sched cs r = Inr (as, r') \<and>
    runner_inv n (appended @ appended_ids cs) (answered @ as) r'"
  using assms(1,2)
proof (induction cs arbitrary: appended answered r)
  case (Cons sc cs)
  obtain ss c where sc: "sc = (ss, c)" by (cases sc)
  have r0: "runner_inv n appended answered (r\<lparr>all_ctx := ss\<rparr>)"
    using Cons.prems sc by (simp add: runner_inv_def command_ok_def)
  show ?case
  proof (cases c)
    case (Append e)
    have "fresh e" using Cons.prems(2) sc Append by (simp add: command_ok_def)
    then obtain r1 where "run_append sched e (r\<lparr>all_ctx := ss\<rparr>) = Inr r1"
      "runner_inv n (appended @ [entry_id e]) answered r1" using run_append_inv[OF r0 _ assms(3)] by blast
    with Cons.IH[OF this(2)] Cons.prems(2) sc Append show ?thesis
      by (auto simp: queue_task_step_def)
  next
    case (NextRequest k now)
    have "k < n" using Cons.prems(2) sc NextRequest by (simp add: command_ok_def)
    then obtain a r1 where a: "run_next sched now k (r\<lparr>all_ctx := ss\<rparr>) = Inr (a, r1)"
      "runner_inv n appended (answered @ (case a of Some (rid, e) \<Rightarrow> [(k, rid, e)] | None \<Rightarrow> [])) r1"
      using run_next_inv[OF r0] by blast
    with Cons.IH[OF this(2)] Cons.prems(2) sc NextRequest show ?thesis
      by (auto simp: queue_task_step_def split: option.splits)
  qed
qed simp

lemma queue_task_total:
  assumes "0 < n" "length ss = n" "\<forall>sc\<in>set cs. command_ok n sc"
  shows "\<exists>as r'. queue_task sched cs (runner_new n ss g) = Inr (as, r') \<and>
    runner_inv n (appended_ids cs) as r'"
proof -
  have "runner_inv n [] [] (runner_new n ss g)" using assms(2) by (simp add: runner_inv_def runner_new_def)
  from queue_task_inv[OF this assms(3,1)] show ?thesis by simp
qed

end

text \<open>A policy that always chooses a replica.\<close>

locale total_scheduler = scheduler +
  assumes sched_some: "ss \<noteq> [] \<Longrightarrow> fresh e \<Longrightarrow> sched e ss g = Inr (c, e', ss', g') \<Longrightarrow> c \<noteq> None"
begin

text \<open>The queue of requests no replica was chosen for is empty after every command.\<close>

lemma run_append_empties:
  assumes "runner_inv n appended answered r" "fresh e" "0 < n" "uncommit_buffer r = []"
    "run_append sched e r = Inr r'"
  shows "uncommit_buffer r' = []"
proof -
  have "all_ctx r \<noteq> []" using assms(1,3) by (auto simp: runner_inv_def)
  with assms show ?thesis
    by (auto simp: run_append_def admit_front_def dest: sched_some split: sum.splits option.splits if_splits)
qed

lemma fill_loop_empty: "k < length (commit_bufs r) \<Longrightarrow> uncommit_buffer r = [] \<Longrightarrow> fill_loop sched k r = Inr r"
  by (subst fill_loop.simps) simp

lemma run_next_empties:
  "k < length (commit_bufs r) \<Longrightarrow> uncommit_buffer r = [] \<Longrightarrow> run_next sched now k r = Inr (a, r') \<Longrightarrow>
     uncommit_buffer r' = [] \<and> (a = None \<longrightarrow> commit_bufs r ! k = [])"
  by (auto simp: run_next_def fill_loop_empty split: list.splits)

lemma queue_task_empties:
  assumes "runner_inv n appended answered r" "\<forall>sc\<in>set cs. command_ok n sc" "0 < n" "uncommit_buffer r = []"
    "queue_task sched cs r = Inr (as, r')"
  shows "uncommit_buffer r' = []"
  using assms(1,2,4,5)
proof (induction cs arbitrary: appended answered r as)
  case (Cons sc cs)
  obtain ss c where sc: "sc = (ss, c)" by (cases sc)
  have r0: "runner_inv n appended answered (r\<lparr>all_ctx := ss\<rparr>)" and u0: "uncommit_buffer (r\<lparr>all_ctx := ss\<rparr>) = []"
    using Cons.prems sc by (simp_all add: runner_inv_def command_ok_def)
  show ?case
  proof (cases c)
    case (Append e)
    have fr: "fresh e" using Cons.prems(2) sc Append by (simp add: command_ok_def)
    then obtain r1 where r1: "run_append sched e (r\<lparr>all_ctx := ss\<rparr>) = Inr r1"
      "runner_inv n (appended @ [entry_id e]) answered r1" using run_append_inv[OF r0 _ assms(3)] by blast
    with Cons.prems(4) sc Append obtain as1 where "queue_task sched cs r1 = Inr (as1, r')"
      by (cases "queue_task sched cs r1") (auto simp: queue_task_step_def)
    then show ?thesis
      using Cons.IH[OF r1(2) _ run_append_empties[OF r0 fr assms(3) u0 r1(1)]] Cons.prems(2) by simp
  next
    case (NextRequest k now)
    have k: "k < n" using Cons.prems(2) sc NextRequest by (simp add: command_ok_def)
    then obtain a r1 where a: "run_next sched now k (r\<lparr>all_ctx := ss\<rparr>) = Inr (a, r1)"
      "runner_inv n appended (answered @ (case a of Some (rid, e) \<Rightarrow> [(k, rid, e)] | None \<Rightarrow> [])) r1"
      using run_next_inv[OF r0] by blast
    have u1: "uncommit_buffer r1 = []"
      using run_next_empties[OF _ u0 a(1)] r0 k by (simp add: runner_inv_def)
    from Cons.prems(4) sc NextRequest a(1) obtain as1 where "queue_task sched cs r1 = Inr (as1, r')"
      by (cases "queue_task sched cs r1") (auto simp: queue_task_step_def)
    then show ?thesis using Cons.IH[OF a(2) _ u1] Cons.prems(2) by simp
  qed
qed simp

lemma queue_task_exactly_once:
  assumes "0 < n" "length ss = n" "\<forall>sc\<in>set cs. command_ok n sc"
  shows "\<exists>as r'. queue_task sched cs (runner_new n ss g) = Inr (as, r') \<and> uncommit_buffer r' = [] \<and>
    map (entry_id \<circ> snd) (admit_log r') = appended_ids cs \<and>
    (\<forall>k<n. map (fst \<circ> snd) (filter (\<lambda>a. fst a = k) as) @ map fst (commit_bufs r' ! k) =
        map (entry_id \<circ> snd) (filter (\<lambda>a. fst a = k) (admit_log r')))"
proof -
  obtain as r' where q: "queue_task sched cs (runner_new n ss g) = Inr (as, r')"
    and i: "runner_inv n (appended_ids cs) as r'" using queue_task_total[OF assms] by blast
  have "runner_inv n [] [] (runner_new n ss g)" "uncommit_buffer (runner_new n ss g) = []"
    using assms(2) by (simp_all add: runner_inv_def runner_new_def)
  from queue_task_empties[OF this(1) assms(3,1) this(2) q] have "uncommit_buffer r' = []" .
  with q i show ?thesis by (simp add: runner_inv_def)
qed

end

text \<open>Every body that always selects, wrapped by the macro, meets the contract.\<close>

sublocale total_policy \<subseteq> total_scheduler "lowered get epoch_of body after_extra" for get epoch_of after_extra
proof unfold_locales
  fix ss :: "'a schedule_context list" and e :: entry and g :: 'g
  assume "ss \<noteq> []" "fresh e"
  then have tot: "\<exists>i e' s'. i < length ss \<and> lowered get epoch_of body after_extra e ss g =
      Inr (Some i, e', ss[i := s'], after_extra (capture_observations get epoch_of e ss) g) \<and> request e' = request e"
    using lowered_total unfolding fresh_def by blast
  then show "\<exists>c e' ss' g'. lowered get epoch_of body after_extra e ss g = Inr (c, e', ss', g') \<and>
      request e' = request e \<and> length ss' = length ss \<and> (case c of None \<Rightarrow> fresh e' | Some i \<Rightarrow> i < length ss)"
    by fastforce
  fix c e' ss' g'
  assume "lowered get epoch_of body after_extra e ss g = Inr (c, e', ss', g')"
  with tot show "c \<noteq> None" by auto
qed

context total_policy begin

lemma policy_exactly_once:
  assumes "0 < n" "length ss = n" "\<forall>sc\<in>set cs. command_ok n sc"
  shows "\<exists>as r'. queue_task (lowered get epoch_of body after_extra) cs (runner_new n ss g) = Inr (as, r') \<and>
    uncommit_buffer r' = [] \<and> map (entry_id \<circ> snd) (admit_log r') = appended_ids cs \<and>
    (\<forall>k<n. map (fst \<circ> snd) (filter (\<lambda>a. fst a = k) as) @ map fst (commit_bufs r' ! k) =
        map (entry_id \<circ> snd) (filter (\<lambda>a. fst a = k) (admit_log r')))"
  by (rule queue_task_exactly_once [OF assms])

end

end
