(* ===== verification/Simulator.thy ===== *)
theory Simulator
  imports PCtx VidurRf PolicyRunner
begin

text \<open>
  The registry of the latency simulator, \<^verbatim>\<open>simulator/mod.rs\<close>: one context per replica, set once at
  start-up, and the hooks through which the event loops (\<^verbatim>\<open>on_sse\<close>), the queue task
  (\<^verbatim>\<open>on_admit\<close>) and a policy (\<^verbatim>\<open>query\<close>) reach it. The value of the once-cell is passed
  explicitly; the lock of each context is one step. A predictor that panics (a granularity of zero)
  is outside the model: \<open>predictor_of\<close> is used for loaded tables with positive granularities only.
\<close>

section \<open>Start-up\<close>

record runtime =
  pctxs :: "pctx list"
  rt_block_size :: usize
  rt_inner :: "batch \<Rightarrow> real"

definition init_with_predictor ::
    "nat \<Rightarrow> simulator_config \<Rightarrow> (batch \<Rightarrow> real) \<Rightarrow> runtime option \<Rightarrow> (string + unit) \<times> runtime option" where
  "init_with_predictor n cfg inner sim =
     (let pc = pctx_new (linreg_new (cf_learning_rate cfg) (linreg_warmup cfg) (outlier_threshold_ms cfg))
                 (ucast (cf_block_size cfg)) (cf_token_budget cfg);
          rt = \<lparr>pctxs = replicate n pc, rt_block_size = cf_block_size cfg, rt_inner = inner\<rparr>
      in case sim of
           None \<Rightarrow> (Inr (), Some rt)
         | Some _ \<Rightarrow> (Inl ''simulator already initialised'', sim))"

definition predictor_of :: "vidur \<Rightarrow> batch \<Rightarrow> real" where
  "predictor_of p b = (case vidur_predict p b of Inr ms \<Rightarrow> ms | Inl _ \<Rightarrow> 0)"

definition init_vidur_rf ::
    "(string \<Rightarrow> real option) \<Rightarrow> file_system \<Rightarrow> nat \<Rightarrow> simulator_config \<Rightarrow> runtime option \<Rightarrow> (string + unit) \<times> runtime option" where
  "init_vidur_rf parse_f32 files n cfg sim =
     (case vidur_new parse_f32 files cfg of
        Inl e \<Rightarrow> (Inl e, sim)
      | Inr p \<Rightarrow> init_with_predictor n cfg (predictor_of p) sim)"

definition is_active :: "runtime option \<Rightarrow> bool" where
  "is_active sim \<longleftrightarrow> sim \<noteq> None"

section \<open>Hooks\<close>

text \<open>The figures published for a step: predicted, actual, signed and absolute error, and the relative error.\<close>

definition step_metrics :: "real \<times> real \<Rightarrow> real list" where
  "step_metrics = (\<lambda>(predicted, actual).
     let signed_error = actual - predicted
     in [predicted, actual, signed_error, \<bar>signed_error\<bar>] @
        (if actual > 1 / 1000 then [\<bar>signed_error\<bar> / actual] else []))"

definition sim_on_sse :: "nat \<Rightarrow> engine_step_output \<Rightarrow> runtime option \<Rightarrow> real list \<times> runtime option" where
  "sim_on_sse i m sim =
     (case sim of
        None \<Rightarrow> ([], None)
      | Some rt \<Rightarrow>
          if i < length (pctxs rt)
          then let (res, pc) = on_sse (rt_inner rt) (pctxs rt ! i) (batch_from_step m (rt_block_size rt)) m
               in (step_metrics res, Some (rt\<lparr>pctxs := (pctxs rt)[i := pc]\<rparr>))
          else ([], sim))"

definition get_hashes :: "block_hash_state \<Rightarrow> u64 list" where
  "get_hashes b = block_hashes b"

definition sim_on_admit :: "nat \<Rightarrow> entry \<Rightarrow> runtime option \<Rightarrow> runtime option" where
  "sim_on_admit i e sim =
     (case sim of
        None \<Rightarrow> None
      | Some rt \<Rightarrow>
          if i < length (pctxs rt)
          then Some (rt\<lparr>pctxs := (pctxs rt)[i := on_admit (pctxs rt ! i) (entry_id e) (req_input_length (request e)) (get_hashes (bhs e))]\<rparr>)
          else sim)"

definition sim_query :: "nat \<Rightarrow> u64 \<Rightarrow> u32 \<Rightarrow> u64 list \<Rightarrow> nat \<Rightarrow> runtime option \<Rightarrow> rollout_gist option \<times> runtime option" where
  "sim_query i cid len hashes hits sim =
     (case sim of
        None \<Rightarrow> (None, None)
      | Some rt \<Rightarrow>
          if i < length (pctxs rt)
          then let (g, pc) = query (rt_inner rt) (pctxs rt ! i) cid len hashes hits
               in (Some g, Some (rt\<lparr>pctxs := (pctxs rt)[i := pc]\<rparr>))
          else (None, sim))"

section \<open>Histories\<close>

datatype sim_op =
    OpSse nat engine_step_output
  | OpAdmit nat entry
  | OpQuery nat u64 u32 "u64 list" nat

definition sim_step :: "sim_op \<Rightarrow> runtime option \<Rightarrow> runtime option" where
  "sim_step ev sim = (case ev of
     OpSse i m \<Rightarrow> snd (sim_on_sse i m sim)
   | OpAdmit i e \<Rightarrow> sim_on_admit i e sim
   | OpQuery i cid len hashes hits \<Rightarrow> snd (sim_query i cid len hashes hits sim))"

text \<open>The specification: the requests of a replica are those admitted to it that no step has ended.\<close>

definition track :: "sim_op \<Rightarrow> (nat \<Rightarrow> u64 set) \<Rightarrow> nat \<Rightarrow> u64 set" where
  "track ev S = (case ev of
     OpSse i m \<Rightarrow> S(i := S i - ended_by m)
   | OpAdmit i e \<Rightarrow> S(i := insert (entry_id e) (S i))
   | OpQuery _ _ _ _ _ \<Rightarrow> S)"

text \<open>The router never admits an id to a replica that still has it.\<close>

fun admits_fresh :: "sim_op list \<Rightarrow> (nat \<Rightarrow> u64 set) \<Rightarrow> bool" where
  "admits_fresh [] S = True"
| "admits_fresh (ev # evs) S =
     ((case ev of OpAdmit i e \<Rightarrow> entry_id e \<notin> S i | _ \<Rightarrow> True) \<and> admits_fresh evs (track ev S))"

definition sim_inv :: "nat \<Rightarrow> (nat \<Rightarrow> u64 set) \<Rightarrow> runtime option \<Rightarrow> bool" where
  "sim_inv n S sim \<longleftrightarrow>
     (\<exists>rt. sim = Some rt \<and> length (pctxs rt) = n \<and>
        (\<forall>i<n. pctx_ok (pctxs rt ! i) \<and> in_flight (pc_sched (pctxs rt ! i)) = S i))"

lemma sim_inv_init:
  assumes "init_with_predictor n cfg inner None = (res, sim)"
  shows "res = Inr () \<and> sim_inv n (\<lambda>_. {}) sim"
  using assms by (auto simp: init_with_predictor_def sim_inv_def Let_def) (simp add: pctx_new_def)

lemma query_sched: "pc_sched (snd (query inner pc cid len hashes hits)) = pc_sched pc"
  unfolding query_unfold by (simp split: prod.split)

text \<open>A hook that replaces one context.\<close>

lemma sim_inv_update:
  assumes "sim_inv n S (Some rt)" "i < n \<Longrightarrow> pctx_ok pc \<and> in_flight (pc_sched pc) = T" "i < n"
  shows "sim_inv n (S(i := T)) (Some (rt\<lparr>pctxs := (pctxs rt)[i := pc]\<rparr>))"
  using assms by (auto simp: sim_inv_def nth_list_update)

lemma sim_step_inv:
  assumes "sim_inv n S sim" "case ev of OpAdmit i e \<Rightarrow> entry_id e \<notin> S i | _ \<Rightarrow> True"
  shows "\<exists>T. sim_inv n T (sim_step ev sim) \<and> (\<forall>i<n. T i = track ev S i)"
proof -
  from assms(1) obtain rt where rt: "sim = Some rt" "length (pctxs rt) = n"
    "\<forall>i<n. pctx_ok (pctxs rt ! i) \<and> in_flight (pc_sched (pctxs rt ! i)) = S i" by (auto simp: sim_inv_def)
  show ?thesis
  proof (cases ev)
    case (OpSse i m)
    show ?thesis
    proof (cases "i < n")
      case True
      obtain res pc where pc: "on_sse (rt_inner rt) (pctxs rt ! i) (batch_from_step m (rt_block_size rt)) m = (res, pc)"
        by (metis surj_pair)
      have "pctx_ok pc" using on_sse_ok[OF _ pc] rt(3) True by blast
      moreover have "in_flight (pc_sched pc) = S i - ended_by m"
        using on_sse_parts(1)[OF pc] sync_ok[of "pc_sched (pctxs rt ! i)" m] rt(3) True by (simp add: pctx_ok_def)
      ultimately have "sim_inv n (S(i := S i - ended_by m)) (Some (rt\<lparr>pctxs := (pctxs rt)[i := pc]\<rparr>))"
        using sim_inv_update[of n S rt i pc] assms(1) rt(1) True by blast
      then show ?thesis using True rt pc by (auto simp: OpSse sim_step_def sim_on_sse_def track_def)
    qed (use assms(1) rt in \<open>auto simp: OpSse sim_step_def sim_on_sse_def track_def\<close>)
  next
    case (OpAdmit i e)
    show ?thesis
    proof (cases "i < n")
      case True
      let ?pc = "on_admit (pctxs rt ! i) (entry_id e) (req_input_length (request e)) (get_hashes (bhs e))"
      have "pctx_ok ?pc" using on_admit_ok rt(3) True assms(2) OpAdmit by simp
      moreover have "in_flight (pc_sched ?pc) = insert (entry_id e) (S i)"
        using rt(3) True by (simp add: on_admit_def req_new_def)
      ultimately have "sim_inv n (S(i := insert (entry_id e) (S i))) (Some (rt\<lparr>pctxs := (pctxs rt)[i := ?pc]\<rparr>))"
        using sim_inv_update[of n S rt i ?pc] assms(1) rt(1) True by blast
      then show ?thesis using True rt by (auto simp: OpAdmit sim_step_def sim_on_admit_def track_def)
    qed (use assms(1) rt in \<open>auto simp: OpAdmit sim_step_def sim_on_admit_def track_def\<close>)
  next
    case (OpQuery i cid len hashes hits)
    show ?thesis
    proof (cases "i < n")
      case True
      obtain g pc where pc: "query (rt_inner rt) (pctxs rt ! i) cid len hashes hits = (g, pc)" by force
      have "pctx_ok pc \<and> in_flight (pc_sched pc) = S i"
        using query_ok[of "pctxs rt ! i" "rt_inner rt" cid len hashes hits]
          query_sched[of "rt_inner rt" "pctxs rt ! i" cid len hashes hits] rt(3) True pc by simp
      then have "sim_inv n (S(i := S i)) (Some (rt\<lparr>pctxs := (pctxs rt)[i := pc]\<rparr>))"
        using sim_inv_update[of n S rt i pc "S i"] assms(1) rt(1) True by blast
      then show ?thesis using True rt pc by (auto simp: OpQuery sim_step_def sim_query_def track_def)
    qed (use assms(1) rt in \<open>auto simp: OpQuery sim_step_def sim_query_def track_def\<close>)
  qed
qed

lemma sim_inv_cong: "(\<forall>i<n. T i = S i) \<Longrightarrow> sim_inv n T sim = sim_inv n S sim"
  by (auto simp: sim_inv_def)

lemma sim_run_inv:
  "sim_inv n S sim \<Longrightarrow> admits_fresh evs S \<Longrightarrow> sim_inv n (fold track evs S) (fold sim_step evs sim)"
proof (induction evs arbitrary: S sim)
  case (Cons ev evs)
  from sim_step_inv[OF Cons.prems(1), of ev] Cons.prems(2)
  obtain T where T: "sim_inv n T (sim_step ev sim)" "\<forall>i<n. T i = track ev S i" by auto
  then have "sim_inv n (track ev S) (sim_step ev sim)" using sim_inv_cong by blast
  with Cons.IH Cons.prems(2) show ?case by simp
qed simp

text \<open>C22: the simulator follows the fleet. Initialised once for \<open>n\<close> replicas and then fed by the hooks in any
  order, with queries in between, the context of every replica stays consistent and its snapshot holds exactly
  the requests admitted to that replica that none of its steps has ended: hooks of one replica never touch
  another, and neither queries nor indices out of range change anything. A second initialisation is refused and changes
  nothing.\<close>

theorem simulator_tracks_fleet:
  assumes "init_with_predictor n cfg inner None = (res, sim)" "admits_fresh evs (\<lambda>_. {})"
  shows "res = Inr () \<and> (\<exists>rt. fold sim_step evs sim = Some rt \<and> length (pctxs rt) = n \<and>
      (\<forall>i<n. pctx_ok (pctxs rt ! i) \<and> in_flight (pc_sched (pctxs rt ! i)) = fold track evs (\<lambda>_. {}) i) \<and>
      init_with_predictor k cfg' inner' (Some rt) = (Inl ''simulator already initialised'', Some rt))"
  using sim_run_inv[OF conjunct2[OF sim_inv_init[OF assms(1)]] assms(2)] sim_inv_init[OF assms(1)]
  by (auto simp: sim_inv_def init_with_predictor_def Let_def)

theorem simulator_tracks_fleet_witness:
  "\<exists>rt. fold sim_step [OpAdmit 0 (example_entry 7 [1]), OpQuery 0 9 20 [] 0,
      OpSse 1 (empty_step\<lparr>outputs := [output_of 7 ''DECODE'' True]\<rparr>)]
      (snd (init_with_predictor 2 simulator_config_default (\<lambda>_. 1) None)) = Some rt \<and> in_flight (pc_sched (pctxs rt ! 0)) = {7}"
proof -
  obtain res sim where i: "init_with_predictor 2 simulator_config_default (\<lambda>_. 1) None = (res, sim)" by force
  have "admits_fresh [OpAdmit 0 (example_entry 7 [1]), OpQuery 0 9 20 [] 0,
      OpSse 1 (empty_step\<lparr>outputs := [output_of 7 ''DECODE'' True]\<rparr>)] (\<lambda>_. {})" by simp
  from simulator_tracks_fleet[OF i this] obtain rt where
    rt: "fold sim_step [OpAdmit 0 (example_entry 7 [1]), OpQuery 0 9 20 [] 0,
      OpSse 1 (empty_step\<lparr>outputs := [output_of 7 ''DECODE'' True]\<rparr>)] sim = Some rt"
    "\<forall>i<2. in_flight (pc_sched (pctxs rt ! i)) = fold track [OpAdmit 0 (example_entry 7 [1]), OpQuery 0 9 20 [] 0,
      OpSse 1 (empty_step\<lparr>outputs := [output_of 7 ''DECODE'' True]\<rparr>)] (\<lambda>_. {}) i" by blast
  from rt(2) have "in_flight (pc_sched (pctxs rt ! 0)) = {7}" by (simp add: track_def example_entry_def entry_id_def)
  with rt(1) i show ?thesis by (intro exI[of _ rt]) (simp only: snd_conv)
qed

end
