(* ===== verification/Fleet.thy ===== *)
theory Fleet
  imports Infer LoopAccounting Simulator
begin

text \<open>
  The router as one system: the inference front, the queue task, the work loop and the completion loop
  of every replica, and the simulator, with the channels between them, as they are put together by
  \<^verbatim>\<open>Infer::create_vllm_colocation\<close> (\<^verbatim>\<open>scheduler/infer.rs\<close>), \<^verbatim>\<open>PolicyRunner::new\<close> and
  \<^verbatim>\<open>start_vllm_colocation_event_loop\<close>. Each task advances by the operations of its own theory; an
  event of \<open>fleet_step\<close> is one such operation, and any interleaving of events is a run. A value
  \<open>Inl\<close> says that the task that made the step has panicked.
\<close>

section \<open>The system\<close>

text \<open>What does not change after start-up.\<close>

record ('b, 'g) deployment =
  dp_xxh :: "u32 list \<Rightarrow> u64 \<Rightarrow> u64"
  dp_block_size :: nat
  dp_worker :: "worker option"
  dp_limits :: validation
  dp_sched :: "('b, 'g) schedule_fn"
  dp_insert :: "'b \<Rightarrow> u64 list \<Rightarrow> u64 list \<Rightarrow> ('b \<times> nat) outcome"
  dp_remove :: "'b \<Rightarrow> u64 list \<Rightarrow> 'b outcome"

text \<open>
  \<open>fl_cmds\<close> are the entries in the command channel of the queue task, \<open>fl_wq\<close> the work queue of
  every replica (a channel of 64 places). A work loop that was answered holds the entry in \<open>fl_hand\<close>
  until it is with the engine. The scheduling contexts are those of the queue task, shared with the
  completion loops. \<open>fl_ended\<close> says whose step stream has ended; what such a replica holds stays
  where it is in the model and is dropped with the loop in the code.
\<close>

record ('b, 'g) fleet =
  fl_front :: infer
  fl_open :: nat
  fl_cmds :: "entry list"
  fl_queue :: "('b, 'g) runner"
  fl_hand :: "(u64 \<times> entry) option list"
  fl_wq :: "entry list list"
  fl_loops :: "completion_state list"
  fl_ended :: "bool list"
  fl_sim :: "runtime option"

definition fleet_new :: "nat \<Rightarrow> nat \<Rightarrow> 'b \<Rightarrow> 'g \<Rightarrow> runtime option \<Rightarrow> ('b, 'g) fleet" where
  "fleet_new num_replicas max_concurrent bh g sim =
     \<lparr>fl_front = infer_new max_concurrent, fl_open = 0, fl_cmds = [],
      fl_queue = runner_new num_replicas (replicate num_replicas \<lparr>sc_lmetric = lmetric_default, sc_block_hash = bh\<rparr>) g,
      fl_hand = replicate num_replicas None, fl_wq = replicate num_replicas [],
      fl_loops = replicate num_replicas completion_new, fl_ended = replicate num_replicas False, fl_sim = sim\<rparr>"

section \<open>Events\<close>

text \<open>
  A turn of the completion loop is one event here. The code takes the lock of the scheduling context several
  times in a turn, so the queue task may also see it half updated: \<open>Publish\<close> puts any value there. \<open>Query\<close> is a question of \<^verbatim>\<open>LeastTtftQ\<close> to the simulator
  while it decides.
\<close>

datatype 'b fleet_event =
    Front front_op
  | QueueAppend
  | Fetch nat nat
  | Submit nat
  | Receive nat received
  | Publish nat "'b schedule_context"
  | Query nat u64 u32 "u64 list" nat

text \<open>A request that is accepted is sent to the queue task.\<close>

definition front_event :: "('b, 'g) deployment \<Rightarrow> front_op \<Rightarrow> ('b, 'g) fleet \<Rightarrow> ('b, 'g) fleet outcome" where
  "front_event d ev s =
     obind (front_step (dp_xxh d) (dp_block_size d) (dp_worker d) (dp_limits d) ev (fl_front s, fl_open s)) (\<lambda>(f, k).
       Inr (s\<lparr>fl_front := f, fl_open := k,
              fl_cmds := fl_cmds s @ drop (length (appended (fl_front s))) (appended f)\<rparr>))"

text \<open>The queue task calls the simulator for every request it admits.\<close>

definition admit_hooks :: "(nat \<times> entry) list \<Rightarrow> runtime option \<Rightarrow> runtime option" where
  "admit_hooks admits sim = fold (\<lambda>(i, e). sim_on_admit i e) admits sim"

definition set_queue :: "('b, 'g) runner \<Rightarrow> ('b, 'g) fleet \<Rightarrow> ('b, 'g) fleet" where
  "set_queue r s = s\<lparr>fl_queue := r, fl_sim := admit_hooks (drop (length (admit_log (fl_queue s))) (admit_log r)) (fl_sim s)\<rparr>"

definition append_event :: "('b, 'g) deployment \<Rightarrow> ('b, 'g) fleet \<Rightarrow> ('b, 'g) fleet outcome" where
  "append_event d s =
     (case fl_cmds s of
        [] \<Rightarrow> Inr s
      | e # es \<Rightarrow> obind (run_append (dp_sched d) e (fl_queue s)) (\<lambda>r. Inr (set_queue r (s\<lparr>fl_cmds := es\<rparr>))))"

text \<open>
  The work loop of replica \<open>k\<close>: it reserves a place, which fails when the completion loop has dropped
  the channel and waits while the channel is full, asks the queue task, and hands the entry on.
\<close>

definition fetch_event :: "('b, 'g) deployment \<Rightarrow> nat \<Rightarrow> nat \<Rightarrow> ('b, 'g) fleet \<Rightarrow> ('b, 'g) fleet outcome" where
  "fetch_event d k now s =
     (if \<not> k < length (fl_hand s) \<or> fl_hand s ! k \<noteq> None then Inr s
      else if fl_ended s ! k then Inl Unreachable
      else if length (fl_wq s ! k) < 64
      then obind (run_next (dp_sched d) now k (fl_queue s)) (\<lambda>(a, r). Inr (set_queue r (s\<lparr>fl_hand := (fl_hand s)[k := a]\<rparr>)))
      else Inr s)"

definition submit_event :: "nat \<Rightarrow> ('b, 'g) fleet \<Rightarrow> ('b, 'g) fleet outcome" where
  "submit_event k s =
     (if k < length (fl_hand s)
      then obind (work_step (fl_hand s ! k) (fl_wq s ! k)) (\<lambda>wq.
             Inr (s\<lparr>fl_hand := (fl_hand s)[k := None], fl_wq := (fl_wq s)[k := wq]\<rparr>))
      else Inr s)"

text \<open>The completion loop of replica \<open>k\<close>: a step drains the work queue.\<close>

definition turn_event :: "('b, 'g) deployment \<Rightarrow> nat \<Rightarrow> turn \<Rightarrow> ('b, 'g) fleet \<Rightarrow> ('b, 'g) fleet outcome" where
  "turn_event d k t s =
     obind (completion_step (dp_xxh d) (dp_insert d) (dp_remove d) (t_now t) (t_step t) (fl_wq s ! k) (t_errs t) (t_used t) (t_new t)
              (fl_loops s ! k, all_ctx (fl_queue s) ! k)) (\<lambda>(l, sctx).
       Inr (s\<lparr>fl_wq := (fl_wq s)[k := []], fl_loops := (fl_loops s)[k := l],
              fl_queue := (fl_queue s)\<lparr>all_ctx := (all_ctx (fl_queue s))[k := sctx]\<rparr>,
              fl_sim := snd (sim_on_sse k (t_step t) (fl_sim s))\<rparr>))"

definition receive_event :: "('b, 'g) deployment \<Rightarrow> nat \<Rightarrow> received \<Rightarrow> ('b, 'g) fleet \<Rightarrow> ('b, 'g) fleet outcome" where
  "receive_event d k m s =
     (if \<not> k < length (fl_loops s) \<or> fl_ended s ! k then Inr s
      else case m of
             Step t \<Rightarrow> turn_event d k t s
           | RecvError \<Rightarrow> Inr s
           | StreamEnded \<Rightarrow> Inr (s\<lparr>fl_ended := (fl_ended s)[k := True]\<rparr>))"

definition publish_event :: "nat \<Rightarrow> 'b schedule_context \<Rightarrow> ('b, 'g) fleet \<Rightarrow> ('b, 'g) fleet" where
  "publish_event k sctx s = s\<lparr>fl_queue := (fl_queue s)\<lparr>all_ctx := (all_ctx (fl_queue s))[k := sctx]\<rparr>\<rparr>"

definition query_event :: "nat \<Rightarrow> u64 \<Rightarrow> u32 \<Rightarrow> u64 list \<Rightarrow> nat \<Rightarrow> ('b, 'g) fleet \<Rightarrow> ('b, 'g) fleet" where
  "query_event k cid len hashes hits s = s\<lparr>fl_sim := snd (sim_query k cid len hashes hits (fl_sim s))\<rparr>"

definition fleet_step :: "('b, 'g) deployment \<Rightarrow> 'b fleet_event \<Rightarrow> ('b, 'g) fleet \<Rightarrow> ('b, 'g) fleet outcome" where
  "fleet_step d ev s = (case ev of
     Front op \<Rightarrow> front_event d op s
   | QueueAppend \<Rightarrow> append_event d s
   | Fetch k now \<Rightarrow> fetch_event d k now s
   | Submit k \<Rightarrow> submit_event k s
   | Receive k m \<Rightarrow> receive_event d k m s
   | Publish k sctx \<Rightarrow> Inr (publish_event k sctx s)
   | Query k cid len hashes hits \<Rightarrow> Inr (query_event k cid len hashes hits s))"

inductive fleet_reachable :: "('b, 'g) deployment \<Rightarrow> ('b, 'g) fleet \<Rightarrow> ('b, 'g) fleet \<Rightarrow> bool" for d s0 where
  start: "fleet_reachable d s0 s0"
| step: "\<lbrakk>fleet_reachable d s0 s; fleet_step d ev s = Inr s'\<rbrakk> \<Longrightarrow> fleet_reachable d s0 s'"

section \<open>The queue task and its log\<close>

text \<open>Buffers are keyed by request id and the log of admissions names replicas; it only grows.\<close>

definition runner_keyed :: "('b, 'g) runner \<Rightarrow> bool" where
  "runner_keyed r \<longleftrightarrow> (\<forall>b\<in>set (commit_bufs r). \<forall>(rid, e)\<in>set b. entry_id e = rid) \<and>
     (\<forall>(i, e)\<in>set (admit_log r). i < length (commit_bufs r))"

definition grows :: "('b, 'g) runner \<Rightarrow> ('b, 'g) runner \<Rightarrow> bool" where
  "grows r r' \<longleftrightarrow> length (commit_bufs r') = length (commit_bufs r) \<and> (runner_keyed r \<longrightarrow> runner_keyed r') \<and>
     (\<exists>new. admit_log r' = admit_log r @ new \<and> (\<forall>(i, e)\<in>set new. i < length (commit_bufs r)))"

lemma grows_refl: "commit_bufs r' = commit_bufs r \<Longrightarrow> admit_log r' = admit_log r \<Longrightarrow> grows r r'"
  by (simp add: grows_def runner_keyed_def)

lemma grows_trans: "grows r r1 \<Longrightarrow> grows r1 r2 \<Longrightarrow> grows r r2"
  by (fastforce simp: grows_def)

lemma admit_front_grows:
  assumes "admit_front sched e rest r = Inr (b, r')"
  shows "grows r r'"
proof -
  obtain c e' ss g where s: "sched e (all_ctx r) (gctx r) = Inr (c, e', ss, g)"
    using assms by (cases "sched e (all_ctx r) (gctx r)") (auto simp: admit_front_def)
  show ?thesis
  proof (cases c)
    case None
    with s assms show ?thesis by (intro grows_refl) (auto simp: admit_front_def)
  next
    case (Some i)
    then have i: "i < length (commit_bufs r)"
      and r': "r' = r\<lparr>uncommit_buffer := rest, all_ctx := ss, gctx := g, admit_log := admit_log r @ [(i, e')],
        commit_bufs := (commit_bufs r)[i := commit_bufs r ! i @ [(entry_id e', e')]]\<rparr>"
      using s assms by (auto simp: admit_front_def split: if_splits)
    have "runner_keyed r \<Longrightarrow> runner_keyed r'"
      using i by (auto simp: r' runner_keyed_def dest!: set_update_subset_insert[THEN subsetD]) fastforce
    with i show ?thesis by (auto simp: grows_def r')
  qed
qed

lemma run_append_grows:
  assumes "run_append sched e r = Inr r'"
  shows "grows r r'"
proof -
  obtain f rest where q: "uncommit_buffer r @ [e] = f # rest" by (cases "uncommit_buffer r") auto
  from assms have "map_sum id snd (admit_front sched f rest (r\<lparr>uncommit_buffer := f # rest\<rparr>)) = Inr r'"
    by (simp only: run_append_def q list.case)
  then obtain x where "admit_front sched f rest (r\<lparr>uncommit_buffer := f # rest\<rparr>) = Inr x" "snd x = r'"
    by (cases "admit_front sched f rest (r\<lparr>uncommit_buffer := f # rest\<rparr>)") auto
  then have "admit_front sched f rest (r\<lparr>uncommit_buffer := f # rest\<rparr>) = Inr (fst x, r')" by auto
  note admit_front_grows[OF this]
  moreover have "grows r (r\<lparr>uncommit_buffer := f # rest\<rparr>)" by (simp add: grows_refl)
  ultimately show ?thesis using grows_trans by blast
qed

lemma runner_keyed_pop:
  assumes "runner_keyed r" "commit_bufs r ! k = x # xs" "k < length (commit_bufs r)"
  shows "runner_keyed (r\<lparr>commit_bufs := (commit_bufs r)[k := xs]\<rparr>)"
proof -
  have "x # xs \<in> set (commit_bufs r)" using assms(2,3) by (metis nth_mem)
  with assms(1) show ?thesis
    by (fastforce simp: runner_keyed_def dest!: set_update_subset_insert[THEN subsetD])
qed

lemma fill_loop_bound: "fill_loop sched k r = Inr r' \<Longrightarrow> k < length (commit_bufs r)"
  by (subst (asm) fill_loop.simps) (auto split: if_splits)

lemma fill_loop_grows: "fill_loop sched k r = Inr r' \<Longrightarrow> grows r r'"
proof (induction sched k r rule: fill_loop.induct)
  case (1 sched k r)
  show ?case
  proof (cases "commit_bufs r ! k = [] \<and> uncommit_buffer r \<noteq> [] \<and> k < length (commit_bufs r)")
    case False
    then have "r' = r" using "1.prems" by (subst (asm) fill_loop.simps) (auto split: if_splits list.splits)
    then show ?thesis by (simp add: grows_refl)
  next
    case True
    then obtain e rest where q: "uncommit_buffer r = e # rest" by (cases "uncommit_buffer r") auto
    with True "1.prems" obtain b r1 where a: "admit_front sched e rest r = Inr (b, r1)"
      "if b then fill_loop sched k r1 = Inr r' else r' = r1"
      by (subst (asm) fill_loop.simps) (auto split: sum.splits bool.splits)
    show ?thesis
    proof (cases b)
      case False
      with a admit_front_grows show ?thesis by simp
    next
      case b: True
      with a "1.IH"[of e rest "(b, r1)" b r1] True q have "grows r1 r'" by simp
      with admit_front_grows[OF a(1)] show ?thesis by (rule grows_trans)
    qed
  qed
qed

lemma run_next_grows:
  assumes "run_next sched now k r = Inr (a, r')"
  shows "grows r r'" "runner_keyed r \<Longrightarrow> k < length (commit_bufs r) \<Longrightarrow> a = Some (rid, e) \<Longrightarrow> entry_id e = rid \<and> batch_time e \<noteq> None"
proof -
  obtain r1 where f: "fill_loop sched k r = Inr r1" using assms by (auto simp: run_next_def split: sum.splits)
  note g = fill_loop_grows[OF f]
  have k1: "k < length (commit_bufs r1)" using g fill_loop_bound[OF f] by (simp add: grows_def)
  have g2: "grows r1 r'"
  proof (cases "commit_bufs r1 ! k")
    case Nil
    with assms f show ?thesis by (simp add: run_next_def grows_refl)
  next
    case (Cons x xs)
    with assms f have "r' = r1\<lparr>commit_bufs := (commit_bufs r1)[k := xs]\<rparr>" by (cases x) (simp add: run_next_def)
    with runner_keyed_pop[OF _ Cons k1] show ?thesis by (simp add: grows_def)
  qed
  show "grows r r'" by (rule grows_trans[OF g g2])
  assume k: "runner_keyed r" "k < length (commit_bufs r)" "a = Some (rid, e)"
  then have "runner_keyed r1" "k < length (commit_bufs r1)" using g by (auto simp: grows_def)
  then have "\<forall>(rid, e)\<in>set (commit_bufs r1 ! k). entry_id e = rid" by (auto simp: runner_keyed_def)
  then show "entry_id e = rid \<and> batch_time e \<noteq> None"
    using assms f k(3) by (auto simp: run_next_def entry_id_def split: list.splits)
qed

section \<open>Where a request is\<close>

definition hand_ids :: "(u64 \<times> entry) option \<Rightarrow> u64 list" where
  "hand_ids h = (case h of None \<Rightarrow> [] | Some (rid, e) \<Rightarrow> [rid])"

text \<open>
  Every place a request can be in: the command channel, the queue of the queue task, the buffer of a
  replica, its work loop, its work queue, its event loop, or gone from it.
\<close>

definition at_replica :: "('b, 'g) fleet \<Rightarrow> nat \<Rightarrow> u64 multiset" where
  "at_replica s k = mset (map fst (commit_bufs (fl_queue s) ! k)) + mset (hand_ids (fl_hand s ! k)) +
     mset (map entry_id (fl_wq s ! k)) + mset_set (held (fl_loops s ! k)) + mset (gone (fl_loops s ! k))"

definition places :: "('b, 'g) fleet \<Rightarrow> u64 multiset" where
  "places s = mset (map entry_id (fl_cmds s)) + mset (map entry_id (uncommit_buffer (fl_queue s))) +
     (\<Sum>k<length (fl_hand s). at_replica s k)"

definition given_to :: "nat \<Rightarrow> (nat \<times> u64 \<times> entry) list \<Rightarrow> u64 list" where
  "given_to k answered = map (fst \<circ> snd) (filter (\<lambda>a. fst a = k) answered)"

definition admitted_to :: "nat \<Rightarrow> (nat \<times> entry) list \<Rightarrow> u64 list" where
  "admitted_to k hist = map (entry_id \<circ> snd) (filter (\<lambda>a. fst a = k) hist)"

text \<open>What replica \<open>k\<close> was given is what its loop has drained, then its work queue, then the work loop's entry.\<close>

definition replica_inv :: "u64 list \<Rightarrow> (u64 \<times> entry) option \<Rightarrow> entry list \<Rightarrow> completion_state \<Rightarrow> bool" where
  "replica_inv given hand wq l \<longleftrightarrow> length wq \<le> 64 \<and> (hand \<noteq> None \<longrightarrow> length wq < 64) \<and>
     (\<forall>rid e. hand = Some (rid, e) \<longrightarrow> entry_id e = rid \<and> batch_time e \<noteq> None) \<and>
     (\<exists>drained. given = drained @ map entry_id wq @ hand_ids hand \<and> loop_inv (set drained) l)"

definition sim_follows :: "nat \<Rightarrow> (nat \<times> entry) list \<Rightarrow> runtime option \<Rightarrow> bool" where
  "sim_follows n hist sim \<longleftrightarrow>
     (sim = None \<or> (\<exists>S. sim_inv n S sim \<and> (\<forall>i<n. S i \<subseteq> set (admitted_to i hist))))"

definition fleet_view :: "nat \<Rightarrow> nat \<Rightarrow> u64 list \<Rightarrow> (nat \<times> u64 \<times> entry) list \<Rightarrow> ('b, 'g) fleet \<Rightarrow> bool" where
  "fleet_view n limit processed answered s \<longleftrightarrow>
     front_inv limit fresh (fl_front s, fl_open s) \<and> set (fl_cmds s) \<subseteq> set (appended (fl_front s)) \<and>
     length (fl_hand s) = n \<and> length (fl_wq s) = n \<and> length (fl_loops s) = n \<and> length (fl_ended s) = n \<and>
     runner_keyed (fl_queue s) \<and> runner_inv n processed answered (fl_queue s) \<and>
     processed @ map entry_id (fl_cmds s) = map entry_id (appended (fl_front s)) \<and>
     (\<forall>k<n. replica_inv (given_to k answered) (fl_hand s ! k) (fl_wq s ! k) (fl_loops s ! k)) \<and>
     sim_follows n (admit_log (fl_queue s)) (fl_sim s)"

lemma fleet_viewI:
  assumes "front_inv limit fresh (fl_front s, fl_open s)" "set (fl_cmds s) \<subseteq> set (appended (fl_front s))"
    "length (fl_hand s) = n" "length (fl_wq s) = n" "length (fl_loops s) = n" "length (fl_ended s) = n"
    "runner_keyed (fl_queue s)" "runner_inv n processed answered (fl_queue s)"
    "processed @ map entry_id (fl_cmds s) = map entry_id (appended (fl_front s))"
    "\<And>k. k < n \<Longrightarrow> replica_inv (given_to k answered) (fl_hand s ! k) (fl_wq s ! k) (fl_loops s ! k)"
    "sim_follows n (admit_log (fl_queue s)) (fl_sim s)"
  shows "fleet_view n limit processed answered s"
  using assms by (simp add: fleet_view_def)

lemma fleet_viewD:
  assumes "fleet_view n limit processed answered s"
  shows "front_inv limit fresh (fl_front s, fl_open s)" "set (fl_cmds s) \<subseteq> set (appended (fl_front s))"
    "length (fl_hand s) = n" "length (fl_wq s) = n" "length (fl_loops s) = n" "length (fl_ended s) = n"
    "runner_keyed (fl_queue s)" "runner_inv n processed answered (fl_queue s)"
    "processed @ map entry_id (fl_cmds s) = map entry_id (appended (fl_front s))"
    "\<And>k. k < n \<Longrightarrow> replica_inv (given_to k answered) (fl_hand s ! k) (fl_wq s ! k) (fl_loops s ! k)"
    "sim_follows n (admit_log (fl_queue s)) (fl_sim s)"
  using assms by (simp_all add: fleet_view_def)

definition fleet_inv :: "nat \<Rightarrow> nat \<Rightarrow> ('b, 'g) fleet \<Rightarrow> bool" where
  "fleet_inv n limit s \<longleftrightarrow> (\<exists>processed answered. fleet_view n limit processed answered s)"

lemma fleet_invI: "fleet_view n limit processed answered s \<Longrightarrow> fleet_inv n limit s"
  by (auto simp: fleet_inv_def)

text \<open>Fewer than \<open>2 ^ 64\<close> requests have distinct ids, everywhere they are.\<close>

definition ids_fit :: "('b, 'g) fleet \<Rightarrow> bool" where
  "ids_fit s \<longleftrightarrow> length (appended (fl_front s)) < 2 ^ 64"

lemma distinct_ids: "n < 2 ^ 64 \<Longrightarrow> distinct (map (of_nat :: nat \<Rightarrow> u64) [0..<n])"
  by (auto simp: distinct_map inj_on_def word_of_nat_eq_iff take_bit_nat_eq_self)

lemma appended_distinct: "front_inv limit P (f, k) \<Longrightarrow> length (appended f) < 2 ^ 64 \<Longrightarrow> distinct (map entry_id (appended f))"
  using distinct_ids by (auto simp: front_inv_def)

lemma runner_answers:
  "runner_inv n processed answered r \<Longrightarrow> k < n \<Longrightarrow>
     given_to k answered @ map fst (commit_bufs r ! k) = admitted_to k (admit_log r)"
  by (simp add: runner_inv_def given_to_def admitted_to_def)

lemma admitted_distinct: "distinct (map (entry_id \<circ> snd) hist) \<Longrightarrow> distinct (admitted_to k hist)"
  by (auto simp: admitted_to_def intro: distinct_map_filter)

lemma log_distinct: "runner_inv n processed answered r \<Longrightarrow> distinct processed \<Longrightarrow> distinct (map (entry_id \<circ> snd) (admit_log r))"
  by (auto simp: runner_inv_def)

lemma fleet_inv_new:
  assumes "sim = None \<or> sim_inv n (\<lambda>_. {}) sim"
  shows "fleet_inv n limit (fleet_new n limit bh g sim)"
proof (intro fleet_invI[where processed = "[]" and answered = "[]"] fleet_viewI)
  show "front_inv limit fresh (fl_front (fleet_new n limit bh g sim), fl_open (fleet_new n limit bh g sim))"
    by (simp add: fleet_new_def front_inv_def infer_new_def)
  show "sim_follows n (admit_log (fl_queue (fleet_new n limit bh g sim))) (fl_sim (fleet_new n limit bh g sim))"
    using assms by (auto simp: fleet_new_def sim_follows_def)
  show "replica_inv (given_to k []) (fl_hand (fleet_new n limit bh g sim) ! k) (fl_wq (fleet_new n limit bh g sim) ! k)
      (fl_loops (fleet_new n limit bh g sim) ! k)" if "k < n" for k
    using that loop_inv_new by (simp add: fleet_new_def replica_inv_def given_to_def hand_ids_def)
qed (auto simp: fleet_new_def runner_new_def runner_inv_def runner_keyed_def infer_new_def)

section \<open>Every event keeps the invariant\<close>

text \<open>The hooks of the simulator.\<close>

lemma admit_hooks_follow:
  assumes "sim_follows n hist sim" "\<forall>(i, e)\<in>set new. i < n" "distinct (map (entry_id \<circ> snd) (hist @ new))"
  shows "sim_follows n (hist @ new) (admit_hooks new sim)"
  using assms
proof (induction new arbitrary: hist sim)
  case (Cons a new)
  obtain i e where a: "a = (i, e)" by force
  have step: "sim_follows n (hist @ [(i, e)]) (sim_on_admit i e sim)"
  proof (cases sim)
    case None
    then show ?thesis by (simp add: sim_follows_def sim_on_admit_def)
  next
    case (Some rt)
    with Cons.prems(1) obtain S where S: "sim_inv n S sim" "\<forall>j<n. S j \<subseteq> set (admitted_to j hist)"
      by (auto simp: sim_follows_def)
    have "set (admitted_to i hist) \<subseteq> set (map (entry_id \<circ> snd) hist)" by (auto simp: admitted_to_def)
    then have "entry_id e \<notin> S i" using S(2) Cons.prems(2,3) a by auto
    then obtain T where T: "sim_inv n T (sim_on_admit i e sim)" "\<forall>j<n. T j = track (OpAdmit i e) S j"
      using sim_step_inv[OF S(1), of "OpAdmit i e"] by (auto simp: sim_step_def)
    have "T j \<subseteq> set (admitted_to j (hist @ [(i, e)]))" if "j < n" for j
      using T(2) S(2) that by (auto simp: track_def admitted_to_def)
    with T(1) show ?thesis by (auto simp: sim_follows_def)
  qed
  have "distinct (map (entry_id \<circ> snd) ((hist @ [(i, e)]) @ new))"
    using Cons.prems(3) by (simp only: a append_assoc append_Cons append_Nil)
  from Cons.IH[OF step _ this] Cons.prems(2) a show ?case by (simp add: admit_hooks_def)
qed (simp add: admit_hooks_def)

lemma on_sse_follows:
  assumes "sim_follows n hist sim"
  shows "sim_follows n hist (snd (sim_on_sse k m sim))"
proof (cases sim)
  case None
  then show ?thesis by (simp add: sim_follows_def sim_on_sse_def)
next
  case (Some rt)
  with assms obtain S where S: "sim_inv n S sim" "\<forall>j<n. S j \<subseteq> set (admitted_to j hist)" by (auto simp: sim_follows_def)
  obtain T where T: "sim_inv n T (snd (sim_on_sse k m sim))" "\<forall>j<n. T j = track (OpSse k m) S j"
    using sim_step_inv[OF S(1), of "OpSse k m"] by (auto simp: sim_step_def)
  have "T j \<subseteq> set (admitted_to j hist)" if "j < n" for j
    using T(2) S(2) that by (auto simp: track_def)
  with T(1) show ?thesis by (auto simp: sim_follows_def)
qed

text \<open>The front.\<close>

lemma generate_stream_appends:
  "generate_stream xxh sz worker cfg rng now m req f = Inr (res, f') \<Longrightarrow> \<exists>new. appended f' = appended f @ new"
  by (auto simp: generate_stream_def obind_eq_Inr Let_def split: if_splits sum.splits prod.splits)

lemma front_step_appends:
  assumes "front_step xxh sz worker cfg ev (f, k) = Inr (f', k')"
  shows "\<exists>new. appended f' = appended f @ new"
proof (cases ev)
  case Close
  with assms show ?thesis by (auto simp: front_step_def close_stream_def split: if_splits)
next
  case (Open rng now m req)
  with assms obtain res where "generate_stream xxh sz worker cfg rng now m req f = Inr (res, f')"
    by (auto simp: front_step_def obind_eq_Inr)
  then show ?thesis by (rule generate_stream_appends)
qed

lemma bhs_new_fresh: "bhs_new xxh toks sz = Inr b \<Longrightarrow> pred_hit_nblks b = none_sentinel"
  by (auto simp: bhs_new_def Let_def split: if_splits prod.splits)

lemma front_event_inv:
  assumes "fleet_inv n limit s" "0 < dp_block_size d"
  shows "\<exists>s'. front_event d ev s = Inr s' \<and> fleet_inv n limit s'"
proof -
  obtain processed answered where "fleet_view n limit processed answered s" using assms(1) unfolding fleet_inv_def by blast
  note i = fleet_viewD[OF this]
  have "\<exists>sk'. front_step (dp_xxh d) (dp_block_size d) (dp_worker d) (dp_limits d) ev (fl_front s, fl_open s) = Inr sk' \<and>
      front_inv limit fresh sk'"
    by (rule front_step_inv[OF assms(2) i(1)]) (simp add: fresh_def entry_new_def bhs_new_fresh)
  then obtain f k where f: "front_step (dp_xxh d) (dp_block_size d) (dp_worker d) (dp_limits d) ev (fl_front s, fl_open s) = Inr (f, k)"
    "front_inv limit fresh (f, k)" by auto
  obtain new where new: "appended f = appended (fl_front s) @ new" using front_step_appends[OF f(1)] by blast
  let ?s = "s\<lparr>fl_front := f, fl_open := k, fl_cmds := fl_cmds s @ new\<rparr>"
  have "fleet_inv n limit ?s"
    by (intro fleet_invI[where processed = processed and answered = answered] fleet_viewI) (use i f(2) new in auto)
  then show ?thesis using f(1) new by (simp add: front_event_def)
qed

text \<open>The queue task.\<close>

lemma set_queue_follows:
  assumes "grows r r'" "sim_follows n (admit_log r) sim" "runner_inv n processed answered r'" "distinct processed"
  shows "sim_follows n (admit_log r') (admit_hooks (drop (length (admit_log r)) (admit_log r')) sim)"
proof -
  obtain new where new: "admit_log r' = admit_log r @ new" "\<forall>(i, e)\<in>set new. i < length (commit_bufs r)"
    "length (commit_bufs r') = length (commit_bufs r)" using assms(1) by (auto simp: grows_def)
  have "length (commit_bufs r) = n" using assms(3) new(3) by (simp add: runner_inv_def)
  with admit_hooks_follow[OF assms(2), of new] new(1,2) log_distinct[OF assms(3,4)] show ?thesis by simp
qed

lemma set_queue_simps [simp]:
  "fl_front (set_queue r s) = fl_front s" "fl_open (set_queue r s) = fl_open s" "fl_cmds (set_queue r s) = fl_cmds s"
  "fl_queue (set_queue r s) = r" "fl_hand (set_queue r s) = fl_hand s" "fl_wq (set_queue r s) = fl_wq s"
  "fl_loops (set_queue r s) = fl_loops s" "fl_ended (set_queue r s) = fl_ended s"
  "fl_sim (set_queue r s) = admit_hooks (drop (length (admit_log (fl_queue s))) (admit_log r)) (fl_sim s)"
  by (simp_all add: set_queue_def)

context scheduler begin

lemma append_event_inv:
  assumes "fleet_inv n limit s" "ids_fit s" "0 < n" "dp_sched d = sched"
  shows "\<exists>s'. append_event d s = Inr s' \<and> fleet_inv n limit s'"
proof (cases "fl_cmds s")
  case Nil
  with assms(1) show ?thesis by (simp add: append_event_def)
next
  case (Cons e es)
  obtain processed answered where "fleet_view n limit processed answered s" using assms(1) unfolding fleet_inv_def by blast
  note i = fleet_viewD[OF this]
  have "fresh e" using i(1,2) Cons by (auto simp: front_inv_def)
  then obtain r where r: "run_append sched e (fl_queue s) = Inr r" "runner_inv n (processed @ [entry_id e]) answered r"
    using run_append_inv[OF i(8) _ assms(3)] by blast
  have g: "grows (fl_queue s) r" by (rule run_append_grows[OF r(1)])
  have p: "(processed @ [entry_id e]) @ map entry_id es = map entry_id (appended (fl_front s))" using i(9) Cons by simp
  have "distinct (map entry_id (appended (fl_front s)))"
    using appended_distinct[OF i(1)] assms(2) by (simp add: ids_fit_def)
  then have "distinct (processed @ [entry_id e])" unfolding p[symmetric] by simp
  from set_queue_follows[OF g i(11) r(2) this]
  have "fleet_inv n limit (set_queue r (s\<lparr>fl_cmds := es\<rparr>))"
    by (intro fleet_invI[where processed = "processed @ [entry_id e]" and answered = answered] fleet_viewI)
      (use i r(2) g p Cons in \<open>auto simp: grows_def\<close>)
  then show ?thesis using r(1) Cons assms(4) by (simp add: append_event_def)
qed

lemma fetch_event_inv:
  assumes "fleet_inv n limit s" "ids_fit s" "dp_sched d = sched" "k < n \<Longrightarrow> \<not> fl_ended s ! k"
  shows "\<exists>s'. fetch_event d k now s = Inr s' \<and> fleet_inv n limit s'"
proof -
  obtain processed answered where "fleet_view n limit processed answered s" using assms(1) unfolding fleet_inv_def by blast
  note i = fleet_viewD[OF this]
  show ?thesis
  proof (cases "k < n \<and> fl_hand s ! k = None \<and> length (fl_wq s ! k) < 64")
    case False
    with assms(1,4) i(3) show ?thesis by (auto simp: fetch_event_def)
  next
    case True
    then have k: "k < n" "fl_hand s ! k = None" "length (fl_wq s ! k) < 64" by auto
    obtain a r where r: "run_next sched now k (fl_queue s) = Inr (a, r)"
      "runner_inv n processed (answered @ (case a of Some (rid, e) \<Rightarrow> [(k, rid, e)] | None \<Rightarrow> [])) r"
      using run_next_inv[OF i(8) k(1)] by blast
    note g = run_next_grows[OF r(1)]
    have kb: "k < length (commit_bufs (fl_queue s))" using i(8) k(1) by (simp add: runner_inv_def)
    let ?answered = "answered @ (case a of Some (rid, e) \<Rightarrow> [(k, rid, e)] | None \<Rightarrow> [])"
    have rep: "replica_inv (given_to j ?answered) (((fl_hand s)[k := a]) ! j) (fl_wq s ! j) (fl_loops s ! j)" if "j < n" for j
    proof (cases "j = k")
      case False
      with i(10)[OF that] show ?thesis by (simp add: given_to_def split: option.split)
    next
      case True
      have "given_to k ?answered = given_to k answered @ hand_ids a" by (simp add: given_to_def hand_ids_def split: option.split)
      moreover have "a = Some (rid, e) \<Longrightarrow> entry_id e = rid \<and> batch_time e \<noteq> None" for rid e
        by (rule g(2)[OF i(7) kb])
      ultimately show ?thesis using i(10)[OF k(1)] True k i(3) by (auto simp: replica_inv_def hand_ids_def)
    qed
    have "distinct (map entry_id (appended (fl_front s)))"
      using appended_distinct[OF i(1)] assms(2) by (simp add: ids_fit_def)
    then have "distinct processed" unfolding i(9)[symmetric] by simp
    from set_queue_follows[OF g(1) i(11) r(2) this]
    have "fleet_inv n limit (set_queue r (s\<lparr>fl_hand := (fl_hand s)[k := a]\<rparr>))"
      by (intro fleet_invI[where processed = processed and answered = ?answered] fleet_viewI) (use i r(2) g(1) rep in \<open>auto simp: grows_def\<close>)
    then show ?thesis using r(1) k assms(3,4) i(3) by (simp add: fetch_event_def)
  qed
qed

end

text \<open>The loops of a replica.\<close>

lemma submit_event_inv:
  assumes "fleet_inv n limit s"
  shows "\<exists>s'. submit_event k s = Inr s' \<and> fleet_inv n limit s'"
proof -
  obtain processed answered where "fleet_view n limit processed answered s" using assms unfolding fleet_inv_def by blast
  note i = fleet_viewD[OF this]
  show ?thesis
  proof (cases "k < n")
    case False
    with assms i(3) show ?thesis by (simp add: submit_event_def)
  next
    case True
    note v = i(10)[OF True]
    obtain wq where wq: "work_step (fl_hand s ! k) (fl_wq s ! k) = Inr wq"
      "replica_inv (given_to k answered) None wq (fl_loops s ! k)"
      using v by (cases "fl_hand s ! k") (fastforce simp: work_step_def replica_inv_def hand_ids_def)+
    have "fleet_inv n limit (s\<lparr>fl_hand := (fl_hand s)[k := None], fl_wq := (fl_wq s)[k := wq]\<rparr>)"
    proof (intro fleet_invI[where processed = processed and answered = answered] fleet_viewI)
      fix j assume "j < n"
      with i(3,4,10) wq(2) show "replica_inv (given_to j answered) (fl_hand (s\<lparr>fl_hand := (fl_hand s)[k := None], fl_wq := (fl_wq s)[k := wq]\<rparr>) ! j)
          (fl_wq (s\<lparr>fl_hand := (fl_hand s)[k := None], fl_wq := (fl_wq s)[k := wq]\<rparr>) ! j)
          (fl_loops (s\<lparr>fl_hand := (fl_hand s)[k := None], fl_wq := (fl_wq s)[k := wq]\<rparr>) ! j)"
        by (cases "j = k") simp_all
    qed (use i in simp_all)
    then show ?thesis using wq(1) True i(3) by (simp add: submit_event_def)
  qed
qed

lemma given_distinct:
  assumes "runner_inv n processed answered r" "distinct processed" "k < n"
  shows "distinct (given_to k answered)"
  using runner_answers[OF assms(1,3)] admitted_distinct[OF log_distinct[OF assms(1,2)], of k]
  by (metis distinct_append)

lemma turn_replica_inv:
  assumes "replica_inv given hand wq l" "distinct given"
    "completion_step xxh bh_insert bh_remove now m wq errs ord_used ord_new (l, sctx) = Inr (l', sctx')"
  shows "replica_inv given hand [] l'"
proof -
  from assms(1) obtain drained where d: "given = drained @ map entry_id wq @ hand_ids hand" "loop_inv (set drained) l"
    by (auto simp: replica_inv_def)
  have "loop_inv (set drained \<union> set (map entry_id wq)) l'"
    by (rule completion_step_inv[OF d(2) _ _ assms(3)]) (use assms(2) d(1) in auto)
  then have "given = (drained @ map entry_id wq) @ map entry_id [] @ hand_ids hand \<and> loop_inv (set (drained @ map entry_id wq)) l'"
    using d(1) by simp
  then show ?thesis using assms(1) unfolding replica_inv_def by (intro conjI) (auto intro: exI)
qed

lemma turn_event_inv:
  assumes "fleet_inv n limit s" "ids_fit s" "k < n" "turn_event d k t s = Inr s'"
  shows "fleet_inv n limit s'"
proof -
  obtain processed answered where "fleet_view n limit processed answered s" using assms(1) unfolding fleet_inv_def by blast
  note i = fleet_viewD[OF this]
  obtain l sctx where c: "completion_step (dp_xxh d) (dp_insert d) (dp_remove d) (t_now t) (t_step t) (fl_wq s ! k) (t_errs t)
      (t_used t) (t_new t) (fl_loops s ! k, all_ctx (fl_queue s) ! k) = Inr (l, sctx)"
    and s': "s' = s\<lparr>fl_wq := (fl_wq s)[k := []], fl_loops := (fl_loops s)[k := l],
      fl_queue := (fl_queue s)\<lparr>all_ctx := (all_ctx (fl_queue s))[k := sctx]\<rparr>,
      fl_sim := snd (sim_on_sse k (t_step t) (fl_sim s))\<rparr>"
    using assms(4) by (auto simp: turn_event_def obind_eq_Inr)
  have "distinct (map entry_id (appended (fl_front s)))"
    using appended_distinct[OF i(1)] assms(2) by (simp add: ids_fit_def)
  then have "distinct processed" unfolding i(9)[symmetric] by simp
  then have rk: "replica_inv (given_to k answered) (fl_hand s ! k) [] l"
    by (intro turn_replica_inv[OF i(10)[OF assms(3)] _ c] given_distinct[OF i(8)] assms(3))
  have "replica_inv (given_to j answered) (fl_hand s ! j) ((fl_wq s)[k := []] ! j) ((fl_loops s)[k := l] ! j)" if "j < n" for j
    using that rk i(4,5,10) by (cases "j = k") simp_all
  moreover have "runner_inv n processed answered ((fl_queue s)\<lparr>all_ctx := (all_ctx (fl_queue s))[k := sctx]\<rparr>)"
    using i(8) by (simp add: runner_inv_def)
  ultimately show ?thesis unfolding s'
    by (intro fleet_invI[where processed = processed and answered = answered] fleet_viewI)
      (use i on_sse_follows[OF i(11)] in \<open>simp_all add: runner_keyed_def\<close>)
qed

lemma ended_inv: "fleet_inv n limit s \<Longrightarrow> fleet_inv n limit (s\<lparr>fl_ended := (fl_ended s)[k := True]\<rparr>)"
  by (auto simp: fleet_inv_def fleet_view_def)

lemma receive_event_inv:
  assumes "fleet_inv n limit s" "ids_fit s" "receive_event d k m s = Inr s'"
  shows "fleet_inv n limit s'"
proof (cases "k < length (fl_loops s) \<and> \<not> fl_ended s ! k")
  case False
  with assms(1,3) show ?thesis by (auto simp: receive_event_def)
next
  case True
  moreover have "length (fl_loops s) = n" using assms(1) by (auto simp: fleet_inv_def fleet_view_def)
  ultimately show ?thesis
    using assms turn_event_inv[OF assms(1,2)] ended_inv[OF assms(1)]
    by (cases m) (auto simp: receive_event_def)
qed

lemma publish_event_inv: "fleet_inv n limit s \<Longrightarrow> fleet_inv n limit (publish_event k sctx s)"
  by (auto simp: fleet_inv_def fleet_view_def publish_event_def runner_inv_def runner_keyed_def)

lemma query_event_inv:
  assumes "fleet_inv n limit s"
  shows "fleet_inv n limit (query_event k cid len hashes hits s)"
proof -
  obtain processed answered where "fleet_view n limit processed answered s" using assms unfolding fleet_inv_def by blast
  note i = fleet_viewD[OF this]
  have "sim_follows n (admit_log (fl_queue s)) (snd (sim_query k cid len hashes hits (fl_sim s)))"
  proof (cases "fl_sim s")
    case None
    then show ?thesis by (simp add: sim_follows_def sim_query_def)
  next
    case (Some rt)
    with i(11) obtain S where S: "sim_inv n S (fl_sim s)" "\<forall>j<n. S j \<subseteq> set (admitted_to j (admit_log (fl_queue s)))"
      by (auto simp: sim_follows_def)
    obtain T where "sim_inv n T (snd (sim_query k cid len hashes hits (fl_sim s)))" "\<forall>j<n. T j = S j"
      using sim_step_inv[OF S(1), of "OpQuery k cid len hashes hits"] by (auto simp: sim_step_def track_def)
    with S(2) show ?thesis unfolding sim_follows_def by (intro disjI2 exI[of _ T]) simp
  qed
  then show ?thesis
    by (intro fleet_invI[where processed = processed and answered = answered] fleet_viewI) (use i in \<open>simp_all add: query_event_def\<close>)
qed

end
