(* ===== verification/FleetRuns.thy ===== *)
theory FleetRuns
  imports Fleet
begin

text \<open>
  Runs of the whole router (theory \<open>Fleet\<close>): the invariant in every reachable state, conservation of
  requests over all the places they can be, delivery up to the work queues for policies that always
  choose, and what becomes of a replica whose step stream has ended.
\<close>

section \<open>Runs\<close>

text \<open>An event that can panic: a turn of the completion loop, and the work loop of a replica whose stream has ended.\<close>

definition may_panic :: "'b fleet_event \<Rightarrow> ('b, 'g) fleet \<Rightarrow> bool" where
  "may_panic ev s = (case ev of
     Fetch k now \<Rightarrow> k < length (fl_ended s) \<and> fl_ended s ! k
   | Receive k (Step t) \<Rightarrow> True
   | _ \<Rightarrow> False)"

context scheduler begin

lemma fleet_step_inv:
  assumes "fleet_inv n limit s" "ids_fit s" "0 < n" "dp_sched d = sched" "0 < dp_block_size d"
  shows "fleet_step d ev s = Inr s' \<Longrightarrow> fleet_inv n limit s'"
    and "\<not> may_panic ev s \<Longrightarrow> \<exists>s'. fleet_step d ev s = Inr s'"
proof -
  have n: "length (fl_ended s) = n" "length (fl_hand s) = n" using assms(1) by (auto simp: fleet_inv_def fleet_view_def)
  note front = front_event_inv[OF assms(1,5)] and app = append_event_inv[OF assms(1-4)]
    and sub = submit_event_inv[OF assms(1)]
  show "fleet_inv n limit s'" if "fleet_step d ev s = Inr s'"
  proof (cases ev)
    case (Fetch k now)
    show ?thesis
    proof (cases "k < n \<and> fl_ended s ! k")
      case True
      with that Fetch n have "s' = s" by (auto simp: fleet_step_def fetch_event_def split: if_splits)
      with assms(1) show ?thesis by simp
    next
      case False
      with fetch_event_inv[OF assms(1,2,4), of k now] that Fetch show ?thesis by (auto simp: fleet_step_def)
    qed
  next
    case (Front op)
    with front[of op] that show ?thesis by (auto simp: fleet_step_def)
  next
    case QueueAppend
    with app that show ?thesis by (auto simp: fleet_step_def)
  next
    case (Submit k)
    with sub[of k] that show ?thesis by (auto simp: fleet_step_def)
  next
    case (Receive k m)
    with receive_event_inv[OF assms(1,2)] that show ?thesis by (auto simp: fleet_step_def)
  next
    case (Publish k sctx)
    with publish_event_inv[OF assms(1)] that show ?thesis by (auto simp: fleet_step_def)
  next
    case (Query k cid len hashes hits)
    with query_event_inv[OF assms(1)] that show ?thesis by (auto simp: fleet_step_def)
  qed
  show "\<exists>s'. fleet_step d ev s = Inr s'" if "\<not> may_panic ev s"
  proof (cases ev)
    case (Fetch k now)
    with that n fetch_event_inv[OF assms(1,2,4), of k now] show ?thesis by (auto simp: fleet_step_def may_panic_def)
  next
    case (Front op)
    with front[of op] show ?thesis by (auto simp: fleet_step_def)
  next
    case QueueAppend
    with app show ?thesis by (auto simp: fleet_step_def)
  next
    case (Submit k)
    with sub[of k] show ?thesis by (auto simp: fleet_step_def)
  next
    case (Receive k m)
    with that show ?thesis by (cases m) (auto simp: fleet_step_def may_panic_def receive_event_def)
  qed (simp_all add: fleet_step_def)
qed

end

lemma fleet_step_appends:
  assumes "fleet_step d ev s = Inr s'"
  shows "length (appended (fl_front s)) \<le> length (appended (fl_front s'))"
proof (cases ev)
  case (Front op)
  with assms obtain f k where "front_step (dp_xxh d) (dp_block_size d) (dp_worker d) (dp_limits d) op (fl_front s, fl_open s) = Inr (f, k)"
    "fl_front s' = f" by (auto simp: fleet_step_def front_event_def obind_eq_Inr)
  with front_step_appends[OF this(1)] show ?thesis by auto
next
  case (Receive k m)
  with assms show ?thesis
    by (auto simp: fleet_step_def receive_event_def turn_event_def obind_eq_Inr split: received.splits if_splits)
qed (use assms in \<open>auto simp: fleet_step_def append_event_def fetch_event_def submit_event_def publish_event_def query_event_def obind_eq_Inr
       split: list.splits if_splits\<close>)

context scheduler begin

lemma fleet_reachable_inv:
  assumes "fleet_reachable d s0 s" "fleet_inv n limit s0" "0 < n" "dp_sched d = sched" "0 < dp_block_size d"
  shows "ids_fit s \<Longrightarrow> fleet_inv n limit s"
  using assms(1)
proof (induction rule: fleet_reachable.induct)
  case (step s ev s')
  have "ids_fit s" using fleet_step_appends[OF step.hyps(2)] step.prems by (simp add: ids_fit_def)
  with step.IH have "fleet_inv n limit s" by blast
  from fleet_step_inv(1)[OF this \<open>ids_fit s\<close> assms(3-5) step.hyps(2)] show ?case .
qed (use assms(2) in simp)

end

section \<open>Conservation\<close>

lemma at_replica_given:
  assumes "replica_inv given hand wq l" "distinct given"
  shows "mset (hand_ids hand) + mset (map entry_id wq) + mset_set (held l) + mset (gone l) = mset given"
proof -
  from assms(1) obtain drained where d: "given = drained @ map entry_id wq @ hand_ids hand" "loop_inv (set drained) l"
    by (auto simp: replica_inv_def)
  note l = loop_invD(7-9)[OF d(2)]
  have fin: "finite (held l)" using l(3) by (metis List.finite_set finite_Un)
  have "mset_set (held l) + mset (gone l) = mset_set (set (gone l) \<union> held l)"
    using l(1,2) fin by (simp add: mset_set_Union mset_set_set)
  also have "\<dots> = mset drained" unfolding l(3) using assms(2) d(1) by (simp add: mset_set_set)
  finally show ?thesis using d(1) by simp
qed

lemma mset_split_index:
  assumes "\<forall>x\<in>set xs. f x < (n :: nat)"
  shows "mset (map g xs) = (\<Sum>k<n. mset (map g (filter (\<lambda>x. f x = k) xs)))"
  using assms
proof (induction xs)
  case (Cons x xs)
  have "(\<Sum>k<n. mset (map g (filter (\<lambda>y. f y = k) (x # xs)))) =
      (\<Sum>k<n. mset (map g (filter (\<lambda>y. f y = k) xs)) + (if k = f x then {#g x#} else {#}))"
    by (rule sum.cong) auto
  also have "\<dots> = (\<Sum>k<n. mset (map g (filter (\<lambda>y. f y = k) xs))) + {#g x#}"
    using Cons.prems by (simp add: sum.distrib)
  finally show ?case using Cons by simp
qed simp

lemma places_conserved:
  assumes "fleet_inv n limit s" "ids_fit s"
  shows "places s = mset (map entry_id (appended (fl_front s)))"
proof -
  obtain processed answered where "fleet_view n limit processed answered s" using assms(1) unfolding fleet_inv_def by blast
  note i = fleet_viewD[OF this]
  have len: "length (commit_bufs (fl_queue s)) = n" using i(8) by (simp add: runner_inv_def)
  have "distinct (map entry_id (appended (fl_front s)))"
    using appended_distinct[OF i(1)] assms(2) by (simp add: ids_fit_def)
  then have dp: "distinct processed" unfolding i(9)[symmetric] by simp
  have "at_replica s k = mset (admitted_to k (admit_log (fl_queue s)))" if k: "k < n" for k
  proof -
    have "mset (hand_ids (fl_hand s ! k)) + mset (map entry_id (fl_wq s ! k)) + mset_set (held (fl_loops s ! k)) +
        mset (gone (fl_loops s ! k)) = mset (given_to k answered)"
      by (rule at_replica_given[OF i(10)[OF k] given_distinct[OF i(8) dp k]])
    then have "at_replica s k = mset (given_to k answered @ map fst (commit_bufs (fl_queue s) ! k))"
      by (simp only: at_replica_def mset_append add.assoc) (simp only: add.commute add.assoc)
    then show ?thesis by (simp only: runner_answers[OF i(8) k])
  qed
  then have "(\<Sum>k<n. at_replica s k) = (\<Sum>k<n. mset (admitted_to k (admit_log (fl_queue s))))" by simp
  also have "\<dots> = mset (map (entry_id \<circ> snd) (admit_log (fl_queue s)))"
    unfolding admitted_to_def by (rule mset_split_index[symmetric]) (use i(7) len in \<open>auto simp: runner_keyed_def\<close>)
  finally have "places s = mset (map entry_id (fl_cmds s)) + mset processed"
    using i(3,8) by (auto simp: places_def runner_inv_def)
  then show ?thesis unfolding i(9)[symmetric] by simp
qed

text \<open>What holds of a replica at any time: its work queue never overflows, and the running requests of its loop are not
  those it handles as exceptions.\<close>

lemma replica_consistent:
  assumes "fleet_inv n limit s" "k < n"
  shows "length (fl_wq s ! k) \<le> 64 \<and>
    dom (cq_entries (fl_loops s ! k)) \<inter> dom (ext_entries (except_context (fl_loops s ! k))) = {} \<and> phases_ok (fl_loops s ! k)"
proof -
  from assms obtain g drained where "length (fl_wq s ! k) \<le> 64" "loop_inv (set drained) (fl_loops s ! k)"
    by (auto simp: fleet_inv_def fleet_view_def replica_inv_def)
  with loop_inv_disjoint(1)[OF this(2)] loop_invD(2)[OF this(2)] show ?thesis by (fastforce simp: disjoint_iff domIff)
qed

lemma simulator_consistent:
  assumes "fleet_inv n limit s" "fl_sim s = Some rt" "k < n"
  shows "pctx_ok (pctxs rt ! k) \<and> in_flight (pc_sched (pctxs rt ! k)) \<subseteq> set (admitted_to k (admit_log (fl_queue s)))"
  using assms by (fastforce simp: fleet_inv_def fleet_view_def sim_follows_def sim_inv_def)

text \<open>The assertions of the completion loop when it drains its work queue: no request is already there.\<close>

lemma drain_asserts_hold:
  assumes "fleet_inv n limit s" "ids_fit s" "k < n" "e \<in> set (fl_wq s ! k)"
  shows "cq_entries (fl_loops s ! k) (entry_id e) = None" "ext_entries (except_context (fl_loops s ! k)) (entry_id e) = None"
proof -
  obtain processed answered where "fleet_view n limit processed answered s" using assms(1) unfolding fleet_inv_def by blast
  note i = fleet_viewD[OF this]
  have "distinct (map entry_id (appended (fl_front s)))"
    using appended_distinct[OF i(1)] assms(2) by (simp add: ids_fit_def)
  then have "distinct processed" unfolding i(9)[symmetric] by simp
  then have g: "distinct (given_to k answered)" by (rule given_distinct[OF i(8) _ assms(3)])
  obtain drained where d: "given_to k answered = drained @ map entry_id (fl_wq s ! k) @ hand_ids (fl_hand s ! k)"
    "loop_inv (set drained) (fl_loops s ! k)" using i(10)[OF assms(3)] by (auto simp: replica_inv_def)
  have "entry_id e \<notin> set drained" using g d(1) assms(4) by auto
  then have "entry_id e \<notin> held (fl_loops s ! k)" using loop_invD(9)[OF d(2)] by blast
  then show "cq_entries (fl_loops s ! k) (entry_id e) = None" "ext_entries (except_context (fl_loops s ! k)) (entry_id e) = None"
    by (auto simp: held_def)
qed

section \<open>Policies that always choose\<close>

definition fleet_run :: "('b, 'g) deployment \<Rightarrow> 'b fleet_event list \<Rightarrow> ('b, 'g) fleet \<Rightarrow> ('b, 'g) fleet outcome" where
  "fleet_run d evs s = fold_outcome (fleet_step d) evs s"

lemma fleet_run_simps [simp]:
  "fleet_run d [] s = Inr s"
  "fleet_run d (ev # evs) s = (case fleet_step d ev s of Inl p \<Rightarrow> Inl p | Inr s' \<Rightarrow> fleet_run d evs s')"
  by (simp_all add: fleet_run_def split: sum.split)

lemma fleet_run_append: "fleet_run d evs s = Inr s1 \<Longrightarrow> fleet_run d (evs @ evs') s = fleet_run d evs' s1"
  by (simp add: fleet_run_def fold_outcome_append)

lemma fleet_run_reachable: "fleet_reachable d s0 s \<Longrightarrow> fleet_run d evs s = Inr s' \<Longrightarrow> fleet_reachable d s0 s'"
  by (induction evs arbitrary: s) (auto split: sum.splits intro: fleet_reachable.step)

context total_scheduler begin

lemma fleet_step_empties:
  assumes "fleet_inv n limit s" "0 < n" "dp_sched d = sched" "uncommit_buffer (fl_queue s) = []" "fleet_step d ev s = Inr s'"
  shows "uncommit_buffer (fl_queue s') = []"
proof -
  obtain processed answered where "fleet_view n limit processed answered s" using assms(1) unfolding fleet_inv_def by blast
  note i = fleet_viewD[OF this]
  show ?thesis
  proof (cases ev)
    case QueueAppend
    show ?thesis
    proof (cases "fl_cmds s")
      case Nil
      with QueueAppend assms(4,5) show ?thesis by (simp add: fleet_step_def append_event_def)
    next
      case (Cons e es)
      with QueueAppend assms(3,5) obtain r where r: "run_append sched e (fl_queue s) = Inr r" "fl_queue s' = r"
        by (auto simp: fleet_step_def append_event_def obind_eq_Inr)
      have "fresh e" using i(1,2) Cons by (auto simp: front_inv_def)
      from run_append_empties[OF i(8) this assms(2,4) r(1)] r(2) show ?thesis by simp
    qed
  next
    case (Fetch k now)
    from Fetch assms(3,5) i(3) have "fl_queue s' = fl_queue s \<or>
        (k < n \<and> (\<exists>a. run_next sched now k (fl_queue s) = Inr (a, fl_queue s')))"
      by (auto simp: fleet_step_def fetch_event_def obind_eq_Inr split: if_splits)
    moreover have "length (commit_bufs (fl_queue s)) = n" using i(8) by (simp add: runner_inv_def)
    ultimately show ?thesis using run_next_empties[OF _ assms(4)] assms(4) by auto
  qed (use assms(4,5) in \<open>auto simp: fleet_step_def front_event_def submit_event_def receive_event_def turn_event_def
         publish_event_def query_event_def obind_eq_Inr split: if_splits received.splits\<close>)
qed

lemma fleet_reachable_empties:
  assumes "fleet_reachable d s0 s" "fleet_inv n limit s0" "0 < n" "dp_sched d = sched" "0 < dp_block_size d"
    "uncommit_buffer (fl_queue s0) = []"
  shows "ids_fit s \<Longrightarrow> uncommit_buffer (fl_queue s) = []"
  using assms(1)
proof (induction rule: fleet_reachable.induct)
  case (step s ev s')
  have fit: "ids_fit s" using fleet_step_appends[OF step.hyps(2)] step.prems by (simp add: ids_fit_def)
  from fleet_step_empties[OF fleet_reachable_inv[OF step.hyps(1) assms(2-5) fit] assms(3,4) step.IH[OF fit] step.hyps(2)]
  show ?case .
qed (use assms(6) in simp)

text \<open>The queue task works off its commands.\<close>

lemma commands_served:
  assumes "fleet_inv n limit s" "ids_fit s" "0 < n" "dp_sched d = sched" "0 < dp_block_size d"
  shows "\<exists>s'. fleet_run d (replicate (length (fl_cmds s)) QueueAppend) s = Inr s' \<and> fl_cmds s' = [] \<and>
    fl_front s' = fl_front s \<and> fl_wq s' = fl_wq s \<and> fl_hand s' = fl_hand s \<and> fl_loops s' = fl_loops s \<and> fl_ended s' = fl_ended s"
  using assms(1,2)
proof (induction "fl_cmds s" arbitrary: s)
  case Nil
  then show ?case by (simp flip: Nil(1))
next
  case (Cons e es)
  obtain s1 where s1: "append_event d s = Inr s1" "fleet_inv n limit s1"
    using append_event_inv[OF Cons.prems assms(3,4)] by blast
  then have f: "fl_cmds s1 = es" "fl_front s1 = fl_front s" "fl_wq s1 = fl_wq s" "fl_hand s1 = fl_hand s"
    "fl_loops s1 = fl_loops s" "fl_ended s1 = fl_ended s"
    using Cons.hyps(2) by (auto simp: append_event_def obind_eq_Inr split: list.splits)
  then have "ids_fit s1" using Cons.prems(2) by (simp add: ids_fit_def)
  from Cons.hyps(1)[OF f(1)[symmetric] s1(2) this] f s1(1) show ?case
    by (simp add: fleet_step_def flip: Cons.hyps(2))
qed

text \<open>A work loop hands on what is in the buffer of its replica, in order, as far as there is room.\<close>

lemma work_loop_round:
  assumes "fleet_inv n limit s" "k < n" "dp_sched d = sched" "\<not> fl_ended s ! k" "fl_hand s ! k = None"
    "commit_bufs (fl_queue s) ! k = (rid, e) # rest" "length (fl_wq s ! k) < 64"
  shows "\<exists>s'. fleet_run d [Fetch k now, Submit k] s = Inr s' \<and> fl_front s' = fl_front s \<and> fl_ended s' = fl_ended s \<and>
    fl_hand s' ! k = None \<and> fl_wq s' ! k = fl_wq s ! k @ [e\<lparr>batch_time := Some now\<rparr>] \<and> commit_bufs (fl_queue s') ! k = rest"
proof -
  obtain processed answered where "fleet_view n limit processed answered s" using assms(1) unfolding fleet_inv_def by blast
  note i = fleet_viewD[OF this]
  have len: "k < length (commit_bufs (fl_queue s))" using i(8) assms(2) by (simp add: runner_inv_def)
  let ?r = "(fl_queue s)\<lparr>commit_bufs := (commit_bufs (fl_queue s))[k := rest]\<rparr>"
  have "fill_loop sched k (fl_queue s) = Inr (fl_queue s)" using len assms(6) by (subst fill_loop.simps) simp
  then have "run_next sched now k (fl_queue s) = Inr (Some (rid, e\<lparr>batch_time := Some now\<rparr>), ?r)"
    using assms(6) by (simp add: run_next_def)
  with assms(2-5,7) i(3,4) len show ?thesis
    by (simp add: fleet_step_def fetch_event_def submit_event_def work_step_def)
qed

lemma work_loop_rounds:
  assumes "fleet_inv n limit s" "ids_fit s" "0 < n" "k < n" "dp_sched d = sched" "0 < dp_block_size d" "\<not> fl_ended s ! k"
    "fl_hand s ! k = None" "m \<le> length (commit_bufs (fl_queue s) ! k)" "length (fl_wq s ! k) + m \<le> 64"
  shows "\<exists>s'. fleet_run d (concat (replicate m [Fetch k now, Submit k])) s = Inr s' \<and>
    map entry_id (fl_wq s' ! k) = map entry_id (fl_wq s ! k) @ take m (map fst (commit_bufs (fl_queue s) ! k))"
  using assms(1,2,7-10)
proof (induction m arbitrary: s)
  case (Suc m)
  obtain rid e rest where b: "commit_bufs (fl_queue s) ! k = (rid, e) # rest"
    using Suc.prems(5) by (cases "commit_bufs (fl_queue s) ! k") auto
  obtain s1 where s1: "fleet_run d [Fetch k now, Submit k] s = Inr s1" "fl_front s1 = fl_front s" "fl_ended s1 = fl_ended s"
    "fl_hand s1 ! k = None" "fl_wq s1 ! k = fl_wq s ! k @ [e\<lparr>batch_time := Some now\<rparr>]" "commit_bufs (fl_queue s1) ! k = rest"
    using work_loop_round[OF Suc.prems(1) assms(4,5) Suc.prems(3,4) b] Suc.prems(6) by auto
  have fit: "ids_fit s1" using Suc.prems(2) s1(2) by (simp add: ids_fit_def)
  have i: "fleet_inv n limit s1"
    by (rule fleet_reachable_inv[OF fleet_run_reachable[OF fleet_reachable.start s1(1)] Suc.prems(1) assms(3,5,6) fit])
  obtain s2 where s2: "fleet_run d (concat (replicate m [Fetch k now, Submit k])) s1 = Inr s2"
    "map entry_id (fl_wq s2 ! k) = map entry_id (fl_wq s1 ! k) @ take m (map fst rest)"
    using Suc.IH[OF i fit] Suc.prems(3,5,6) s1 b by auto
  have "runner_keyed (fl_queue s)" "k < length (commit_bufs (fl_queue s))"
    using Suc.prems(1) assms(4) by (auto simp: fleet_inv_def fleet_view_def runner_inv_def)
  moreover from this have "(rid, e) # rest \<in> set (commit_bufs (fl_queue s))" using b by (metis nth_mem)
  ultimately have "entry_id e = rid" by (fastforce simp: runner_keyed_def)
  then have "entry_id (e\<lparr>batch_time := Some now\<rparr>) = rid" by (simp add: entry_id_def)
  then have "map entry_id (fl_wq s2 ! k) = map entry_id (fl_wq s ! k) @ take (Suc m) (map fst (commit_bufs (fl_queue s) ! k))"
    using s2(2) s1(5) b by simp
  moreover have "fleet_run d (concat (replicate (Suc m) [Fetch k now, Submit k])) s = Inr s2"
    using s2(1) by (simp only: replicate_Suc concat.simps fleet_run_append[OF s1(1)])
  ultimately show ?case by blast
qed simp

end

section \<open>A replica whose step stream has ended\<close>

text \<open>
  The completion loop returns and drops the receiver of the work queue; the next reservation of the work
  loop fails and its task panics. The queue task goes on: the policies still choose the replica, and what
  is in its buffer stays there.
\<close>

lemma ended_work_loop_panics:
  "k < length (fl_hand s) \<Longrightarrow> fl_hand s ! k = None \<Longrightarrow> fl_ended s ! k \<Longrightarrow> fleet_step d (Fetch k now) s = Inl Unreachable"
  by (simp add: fleet_step_def fetch_event_def)

definition keeps_buffer :: "nat \<Rightarrow> ('b, 'g) runner \<Rightarrow> ('b, 'g) runner \<Rightarrow> bool" where
  "keeps_buffer k r r' \<longleftrightarrow> length (commit_bufs r') = length (commit_bufs r) \<and> (\<exists>more. commit_bufs r' ! k = commit_bufs r ! k @ more)"

lemma keeps_buffer_refl: "commit_bufs r' = commit_bufs r \<Longrightarrow> keeps_buffer k r r'"
  by (simp add: keeps_buffer_def)

lemma keeps_buffer_trans: "keeps_buffer k r r1 \<Longrightarrow> keeps_buffer k r1 r2 \<Longrightarrow> keeps_buffer k r r2"
  by (auto simp: keeps_buffer_def)

lemma admit_front_keeps:
  assumes "admit_front sched e rest r = Inr (b, r')" "k < length (commit_bufs r)"
  shows "keeps_buffer k r r'"
  using assms by (auto simp: admit_front_def keeps_buffer_def nth_list_update split: sum.splits option.splits if_splits)

lemma fill_loop_keeps: "fill_loop sched j r = Inr r' \<Longrightarrow> k < length (commit_bufs r) \<Longrightarrow> keeps_buffer k r r'"
proof (induction sched j r rule: fill_loop.induct)
  case (1 sched j r)
  show ?case
  proof (cases "commit_bufs r ! j = [] \<and> uncommit_buffer r \<noteq> [] \<and> j < length (commit_bufs r)")
    case False
    then have "r' = r" using "1.prems" by (subst (asm) fill_loop.simps) (auto split: if_splits list.splits)
    then show ?thesis by (simp add: keeps_buffer_refl)
  next
    case True
    then obtain e rest where q: "uncommit_buffer r = e # rest" by (cases "uncommit_buffer r") auto
    with True "1.prems"(1) obtain b r1 where a: "admit_front sched e rest r = Inr (b, r1)"
      "if b then fill_loop sched j r1 = Inr r' else r' = r1"
      by (subst (asm) fill_loop.simps) (auto split: sum.splits bool.splits)
    note x = admit_front_keeps[OF a(1) "1.prems"(2)]
    show ?thesis
    proof (cases b)
      case False
      with a x show ?thesis by simp
    next
      case b: True
      with a x "1.IH"[of e rest "(b, r1)" b r1] "1.prems"(2) True q have "keeps_buffer k r1 r'" by (simp add: keeps_buffer_def)
      with x show ?thesis by (rule keeps_buffer_trans)
    qed
  qed
qed

lemma run_next_keeps:
  assumes "run_next sched now j r = Inr (a, r')" "j \<noteq> k" "k < length (commit_bufs r)"
  shows "keeps_buffer k r r'"
proof -
  obtain r1 where f: "fill_loop sched j r = Inr r1" using assms(1) by (auto simp: run_next_def split: sum.splits)
  have "keeps_buffer k r1 r'"
    using assms(1,2) f by (auto simp: run_next_def keeps_buffer_def split: list.splits)
  with fill_loop_keeps[OF f assms(3)] show ?thesis by (rule keeps_buffer_trans)
qed

lemma run_append_keeps:
  assumes "run_append sched e r = Inr r'" "k < length (commit_bufs r)"
  shows "keeps_buffer k r r'"
proof -
  obtain f rest where q: "uncommit_buffer r @ [e] = f # rest" by (cases "uncommit_buffer r") auto
  from assms(1) have "map_sum id snd (admit_front sched f rest (r\<lparr>uncommit_buffer := f # rest\<rparr>)) = Inr r'"
    by (simp only: run_append_def q list.case)
  then obtain x where "admit_front sched f rest (r\<lparr>uncommit_buffer := f # rest\<rparr>) = Inr x" "snd x = r'"
    by (cases "admit_front sched f rest (r\<lparr>uncommit_buffer := f # rest\<rparr>)") auto
  then have "admit_front sched f rest (r\<lparr>uncommit_buffer := f # rest\<rparr>) = Inr (fst x, r')" by auto
  from admit_front_keeps[OF this, of k] assms(2) show ?thesis by (simp add: keeps_buffer_def)
qed

lemma ended_step_keeps:
  assumes "fleet_step d ev s = Inr s'" "k < length (fl_ended s)" "fl_ended s ! k" "length (fl_hand s) = length (fl_ended s)"
    "length (commit_bufs (fl_queue s)) = length (fl_ended s)"
  shows "keeps_buffer k (fl_queue s) (fl_queue s') \<and> fl_ended s' ! k \<and> length (fl_ended s') = length (fl_ended s) \<and>
    length (fl_hand s') = length (fl_hand s)"
proof (cases ev)
  case (Front op)
  with assms show ?thesis by (auto simp: fleet_step_def front_event_def obind_eq_Inr keeps_buffer_refl)
next
  case QueueAppend
  with assms show ?thesis
    by (auto simp: fleet_step_def append_event_def obind_eq_Inr keeps_buffer_refl run_append_keeps split: list.splits)
next
  case (Fetch j now)
  with assms show ?thesis
    by (cases "j = k") (auto simp: fleet_step_def fetch_event_def obind_eq_Inr keeps_buffer_refl run_next_keeps split: if_splits)
next
  case (Submit j)
  with assms show ?thesis by (auto simp: fleet_step_def submit_event_def obind_eq_Inr keeps_buffer_refl split: if_splits)
next
  case (Receive j m)
  with assms show ?thesis
    by (cases "j = k") (auto simp: fleet_step_def receive_event_def turn_event_def obind_eq_Inr keeps_buffer_refl
        split: if_splits received.splits)
next
  case (Publish j sctx)
  with assms show ?thesis by (auto simp: fleet_step_def publish_event_def keeps_buffer_refl)
next
  case (Query j cid len hashes hits)
  with assms show ?thesis by (auto simp: fleet_step_def query_event_def keeps_buffer_refl)
qed

lemma ended_replica_starves:
  assumes "fleet_reachable d s s'" "k < length (fl_ended s)" "fl_ended s ! k" "length (fl_hand s) = length (fl_ended s)"
    "length (commit_bufs (fl_queue s)) = length (fl_ended s)"
  shows "keeps_buffer k (fl_queue s) (fl_queue s') \<and> fl_ended s' ! k \<and> length (fl_ended s') = length (fl_ended s) \<and>
    length (fl_hand s') = length (fl_hand s)"
  using assms(1)
proof (induction rule: fleet_reachable.induct)
  case (step s1 ev s2)
  then have "keeps_buffer k (fl_queue s1) (fl_queue s2) \<and> fl_ended s2 ! k \<and> length (fl_ended s2) = length (fl_ended s1) \<and>
    length (fl_hand s2) = length (fl_hand s1)"
    using assms(2-5) by (intro ended_step_keeps[OF step.hyps(2)]) (auto simp: keeps_buffer_def)
  with step.IH show ?case using keeps_buffer_trans by auto
qed (use assms(3) in \<open>simp add: keeps_buffer_refl\<close>)

section \<open>Properties\<close>

text \<open>The two properties for any policy that meets the contract of the queue task.\<close>

definition fleet_start :: "nat \<Rightarrow> nat \<Rightarrow> runtime option \<Rightarrow> ('b, 'g) fleet \<Rightarrow> bool" where
  "fleet_start n limit sim s0 \<longleftrightarrow> (\<exists>bh g. s0 = fleet_new n limit bh g sim) \<and>
     (sim = None \<or> (\<exists>cfg inner. init_with_predictor n cfg inner None = (Inr (), sim)))"

lemma fleet_start_inv: "fleet_start n limit sim s0 \<Longrightarrow> fleet_inv n limit s0 \<and> uncommit_buffer (fl_queue s0) = []"
  by (auto simp: fleet_start_def fleet_new_def runner_new_def intro!: fleet_inv_new[unfolded fleet_new_def runner_new_def]
      dest: sim_inv_init)

context total_scheduler begin

lemma fleet_conserves:
  assumes "fleet_start n limit sim s0" "0 < n" "dp_sched d = sched" "0 < dp_block_size d" "fleet_reachable d s0 s" "ids_fit s"
  shows "places s = mset (map entry_id (appended (fl_front s))) \<and> distinct (map entry_id (appended (fl_front s))) \<and>
    permits (fl_front s) + fl_open s = limit \<and> uncommit_buffer (fl_queue s) = [] \<and>
    (\<forall>k<n. length (fl_wq s ! k) \<le> 64 \<and>
       dom (cq_entries (fl_loops s ! k)) \<inter> dom (ext_entries (except_context (fl_loops s ! k))) = {} \<and> phases_ok (fl_loops s ! k) \<and>
       (\<forall>rt. fl_sim s = Some rt \<longrightarrow> pctx_ok (pctxs rt ! k) \<and>
          in_flight (pc_sched (pctxs rt ! k)) \<subseteq> set (admitted_to k (admit_log (fl_queue s)))))"
proof -
  note start = fleet_start_inv[OF assms(1)]
  have i: "fleet_inv n limit s" by (rule fleet_reachable_inv[OF assms(5) conjunct1[OF start] assms(2-4,6)])
  have u: "uncommit_buffer (fl_queue s) = []"
    by (rule fleet_reachable_empties[OF assms(5) conjunct1[OF start] assms(2-4) conjunct2[OF start] assms(6)])
  from i have f: "front_inv limit fresh (fl_front s, fl_open s)" by (auto simp: fleet_inv_def fleet_view_def)
  then have p: "permits (fl_front s) + fl_open s = limit" by (simp add: front_inv_def)
  show ?thesis
    using places_conserved[OF i assms(6)] replica_consistent[OF i] simulator_consistent[OF i] u p
      appended_distinct[OF f assms(6)[unfolded ids_fit_def]] by blast
qed

lemma fleet_delivers:
  assumes "fleet_start n limit sim s0" "0 < n" "dp_sched d = sched" "0 < dp_block_size d" "fleet_reachable d s0 s" "ids_fit s"
  shows "(\<forall>ev. \<not> may_panic ev s \<longrightarrow> (\<exists>s'. fleet_step d ev s = Inr s')) \<and>
    (\<exists>s1. fleet_run d (replicate (length (fl_cmds s)) QueueAppend) s = Inr s1 \<and> fl_cmds s1 = [] \<and> uncommit_buffer (fl_queue s1) = [] \<and>
      (\<forall>k<n. \<forall>m\<le>length (commit_bufs (fl_queue s1) ! k).
         \<not> fl_ended s1 ! k \<and> fl_hand s1 ! k = None \<and> length (fl_wq s1 ! k) + m \<le> 64 \<longrightarrow>
         (\<exists>s2. fleet_run d (concat (replicate m [Fetch k now, Submit k])) s1 = Inr s2 \<and>
            map entry_id (fl_wq s2 ! k) = map entry_id (fl_wq s1 ! k) @ take m (map fst (commit_bufs (fl_queue s1) ! k)))))"
proof -
  note start = fleet_start_inv[OF assms(1)]
  have i: "fleet_inv n limit s" by (rule fleet_reachable_inv[OF assms(5) conjunct1[OF start] assms(2-4,6)])
  obtain s1 where s1: "fleet_run d (replicate (length (fl_cmds s)) QueueAppend) s = Inr s1" "fl_cmds s1 = []" "fl_front s1 = fl_front s"
    using commands_served[OF i assms(6,2,3,4)] by blast
  have r1: "fleet_reachable d s0 s1" by (rule fleet_run_reachable[OF assms(5) s1(1)])
  have fit: "ids_fit s1" using assms(6) s1(3) by (simp add: ids_fit_def)
  have i1: "fleet_inv n limit s1" by (rule fleet_reachable_inv[OF r1 conjunct1[OF start] assms(2-4) fit])
  have u1: "uncommit_buffer (fl_queue s1) = []"
    by (rule fleet_reachable_empties[OF r1 conjunct1[OF start] assms(2-4) conjunct2[OF start] fit])
  show ?thesis
    using fleet_step_inv(2)[OF i assms(6,2,3,4)] s1(1,2) u1 work_loop_rounds[OF i1 fit assms(2) _ assms(3,4)] by blast
qed

end

context total_policy begin

lemmas policy_fleet_conserves = fleet_conserves
lemmas policy_fleet_delivers = fleet_delivers

end

text \<open>C1: the router as a whole neither loses nor duplicates a request. With any policy of \<open>policy_bodies\<close> (theory
  \<open>PolicyContracts\<close> has the others), with or without the simulator, in every state reachable by any interleaving of clients, queue task, work loops and
  engine reports in which no task has panicked, every accepted request is in exactly one place: the command
  channel, the buffer of one replica, its work loop, its work queue, its event loop, or gone from it. No
  request waits uncommitted, permits and open streams add up to the limit, no work queue overflows, the
  loops are consistent, and what the simulator takes to be in flight at a replica was admitted to it.\<close>

theorem fleet_conserves_requests:
  assumes "body \<in> set (policy_bodies alpha beta gamma u)" "fleet_start n limit sim s0" "0 < n" "dp_sched d = lowered get epoch_of body no_extra"
    "0 < dp_block_size d" "fleet_reachable d s0 s" "length (appended (fl_front s)) < 2 ^ 64"
  shows "places s = mset (map entry_id (appended (fl_front s))) \<and> distinct (map entry_id (appended (fl_front s))) \<and>
    permits (fl_front s) + fl_open s = limit \<and> uncommit_buffer (fl_queue s) = [] \<and>
    (\<forall>k<n. length (fl_wq s ! k) \<le> 64 \<and>
       dom (cq_entries (fl_loops s ! k)) \<inter> dom (ext_entries (except_context (fl_loops s ! k))) = {} \<and> phases_ok (fl_loops s ! k) \<and>
       (\<forall>rt. fl_sim s = Some rt \<longrightarrow> pctx_ok (pctxs rt ! k) \<and>
          in_flight (pc_sched (pctxs rt ! k)) \<subseteq> set (admitted_to k (admit_log (fl_queue s)))))"
proof -
  have "total_policy body" using policies_total assms(1) by blast
  moreover have "ids_fit s" using assms(7) by (simp add: ids_fit_def)
  ultimately show ?thesis using total_policy.policy_fleet_conserves assms(2-6) by blast
qed

text \<open>C4: nothing in the router stops a request on its way to the engine. In every such state, with any policy of \<open>policy_bodies\<close>, clients, queue task,
  work loops and ends of streams never panic (the work loop only where the stream of its replica has ended);
  when the queue task has served its commands, no request waits there or uncommitted; and from then on a
  work loop moves what is in the buffer of its replica into the work queue, in order, as far as the 64
  places of the queue allow.\<close>

theorem fleet_delivers_requests:
  assumes "body \<in> set (policy_bodies alpha beta gamma u)" "fleet_start n limit sim s0" "0 < n" "dp_sched d = lowered get epoch_of body no_extra"
    "0 < dp_block_size d" "fleet_reachable d s0 s" "length (appended (fl_front s)) < 2 ^ 64"
  shows "(\<forall>ev. \<not> may_panic ev s \<longrightarrow> (\<exists>s'. fleet_step d ev s = Inr s')) \<and>
    (\<exists>s1. fleet_run d (replicate (length (fl_cmds s)) QueueAppend) s = Inr s1 \<and> fl_cmds s1 = [] \<and> uncommit_buffer (fl_queue s1) = [] \<and>
      (\<forall>k<n. \<forall>m\<le>length (commit_bufs (fl_queue s1) ! k).
         \<not> fl_ended s1 ! k \<and> fl_hand s1 ! k = None \<and> length (fl_wq s1 ! k) + m \<le> 64 \<longrightarrow>
         (\<exists>s2. fleet_run d (concat (replicate m [Fetch k now, Submit k])) s1 = Inr s2 \<and>
            map entry_id (fl_wq s2 ! k) = map entry_id (fl_wq s1 ! k) @ take m (map fst (commit_bufs (fl_queue s1) ! k)))))"
proof -
  have "total_policy body" using policies_total assms(1) by blast
  moreover have "ids_fit s" using assms(7) by (simp add: ids_fit_def)
  ultimately show ?thesis using total_policy.policy_fleet_delivers assms(2-6) by blast
qed

section \<open>A concrete fleet\<close>

definition demo_deployment :: "(hash_table, unit) deployment" where
  "demo_deployment = \<lparr>dp_xxh = (\<lambda>_ h. h), dp_block_size = 16, dp_worker = Some (prepare_input demo_tokenizer render_none),
     dp_limits = demo_limits, dp_sched = lowered ht_get ht_epoch lmetric_q no_extra, dp_insert = ht_insert, dp_remove = ht_remove\<rparr>"

definition demo_fleet :: "(hash_table, unit) fleet" where
  "demo_fleet = fleet_new 2 1 (ht_new 4) () None"

lemma demo_start: "fleet_start 2 1 None demo_fleet"
  by (auto simp: fleet_start_def demo_fleet_def)

lemma demo_deployment_facts:
  "lmetric_q \<in> set (policy_bodies 0 0 0 0)" "dp_sched demo_deployment = lowered ht_get ht_epoch lmetric_q no_extra"
  "0 < dp_block_size demo_deployment" "0 < (2 :: nat)"
  by (simp_all add: policy_bodies_def demo_deployment_def)

lemma demo_arrival:
  "\<exists>s. fleet_reachable demo_deployment demo_fleet s \<and> map entry_id (appended (fl_front s)) = [0] \<and> length (fl_cmds s) = 1"
proof -
  have v: "\<exists>r. validate (Some (prepare_input demo_tokenizer render_none)) demo_limits 0 demo_request 0 = (Inr r, 1)"
    using demo_validate by (auto simp: validate_def split: sum.splits prod.splits)
  obtain f where f: "generate_stream (\<lambda>_ h. h) 16 (Some (prepare_input demo_tokenizer render_none)) demo_limits 0 0 None demo_request (infer_new 1) =
      Inr (Inr 0, f)" "map entry_id (appended f) = [0]"
    by (rule generate_stream_cases[of 16 "infer_new 1" "\<lambda>_ h. h" "Some (prepare_input demo_tokenizer render_none)" demo_limits 0 0 None demo_request])
      (use v in \<open>auto simp: infer_new_def\<close>)
  let ?s = "demo_fleet\<lparr>fl_front := f, fl_open := 1, fl_cmds := appended f\<rparr>"
  have "fleet_step demo_deployment (Front (Open 0 0 None demo_request)) demo_fleet = Inr ?s"
    using f(1) by (simp add: fleet_step_def front_event_def front_step_def demo_deployment_def demo_fleet_def fleet_new_def infer_new_def)
  then have "fleet_reachable demo_deployment demo_fleet ?s" by (rule fleet_reachable.step[OF fleet_reachable.start])
  moreover have "length (appended f) = 1" using f(2) by (metis One_nat_def length_Cons length_map list.size(3))
  ultimately show ?thesis using f(2) by (intro exI[of _ ?s]) simp
qed

theorem fleet_conserves_requests_witness:
  "\<exists>s. fleet_reachable demo_deployment demo_fleet s \<and> places s = {#0#}"
proof -
  obtain s where s: "fleet_reachable demo_deployment demo_fleet s" "map entry_id (appended (fl_front s)) = [0]" using demo_arrival by (elim exE conjE)
  have len: "length (appended (fl_front s)) < 2 ^ 64" using arg_cong[OF s(2), of length] by simp
  have "places s = mset (map entry_id (appended (fl_front s)))"
    by (rule conjunct1[OF fleet_conserves_requests[OF demo_deployment_facts(1) demo_start demo_deployment_facts(4,2,3) s(1) len]])
  then have "places s = {#0#}" by (simp only: s(2) mset.simps)
  with s(1) show ?thesis by blast
qed

theorem fleet_delivers_requests_witness:
  "\<exists>s s1. fleet_reachable demo_deployment demo_fleet s \<and> length (fl_cmds s) = 1 \<and>
     fleet_run demo_deployment [QueueAppend] s = Inr s1 \<and> fl_cmds s1 = []"
proof -
  obtain s where s: "fleet_reachable demo_deployment demo_fleet s" "map entry_id (appended (fl_front s)) = [0]" "length (fl_cmds s) = 1"
    using demo_arrival by (elim exE conjE)
  have len: "length (appended (fl_front s)) < 2 ^ 64" using arg_cong[OF s(2), of length] by simp
  from fleet_delivers_requests[OF demo_deployment_facts(1) demo_start demo_deployment_facts(4,2,3) s(1) len, of 0]
  obtain s1 where "fleet_run demo_deployment (replicate (length (fl_cmds s)) QueueAppend) s = Inr s1" "fl_cmds s1 = []" by blast
  then have "fleet_run demo_deployment [QueueAppend] s = Inr s1 \<and> fl_cmds s1 = []"
    by (simp only: s(3) replicate_Suc One_nat_def replicate_0)
  with s(1,3) show ?thesis by (intro exI[of _ s] exI[of _ s1]) (simp del: fleet_run_simps)
qed

end
