(* ===== verification/PrebleCost.thy ===== *)
theory PrebleCost
  imports Prelude Complex_Main
begin

text \<open>
  The prefill cost model of the Preble policy, \<^verbatim>\<open>policies/preble/cost_model.rs\<close>: piecewise
  polynomials per GPU. Token counts are machine words, \<^verbatim>\<open>f64\<close> values are reals; decimal literals
  are the fractions they denote.
\<close>

section \<open>The tables\<close>

datatype target_gpu = A6000 | V100 | A800

definition default_gpu :: target_gpu where
  "default_gpu = A800"

definition f64_of :: "usize \<Rightarrow> real" where
  "f64_of w = real (unat w)"

definition a6000_linear_time :: "usize \<Rightarrow> real" where
  "a6000_linear_time n =
     (let t = f64_of n
      in if n \<ge> 384 then (0.10842571 * t + 4.209777054806409) / 1000
         else if n \<ge> 192 then (- 118 + 1.25 * t - 0.00256 * t * t) / 1000
         else 22 / 1000)"

definition a6000_attention_time :: "usize \<Rightarrow> usize \<Rightarrow> usize \<Rightarrow> real" where
  "a6000_attention_time reqs context unique_kv =
     (let kv = (if unique_kv = 0 then context else unique_kv);
          forward = (if context \<le> 1024 then 0.32
                     else let ft = 0.000186 * f64_of context + 0.159
                          in if f64_of kv / f64_of reqs \<le> 1024 \<and> reqs * kv \<le> 32 * 256 * 2048 then ft / 2 else ft)
      in forward / 1000)"

definition v100_linear_time :: "usize \<Rightarrow> real" where
  "v100_linear_time n =
     (let t = f64_of n
      in if n \<ge> 384 then (0.27106428 * t + 10.52444263) / 1000
         else if n \<ge> 192 then (- 295 + 3.125 * t - 0.0064 * t * t) / 1000
         else 55 / 1000)"

definition v100_attention_time :: "usize \<Rightarrow> usize \<Rightarrow> usize \<Rightarrow> real" where
  "v100_attention_time reqs context unique_kv =
     (let kv = (if unique_kv = 0 then context else unique_kv);
          forward = (if context \<le> 1024 then 0.80
                     else let ft = 0.000465 * f64_of context + 0.398
                          in if f64_of kv / f64_of reqs \<le> 1024 \<and> reqs * kv \<le> 32 * 256 * 2048 then ft / 2 else ft)
      in forward / 1000)"

definition a800_linear_time :: "usize \<Rightarrow> real" where
  "a800_linear_time n =
     (let t = f64_of n
      in if n \<ge> 384 then (0.10842571 * t + 4.21) / 1000
         else if n \<ge> 192 then (- 118 + 1.25 * t - 0.00256 * t * t) / 1000
         else 22 / 1000)"

definition a800_attention_time :: "usize \<Rightarrow> usize \<Rightarrow> usize \<Rightarrow> real" where
  "a800_attention_time reqs context unique_kv = a6000_attention_time reqs context unique_kv"

definition attn_quad_a6000 :: "usize \<Rightarrow> usize option \<Rightarrow> real" where
  "attn_quad_a6000 n seq_len =
     (let t = f64_of n;
          quad = (case seq_len of
                    None \<Rightarrow> if n \<ge> 4096 then - 7.37 + 0.00386 * t + 0.00000216 * t * t else 0
                  | Some sl \<Rightarrow> if n * sl > 1024 * 1024
                               then 0.00113 * t + 0.00175 * f64_of sl + 0.00000219 * t * f64_of sl else 0)
      in quad / 1000)"

definition attn_quad_v100 :: "usize \<Rightarrow> usize option \<Rightarrow> real" where
  "attn_quad_v100 n seq_len =
     (let t = f64_of n;
          quad = (case seq_len of
                    None \<Rightarrow> if n \<ge> 4096 then - 18.425 + 0.00965 * t + 0.0000054 * t * t else 0
                  | Some sl \<Rightarrow> if n * sl > 1024 * 1024
                               then 0.002825 * t + 0.004375 * f64_of sl + 0.000005475 * t * f64_of sl else 0)
      in quad / 1000)"

definition attn_quad_a800 :: "usize \<Rightarrow> usize option \<Rightarrow> real" where
  "attn_quad_a800 n seq_len = attn_quad_a6000 n seq_len"

fun base_prefill_time :: "target_gpu \<Rightarrow> usize \<Rightarrow> usize \<Rightarrow> real" where
  "base_prefill_time A6000 n context = a6000_linear_time n + a6000_attention_time 1 context n"
| "base_prefill_time V100 n context = v100_linear_time n + v100_attention_time 1 context n"
| "base_prefill_time A800 n context = a800_linear_time n + a800_attention_time 1 context n"

fun attn_quad_time :: "target_gpu \<Rightarrow> usize \<Rightarrow> usize option \<Rightarrow> real" where
  "attn_quad_time A6000 n seq_len = attn_quad_a6000 n seq_len"
| "attn_quad_time V100 n seq_len = attn_quad_v100 n seq_len"
| "attn_quad_time A800 n seq_len = attn_quad_a800 n seq_len"

definition prefill_time :: "target_gpu \<Rightarrow> usize \<Rightarrow> usize \<Rightarrow> real" where
  "prefill_time gpu n context = (base_prefill_time gpu n context + attn_quad_time gpu n None) / 0.9"

section \<open>The sign of the estimate\<close>

lemmas cost_defs = a6000_linear_time_def v100_linear_time_def a800_linear_time_def a6000_attention_time_def
  v100_attention_time_def a800_attention_time_def attn_quad_a6000_def attn_quad_v100_def attn_quad_a800_def

text \<open>The middle piece of the linear model is a parabola that opens downwards.\<close>

lemma parabola_pos:
  assumes "192 \<le> t" "t \<le> (360 :: real)"
  shows "0.00256 * t * t < 1.25 * t - 117.68"
proof -
  have "0 \<le> (t - 192) * (360 - t)" using assms by simp
  then have "t * t \<le> 552 * t - 69120" by (simp add: algebra_simps)
  with assms show ?thesis by simp
qed

lemma parabola_neg:
  assumes "361 \<le> (t :: real)"
  shows "1.25 * t - 117.68 < 0.00256 * t * t"
proof -
  have "0 \<le> (t - 361) * (t - 128)" using assms by simp
  then have "489 * t - 46208 \<le> t * t" by (simp add: algebra_simps)
  with assms show ?thesis by simp
qed

lemma parabola_min:
  assumes "192 \<le> t" "t \<le> (383 :: real)"
  shows "0.00256 * t * t \<le> 1.25 * t - 103"
proof -
  have "0 \<le> (t - 192) * (383 - t)" using assms by simp
  then have "t * t \<le> 575 * t - 73536" by (simp add: algebra_simps)
  with assms show ?thesis by simp
qed

lemma f64_bounds:
  "numeral k \<le> n \<Longrightarrow> real (unat (numeral k :: usize)) \<le> f64_of n"
  "n \<le> numeral k \<Longrightarrow> f64_of n \<le> real (unat (numeral k :: usize))"
  unfolding f64_of_def word_le_nat_alt by (simp_all only: of_nat_le_iff)

lemma f64_nonneg [simp]: "0 \<le> f64_of n"
  unfolding f64_of_def by (rule of_nat_0_le_iff)

lemma quad_nonneg: "0 \<le> attn_quad_time gpu n None"
proof -
  have "10 \<le> 0.00386 * f64_of n" if "4096 \<le> n" using f64_bounds(1)[OF that] by simp
  then show ?thesis
    by (cases gpu) (auto simp: cost_defs Let_def intro!: add_nonneg_nonneg)
qed

lemma quad_below: "n < 4096 \<Longrightarrow> attn_quad_time gpu n None = 0"
  by (cases gpu) (auto simp: cost_defs Let_def)

text \<open>The scale of a GPU's tables: those of the V100 are two and a half times the others.\<close>

definition gpu_scale :: "target_gpu \<Rightarrow> real" where
  "gpu_scale gpu = (if gpu = V100 then 2.5 else 1)"

lemma base_short_context:
  assumes "192 \<le> n" "n < 384" "context \<le> 1024"
  shows "base_prefill_time gpu n context =
    gpu_scale gpu * (1.25 * f64_of n - 117.68 - 0.00256 * f64_of n * f64_of n) / 1000"
proof -
  have "\<not> 384 \<le> n" using assms(2) by simp
  with assms(1,3) show ?thesis by (cases gpu) (simp_all add: cost_defs Let_def gpu_scale_def field_simps)
qed

lemma base_pos:
  assumes "n < 192 \<or> 384 \<le> n"
  shows "0 < base_prefill_time gpu n context"
proof -
  have "\<not> (192 \<le> n \<and> n < 384)" using assms by auto
  moreover have "384 \<le> n \<Longrightarrow> 192 \<le> n" by (simp add: word_le_nat_alt)
  ultimately have l: "0 < a6000_linear_time n" "0 < v100_linear_time n" "0 < a800_linear_time n"
    by (auto simp: a6000_linear_time_def v100_linear_time_def a800_linear_time_def Let_def intro: add_nonneg_pos)
  have a: "0 \<le> a6000_attention_time 1 context n" "0 \<le> v100_attention_time 1 context n"
    by (simp_all add: a6000_attention_time_def v100_attention_time_def Let_def)
  show ?thesis using l a by (cases gpu) (simp_all add: a800_attention_time_def add_pos_nonneg)
qed

text \<open>However small, an estimate is at least minus 42 milliseconds.\<close>

lemma prefill_time_lower: "- 0.042 < prefill_time gpu n context"
proof (cases "n < 192 \<or> 384 \<le> n")
  case True
  from base_pos[OF this, of gpu "context"] quad_nonneg[of gpu n] show ?thesis by (simp add: prefill_time_def)
next
  case False
  then have n: "192 \<le> n" "n < 384" by (simp_all add: not_less not_le)
  then have "n \<le> 383" by (simp add: word_le_nat_alt word_less_nat_alt)
  with n(1) have "192 \<le> f64_of n" "f64_of n \<le> 383" using f64_bounds[where n = n] by force+
  from parabola_min[OF this] have p: "0.00256 * f64_of n * f64_of n \<le> 1.25 * f64_of n - 103" .
  have l: "- 0.015 \<le> a6000_linear_time n" "- 0.0375 \<le> v100_linear_time n" "- 0.015 \<le> a800_linear_time n"
    using p n(1) leD[of 384 n] n(2) by (auto simp: a6000_linear_time_def v100_linear_time_def a800_linear_time_def Let_def
      pos_le_divide_eq)
  have a: "0 \<le> a6000_attention_time 1 context n" "0 \<le> v100_attention_time 1 context n"
    by (simp_all add: a6000_attention_time_def v100_attention_time_def Let_def)
  have "- 0.0375 \<le> base_prefill_time gpu n context"
    using l a by (cases gpu) (simp_all add: a800_attention_time_def)
  then show ?thesis using quad_nonneg[of gpu n] by (simp add: prefill_time_def)
qed

section \<open>Properties\<close>

text \<open>the prefill estimate of the cost model has the wrong sign exactly on one range: for a
  context of at most 1024 tokens, on every GPU, it is negative for 361 to 383 new tokens and positive
  otherwise.\<close>

theorem prefill_time_sign:
  assumes "context \<le> 1024"
  shows "(prefill_time gpu n context < 0 \<longleftrightarrow> 361 \<le> n \<and> n \<le> 383) \<and> prefill_time gpu n context \<noteq> 0"
proof (cases "n < 192 \<or> 384 \<le> n")
  case True
  from base_pos[OF this, of gpu "context"] quad_nonneg[of gpu n] have "0 < prefill_time gpu n context"
    by (simp add: prefill_time_def)
  moreover have "\<not> (361 \<le> n \<and> n \<le> 383)" using True by (auto simp: word_le_nat_alt word_less_nat_alt)
  ultimately show ?thesis by simp
next
  case False
  then have n: "192 \<le> n" "n < 384" by (simp_all add: not_less not_le)
  then have "n < 4096" "n \<le> 383" by (simp_all add: word_le_nat_alt word_less_nat_alt)
  from quad_below[OF this(1)] have e: "prefill_time gpu n context =
      gpu_scale gpu * (1.25 * f64_of n - 117.68 - 0.00256 * f64_of n * f64_of n) / 900"
    using base_short_context[OF n assms, of gpu] by (simp add: prefill_time_def)
  have g: "0 < gpu_scale gpu" by (simp add: gpu_scale_def)
  have b: "192 \<le> f64_of n" "f64_of n \<le> 383" using f64_bounds[where n = n] n \<open>n \<le> 383\<close> by force+
  show ?thesis
  proof (cases "361 \<le> n")
    case True
    then have "361 \<le> f64_of n" using f64_bounds(1)[where n = n] by force
    from parabola_neg[OF this] g have "prefill_time gpu n context < 0"
      by (simp add: e mult_pos_neg)
    with True \<open>n \<le> 383\<close> show ?thesis by simp
  next
    case False
    then have "n \<le> 360" by (simp add: word_le_nat_alt)
    then have "f64_of n \<le> 360" using f64_bounds(2)[where n = n] by force
    from parabola_pos[OF b(1) this] g have "0 < prefill_time gpu n context" by (simp add: e)
    with False show ?thesis by simp
  qed
qed

lemma prefill_time_sign_witness: "prefill_time default_gpu 370 500 < 0 \<and> 0 < prefill_time default_gpu 300 500"
  using prefill_time_sign [of 500 default_gpu 370] prefill_time_sign [of 500 default_gpu 300]
  by (auto simp: word_le_nat_alt linorder_neq_iff)

end
