(* ===== verification/PrebleBlockHash.thy ===== *)
theory PrebleBlockHash
  imports RadixMatcher SlidingWindow PrebleCost Policies
begin

text \<open>
  The three Preble flavours of the prefix matcher, \<^verbatim>\<open>policies/preble/block_hash.rs\<close>: the production
  radix tree plus one sliding window. Each flavour is an extension of the record that holds the
  tree, and the trait's methods, which all delegate to it, are stated once for all extensions. The
  clock \<^verbatim>\<open>Instant::now()\<close> is an argument; instants and durations count nanoseconds.
\<close>

section \<open>The trait methods\<close>

record preble_base =
  inner :: radix_tree

definition pb_len :: "'z preble_base_scheme \<Rightarrow> usize" where
  "pb_len p = rt_len (inner p)"

definition pb_is_empty :: "'z preble_base_scheme \<Rightarrow> bool" where
  "pb_is_empty p = rt_is_empty (inner p)"

definition pb_insert :: "'z preble_base_scheme \<Rightarrow> u64 list \<Rightarrow> u64 list \<Rightarrow> ('z preble_base_scheme \<times> nat) outcome" where
  "pb_insert p hs bids = obind (rt_insert (inner p) hs bids) (\<lambda>(t, n). Inr (p\<lparr>inner := t\<rparr>, n))"

definition pb_get :: "'z preble_base_scheme \<Rightarrow> u64 list \<Rightarrow> nat" where
  "pb_get p hs = rt_get (inner p) hs"

definition pb_remove :: "'z preble_base_scheme \<Rightarrow> u64 list \<Rightarrow> 'z preble_base_scheme outcome" where
  "pb_remove p bids = obind (rt_remove (inner p) bids) (\<lambda>t. Inr (p\<lparr>inner := t\<rparr>))"

definition pb_epoch :: "'z preble_base_scheme \<Rightarrow> u64" where
  "pb_epoch p = rt_epoch (inner p)"

definition secs :: "nat \<Rightarrow> nat" where
  "secs n = n * 10 ^ 9"

text \<open>The window length set on the command line, when it is set.\<close>

definition preble_window_duration :: "nat option \<Rightarrow> nat" where
  "preble_window_duration window_secs = secs (case window_secs of None \<Rightarrow> 180 | Some s \<Rightarrow> s)"

section \<open>Costs: \<^verbatim>\<open>PrebleBlockHash\<close>\<close>

record preble_block_hash = preble_base +
  window :: "(real, real) sliding_window"
  cost_model :: target_gpu

definition preble_new :: "nat option \<Rightarrow> nat \<Rightarrow> preble_block_hash" where
  "preble_new window_secs num_blocks =
     \<lparr>inner = rt_new num_blocks, window = sw_new (preble_window_duration window_secs) 0, cost_model = default_gpu\<rparr>"

definition time_per_token_s :: real where
  "time_per_token_s = 0.15"

definition default_decoding_length :: usize where
  "default_decoding_length = 45"

definition cost_contribution :: "target_gpu \<Rightarrow> usize \<Rightarrow> usize \<Rightarrow> usize \<Rightarrow> real" where
  "cost_contribution gpu num_tokens context_length decoding_length =
     (if num_tokens > 0 then prefill_time gpu num_tokens context_length else 0)
       + f64_of decoding_length * time_per_token_s"

definition update_with_cost :: "usize \<Rightarrow> usize \<Rightarrow> usize \<Rightarrow> nat \<Rightarrow> preble_block_hash \<Rightarrow> preble_block_hash" where
  "update_with_cost num_tokens context_length decoding_length now p =
     p\<lparr>window := sw_push sum_add now (cost_contribution (cost_model p) num_tokens context_length decoding_length) (window p)\<rparr>"

definition pb_load :: "nat \<Rightarrow> preble_block_hash \<Rightarrow> preble_block_hash \<times> usize" where
  "pb_load now p = (let (w, n) = len_at sum_sub now (window p) in (p\<lparr>window := w\<rparr>, of_nat n))"

definition pb_cost :: "nat \<Rightarrow> preble_block_hash \<Rightarrow> preble_block_hash \<times> real" where
  "pb_cost now p = (let (w, c) = aggregate_at sum_sub now (window p) in (p\<lparr>window := w\<rparr>, c))"

section \<open>Batch sizes: \<^verbatim>\<open>PrebleBsBlockHash\<close>\<close>

record preble_bs_block_hash = preble_base +
  bs_window :: "(real, real) sliding_window"

definition preble_bs_new :: "nat option \<Rightarrow> nat \<Rightarrow> preble_bs_block_hash" where
  "preble_bs_new window_secs num_blocks =
     \<lparr>inner = rt_new num_blocks, bs_window = sw_new (preble_window_duration window_secs) 0\<rparr>"

definition bs_update_with_step :: "usize \<Rightarrow> nat \<Rightarrow> preble_bs_block_hash \<Rightarrow> preble_bs_block_hash" where
  "bs_update_with_step b now p = p\<lparr>bs_window := sw_push sum_add now (f64_of b) (bs_window p)\<rparr>"

definition bs_sum :: "nat \<Rightarrow> preble_bs_block_hash \<Rightarrow> preble_bs_block_hash \<times> real" where
  "bs_sum now p = (let (w, c) = aggregate_at sum_sub now (bs_window p) in (p\<lparr>bs_window := w\<rparr>, c))"

section \<open>Forward steps: \<^verbatim>\<open>PrebleTpsBlockHash\<close>\<close>

record preble_tps_block_hash = preble_base +
  step_window :: "(unit, unit) sliding_window"
  last_busy_at :: "nat option"
  window_duration :: nat
  idle_tps :: real

definition preble_tps_new :: "nat option \<Rightarrow> real option \<Rightarrow> nat \<Rightarrow> preble_tps_block_hash" where
  "preble_tps_new window_secs rate num_blocks =
     (let d = preble_window_duration window_secs
      in \<lparr>inner = rt_new num_blocks, step_window = sw_new d (), last_busy_at = None, window_duration = d,
          idle_tps = (case rate of None \<Rightarrow> 120 | Some r \<Rightarrow> r)\<rparr>)"

definition tps_update_with_step :: "usize \<Rightarrow> nat \<Rightarrow> preble_tps_block_hash \<Rightarrow> preble_tps_block_hash" where
  "tps_update_with_step b now p =
     p\<lparr>step_window := sw_push count_add now () (step_window p), last_busy_at := Some now\<rparr>"

text \<open>
  The number of synthetic samples: \<^verbatim>\<open>as_secs_f32\<close>, then the saturating cast of a float. The loop
  counter and the divisor are truncated to 32 bits; dividing a duration by zero panics.
\<close>

definition idle_samples :: "real \<Rightarrow> nat \<Rightarrow> nat" where
  "idle_samples rate idle_dur = nat (as_u64 (rate * (real idle_dur / 10 ^ 9)))"

definition u32_of :: "nat \<Rightarrow> nat" where
  "u32_of n = n mod 2 ^ 32"

definition compensate_idle_gap :: "nat \<Rightarrow> preble_tps_block_hash \<Rightarrow> preble_tps_block_hash outcome" where
  "compensate_idle_gap now p =
     (case last_busy_at p of
        None \<Rightarrow> Inr p
      | Some last_at \<Rightarrow>
          (let idle_dur = min (now - last_at) (window_duration p);
               count = idle_samples (idle_tps p) idle_dur
           in if count > 0
              then if u32_of count = 0 then Inl ExpectFailed
                   else (let step = idle_dur div u32_of count;
                             start = now - idle_dur
                         in Inr (p\<lparr>step_window := foldl (\<lambda>w i. sw_push count_add (start + step * u32_of i) () w)
                                     (step_window p) [1..<count + 1]\<rparr>))
              else Inr p))"

definition tps_count :: "usize \<Rightarrow> nat \<Rightarrow> preble_tps_block_hash \<Rightarrow> preble_tps_block_hash \<times> usize option" where
  "tps_count b now p =
     (if b = 0 then (p, None)
      else let (w, n) = len_at count_sub now (step_window p) in (p\<lparr>step_window := w\<rparr>, Some (of_nat n)))"

section \<open>Every flavour is a prefix matcher\<close>

lemmas pb_defs = pb_insert_def pb_get_def pb_remove_def pb_epoch_def

text \<open>A flavour meets the contract of the tree it wraps, whatever its window holds.\<close>

lemma flavour_matcher:
  assumes "\<And>n. inner (new_flavour n) = rt_new n"
  shows "path_matcher new_flavour pb_insert pb_get pb_remove pb_epoch
    (\<lambda>p. rt_ok (inner p)) (\<lambda>p. rt_pairs (inner p)) (\<lambda>p. rt_capacity (inner p))"
proof
  fix n
  show "rt_ok (inner (new_flavour n))" "rt_pairs (inner (new_flavour n)) = {}" "rt_capacity (inner (new_flavour n)) = n"
    using assms rt.new_ok by simp_all
next
  fix p :: "'z preble_base_scheme" and hs bids
  assume "rt_ok (inner p)" "filable (rt_capacity (inner p)) (rt_pairs (inner p)) hs bids"
  from rt.ins_ok[OF this] obtain t where
    "rt_insert (inner p) hs bids = Inr (t, length hs - rt_get (inner p) hs)" "rt_ok t"
    "rt_pairs t = rt_pairs (inner p) \<union> rest_pairs [] hs bids" "rt_capacity t = rt_capacity (inner p)"
    "rt_epoch t = rt_epoch (inner p) + 1" by blast
  then show "\<exists>p'. pb_insert p hs bids = Inr (p', length hs - pb_get p hs) \<and> rt_ok (inner p') \<and>
      rt_pairs (inner p') = rt_pairs (inner p) \<union> rest_pairs [] hs bids \<and>
      rt_capacity (inner p') = rt_capacity (inner p) \<and> pb_epoch p' = pb_epoch p + 1"
    by (intro exI[of _ "p\<lparr>inner := t\<rparr>"]) (simp add: pb_defs)
next
  fix p :: "'z preble_base_scheme" and bids :: "u64 list"
  assume "rt_ok (inner p)" "\<forall>b\<in>set bids. unat b < rt_capacity (inner p)"
  from rt.rem_ok[OF this] obtain t where "rt_remove (inner p) bids = Inr t" "rt_ok t"
    "rt_pairs t = surv (set bids) (rt_pairs (inner p))" "rt_capacity t = rt_capacity (inner p)"
    "rt_epoch t = rt_epoch (inner p) + 1" by blast
  then show "\<exists>p'. pb_remove p bids = Inr p' \<and> rt_ok (inner p') \<and>
      rt_pairs (inner p') = surv (set bids) (rt_pairs (inner p)) \<and>
      rt_capacity (inner p') = rt_capacity (inner p) \<and> pb_epoch p' = pb_epoch p + 1"
    by (intro exI[of _ "p\<lparr>inner := t\<rparr>"]) (simp add: pb_defs)
next
  fix p :: "'z preble_base_scheme" and q
  assume "rt_ok (inner p)"
  from rt.get_ok[OF this, of q] show "pb_get p q \<le> length q \<and>
      (\<forall>i<length q. (\<exists>b. (take (Suc i) q, b) \<in> rt_pairs (inner p)) \<longleftrightarrow> i < pb_get p q)" by (simp add: pb_get_def)
next
  fix p :: "'z preble_base_scheme"
  assume "rt_ok (inner p)"
  then show "surv {} (rt_pairs (inner p)) = rt_pairs (inner p)" by (rule rt.closed)
qed

interpretation pq: path_matcher "preble_new secs_opt" pb_insert pb_get pb_remove pb_epoch
    "\<lambda>p. rt_ok (inner p)" "\<lambda>p. rt_pairs (inner p)" "\<lambda>p. rt_capacity (inner p)" for secs_opt
  by (rule flavour_matcher) (simp add: preble_new_def)

interpretation pbs: path_matcher "preble_bs_new secs_opt" pb_insert pb_get pb_remove pb_epoch
    "\<lambda>p. rt_ok (inner p)" "\<lambda>p. rt_pairs (inner p)" "\<lambda>p. rt_capacity (inner p)" for secs_opt
  by (rule flavour_matcher) (simp add: preble_bs_new_def)

interpretation ptps: path_matcher "preble_tps_new secs_opt rate" pb_insert pb_get pb_remove pb_epoch
    "\<lambda>p. rt_ok (inner p)" "\<lambda>p. rt_pairs (inner p)" "\<lambda>p. rt_capacity (inner p)" for secs_opt rate
  by (rule flavour_matcher) (simp add: preble_tps_new_def Let_def)

section \<open>The life of a replica's matcher\<close>

text \<open>What the event loop (tree operations) and the policy (the others) call, with their times.\<close>

datatype pq_op = Tree matcher_op | Update usize usize usize nat | Load nat | Cost nat

fun pq_step :: "pq_op \<Rightarrow> preble_block_hash \<Rightarrow> preble_block_hash outcome" where
  "pq_step (Tree (Insert hs bids)) p = obind (pb_insert p hs bids) (\<lambda>(p', n). Inr p')"
| "pq_step (Tree (Remove bids)) p = pb_remove p bids"
| "pq_step (Update n c d now) p = Inr (update_with_cost n c d now p)"
| "pq_step (Load now) p = Inr (fst (pb_load now p))"
| "pq_step (Cost now) p = Inr (fst (pb_cost now p))"

definition tree_ops :: "pq_op list \<Rightarrow> matcher_op list" where
  "tree_ops ops = concat (map (\<lambda>x. case x of Tree y \<Rightarrow> [y] | _ \<Rightarrow> []) ops)"

fun window_op :: "pq_op \<Rightarrow> real sw_op list" where
  "window_op (Update n c d now) = [Push now (cost_contribution default_gpu n c d)]"
| "window_op (Load now) = [Expire now]"
| "window_op (Cost now) = [Expire now]"
| "window_op (Tree x) = []"

definition window_ops :: "pq_op list \<Rightarrow> real sw_op list" where
  "window_ops ops = concat (map window_op ops)"

text \<open>The recent requests, as pairs of time and contribution.\<close>

definition recent :: "nat \<Rightarrow> nat \<Rightarrow> pq_op list \<Rightarrow> (nat \<times> real) list" where
  "recent d now ops = filter (\<lambda>e. now - fst e \<le> d) (pushed (window_ops ops))"

lemma sw_run_append: "sw_run add sub (xs @ ys) w = sw_run add sub ys (sw_run add sub xs w)"
  by (induction add sub xs w rule: sw_run.induct) simp_all

lemma pq_step_window:
  assumes "pq_step x p = Inr p'" "cost_model p = default_gpu"
  shows "window p' = sw_run sum_add sum_sub (window_op x) (window p) \<and> cost_model p' = default_gpu"
proof (cases x)
  case (Tree y)
  with assms show ?thesis by (cases y) (auto simp: pb_insert_def pb_remove_def obind_eq_Inr)
qed (use assms in \<open>auto simp: update_with_cost_def pb_load_def pb_cost_def len_at_def aggregate_at_def Let_def\<close>)

lemma pq_step_tree:
  assumes "rt_ok (inner p)" "\<And>y. x = Tree y \<Longrightarrow> op_allowed (rt_capacity (inner p)) (rt_pairs (inner p)) y"
  shows "\<exists>p'. pq_step x p = Inr p' \<and> rt_ok (inner p') \<and> rt_capacity (inner p') = rt_capacity (inner p) \<and>
    rt_pairs (inner p') = foldl (\<lambda>P y. spec_op y P) (rt_pairs (inner p)) (tree_ops [x])"
proof (cases x)
  case (Tree y)
  show ?thesis
  proof (cases y)
    case (Insert hs bids)
    with assms(2) Tree have "filable (rt_capacity (inner p)) (rt_pairs (inner p)) hs bids" by simp
    from pq.ins_ok[OF assms(1) this] Insert Tree show ?thesis by (auto simp: tree_ops_def)
  next
    case (Remove bids)
    with assms(2) Tree have "\<forall>b\<in>set bids. unat b < rt_capacity (inner p)" by simp
    from pq.rem_ok[OF assms(1) this] Remove Tree show ?thesis by (auto simp: tree_ops_def)
  qed
qed (use assms in \<open>auto simp: update_with_cost_def pb_load_def pb_cost_def Let_def tree_ops_def split_beta\<close>)

lemma tree_ops_Cons: "tree_ops (x # xs) = tree_ops [x] @ tree_ops xs"
  by (simp add: tree_ops_def)

lemma allowed_append: "allowed n P (xs @ ys) \<longleftrightarrow> allowed n P xs \<and> allowed n (foldl (\<lambda>P y. spec_op y P) P xs) ys"
  by (induction xs arbitrary: P) auto

lemma pq_run_ok:
  assumes "rt_ok (inner p)" "cost_model p = default_gpu" "allowed (rt_capacity (inner p)) (rt_pairs (inner p)) (tree_ops ops)"
  shows "\<exists>p'. fold_outcome pq_step ops p = Inr p' \<and> window p' = sw_run sum_add sum_sub (window_ops ops) (window p) \<and>
    rt_pairs (inner p') = foldl (\<lambda>P y. spec_op y P) (rt_pairs (inner p)) (tree_ops ops) \<and> rt_ok (inner p')"
  using assms
proof (induction ops arbitrary: p)
  case (Cons x ops)
  have al: "allowed (rt_capacity (inner p)) (rt_pairs (inner p)) (tree_ops [x])"
    "allowed (rt_capacity (inner p)) (foldl (\<lambda>P y. spec_op y P) (rt_pairs (inner p)) (tree_ops [x])) (tree_ops ops)"
    using Cons.prems(3) by (simp_all add: tree_ops_Cons[of x ops] allowed_append)
  have "op_allowed (rt_capacity (inner p)) (rt_pairs (inner p)) y" if "x = Tree y" for y
    using al(1) that by (simp add: tree_ops_def)
  from pq_step_tree[OF Cons.prems(1) this] obtain p1 where p1: "pq_step x p = Inr p1" "rt_ok (inner p1)"
    "rt_capacity (inner p1) = rt_capacity (inner p)"
    "rt_pairs (inner p1) = foldl (\<lambda>P y. spec_op y P) (rt_pairs (inner p)) (tree_ops [x])" by blast
  from pq_step_window[OF p1(1) Cons.prems(2)]
  have w: "window p1 = sw_run sum_add sum_sub (window_op x) (window p)" "cost_model p1 = default_gpu" by simp_all
  from Cons.IH[OF p1(2) w(2)] al(2) p1 w(1) show ?case
    by (auto simp: tree_ops_Cons[of x ops] window_ops_def sw_run_append)
qed (simp_all add: window_ops_def tree_ops_def)

lemma recent_read:
  assumes "sorted (map op_time (window_ops ops))" "\<forall>x\<in>set (window_ops ops). op_time x \<le> now"
    and "window p = sw_run sum_add sum_sub (window_ops ops) (sw_new d 0)"
  shows "snd (pb_load now p) = of_nat (length (recent d now ops)) \<and>
    snd (pb_cost now p) = sum_list (map snd (recent d now ops))"
proof -
  have e: "entries (sw_expire sum_sub now (window p)) = recent d now ops"
    using sw_run_read[OF assms(1,2), of sum_sub sum_add d 0] unfolding assms(3) recent_def fresh_def[abs_def] by simp
  have "agg (sw_expire sum_sub now (window p)) = foldl sum_add 0 (map snd (entries (sw_expire sum_sub now (window p))))"
    by (rule sum.expire_agg) (simp add: assms(3) sum_run_agg sw_new_def)
  with e show ?thesis
    by (simp add: pb_load_def pb_cost_def len_at_def aggregate_at_def sw_len_def Let_def foldl_sum_add del: sw_expire_simps)
qed

section \<open>Properties\<close>

text \<open>C38: a replica's Preble matcher does two jobs that do not disturb each other: over any
  history of tree operations of the event loop and calls of the policy at non-decreasing times, it
  never panics, its tree answers as the abstract matcher of the tree operations alone, its load is the
  number of requests routed to the replica within the window, and its cost is the sum of their
  contributions.\<close>

theorem preble_history:
  assumes "allowed n {} (tree_ops ops)"
    and "sorted (map op_time (window_ops ops))" "\<forall>x\<in>set (window_ops ops). op_time x \<le> now"
  shows "\<exists>p. fold_outcome pq_step ops (preble_new s n) = Inr p \<and>
    (\<forall>q. \<forall>i<length q. i < pb_get p q \<longleftrightarrow>
       (\<exists>b. (take (Suc i) q, b) \<in> foldl (\<lambda>P y. spec_op y P) {} (tree_ops ops))) \<and>
    snd (pb_load now p) = of_nat (length (recent (preble_window_duration s) now ops)) \<and>
    snd (pb_cost now p) = sum_list (map snd (recent (preble_window_duration s) now ops))"
proof -
  have "rt_pairs (inner (preble_new s n)) = {}" "rt_ok (inner (preble_new s n))" "rt_capacity (inner (preble_new s n)) = n"
    using pq.new_ok by simp_all
  with assms(1) pq_run_ok[of "preble_new s n" ops] obtain p where p: "fold_outcome pq_step ops (preble_new s n) = Inr p"
    "window p = sw_run sum_add sum_sub (window_ops ops) (sw_new (preble_window_duration s) 0)"
    "rt_pairs (inner p) = foldl (\<lambda>P y. spec_op y P) {} (tree_ops ops)" "rt_ok (inner p)"
    by (auto simp: preble_new_def)
  from recent_read[OF assms(2,3) p(2)] p(1,3) pq.get_ok[OF p(4)] show ?thesis by auto
qed

lemma preble_history_witness:
  "\<exists>p. fold_outcome pq_step
     [Tree (Insert [10, 20] [0, 1]), Update 0 32 2 (secs 1), Load (secs 2), Tree (Remove [0, 1]), Update 0 32 4 (secs 3)]
     (preble_new (Some 5) 4) = Inr p \<and> snd (pb_load (secs 7) p) = 1 \<and> snd (pb_cost (secs 7) p) = 0.6"
  using preble_history [of 4 "[Tree (Insert [10, 20] [0, 1]), Update 0 32 2 (secs 1), Load (secs 2),
    Tree (Remove [0, 1]), Update 0 32 4 (secs 3)]" "secs 7" "Some 5"]
  by (auto simp: tree_ops_def window_ops_def recent_def filable_def cost_contribution_def secs_def
      preble_window_duration_def time_per_token_s_def f64_of_def less_Suc_eq surv_def)

text \<open>every request admitted raises the cost of its replica, by more than 6.7 seconds when
  the default decoding length is charged: the negative prefill estimates never outweigh the decode
  term, so cost orders replicas by the work routed to them.\<close>

theorem cost_contribution_positive:
  "6.7 < cost_contribution gpu num_tokens context_length default_decoding_length"
  using prefill_time_lower[of gpu num_tokens context_length]
  by (simp add: cost_contribution_def default_decoding_length_def time_per_token_s_def f64_of_def)

end
