(* ===== verification/PrebleTps.thy ===== *)
theory PrebleTps
  imports PrebleBlockHash
begin

text \<open>
  The throughput flavour of the Preble matcher over time: the compensation of idle periods, and the
  histories of admissions (policy hook), turns (event loop) and readings that a replica goes through.
\<close>

section \<open>Compensation of idle periods\<close>

lemma push_samples:
  "entries (foldl (\<lambda>w i. sw_push count_add (f i) () w) w xs) = entries w @ map (\<lambda>i. (f i, ())) xs"
  "duration (foldl (\<lambda>w i. sw_push count_add (f i) () w) w xs) = duration w"
  by (induction xs arbitrary: w) (simp_all add: push_simps)

text \<open>The synthetic samples of an idle period of \<open>idle_dur\<close> ending at \<open>now\<close>.\<close>

definition synthetic :: "nat \<Rightarrow> nat \<Rightarrow> nat \<Rightarrow> (nat \<times> unit) list" where
  "synthetic now idle_dur cnt = map (\<lambda>i. (now - idle_dur + idle_dur div cnt * i, ())) [1..<cnt + 1]"

lemma synthetic_times:
  assumes "idle_dur \<le> now" "e \<in> set (synthetic now idle_dur cnt)"
  shows "now - idle_dur \<le> fst e \<and> fst e \<le> now"
proof -
  have "e \<in> (\<lambda>i. (now - idle_dur + idle_dur div cnt * i, ())) ` {1..<cnt + 1}"
    using assms(2) unfolding synthetic_def set_map set_upt .
  then obtain i where i: "i \<le> cnt" "fst e = now - idle_dur + idle_dur div cnt * i"
    using that by (elim imageE) (simp only: fst_conv atLeastLessThan_iff less_Suc_eq_le Suc_eq_plus1 [symmetric], blast)
  have "idle_dur div cnt * i \<le> idle_dur div cnt * cnt" using i(1) by simp
  also have "\<dots> \<le> idle_dur" by (rule div_times_less_eq_dividend)
  finally show ?thesis using i(2) assms(1) by linarith
qed

lemma synthetic_sorted: "sorted (map fst (synthetic now idle_dur cnt))"
  by (simp add: synthetic_def comp_def sorted_wrt_map sorted_wrt_mono_rel [OF _ sorted_upt] del: upt_Suc)

lemma length_synthetic [simp]: "length (synthetic now idle_dur cnt) = cnt"
  by (simp add: synthetic_def)

lemma u32_of_small [simp]: "n < 2 ^ 32 \<Longrightarrow> u32_of n = n"
  by (simp add: u32_of_def)

lemma compensate_busy:
  assumes "last_busy_at p = Some t" "idle_samples (idle_tps p) (min (now - t) (window_duration p)) < 2 ^ 32"
  shows "\<exists>p'. compensate_idle_gap now p = Inr p' \<and> last_busy_at p' = Some t \<and> window_duration p' = window_duration p \<and>
    idle_tps p' = idle_tps p \<and> inner p' = inner p \<and> duration (step_window p') = duration (step_window p) \<and>
    entries (step_window p') = entries (step_window p) @
      synthetic now (min (now - t) (window_duration p)) (idle_samples (idle_tps p) (min (now - t) (window_duration p)))"
proof -
  let ?d = "min (now - t) (window_duration p)"
  let ?c = "idle_samples (idle_tps p) ?d"
  have "map (\<lambda>i. (now - ?d + ?d div ?c * u32_of i, ())) [1..<?c + 1] = synthetic now ?d ?c"
    using assms(2) unfolding synthetic_def by (intro map_cong) auto
  then show ?thesis
    using assms by (auto simp: compensate_idle_gap_def Let_def push_samples synthetic_def simp del: upt_Suc)
qed

lemma as_u64_mono: "x \<le> y \<Longrightarrow> as_u64 x \<le> as_u64 y"
proof -
  assume le: "x \<le> y"
  have "trunc x \<le> max 0 (trunc y)"
    using le by (auto simp: trunc_def le_max_iff_disj floor_mono ceiling_le_iff)
  then show ?thesis by (auto simp: as_u64_def)
qed

lemma idle_samples_mono: "d \<le> d' \<Longrightarrow> idle_samples r d \<le> idle_samples r d'"
proof (cases "0 \<le> r")
  case True
  assume "d \<le> d'"
  with True have "r * (real d / 10 ^ 9) \<le> r * (real d' / 10 ^ 9)"
    by (intro mult_left_mono divide_right_mono) simp_all
  then show ?thesis unfolding idle_samples_def by (intro nat_mono as_u64_mono)
next
  case False
  then have "r * (real d / 10 ^ 9) \<le> 0" by (simp add: mult_nonpos_nonneg)
  from as_u64_mono[OF this] have "as_u64 (r * (real d / 10 ^ 9)) \<le> 0" by (simp add: as_u64_def trunc_def)
  then show ?thesis by (simp add: idle_samples_def)
qed

section \<open>The life of a replica under the throughput policy\<close>

text \<open>
  Admissions (the policy's hook, after the batch size was read), turns of the event loop (which report
  how many requests left) and readings by the policy, with the batch size of the replica.
\<close>

datatype tps_event = Admit nat | Turn nat usize | Read nat

fun tps_step :: "tps_event \<Rightarrow> usize \<times> preble_tps_block_hash \<Rightarrow> (usize \<times> preble_tps_block_hash) outcome" where
  "tps_step (Admit t) (b, p) = obind (if b = 0 then compensate_idle_gap t p else Inr p) (\<lambda>p'. Inr (b + 1, p'))"
| "tps_step (Turn t k) (b, p) = Inr (b - k, tps_update_with_step b t p)"
| "tps_step (Read t) (b, p) = Inr (b, fst (tps_count b t p))"

definition event_time :: "tps_event \<Rightarrow> nat" where
  "event_time x = (case x of Admit t \<Rightarrow> t | Turn t k \<Rightarrow> t | Read t \<Rightarrow> t)"

text \<open>No more requests leave than are running, and the batch size does not overflow.\<close>

fun counted :: "usize \<Rightarrow> tps_event list \<Rightarrow> bool" where
  "counted b [] \<longleftrightarrow> True"
| "counted b (Admit t # xs) \<longleftrightarrow> b + 1 \<noteq> 0 \<and> counted (b + 1) xs"
| "counted b (Turn t k # xs) \<longleftrightarrow> k \<le> b \<and> counted (b - k) xs"
| "counted b (Read t # xs) \<longleftrightarrow> counted b xs"

text \<open>The invariant: the window is in time order, and an idle replica has no sample later than its last
  busy moment, so a compensation appends in order.\<close>

definition tps_ok :: "nat \<Rightarrow> usize \<Rightarrow> preble_tps_block_hash \<Rightarrow> bool" where
  "tps_ok now b p \<longleftrightarrow> time_ordered (step_window p) \<and> (\<forall>e\<in>set (entries (step_window p)). fst e \<le> now) \<and>
     duration (step_window p) = window_duration p \<and> idle_samples (idle_tps p) (window_duration p) < 2 ^ 32 \<and>
     (case last_busy_at p of None \<Rightarrow> entries (step_window p) = []
      | Some t \<Rightarrow> t \<le> now \<and> (b = 0 \<longrightarrow> (\<forall>e\<in>set (entries (step_window p)). fst e \<le> t)))"

lemma tps_ok_later: "tps_ok t b p \<Longrightarrow> t \<le> now \<Longrightarrow> tps_ok now b p"
  by (fastforce simp: tps_ok_def split: option.splits)

lemma compensate_ok:
  assumes "tps_ok now 0 p"
  shows "\<exists>p'. compensate_idle_gap now p = Inr p' \<and> window_duration p' = window_duration p \<and>
    (b \<noteq> 0 \<longrightarrow> tps_ok now b p')"
proof (cases "last_busy_at p")
  case None
  with assms show ?thesis by (auto simp: compensate_idle_gap_def tps_ok_def)
next
  case (Some t)
  let ?d = "min (now - t) (window_duration p)"
  have "idle_samples (idle_tps p) ?d < 2 ^ 32"
    using assms idle_samples_mono[of ?d "window_duration p" "idle_tps p"] by (simp add: tps_ok_def)
  from compensate_busy[OF Some this] obtain p' where p': "compensate_idle_gap now p = Inr p'" "last_busy_at p' = Some t"
    "window_duration p' = window_duration p" "idle_tps p' = idle_tps p" "duration (step_window p') = duration (step_window p)"
    "entries (step_window p') = entries (step_window p) @ synthetic now ?d (idle_samples (idle_tps p) ?d)" by blast
  have t: "t \<le> now" "\<forall>e\<in>set (entries (step_window p)). fst e \<le> t" using assms Some by (auto simp: tps_ok_def)
  have s: "t \<le> fst e \<and> fst e \<le> now" if "e \<in> set (synthetic now ?d (idle_samples (idle_tps p) ?d))" for e
  proof -
    have "?d \<le> now" "t \<le> now - ?d" using t(1) by auto
    with synthetic_times[OF _ that] show ?thesis by linarith
  qed
  have "time_ordered (step_window p')"
    using assms t s synthetic_sorted unfolding time_ordered_def p'(6) map_append sorted_append
    by (fastforce simp: tps_ok_def time_ordered_def)
  moreover have "\<forall>e\<in>set (entries (step_window p')). fst e \<le> now"
    using t s unfolding p'(6) by (fastforce simp: tps_ok_def)
  ultimately show ?thesis using p' t assms by (auto simp: tps_ok_def)
qed

lemma tps_read_simps:
  "inner (fst (tps_count b t p)) = inner p" "last_busy_at (fst (tps_count b t p)) = last_busy_at p"
  "window_duration (fst (tps_count b t p)) = window_duration p" "idle_tps (fst (tps_count b t p)) = idle_tps p"
  "step_window (fst (tps_count b t p)) = (if b = 0 then step_window p else sw_expire count_sub t (step_window p))"
  by (simp_all add: tps_count_def len_at_def Let_def)

lemma tps_step_ok:
  assumes "tps_ok t b p" "t \<le> event_time x" "counted b (x # xs)"
  shows "\<exists>b' p'. tps_step x (b, p) = Inr (b', p') \<and> tps_ok (event_time x) b' p' \<and> counted b' xs \<and>
    window_duration p' = window_duration p"
proof (cases x)
  case (Admit t')
  with assms tps_ok_later have ok: "tps_ok t' b p" by (auto simp: event_time_def)
  show ?thesis
  proof (cases "b = 0")
    case True
    with ok compensate_ok[of t' p 1] Admit assms(3) show ?thesis by (auto simp: event_time_def)
  next
    case False
    have "tps_ok t' (b + 1) p" using ok Admit assms(3) by (auto simp: tps_ok_def split: option.splits)
    with False Admit assms(3) show ?thesis by (auto simp: event_time_def)
  qed
next
  case (Turn t' k)
  with assms tps_ok_later have "tps_ok t' b p" by (auto simp: event_time_def)
  then have "tps_ok t' (b - k) (tps_update_with_step b t' p)"
    by (auto simp: tps_ok_def tps_update_with_step_def push_simps time_ordered_push)
  with Turn assms(3) show ?thesis by (auto simp: event_time_def tps_update_with_step_def)
next
  case (Read t')
  with assms tps_ok_later have "tps_ok t' b p" by (auto simp: event_time_def)
  then have "tps_ok t' b (fst (tps_count b t' p))"
    by (auto simp: tps_ok_def tps_read_simps time_ordered_expire split: option.splits dest: set_dropWhileD)
  with Read assms(3) show ?thesis by (auto simp: event_time_def tps_read_simps)
qed

lemma tps_run_ok:
  assumes "tps_ok t b p" "counted b xs" "sorted (t # map event_time xs)" "\<forall>x\<in>set xs. event_time x \<le> now" "t \<le> now"
  shows "\<exists>b' p'. fold_outcome tps_step xs (b, p) = Inr (b', p') \<and> tps_ok now b' p' \<and> window_duration p' = window_duration p"
  using assms
proof (induction xs arbitrary: t b p)
  case Nil
  then show ?case using tps_ok_later by auto
next
  case (Cons x xs)
  from Cons.prems(3) have "t \<le> event_time x" by simp
  from tps_step_ok[OF Cons.prems(1) this Cons.prems(2)] obtain b' p' where
    "tps_step x (b, p) = Inr (b', p')" "tps_ok (event_time x) b' p'" "counted b' xs" "window_duration p' = window_duration p"
    by blast
  moreover from this Cons.IH[of "event_time x" b' p'] Cons.prems(3,4) show ?case by auto
qed

text \<open>compensation is exact: when a busy period ended at \<open>t\<close>, an admission at \<open>now\<close> credits the idle
  time, capped at the window, with the samples of the configured rate, all of them within the
  window and none earlier than \<open>t\<close>, and raises the count the policy reads by their number.\<close>

theorem tps_compensation:
  assumes "tps_ok now 0 p" "last_busy_at p = Some t" "b \<noteq> 0"
  shows "\<exists>p'. compensate_idle_gap now p = Inr p' \<and>
    snd (tps_count b now p') =
      Some (of_nat (length (filter (\<lambda>e. now - fst e \<le> window_duration p) (entries (step_window p))) +
                    idle_samples (idle_tps p) (min (now - t) (window_duration p))))"
proof -
  let ?d = "min (now - t) (window_duration p)"
  let ?c = "idle_samples (idle_tps p) ?d"
  have "?c < 2 ^ 32"
    using assms(1) idle_samples_mono[of ?d "window_duration p" "idle_tps p"] by (simp add: tps_ok_def)
  from compensate_busy[OF assms(2) this] obtain p' where p': "compensate_idle_gap now p = Inr p'"
    "duration (step_window p') = duration (step_window p)"
    "entries (step_window p') = entries (step_window p) @ synthetic now ?d ?c" by blast
  have "tps_ok now b p'" using compensate_ok[OF assms(1), of b] p'(1) assms(3) by auto
  then have "time_ordered (step_window p')" by (simp add: tps_ok_def)
  note l = window_len_at[OF this, of count_sub now]
  have "filter (\<lambda>e. now - fst e \<le> window_duration p) (synthetic now ?d ?c) = synthetic now ?d ?c"
  proof (rule filter_True, rule ballI)
    fix e assume "e \<in> set (synthetic now ?d ?c)"
    moreover have "?d \<le> now" by auto
    ultimately show "now - fst e \<le> window_duration p" using synthetic_times[of ?d now e ?c] by linarith
  qed
  moreover have "duration (step_window p) = window_duration p" using assms(1) by (simp add: tps_ok_def)
  ultimately show ?thesis using p' l assms(3) by (simp add: tps_count_def split_beta)
qed

lemma tps_compensation_witness:
  "\<exists>p'. compensate_idle_gap (secs 20) (tps_update_with_step 1 (secs 10) (preble_tps_new (Some 30) (Some 2) 4)) = Inr p' \<and>
    snd (tps_count 1 (secs 20) p') = Some 21"
proof -
  let ?p = "tps_update_with_step 1 (secs 10) (preble_tps_new (Some 30) (Some 2) 4)"
  have "tps_ok (secs 20) 0 ?p"
    by (simp add: tps_ok_def tps_update_with_step_def preble_tps_new_def sw_new_def sw_push_def time_ordered_def
        secs_def preble_window_duration_def idle_samples_def as_u64_def trunc_def Let_def)
  from tps_compensation [OF this, of "secs 10" 1] show ?thesis
    by (simp add: tps_update_with_step_def preble_tps_new_def sw_new_def sw_push_def secs_def
        preble_window_duration_def idle_samples_def as_u64_def trunc_def Let_def)
qed

text \<open>C40: the forward-step window of a replica stays sound under the interplay of policy and event
  loop: over any history of admissions, turns and readings at non-decreasing times, in which
  requests leave in turns only, nothing panics, synthetic and real samples stay in time order, and the
  count the policy reads is the number of samples within the window.\<close>

theorem tps_history:
  assumes "counted 0 evs" "sorted (map event_time evs)" "\<forall>x\<in>set evs. event_time x \<le> now"
    and "idle_samples (case r of None \<Rightarrow> 120 | Some r' \<Rightarrow> r') (preble_window_duration s) < 2 ^ 32"
  shows "\<exists>b p. fold_outcome tps_step evs (0, preble_tps_new s r n) = Inr (b, p) \<and>
    sorted (map fst (entries (step_window p))) \<and>
    (b \<noteq> 0 \<longrightarrow> snd (tps_count b now p) =
       Some (of_nat (length (filter (\<lambda>e. now - fst e \<le> preble_window_duration s) (entries (step_window p))))))"
proof -
  have "tps_ok 0 0 (preble_tps_new s r n)" "window_duration (preble_tps_new s r n) = preble_window_duration s"
    using assms(4) by (simp_all add: tps_ok_def preble_tps_new_def sw_new_def time_ordered_def Let_def)
  with tps_run_ok[of 0 0 "preble_tps_new s r n" evs now] assms(1-3) obtain b p where
    p: "fold_outcome tps_step evs (0, preble_tps_new s r n) = Inr (b, p)" "tps_ok now b p"
      "window_duration p = preble_window_duration s" by auto
  then have o: "time_ordered (step_window p)" "duration (step_window p) = preble_window_duration s" by (simp_all add: tps_ok_def)
  from window_len_at[OF o(1), of count_sub now] p o show ?thesis
    by (auto simp: time_ordered_def tps_count_def split_beta)
qed

lemma tps_history_witness:
  "\<exists>b p. fold_outcome tps_step [Admit 0, Turn 5 0, Read 6, Turn 8 1, Admit (secs 2)] (0, preble_tps_new (Some 3) (Some 1) 4) = Inr (b, p) \<and>
    sorted (map fst (entries (step_window p)))"
  using tps_history [of "[Admit 0, Turn 5 0, Read 6, Turn 8 1, Admit (secs 2)]" "secs 4" "Some 1" "Some 3" 4]
  by (auto simp: event_time_def secs_def preble_window_duration_def idle_samples_def as_u64_def trunc_def)

end
