(* ===== verification/Preble.thy ===== *)
theory Preble
  imports PrebleTps
begin

text \<open>
  The Preble policies, \<^verbatim>\<open>policies/preble/mod.rs\<close>, with the parts of \<^verbatim>\<open>policies/dsl_runtime.rs\<close> that are
  compiled for them: the extended snapshots, the score functions and the hooks that run after a
  decision. Reading a window expires it, so capturing a snapshot changes the scheduling context. The
  clock readings are arguments.
\<close>

section \<open>Snapshots\<close>

record q_observation = observation +
  ob_load :: usize
  ob_cost :: real

record bs_observation = observation +
  ob_bs_sum :: real

record tps_observation = observation +
  ob_tps_count :: "usize option"

definition capture_q :: "nat \<Rightarrow> entry \<Rightarrow> nat \<Rightarrow> preble_block_hash schedule_context \<Rightarrow>
    q_observation \<times> preble_block_hash schedule_context" where
  "capture_q now e i sctx =
     (let (b1, l) = pb_load now (sc_block_hash sctx);
          (b2, c) = pb_cost now b1
      in (observation.extend (capture_one pb_get pb_epoch e i sctx) (q_observation.fields l c),
          sctx\<lparr>sc_block_hash := b2\<rparr>))"

definition capture_bs :: "nat \<Rightarrow> entry \<Rightarrow> nat \<Rightarrow> preble_bs_block_hash schedule_context \<Rightarrow>
    bs_observation \<times> preble_bs_block_hash schedule_context" where
  "capture_bs now e i sctx =
     (let (b1, c) = bs_sum now (sc_block_hash sctx)
      in (observation.extend (capture_one pb_get pb_epoch e i sctx) (bs_observation.fields c),
          sctx\<lparr>sc_block_hash := b1\<rparr>))"

definition capture_tps :: "nat \<Rightarrow> entry \<Rightarrow> nat \<Rightarrow> preble_tps_block_hash schedule_context \<Rightarrow>
    tps_observation \<times> preble_tps_block_hash schedule_context" where
  "capture_tps now e i sctx =
     (let (b1, c) = tps_count (bs (sc_lmetric sctx)) now (sc_block_hash sctx)
      in (observation.extend (capture_one pb_get pb_epoch e i sctx) (tps_observation.fields c),
          sctx\<lparr>sc_block_hash := b1\<rparr>))"

text \<open>Every replica is captured once; \<open>cap i\<close> reads the clock of its own turn.\<close>

definition capture_all ::
    "(nat \<Rightarrow> 'b schedule_context \<Rightarrow> 'z observation_scheme \<times> 'b schedule_context) \<Rightarrow> 'b schedule_context list \<Rightarrow>
       'z observation_scheme list \<times> 'b schedule_context list" where
  "capture_all cap ss = (let rs = map (\<lambda>i. cap i (ss ! i)) [0..<length ss] in (map fst rs, map snd rs))"

section \<open>Score functions\<close>

definition preble_cost :: "q_observation \<Rightarrow> int" where
  "preble_cost o1 = as_i64 (ob_cost o1 * 1000)"

definition preble_load :: "q_observation \<Rightarrow> usize" where
  "preble_load o1 = ob_load o1"

definition preble_global_match_blocks :: "'z observation_scheme list \<Rightarrow> usize" where
  "preble_global_match_blocks obs = (case map ob_hit_blocks obs of [] \<Rightarrow> 0 | x # xs \<Rightarrow> foldl max x xs)"

definition preble_owned_match_blocks :: "'z observation_scheme \<Rightarrow> usize" where
  "preble_owned_match_blocks o1 = ob_hit_blocks o1"

definition preble_bs_sum :: "bs_observation \<Rightarrow> real" where
  "preble_bs_sum o1 = ob_bs_sum o1"

definition preble_tps_count :: "tps_observation \<Rightarrow> usize" where
  "preble_tps_count o1 = (case ob_tps_count o1 of None \<Rightarrow> - 1 | Some n \<Rightarrow> n)"

section \<open>The policies\<close>

text \<open>The ratio of the request that some replica caches; the product is of machine words.\<close>

definition match_ratio :: "entry \<Rightarrow> 'z observation_scheme list \<Rightarrow> real" where
  "match_ratio e obs =
     ureal (preble_global_match_blocks obs * of_nat (block_size (bhs e))) / ureal (max (req_len (request e)) 1)"

definition match_ratio_threshold :: "real option \<Rightarrow> real" where
  "match_ratio_threshold t = (case t of None \<Rightarrow> 0.5 | Some x \<Rightarrow> x)"

definition preble_q :: "real option \<Rightarrow> entry \<Rightarrow> q_observation list \<Rightarrow> nat option" where
  "preble_q t e obs =
     filter_then obs (\<lambda>_. match_ratio e obs > match_ratio_threshold t)
       (\<lambda>tt. select_max_by tt (\<lambda>o1. (preble_owned_match_blocks o1, sint (- preble_load o1))))
       (\<lambda>tt. select_min_by tt preble_cost)"

definition preble_bs_q :: "real option \<Rightarrow> entry \<Rightarrow> bs_observation list \<Rightarrow> nat option" where
  "preble_bs_q t e obs =
     filter_then obs (\<lambda>_. match_ratio e obs > match_ratio_threshold t)
       (\<lambda>tt. select_max_by tt (\<lambda>o1. (preble_owned_match_blocks o1, - preble_bs_sum o1)))
       (\<lambda>tt. select_min_by tt preble_bs_sum)"

definition preble_tps_q :: "real option \<Rightarrow> entry \<Rightarrow> tps_observation list \<Rightarrow> nat option" where
  "preble_tps_q t e obs =
     filter_then obs (\<lambda>_. match_ratio e obs > match_ratio_threshold t)
       (\<lambda>tt. select_max_by tt (\<lambda>o1. (preble_owned_match_blocks o1, preble_tps_count o1, sint (- ob_bs o1))))
       (\<lambda>tt. select_max_by tt (\<lambda>o1. (preble_tps_count o1, sint (- ob_bs o1))))"

section \<open>The hooks after a decision\<close>

definition sat_mul :: "usize \<Rightarrow> usize \<Rightarrow> usize" where
  "sat_mul a b = (if unat a * unat b \<ge> 2 ^ 64 then - 1 else a * b)"

definition preble_update_after :: "nat \<Rightarrow> entry \<Rightarrow> q_observation \<Rightarrow> preble_block_hash schedule_context list \<Rightarrow>
    preble_block_hash schedule_context list outcome" where
  "preble_update_after now e chosen ss =
     (if idx chosen < length ss
      then let sctx = ss ! idx chosen;
               context_length = req_len (request e);
               cached_tokens = min (sat_mul (ob_hit_blocks chosen) (ob_block_size chosen)) context_length;
               num_tokens = sat_sub context_length cached_tokens
           in Inr (ss[idx chosen := sctx\<lparr>sc_block_hash :=
                 update_with_cost num_tokens context_length default_decoding_length now (sc_block_hash sctx)\<rparr>])
      else Inl SliceOutOfRange)"

definition preble_bs_update_after :: "nat \<Rightarrow> entry \<Rightarrow> bs_observation \<Rightarrow> preble_bs_block_hash schedule_context list \<Rightarrow>
    preble_bs_block_hash schedule_context list outcome" where
  "preble_bs_update_after now e chosen ss =
     (if idx chosen < length ss
      then let sctx = ss ! idx chosen
           in Inr (ss[idx chosen := sctx\<lparr>sc_block_hash :=
                 bs_update_with_step (bs (sc_lmetric sctx)) now (sc_block_hash sctx)\<rparr>])
      else Inl SliceOutOfRange)"

definition preble_tps_compensate_idle :: "nat \<Rightarrow> entry \<Rightarrow> tps_observation \<Rightarrow>
    preble_tps_block_hash schedule_context list \<Rightarrow> preble_tps_block_hash schedule_context list outcome" where
  "preble_tps_compensate_idle now e chosen ss =
     (if ob_bs chosen = 0
      then if idx chosen < length ss
           then let sctx = ss ! idx chosen
                in obind (compensate_idle_gap now (sc_block_hash sctx)) (\<lambda>b.
                     Inr (ss[idx chosen := sctx\<lparr>sc_block_hash := b\<rparr>]))
           else Inl SliceOutOfRange
      else Inr ss)"

section \<open>The schedule function the macro emits\<close>

text \<open>
  As \<open>lowered\<close>, with snapshots that change the contexts and a hook that may panic; the hook sees the
  entry after the default mutation.
\<close>

definition lowered_with ::
    "(nat \<Rightarrow> 'b schedule_context \<Rightarrow> 'z observation_scheme \<times> 'b schedule_context) \<Rightarrow>
     ('b \<Rightarrow> u64 list \<Rightarrow> nat) \<Rightarrow> ('b \<Rightarrow> u64) \<Rightarrow> (entry \<Rightarrow> 'z observation_scheme list \<Rightarrow> nat option) \<Rightarrow>
     (entry \<Rightarrow> 'z observation_scheme \<Rightarrow> 'b schedule_context list \<Rightarrow> 'b schedule_context list outcome) \<Rightarrow>
     entry \<Rightarrow> 'b schedule_context list \<Rightarrow> (nat option \<times> entry \<times> 'b schedule_context list) outcome" where
  "lowered_with cap get epoch_of body after_extra e all_sctx =
     (let (observations, ss) = capture_all cap all_sctx
      in case body e observations of
           None \<Rightarrow> Inr (None, e, ss)
         | Some i \<Rightarrow>
             if i < length observations
             then obind (apply_default_after get epoch_of e (ss ! i) (observations ! i)) (\<lambda>(e', s').
                  obind (after_extra e' (observations ! i) (ss[i := s'])) (\<lambda>ss'.
                  Inr (Some i, e', ss')))
             else Inl SliceOutOfRange)"

definition preble_q_schedule where
  "preble_q_schedule t nows now e ss =
     lowered_with (\<lambda>i. capture_q (nows i) e i) pb_get pb_epoch (preble_q t) (preble_update_after now) e ss"

definition preble_bs_q_schedule where
  "preble_bs_q_schedule t nows now e ss =
     lowered_with (\<lambda>i. capture_bs (nows i) e i) pb_get pb_epoch (preble_bs_q t) (preble_bs_update_after now) e ss"

definition preble_tps_q_schedule where
  "preble_tps_q_schedule t nows now e ss =
     lowered_with (\<lambda>i. capture_tps (nows i) e i) pb_get pb_epoch (preble_tps_q t) (preble_tps_compensate_idle now) e ss"

section \<open>Every Preble policy selects\<close>

lemma filter_then_const:
  "filter_then obs (\<lambda>_. b) f g = (if b \<and> obs \<noteq> [] then f obs else g obs)"
  by (cases b) (simp_all add: filter_then_def comp_def)

lemma preble_q_selects: "selects (preble_q t e)"
  unfolding preble_q_def selects_def filter_then_const
  by (simp add: selectsD [OF selects_min] selectsD [OF selects_max])

lemma preble_bs_q_selects: "selects (preble_bs_q t e)"
  unfolding preble_bs_q_def selects_def filter_then_const
  by (simp add: selectsD [OF selects_min] selectsD [OF selects_max])

lemma preble_tps_q_selects: "selects (preble_tps_q t e)"
  unfolding preble_tps_q_def selects_def filter_then_const
  by (simp add: selectsD [OF selects_max])

section \<open>Captures\<close>

lemma capture_all_simps:
  "length (fst (capture_all cap ss)) = length ss" "length (snd (capture_all cap ss)) = length ss"
  "j < length ss \<Longrightarrow> fst (capture_all cap ss) ! j = fst (cap j (ss ! j))"
  "j < length ss \<Longrightarrow> snd (capture_all cap ss) ! j = snd (cap j (ss ! j))"
  by (simp_all add: capture_all_def Let_def)

lemma extend_simps [simp]:
  "idx (observation.extend o1 m) = idx o1" "ob_bs (observation.extend o1 m) = ob_bs o1"
  "ob_hit_blocks (observation.extend o1 m) = ob_hit_blocks o1" "ob_block_size (observation.extend o1 m) = ob_block_size o1"
  "ob_epoch (observation.extend o1 m) = ob_epoch o1" "ob_load (observation.extend o1 (q_observation.fields l c)) = l"
  "ob_cost (observation.extend o1 (q_observation.fields l c)) = c"
  "ob_bs_sum (observation.extend o1 (bs_observation.fields c)) = c"
  "ob_tps_count (observation.extend o1 (tps_observation.fields n)) = n"
  by (simp_all add: observation.extend_def q_observation.fields_def bs_observation.fields_def tps_observation.fields_def)

lemma capture_q_simps:
  "idx (fst (capture_q now e i s)) = i" "ob_hit_blocks (fst (capture_q now e i s)) = of_nat (pb_get (sc_block_hash s) (block_hashes (bhs e)))"
  "ob_block_size (fst (capture_q now e i s)) = of_nat (block_size (bhs e))"
  "sc_lmetric (snd (capture_q now e i s)) = sc_lmetric s"
  "sc_block_hash (snd (capture_q now e i s)) = fst (pb_cost now (fst (pb_load now (sc_block_hash s))))"
  by (simp_all add: capture_q_def split_beta Let_def capture_one_def)

lemma capture_tps_simps:
  "idx (fst (capture_tps now e i s)) = i" "ob_bs (fst (capture_tps now e i s)) = bs (sc_lmetric s)"
  "ob_tps_count (fst (capture_tps now e i s)) = snd (tps_count (bs (sc_lmetric s)) now (sc_block_hash s))"
  by (simp_all add: capture_tps_def split_beta Let_def capture_one_def)

section \<open>Properties\<close>

lemma sint_neg: "unat l < 2 ^ 63 \<Longrightarrow> sint (- l) = - uint (l :: 64 word)"
proof -
  assume "unat l < 2 ^ 63"
  then have "int (unat l) < int (2 ^ 63)" by (simp only: of_nat_less_iff)
  then have l: "uint l < 2 ^ 63" by simp
  have "- l = word_of_int (- uint l)" by simp
  then have "sint (- l) = signed_take_bit 63 (- uint l)" by (simp only: signed_of_int) simp
  also have "\<dots> = - uint l"
  proof (rule signed_take_bit_int_eq_self)
    show "- (2 ^ 63) \<le> - uint l" using l by simp
    have "- uint l \<le> 0" by simp
    also have "(0 :: int) < 2 ^ 63" by simp
    finally show "- uint l < 2 ^ 63" .
  qed
  finally show ?thesis .
qed
lemma of_nat_not_max: "l < 2 ^ 64 - 1 \<Longrightarrow> (of_nat l :: 64 word) \<noteq> - 1"
proof
  assume l: "l < 2 ^ 64 - 1" and "(of_nat l :: 64 word) = - 1"
  then have "unat (of_nat l :: 64 word) = 2 ^ 64 - 1" by (simp add: unsigned_minus_1_eq_mask mask_eq_exp_minus_1)
  with l show False by (simp add: unsigned_of_nat take_bit_nat_eq_self)
qed
text \<open>the cost-based Preble policy chooses as specified: when some replica caches more than the
  threshold ratio of the request, a replica with the longest match, and among those one with the
  fewest recent requests; otherwise a replica of least recent cost.\<close>

theorem preble_q_choice:
  assumes "obs \<noteq> []" "\<forall>o2\<in>set obs. unat (ob_load o2) < 2 ^ 63"
  shows "\<exists>o1\<in>set obs. preble_q t e obs = Some (idx o1) \<and>
    (if match_ratio e obs > match_ratio_threshold t
     then \<forall>o2\<in>set obs. ob_hit_blocks o2 \<le> ob_hit_blocks o1 \<and>
       (ob_hit_blocks o2 = ob_hit_blocks o1 \<longrightarrow> ob_load o1 \<le> ob_load o2)
     else \<forall>o2\<in>set obs. preble_cost o1 \<le> preble_cost o2)"
proof (cases "match_ratio e obs > match_ratio_threshold t")
  case True
  let ?f = "\<lambda>o1. (preble_owned_match_blocks o1, sint (- preble_load o1))"
  from selectsD[OF preble_q_selects assms(1), of t e] obtain i where "preble_q t e obs = Some i" by blast
  moreover from this True assms(1) have "select_max_by obs ?f = Some i" by (simp add: preble_q_def filter_then_const)
  then obtain o1 where o1: "o1 \<in> set obs" "idx o1 = i" "\<forall>o2\<in>set obs. ?f o2 \<le> ?f o1" by (elim select_max_by_Some)
  have "ob_hit_blocks o2 \<le> ob_hit_blocks o1 \<and> (ob_hit_blocks o2 = ob_hit_blocks o1 \<longrightarrow> ob_load o1 \<le> ob_load o2)"
    if "o2 \<in> set obs" for o2
  proof -
    have "?f o2 \<le> ?f o1" using o1(3) that by blast
    then have "ob_hit_blocks o2 < ob_hit_blocks o1 \<or> ob_hit_blocks o2 \<le> ob_hit_blocks o1 \<and> ob_load o1 \<le> ob_load o2"
      using assms(2) that o1(1)
      by (simp add: less_eq_prod_def preble_owned_match_blocks_def preble_load_def sint_neg word_le_def)
    then show ?thesis by auto
  qed
  ultimately show ?thesis using o1(1,2) True by auto
next
  case False
  from selectsD[OF preble_q_selects assms(1), of t e] obtain i where "preble_q t e obs = Some i" by blast
  moreover from this False have "select_min_by obs preble_cost = Some i" by (simp add: preble_q_def filter_then_const)
  then obtain o1 where "o1 \<in> set obs" "idx o1 = i" "\<forall>o2\<in>set obs. preble_cost o1 \<le> preble_cost o2"
    by (elim select_min_by_Some)
  ultimately show ?thesis using False by auto
qed

definition example_q_obs :: "nat \<Rightarrow> usize \<Rightarrow> usize \<Rightarrow> real \<Rightarrow> q_observation" where
  "example_q_obs i h l c = observation.extend (example_obs i 0 h) (q_observation.fields l c)"

lemma preble_q_choice_witness:
  "preble_q None (example_entry 1 [7]) [example_q_obs 0 0 3 9, example_q_obs 1 0 5 2] = Some 1"
proof -
  have l: "\<forall>o2\<in>set [example_q_obs 0 0 3 9, example_q_obs 1 0 5 2]. unat (ob_load o2) < 2 ^ 63"
    by (simp add: example_q_obs_def)
  have m: "\<not> match_ratio (example_entry 1 [7]) [example_q_obs 0 0 3 9, example_q_obs 1 0 5 2] > match_ratio_threshold None"
    by (simp add: match_ratio_def match_ratio_threshold_def preble_global_match_blocks_def example_q_obs_def
        example_obs_def ureal_def)
  from preble_q_choice [OF _ l, of None "example_entry 1 [7]"] m show ?thesis
    by (auto simp: example_q_obs_def example_obs_def preble_cost_def as_i64_def trunc_def)
qed

text \<open>C39: a decision of the cost-based policy is one event in the history of every replica's matcher:
  all of them are read, and exactly the chosen one, whose batch size grows by one, is charged for
  the tokens of the request it does not cache. Trees are not touched, and nothing panics.\<close>

theorem preble_schedule_history:
  assumes "ss \<noteq> []" "pred_hit_nblks (bhs e) = none_sentinel"
  shows "\<exists>i e' ss'. i < length ss \<and> preble_q_schedule t nows now e ss = Inr (Some i, e', ss') \<and>
    length ss' = length ss \<and> request e' = request e \<and>
    (\<forall>j<length ss.
       bs (sc_lmetric (ss' ! j)) = bs (sc_lmetric (ss ! j)) + (if j = i then 1 else 0) \<and>
       fold_outcome pq_step
         ([Load (nows j), Cost (nows j)] @
          (if j = i then [Update (sat_sub (req_len (request e))
             (min (sat_mul (of_nat (pb_get (sc_block_hash (ss ! i)) (block_hashes (bhs e)))) (of_nat (block_size (bhs e))))
                (req_len (request e)))) (req_len (request e)) 45 now] else []))
         (sc_block_hash (ss ! j)) = Inr (sc_block_hash (ss' ! j)))"
proof -
  let ?cap = "\<lambda>i. capture_q (nows i) e i"
  let ?obs = "fst (capture_all ?cap ss)" and ?ss = "snd (capture_all ?cap ss)"
  have "?obs \<noteq> []" using assms(1) capture_all_simps(1)[of ?cap ss] by (metis length_0_conv)
  from selectsD[OF preble_q_selects this] obtain o1 where o1: "o1 \<in> set ?obs" "preble_q t e ?obs = Some (idx o1)" by blast
  then obtain i where i: "i < length ss" "o1 = ?obs ! i" by (auto simp: in_set_conv_nth capture_all_simps)
  then have ix: "idx o1 = i" by (simp add: capture_all_simps capture_q_simps)
  obtain e' s' where a: "apply_default_after pb_get pb_epoch e (?ss ! i) (?obs ! i) = Inr (e', s')"
    "request e' = request e" "sc_block_hash s' = sc_block_hash (?ss ! i)"
    "bs (sc_lmetric s') = bs (sc_lmetric (?ss ! i)) + 1"
    by (rule apply_default_after_ok [OF assms(2)])
  define n where "n = sat_sub (req_len (request e))
    (min (sat_mul (of_nat (pb_get (sc_block_hash (ss ! i)) (block_hashes (bhs e)))) (of_nat (block_size (bhs e)))) (req_len (request e)))"
  define ss' where "ss' = ?ss[i := s'\<lparr>sc_block_hash := update_with_cost n (req_len (request e)) 45 now (sc_block_hash s')\<rparr>]"
  have "preble_update_after now e' o1 (?ss[i := s']) = Inr ss'"
    using i ix a(2) by (simp add: preble_update_after_def Let_def ss'_def n_def capture_all_simps capture_q_simps default_decoding_length_def)
  with o1(2) i a(1) ix have "preble_q_schedule t nows now e ss = Inr (Some i, e', ss')"
    by (simp add: preble_q_schedule_def lowered_with_def split_beta capture_all_simps)
  moreover have "bs (sc_lmetric (ss' ! j)) = bs (sc_lmetric (ss ! j)) + (if j = i then 1 else 0) \<and>
      fold_outcome pq_step ([Load (nows j), Cost (nows j)] @ (if j = i then [Update n (req_len (request e)) 45 now] else []))
         (sc_block_hash (ss ! j)) = Inr (sc_block_hash (ss' ! j))" if "j < length ss" for j
    using that i(1) a(3,4) by (cases "j = i") (simp_all add: ss'_def capture_all_simps capture_q_simps)
  moreover have "length ss' = length ss" by (simp add: ss'_def capture_all_simps)
  ultimately show ?thesis using i(1) a(2) unfolding n_def by blast
qed

lemma preble_schedule_history_witness:
  "\<exists>i e' ss'. i < 2 \<and> preble_q_schedule None (\<lambda>_. 0) 1 (example_entry 1 [7])
     (replicate 2 \<lparr>sc_lmetric = lmetric_default, sc_block_hash = preble_new None 4\<rparr>) = Inr (Some i, e', ss')"
  using preble_schedule_history [of "replicate 2 \<lparr>sc_lmetric = lmetric_default, sc_block_hash = preble_new None 4\<rparr>"
    "example_entry 1 [7]" None "\<lambda>_. 0" 1]
  by (auto simp: example_entry_def)

text \<open>an idle replica wins under the throughput policy: when no replica caches enough of the
  request, some replica is idle, and no window is absurdly long, the chosen replica is idle.\<close>

theorem preble_tps_idle_first:
  assumes "j < length ss" "bs (sc_lmetric (ss ! j)) = 0"
    and "\<forall>s\<in>set ss. length (entries (step_window (sc_block_hash s))) < 2 ^ 64 - 1"
    and "match_ratio e (fst (capture_all (\<lambda>i. capture_tps (nows i) e i) ss)) \<le> match_ratio_threshold t"
  shows "\<exists>i<length ss. preble_tps_q t e (fst (capture_all (\<lambda>i. capture_tps (nows i) e i) ss)) = Some i \<and>
    bs (sc_lmetric (ss ! i)) = 0"
proof -
  let ?cap = "\<lambda>i. capture_tps (nows i) e i"
  let ?obs = "fst (capture_all ?cap ss)"
  let ?f = "\<lambda>o1. (preble_tps_count o1, sint (- ob_bs o1))"
  have "?obs \<noteq> []" using assms(1) capture_all_simps(1)[of ?cap ss] by (metis length_0_conv less_nat_zero_code)
  from selectsD[OF preble_tps_q_selects this] obtain k where k: "preble_tps_q t e ?obs = Some k" by blast
  moreover from k assms(4) have "select_max_by ?obs ?f = Some k" by (simp add: preble_tps_q_def filter_then_const)
  then obtain o1 where o1: "o1 \<in> set ?obs" "idx o1 = k" "\<forall>o2\<in>set ?obs. ?f o2 \<le> ?f o1" by (elim select_max_by_Some)
  then obtain i where i: "i < length ss" "o1 = fst (capture_tps (nows i) e i (ss ! i))"
    by (auto simp: in_set_conv_nth capture_all_simps)
  have "fst (capture_tps (nows j) e j (ss ! j)) \<in> set ?obs"
    using assms(1) nth_mem[of j ?obs] by (simp add: capture_all_simps)
  with o1(3) have "?f (fst (capture_tps (nows j) e j (ss ! j))) \<le> ?f o1" by blast
  then have "preble_tps_count o1 = - 1"
    using assms(2) by (auto simp: less_eq_prod_def preble_tps_count_def capture_tps_simps tps_count_def
        word_order.extremum_unique split: option.splits)
  moreover have "preble_tps_count o1 \<noteq> - 1" if b: "bs (sc_lmetric (ss ! i)) \<noteq> 0"
  proof -
    let ?l = "length (dropWhile (\<lambda>x. \<not> fresh (duration (step_window (sc_block_hash (ss ! i)))) (nows i) x)
      (entries (step_window (sc_block_hash (ss ! i)))))"
    have "?l < 2 ^ 64 - 1" using assms(3) i(1) length_dropWhile_le by (meson le_less_trans nth_mem)
    then have "(of_nat ?l :: usize) \<noteq> - 1" by (rule of_nat_not_max)
    then show ?thesis
      using b by (simp add: i(2) preble_tps_count_def capture_tps_simps tps_count_def len_at_def sw_len_def Let_def)
  qed
  ultimately show ?thesis using i o1(2) by (auto simp: capture_tps_simps)
qed

end
