(* ===== verification/PolicyContracts.thy ===== *)
theory PolicyContracts
  imports FleetRuns Preble
begin

text \<open>
  The policies that are not bodies of \<open>lowered\<close> meet the contract of the queue task as well: the Preble
  policies, whose snapshots and hooks change the scheduling contexts, the hand-written \<^verbatim>\<open>LeastTtftQ\<close>
  (\<^verbatim>\<open>policies/least_ttft.rs\<close>) and round robin with its cursor. What such a policy reads from outside at
  its decisions (clocks, answers of the simulator) is a stream, and the global context counts the decisions.
  Every lemma of \<open>scheduler\<close> and \<open>total_scheduler\<close>, those about the whole router among them, holds for them by
  interpretation; the throughput policy of Preble agrees with such a policy on contexts that are \<open>rate_ok\<close>. The
  theory ends with the two properties of every policy of the repository.
\<close>

section \<open>What a decision does\<close>

text \<open>
  The request goes to replica \<open>i\<close> and is counted in its load; the entry keeps its request and its response
  channel, and the load of every other replica is as before.
\<close>

definition counted_on :: "entry \<Rightarrow> 'b schedule_context list \<Rightarrow> nat \<Rightarrow> entry \<Rightarrow> 'b schedule_context list \<Rightarrow> bool" where
  "counted_on e ss i e' ss' \<longleftrightarrow> i < length ss \<and> length ss' = length ss \<and> request e' = request e \<and> response_tx e' = response_tx e \<and>
     bs (sc_lmetric (ss' ! i)) = bs (sc_lmetric (ss ! i)) + 1 \<and>
     waiting_reqs (sc_lmetric (ss' ! i)) = waiting_reqs (sc_lmetric (ss ! i)) + 1 \<and>
     all_tokens (sc_lmetric (ss' ! i)) = all_tokens (sc_lmetric (ss ! i)) + req_len (request e) \<and>
     (\<forall>j<length ss. j \<noteq> i \<longrightarrow> sc_lmetric (ss' ! j) = sc_lmetric (ss ! j))"

text \<open>What the queue task needs of it.\<close>

lemma counted_onD: "counted_on e ss i e' ss' \<Longrightarrow> i < length ss \<and> length ss' = length ss \<and> request e' = request e"
  by (simp add: counted_on_def)

lemma map_update_same: "f x = f (xs ! i) \<Longrightarrow> map f (xs[i := x]) = map f xs"
  by (metis list_update_id map_update)

lemma lowered_counted:
  assumes "total_policy body" "ss \<noteq> []" "fresh e"
  shows "\<exists>i e' ss'. lowered get epoch_of body after_extra e ss g =
      Inr (Some i, e', ss', after_extra (capture_observations get epoch_of e ss) g) \<and>
    counted_on e ss i e' ss' \<and> map sc_block_hash ss' = map sc_block_hash ss \<and>
    body (request e) (capture_observations get epoch_of e ss) g = Some i"
proof -
  let ?obs = "capture_observations get epoch_of e ss"
  obtain i where i: "i < length ss" "body (request e) ?obs g = Some i"
    using total_policy.chosen_in_range[OF assms(1,2)] by blast
  have "pred_hit_nblks (bhs e) = none_sentinel" using assms(3) by (simp add: fresh_def)
  then obtain e' s' where a: "apply_default_after get epoch_of e (ss ! i) (?obs ! i) = Inr (e', s')"
    "request e' = request e" "response_tx e' = response_tx e" "sc_block_hash s' = sc_block_hash (ss ! i)"
    "bs (sc_lmetric s') = bs (sc_lmetric (ss ! i)) + 1" "waiting_reqs (sc_lmetric s') = waiting_reqs (sc_lmetric (ss ! i)) + 1"
    "all_tokens (sc_lmetric s') = all_tokens (sc_lmetric (ss ! i)) + req_len (request e)" by (rule apply_default_after_ok)
  have "lowered get epoch_of body after_extra e ss g = Inr (Some i, e', ss[i := s'], after_extra ?obs g)"
    using i a(1) by (simp add: lowered_def)
  moreover have "counted_on e ss i e' (ss[i := s'])" using i(1) a by (simp add: counted_on_def)
  moreover have "map sc_block_hash (ss[i := s']) = map sc_block_hash ss"
    using a(4) by (rule map_update_same)
  ultimately show ?thesis using i(2) by blast
qed

section \<open>Policies with snapshots that change the contexts\<close>

lemma lowered_with_counted:
  assumes "ss \<noteq> []" "fresh e" "selects (body e)" "\<And>i s. idx (fst (cap i s)) = i"
    and "\<And>i s. sc_lmetric (snd (cap i s)) = sc_lmetric s"
    and "\<And>e' o1 ss1. idx o1 < length ss \<Longrightarrow> length ss1 = length ss \<Longrightarrow> (\<forall>s\<in>set ss1. ok s) \<Longrightarrow>
      \<exists>ss2. after_extra e' o1 ss1 = Inr ss2 \<and> map sc_lmetric ss2 = map sc_lmetric ss1"
    and "\<forall>s\<in>set ss. ok s" "\<And>i s. ok s \<Longrightarrow> ok (snd (cap i s))"
    and "\<And>s s'. sc_block_hash s = sc_block_hash s' \<Longrightarrow> ok s = ok s'"
  shows "\<exists>i e' ss'. lowered_with cap get epoch_of body after_extra e ss = Inr (Some i, e', ss') \<and> counted_on e ss i e' ss'"
proof -
  let ?obs = "fst (capture_all cap ss)" and ?ss = "snd (capture_all cap ss)"
  have "?obs \<noteq> []" using assms(1) capture_all_simps(1)[of cap ss] by (metis length_0_conv)
  from selectsD[OF assms(3) this] obtain o1 where o1: "o1 \<in> set ?obs" "body e ?obs = Some (idx o1)" by blast
  then obtain i where i: "i < length ss" "o1 = ?obs ! i" by (auto simp: in_set_conv_nth capture_all_simps)
  then have ix: "idx o1 = i" using assms(4) by (simp add: capture_all_simps)
  have "pred_hit_nblks (bhs e) = none_sentinel" using assms(2) by (simp add: fresh_def)
  then obtain e' s' where a: "apply_default_after get epoch_of e (?ss ! i) (?obs ! i) = Inr (e', s')"
    "request e' = request e" "response_tx e' = response_tx e" "sc_block_hash s' = sc_block_hash (?ss ! i)"
    "bs (sc_lmetric s') = bs (sc_lmetric (?ss ! i)) + 1"
    "waiting_reqs (sc_lmetric s') = waiting_reqs (sc_lmetric (?ss ! i)) + 1"
    "all_tokens (sc_lmetric s') = all_tokens (sc_lmetric (?ss ! i)) + req_len (request e)" by (rule apply_default_after_ok)
  have "ok (?ss ! j)" if "j < length ss" for j using assms(7,8) that by (simp add: capture_all_simps)
  then have "\<forall>s\<in>set ?ss. ok s" "ok s'" using assms(9)[OF a(4)] i(1) by (auto simp: in_set_conv_nth capture_all_simps)
  then have "\<forall>s\<in>set (?ss[i := s']). ok s" using set_update_subset_insert[of ?ss i s'] by auto
  then obtain ss2 where ss2: "after_extra e' o1 (?ss[i := s']) = Inr ss2" "map sc_lmetric ss2 = map sc_lmetric (?ss[i := s'])"
    using assms(6)[of o1 "?ss[i := s']"] i(1) ix by (auto simp: capture_all_simps)
  have len: "length ss2 = length ss" using arg_cong[OF ss2(2), of length] by (simp add: capture_all_simps)
  have m: "sc_lmetric (ss2 ! j) = sc_lmetric (?ss[i := s'] ! j)" if "j < length ss" for j
    using arg_cong[OF ss2(2), of "\<lambda>xs. xs ! j"] that len by (simp add: capture_all_simps)
  have "counted_on e ss i e' ss2"
    using i(1) a len m assms(5) by (simp add: counted_on_def capture_all_simps nth_list_update)
  moreover have "lowered_with cap get epoch_of body after_extra e ss = Inr (Some i, e', ss2)"
    using o1(2) i a(1) ix ss2(1) by (simp add: lowered_with_def split_beta capture_all_simps)
  ultimately show ?thesis by blast
qed

text \<open>A decision with the readings of the clock it makes: one for every snapshot, and one for the hook.\<close>

definition at_decision ::
    "((nat \<Rightarrow> nat) \<Rightarrow> nat \<Rightarrow> entry \<Rightarrow> 'b schedule_context list \<Rightarrow> (nat option \<times> entry \<times> 'b schedule_context list) outcome) \<Rightarrow>
     (nat \<Rightarrow> nat \<Rightarrow> nat) \<Rightarrow> ('b, nat) schedule_fn" where
  "at_decision schedule clock e ss n =
     map_sum id (\<lambda>(c, e', ss'). (c, e', ss', n + 1)) (schedule (clock n) (clock n (length ss)) e ss)"

text \<open>The contract from a decision that always succeeds.\<close>

lemma total_schedulerI:
  assumes "\<And>ss e g. ss \<noteq> [] \<Longrightarrow> fresh e \<Longrightarrow> \<exists>i e' ss' g'. i < length ss \<and> sched e ss g = Inr (Some i, e', ss', g') \<and>
    length ss' = length ss \<and> request e' = request e"
  shows "total_scheduler sched"
proof unfold_locales
  fix ss :: "'a schedule_context list" and e :: entry and g :: 'b
  assume ne: "ss \<noteq> []" "fresh e"
  then show "\<exists>c e' ss' g'. sched e ss g = Inr (c, e', ss', g') \<and> request e' = request e \<and> length ss' = length ss \<and>
      (case c of None \<Rightarrow> fresh e' | Some i \<Rightarrow> i < length ss)"
    using assms[of ss e g] by fastforce
  fix c e' ss' g'
  assume "sched e ss g = Inr (c, e', ss', g')"
  with assms[OF ne, of g] show "c \<noteq> None" by auto
qed

lemma at_decision_scheduler:
  assumes "\<And>nows now e ss. ss \<noteq> [] \<Longrightarrow> fresh e \<Longrightarrow> \<exists>i e' ss'. schedule nows now e ss = Inr (Some i, e', ss') \<and> counted_on e ss i e' ss'"
  shows "total_scheduler (at_decision schedule clock)"
proof (rule total_schedulerI)
  fix ss :: "'a schedule_context list" and e n
  assume "ss \<noteq> []" "fresh e"
  from assms[OF this, of "clock n" "clock n (length ss)"]
  show "\<exists>i e' ss' g'. i < length ss \<and> at_decision schedule clock e ss n = Inr (Some i, e', ss', g') \<and>
      length ss' = length ss \<and> request e' = request e"
    by (auto simp: at_decision_def dest: counted_onD)
qed

section \<open>The Preble policies\<close>

lemma preble_q_counted:
  assumes "ss \<noteq> []" "fresh e"
  shows "\<exists>i e' ss'. preble_q_schedule t nows now e ss = Inr (Some i, e', ss') \<and> counted_on e ss i e' ss'"
  unfolding preble_q_schedule_def
  by (rule lowered_with_counted[where ok = "\<lambda>_. True", OF assms preble_q_selects])
    (simp_all add: capture_q_simps preble_update_after_def Let_def map_update_same)

lemma preble_bs_q_counted:
  assumes "ss \<noteq> []" "fresh e"
  shows "\<exists>i e' ss'. preble_bs_q_schedule t nows now e ss = Inr (Some i, e', ss') \<and> counted_on e ss i e' ss'"
  unfolding preble_bs_q_schedule_def
  by (rule lowered_with_counted[where ok = "\<lambda>_. True", OF assms preble_bs_q_selects])
    (simp_all add: capture_bs_def split_beta capture_one_def preble_bs_update_after_def Let_def map_update_same)

text \<open>
  The throughput policy divides the idle gap by the number of samples as a 32-bit word; it keeps the contract
  as long as the configured rate stays below \<open>2 ^ 32\<close> samples in a window.
\<close>

definition rate_ok :: "preble_tps_block_hash schedule_context \<Rightarrow> bool" where
  "rate_ok s \<longleftrightarrow> idle_samples (idle_tps (sc_block_hash s)) (window_duration (sc_block_hash s)) < 2 ^ 32"

lemma compensate_returns:
  assumes "idle_samples (idle_tps p) (window_duration p) < 2 ^ 32"
  shows "\<exists>p'. compensate_idle_gap now p = Inr p'"
proof (cases "last_busy_at p")
  case (Some t)
  have "idle_samples (idle_tps p) (min (now - t) (window_duration p)) < 2 ^ 32"
    using idle_samples_mono[of "min (now - t) (window_duration p)" "window_duration p" "idle_tps p"] assms by linarith
  with compensate_busy[OF Some] show ?thesis by blast
qed (simp add: compensate_idle_gap_def)

lemma preble_tps_q_counted:
  assumes "ss \<noteq> []" "fresh e" "\<forall>s\<in>set ss. rate_ok s"
  shows "\<exists>i e' ss'. preble_tps_q_schedule t nows now e ss = Inr (Some i, e', ss') \<and> counted_on e ss i e' ss'"
  unfolding preble_tps_q_schedule_def
proof (rule lowered_with_counted[where ok = rate_ok, OF assms(1,2) preble_tps_q_selects _ _ _ assms(3)])
  fix e' and o1 :: tps_observation and ss1
  assume a: "idx o1 < length ss" "length ss1 = length ss" "\<forall>s\<in>set ss1. rate_ok s"
  then have "rate_ok (ss1 ! idx o1)" by simp
  then obtain p' where "compensate_idle_gap now (sc_block_hash (ss1 ! idx o1)) = Inr p'"
    using compensate_returns unfolding rate_ok_def by blast
  with a show "\<exists>ss2. preble_tps_compensate_idle now e' o1 ss1 = Inr ss2 \<and> map sc_lmetric ss2 = map sc_lmetric ss1"
    by (simp add: preble_tps_compensate_idle_def Let_def map_update_same)
qed (simp_all add: capture_one_def rate_ok_def capture_tps_def tps_count_def split_beta Let_def)

interpretation cost_based: total_scheduler "at_decision (preble_q_schedule t) clock" for t clock
  by (rule at_decision_scheduler[OF preble_q_counted])

interpretation bs_based: total_scheduler "at_decision (preble_bs_q_schedule t) clock" for t clock
  by (rule at_decision_scheduler[OF preble_bs_q_counted])

text \<open>For instance, with the cost-based policy the whole router conserves requests, whatever its clocks read.\<close>

lemmas preble_fleet_conserves = cost_based.fleet_conserves bs_based.fleet_conserves

section \<open>Least time to first token\<close>

text \<open>The simulator's answers at the \<open>n\<close>-th decision are \<open>answers n\<close>.\<close>

definition ttft_decision ::
    "('b \<Rightarrow> u64 list \<Rightarrow> nat) \<Rightarrow> ('b \<Rightarrow> u64) \<Rightarrow> (nat \<Rightarrow> nat \<Rightarrow> nat \<Rightarrow> real option) \<Rightarrow> ('b, nat) schedule_fn" where
  "ttft_decision get epoch_of answers e ss n =
     map_sum id (\<lambda>(c, e', ss', u). (c, e', ss', n + 1)) (least_ttft_schedule get epoch_of (answers n) e ss)"

lemma best_ttft_in:
  "best_ttft ttft ihs best = Some (i, t) \<Longrightarrow> best = Some (i, t) \<or> i \<in> fst ` set ihs"
  by (induction ttft ihs best rule: best_ttft.induct) (fastforce split: option.splits if_splits)+

lemma least_ttft_counted:
  assumes "ss \<noteq> []" "fresh e"
  shows "\<exists>i e' ss'. least_ttft_schedule get epoch_of ttft e ss = Inr (Some i, e', ss', ()) \<and>
    counted_on e ss i e' ss' \<and> map sc_block_hash ss' = map sc_block_hash ss"
proof -
  let ?hits = "map (\<lambda>i. (i, get (sc_block_hash (ss ! i)) (block_hashes (bhs e)))) [0..<length ss]"
  let ?i = "case best_ttft ttft ?hits None of Some (i, _) \<Rightarrow> i | None \<Rightarrow> 0"
  have i: "?i < length ss"
  proof (cases "best_ttft ttft ?hits None")
    case (Some it)
    then have "fst it \<in> fst ` set ?hits" using best_ttft_in[of ttft ?hits None "fst it" "snd it"] by simp
    then have "fst it < length ss" by auto
    with Some show ?thesis by (simp add: split_beta)
  qed (use assms(1) in simp)
  define k where "k = ?i"
  obtain e' s' where s: "least_ttft_schedule get epoch_of ttft e ss = Inr (Some k, e', ss[k := s'], ())"
    "request e' = request e" "response_tx e' = response_tx e" "sc_block_hash s' = sc_block_hash (ss ! k)"
    "bs (sc_lmetric s') = bs (sc_lmetric (ss ! k)) + 1" "waiting_reqs (sc_lmetric s') = waiting_reqs (sc_lmetric (ss ! k)) + 1"
    "all_tokens (sc_lmetric s') = all_tokens (sc_lmetric (ss ! k)) + req_len (request e)"
    using assms unfolding k_def
    by (auto simp: least_ttft_schedule_def Let_def fresh_def set_pred_block_hits_def set_decision_epoch_def lmetric_add_def)
  have "counted_on e ss k e' (ss[k := s'])" using i s unfolding k_def[symmetric] by (simp add: counted_on_def)
  moreover have "map sc_block_hash (ss[k := s']) = map sc_block_hash ss"
    using s(4) by (rule map_update_same)
  ultimately show ?thesis using s(1) by blast
qed

interpretation least_ttft: total_scheduler "ttft_decision get epoch_of answers" for get epoch_of answers
proof (rule total_schedulerI)
  fix ss :: "'a schedule_context list" and e n
  assume "ss \<noteq> []" "fresh e"
  from least_ttft_counted[OF this, of get epoch_of "answers n"]
  show "\<exists>i e' ss' g'. i < length ss \<and> ttft_decision get epoch_of answers e ss n = Inr (Some i, e', ss', g') \<and>
      length ss' = length ss \<and> request e' = request e"
    by (auto simp: ttft_decision_def dest: counted_onD)
qed

section \<open>Random draws\<close>

text \<open>The body drawing \<open>draws n\<close> at its \<open>n\<close>-th decision, for the policies that select at random.\<close>

definition draw_decision ::
    "('b \<Rightarrow> u64 list \<Rightarrow> nat) \<Rightarrow> ('b \<Rightarrow> u64) \<Rightarrow> (real \<Rightarrow> unit policy_body) \<Rightarrow> (nat \<Rightarrow> real) \<Rightarrow> ('b, nat) schedule_fn" where
  "draw_decision get epoch_of pick draws e ss n =
     map_sum id (\<lambda>(c, e', ss', u). (c, e', ss', n + 1)) (lowered get epoch_of (pick (draws n)) no_extra e ss ())"

lemma draw_decision_scheduler:
  assumes "\<And>u. total_policy (pick u)"
  shows "total_scheduler (draw_decision get epoch_of pick draws)"
proof (rule total_schedulerI)
  fix ss :: "'a schedule_context list" and e n
  assume "ss \<noteq> []" "fresh e"
  from lowered_counted[OF assms this, of get epoch_of "draws n" no_extra "()"]
  show "\<exists>i e' ss' g'. i < length ss \<and> draw_decision get epoch_of pick draws e ss n = Inr (Some i, e', ss', g') \<and>
      length ss' = length ss \<and> request e' = request e"
    by (auto simp: draw_decision_def dest: counted_onD)
qed

lemma policy_bodies_nth:
  assumes "k < length (policy_bodies alpha beta gamma v)"
  shows "total_policy (policy_bodies alpha beta gamma u ! k)"
proof -
  have "length (policy_bodies alpha beta gamma u) = length (policy_bodies alpha beta gamma v)" by (simp add: policy_bodies_def)
  with assms have "policy_bodies alpha beta gamma u ! k \<in> set (policy_bodies alpha beta gamma u)" by simp
  then show ?thesis using policies_total by blast
qed

interpretation drawn: total_scheduler "draw_decision get epoch_of random_q draws" for get epoch_of draws
  by (rule draw_decision_scheduler) (rule random.total_policy_axioms)

interpretation drawn_bailian: total_scheduler "draw_decision get epoch_of (bailian_q alpha beta gamma) draws"
  for get epoch_of alpha beta gamma draws
  by (rule draw_decision_scheduler) (rule bailian.total_policy_axioms)

section \<open>First in, first out\<close>

text \<open>
  What the queue task promises with a policy: over \<open>n\<close> replicas, for any sequence of commands and any change of
  the scheduling contexts in between that keeps them \<open>ok\<close>, the task does not panic, no request waits
  uncommitted, the requests admitted are those appended, in order, and the requests answered to a replica
  followed by those in its buffer are the ones admitted to it, in order.
\<close>

definition serves_fifo :: "('b, 'g) schedule_fn \<Rightarrow> ('b schedule_context \<Rightarrow> bool) \<Rightarrow> bool" where
  "serves_fifo sched ok \<longleftrightarrow> (\<forall>n ss g cs. 0 < n \<and> length ss = n \<and> (\<forall>sc\<in>set cs. command_ok n sc \<and> (\<forall>s\<in>set (fst sc). ok s)) \<longrightarrow>
     (\<exists>as r'. queue_task sched cs (runner_new n ss g) = Inr (as, r') \<and> uncommit_buffer r' = [] \<and>
        map (entry_id \<circ> snd) (admit_log r') = appended_ids cs \<and>
        (\<forall>k<n. map (fst \<circ> snd) (filter (\<lambda>a. fst a = k) as) @ map fst (commit_bufs r' ! k) =
           map (entry_id \<circ> snd) (filter (\<lambda>a. fst a = k) (admit_log r')))))"

lemma run_append_cong:
  assumes "uncommit_buffer r = []" "\<And>g. sched' e (all_ctx r) g = sched e (all_ctx r) g"
  shows "run_append sched' e r = run_append sched e r"
  using assms by (simp add: run_append_def admit_front_def)

lemma run_next_cong: "uncommit_buffer r = [] \<Longrightarrow> run_next sched' now k r = run_next sched now k r"
  by (simp add: run_next_def fill_loop.simps[of sched k r] fill_loop.simps[of sched' k r])

context total_scheduler begin

lemma queue_task_cong:
  assumes "runner_inv n ap an r" "0 < n" "uncommit_buffer r = []"
    and "\<forall>sc\<in>set cs. command_ok n sc \<and> (\<forall>e g. fresh e \<longrightarrow> sched' e (fst sc) g = sched e (fst sc) g)"
  shows "queue_task sched' cs r = queue_task sched cs r"
  using assms(1,3,4)
proof (induction cs arbitrary: ap an r)
  case (Cons sc cs)
  obtain ss c where sc: "sc = (ss, c)" by (cases sc)
  have r0: "runner_inv n ap an (r\<lparr>all_ctx := ss\<rparr>)" and u0: "uncommit_buffer (r\<lparr>all_ctx := ss\<rparr>) = []"
    using Cons.prems sc by (simp_all add: runner_inv_def command_ok_def)
  show ?case
  proof (cases c)
    case (Append e)
    have fr: "fresh e" using Cons.prems(3) sc Append by (simp add: command_ok_def)
    then have eq: "run_append sched' e (r\<lparr>all_ctx := ss\<rparr>) = run_append sched e (r\<lparr>all_ctx := ss\<rparr>)"
      using run_append_cong[OF u0, of sched' e sched] Cons.prems(3) sc by simp
    obtain r1 where r1: "run_append sched e (r\<lparr>all_ctx := ss\<rparr>) = Inr r1" "runner_inv n (ap @ [entry_id e]) an r1"
      using run_append_inv[OF r0 fr assms(2)] by blast
    from Cons.IH[OF r1(2) run_append_empties[OF r0 fr assms(2) u0 r1(1)]] Cons.prems(3)
    have "queue_task sched' cs r1 = queue_task sched cs r1" by simp
    then show ?thesis using sc Append eq r1(1) by (simp add: queue_task_step_def)
  next
    case (NextRequest k now)
    have k: "k < n" using Cons.prems(3) sc NextRequest by (simp add: command_ok_def)
    have eq: "run_next sched' now k (r\<lparr>all_ctx := ss\<rparr>) = run_next sched now k (r\<lparr>all_ctx := ss\<rparr>)"
      by (rule run_next_cong[OF u0])
    obtain a r1 where a: "run_next sched now k (r\<lparr>all_ctx := ss\<rparr>) = Inr (a, r1)"
      "runner_inv n ap (an @ (case a of Some (rid, e) \<Rightarrow> [(k, rid, e)] | None \<Rightarrow> [])) r1"
      using run_next_inv[OF r0 k] by blast
    have "uncommit_buffer r1 = []" using run_next_empties[OF _ u0 a(1)] r0 k by (simp add: runner_inv_def)
    from Cons.IH[OF a(2) this] Cons.prems(3) have "queue_task sched' cs r1 = queue_task sched cs r1" by simp
    then show ?thesis using sc NextRequest eq a(1) by (simp add: queue_task_step_def)
  qed
qed simp

text \<open>A policy that agrees with a total one on the contexts it is given serves in order.\<close>

lemma serves_fifoI:
  assumes "\<And>ss e g. (\<forall>s\<in>set ss. ok s) \<Longrightarrow> fresh e \<Longrightarrow> sched' e ss g = sched e ss g"
  shows "serves_fifo sched' ok"
  unfolding serves_fifo_def
proof (intro allI impI)
  fix n cs and ss :: "'a schedule_context list" and g :: 'b
  assume a: "0 < n \<and> length ss = n \<and> (\<forall>sc\<in>set cs. command_ok n sc \<and> (\<forall>s\<in>set (fst sc). ok s))"
  have "runner_inv n [] [] (runner_new n ss g)" "uncommit_buffer (runner_new n ss g) = []"
    using a by (simp_all add: runner_inv_def runner_new_def)
  from queue_task_cong[OF this(1) _ this(2), of cs sched'] a assms
  have "queue_task sched' cs (runner_new n ss g) = queue_task sched cs (runner_new n ss g)" by blast
  with queue_task_exactly_once[of n ss cs g] a
  show "\<exists>as r'. queue_task sched' cs (runner_new n ss g) = Inr (as, r') \<and> uncommit_buffer r' = [] \<and>
      map (entry_id \<circ> snd) (admit_log r') = appended_ids cs \<and>
      (\<forall>k<n. map (fst \<circ> snd) (filter (\<lambda>a. fst a = k) as) @ map fst (commit_bufs r' ! k) =
         map (entry_id \<circ> snd) (filter (\<lambda>a. fst a = k) (admit_log r')))" by simp
qed

lemma total_serves_fifo: "serves_fifo sched (\<lambda>_. True)"
  by (rule serves_fifoI) simp

end

text \<open>The throughput policy, with another decision on contexts whose rate is not \<open>rate_ok\<close>.\<close>

definition tps_guarded ::
    "real option \<Rightarrow> (nat \<Rightarrow> nat \<Rightarrow> nat) \<Rightarrow> (preble_tps_block_hash, nat) schedule_fn" where
  "tps_guarded t clock e ss n =
     (if \<forall>s\<in>set ss. rate_ok s then at_decision (preble_tps_q_schedule t) clock e ss n else Inr (Some 0, e, ss, n))"

interpretation tps_guarded: total_scheduler "tps_guarded t clock" for t clock
proof (rule total_schedulerI)
  fix ss :: "preble_tps_block_hash schedule_context list" and e n
  assume a: "ss \<noteq> []" "fresh e"
  show "\<exists>i e' ss' g'. i < length ss \<and> tps_guarded t clock e ss n = Inr (Some i, e', ss', g') \<and>
      length ss' = length ss \<and> request e' = request e"
  proof (cases "\<forall>s\<in>set ss. rate_ok s")
    case True
    from preble_tps_q_counted[OF a True, of t "clock n" "clock n (length ss)"] True
    show ?thesis by (auto simp: tps_guarded_def at_decision_def dest: counted_onD)
  next
    case False
    then show ?thesis using a(1) by (auto simp: tps_guarded_def)
  qed
qed

section \<open>Properties\<close>

text \<open>C7: the queue task neither loses, duplicates nor reorders requests: with each of the 16 policies of
  \<open>policy_bodies\<close>, for any weights of Bailian and a new random number at every decision, with round robin, with the
  least-TTFT policy, whatever the simulator answers, with the three Preble policies, whatever the clock
  reads, and any commands over \<open>n\<close> replicas with any change of the scheduling contexts in between, the task
  never panics, no request waits uncommitted, the requests admitted are those appended, in order, and
  the requests answered to a replica followed by those in its buffer are the ones admitted to it, in
  order (\<open>serves_fifo\<close>). The throughput policy needs less than \<open>2 ^ 32\<close> synthetic samples in a window
  (\<open>rate_ok\<close>), since the code divides by their number as a 32-bit word.\<close>

theorem queue_task_fifo:
  "(\<forall>k<length (policy_bodies alpha beta gamma v).
      serves_fifo (draw_decision get epoch_of (\<lambda>u. policy_bodies alpha beta gamma u ! k) draws) (\<lambda>_. True)) \<and>
   serves_fifo (lowered get epoch_of round_robin_q round_robin_after) (\<lambda>_. True) \<and>
   serves_fifo (ttft_decision get epoch_of answers) (\<lambda>_. True) \<and>
   serves_fifo (at_decision (preble_q_schedule t) clock) (\<lambda>_. True) \<and>
   serves_fifo (at_decision (preble_bs_q_schedule t) clock) (\<lambda>_. True) \<and>
   serves_fifo (at_decision (preble_tps_q_schedule t) clock) rate_ok"
proof (intro conjI allI impI)
  fix k assume "k < length (policy_bodies alpha beta gamma v)"
  then have "\<And>u. total_policy (policy_bodies alpha beta gamma u ! k)" using policy_bodies_nth by blast
  from draw_decision_scheduler[where pick = "\<lambda>u. policy_bodies alpha beta gamma u ! k", OF this]
  have "total_scheduler (draw_decision get epoch_of (\<lambda>u. policy_bodies alpha beta gamma u ! k) draws)" .
  then show "serves_fifo (draw_decision get epoch_of (\<lambda>u. policy_bodies alpha beta gamma u ! k) draws) (\<lambda>_. True)"
    by (rule total_scheduler.total_serves_fifo)
next
  show "serves_fifo (at_decision (preble_tps_q_schedule t) clock) rate_ok"
    by (rule tps_guarded.serves_fifoI[of rate_ok _ t clock]) (simp add: tps_guarded_def)
qed (rule round_robin.total_serves_fifo least_ttft.total_serves_fifo cost_based.total_serves_fifo bs_based.total_serves_fifo)+

lemma queue_task_fifo_witness:
  "\<exists>as r'. queue_task (at_decision (preble_q_schedule None) (\<lambda>n i. n))
      (map (\<lambda>c. (replicate 2 \<lparr>sc_lmetric = lmetric_default, sc_block_hash = preble_new None 4\<rparr>, c))
        [Append (example_entry 1 [7]), Append (example_entry 2 [8]), NextRequest 0 5])
      (runner_new 2 (replicate 2 \<lparr>sc_lmetric = lmetric_default, sc_block_hash = preble_new None 4\<rparr>) 0) = Inr (as, r') \<and>
    map (entry_id \<circ> snd) (admit_log r') = [1, 2]"
proof -
  let ?ss = "replicate 2 \<lparr>sc_lmetric = lmetric_default, sc_block_hash = preble_new None 4\<rparr>"
  let ?cs = "map (\<lambda>c. (?ss, c)) [Append (example_entry 1 [7]), Append (example_entry 2 [8]), NextRequest 0 5]"
  have "serves_fifo (at_decision (preble_q_schedule None) (\<lambda>n i. n)) (\<lambda>_. True)"
    using queue_task_fifo [where t = None and clock = "\<lambda>n i. n"] by blast
  moreover have "\<forall>sc\<in>set ?cs. command_ok 2 sc" "appended_ids ?cs = [1, 2]"
    by (simp_all add: command_ok_def fresh_def example_entry_def entry_id_def)
  ultimately show ?thesis
    unfolding serves_fifo_def by (elim allE[of _ 2] allE[of _ ?ss] allE[of _ 0] allE[of _ ?cs]) auto
qed

text \<open>C10: admission never stalls on a policy: whenever there is a replica, each of the 16 policies of
  \<open>policy_bodies\<close>, for any weights of Bailian and any random number, round robin, the least-TTFT policy,
  whatever the simulator answers, and the three Preble policies, whatever the clock reads, schedule every
  request that has no prediction yet. The decision does not panic, keeps the request and its response
  channel, counts the request on the chosen replica only, leaving the load of every other replica as it was
  (\<open>counted_on\<close>), and changes no prefix matcher except for the windows of the Preble matchers. Round robin
  chooses the replica at its cursor and moves the cursor on. The throughput policy needs less than \<open>2 ^ 32\<close>
  synthetic samples in a window (\<open>rate_ok\<close>).\<close>

theorem policies_schedule:
  assumes "pred_hit_nblks (bhs e) = none_sentinel"
  shows "(ss \<noteq> [] \<longrightarrow>
      (\<forall>body\<in>set (policy_bodies alpha beta gamma u). \<exists>i e' ss'.
         lowered get epoch_of body no_extra e ss () = Inr (Some i, e', ss', ()) \<and>
         counted_on e ss i e' ss' \<and> map sc_block_hash ss' = map sc_block_hash ss) \<and>
      (\<exists>i e' ss'. lowered get epoch_of round_robin_q round_robin_after e ss g = Inr (Some i, e', ss', (g + 1) mod length ss) \<and>
         counted_on e ss i e' ss' \<and> map sc_block_hash ss' = map sc_block_hash ss \<and> (g < length ss \<longrightarrow> i = g)) \<and>
      (\<exists>i e' ss'. least_ttft_schedule get epoch_of ttft e ss = Inr (Some i, e', ss', ()) \<and>
         counted_on e ss i e' ss' \<and> map sc_block_hash ss' = map sc_block_hash ss)) \<and>
    (qs \<noteq> [] \<longrightarrow> (\<exists>i e' qs'. preble_q_schedule t nows now e qs = Inr (Some i, e', qs') \<and> counted_on e qs i e' qs')) \<and>
    (ws \<noteq> [] \<longrightarrow> (\<exists>i e' ws'. preble_bs_q_schedule t nows now e ws = Inr (Some i, e', ws') \<and> counted_on e ws i e' ws')) \<and>
    (ts \<noteq> [] \<and> (\<forall>s\<in>set ts. rate_ok s) \<longrightarrow>
       (\<exists>i e' ts'. preble_tps_q_schedule t nows now e ts = Inr (Some i, e', ts') \<and> counted_on e ts i e' ts'))"
proof -
  have fr: "fresh e" using assms by (simp add: fresh_def)
  have rr: "\<exists>i e' ss'. lowered get epoch_of round_robin_q round_robin_after e ss g = Inr (Some i, e', ss', (g + 1) mod length ss) \<and>
      counted_on e ss i e' ss' \<and> map sc_block_hash ss' = map sc_block_hash ss \<and> (g < length ss \<longrightarrow> i = g)" if ne: "ss \<noteq> []"
  proof -
    have "max (length ss) 1 = length ss" using ne by (cases ss) simp_all
    then have "round_robin_after (capture_observations get epoch_of e ss) g = (g + 1) mod length ss"
      by (simp only: round_robin_after_def length_capture)
    then show ?thesis
      using lowered_counted[OF round_robin.total_policy_axioms ne fr, of get epoch_of round_robin_after g] round_robin_choice[of g ss] by metis
  qed
  have main: "\<exists>i e' ss'. lowered get epoch_of body no_extra e ss () = Inr (Some i, e', ss', ()) \<and>
      counted_on e ss i e' ss' \<and> map sc_block_hash ss' = map sc_block_hash ss"
    if "ss \<noteq> []" "body \<in> set (policy_bodies alpha beta gamma u)" for body
  proof -
    have "total_policy body" using policies_total that(2) by blast
    from lowered_counted[OF this that(1) fr, of get epoch_of no_extra "()"] show ?thesis
      unfolding no_extra_def by blast
  qed
  show ?thesis
  proof (intro conjI impI)
    show "\<forall>body\<in>set (policy_bodies alpha beta gamma u). \<exists>i e' ss'. lowered get epoch_of body no_extra e ss () = Inr (Some i, e', ss', ()) \<and>
      counted_on e ss i e' ss' \<and> map sc_block_hash ss' = map sc_block_hash ss" if "ss \<noteq> []"
      using main[OF that] by blast
  qed (rule rr least_ttft_counted preble_q_counted preble_bs_q_counted preble_tps_q_counted; simp add: fr)+
qed

lemma policies_schedule_witness:
  "\<exists>i e' ts'. preble_tps_q_schedule None (\<lambda>_. 0) 1 (example_entry 1 [7])
     (replicate 2 \<lparr>sc_lmetric = lmetric_default, sc_block_hash = preble_tps_new None None 4\<rparr>) = Inr (Some i, e', ts') \<and>
     counted_on (example_entry 1 [7]) (replicate 2 \<lparr>sc_lmetric = lmetric_default, sc_block_hash = preble_tps_new None None 4\<rparr>) i e' ts'"
proof -
  have "rate_ok \<lparr>sc_lmetric = lmetric_default, sc_block_hash = preble_tps_new None None 4\<rparr>"
    by (simp add: rate_ok_def preble_tps_new_def preble_window_duration_def secs_def idle_samples_def as_u64_def trunc_def Let_def)
  moreover have "pred_hit_nblks (bhs (example_entry 1 [7])) = none_sentinel" by (simp add: example_entry_def)
  moreover note conjunct2[OF conjunct2[OF conjunct2[OF policies_schedule [of "example_entry 1 [7]", where t = None and nows = "\<lambda>_. 0"
        and now = 1 and ts = "replicate 2 \<lparr>sc_lmetric = lmetric_default, sc_block_hash = preble_tps_new None None 4\<rparr>"]]]]
  ultimately show ?thesis by simp
qed

end
