(* ===== verification/ChatApi.thy ===== *)
theory ChatApi
  imports Infer LoopAccounting Decimal
begin

text \<open>
  The OpenAI surface of the gateway: the handlers of \<^verbatim>\<open>gateway/server.rs\<close> with the types of
  \<^verbatim>\<open>gateway/api_types.rs\<close> and the error texts of \<^verbatim>\<open>gateway/validation.rs\<close>. A body is the value
  that is serialised (by \<^verbatim>\<open>serde\<close>), not its JSON text. A handler is a function of what \<open>Infer\<close>
  returns and of the messages it streams; metrics are not modelled.
\<close>

section \<open>Texts\<close>

fun validation_error_text :: "validation_error \<Rightarrow> string" where
  "validation_error_text (BestOf a b) = ''`best_of` must be > 0 and <= '' @ show_word a @ ''. Given: '' @ show_word b"
| "validation_error_text BestOfDisabled = ''`best_of` != 1 is not allowed for this endpoint''"
| "validation_error_text BestOfSampling = ''you must use sampling when `best_of` is > 1''"
| "validation_error_text BestOfSeed = ''`seed` must not be set when `best_of` > 1''"
| "validation_error_text BestOfStream = ''`best_of` != 1 is not supported when streaming tokens''"
| "validation_error_text (TopNTokens a b) = ''`top_n_tokens` must be >= 0 and <= '' @ show_word a @ ''. Given: '' @ show_word b"
| "validation_error_text TopNTokensDisabled = ''`top_n_tokens` != 0 is not allowed for this endpoint''"
| "validation_error_text PrefillDetailsStream = ''`decoder_input_details` == true is not supported when streaming tokens''"
| "validation_error_text Temperature = ''`temperature` must be strictly positive''"
| "validation_error_text RepetitionPenalty = ''`repetition_penalty` must be strictly positive''"
| "validation_error_text TopP = ''`top_p` must be > 0.0 and < 1.0''"
| "validation_error_text TopK = ''`top_k` must be strictly positive''"
| "validation_error_text (Truncate a b) = ''`truncate` must be strictly positive and less than '' @ show_word a @ ''. Given: '' @ show_word b"
| "validation_error_text UnsetMaxNewTokens = ''one of `max_new_tokens` or `truncate` must be set if a fast tokenizer is not in use''"
| "validation_error_text NegativeMaxNewTokens = ''`max_new_tokens` must be strictly positive''"
| "validation_error_text (MaxNewTokens a b) = ''`max_new_tokens` must be <= '' @ show_word a @ ''. Given: '' @ show_word b"
| "validation_error_text (MaxTotalTokens a b c) = ''`inputs` tokens + `max_new_tokens` must be <= '' @ show_word a @
     ''. Given: '' @ show_word b @ '' `inputs` tokens and '' @ show_word c @ '' `max_new_tokens`''"
| "validation_error_text (InputLength a b) = ''`inputs` must have less than '' @ show_word a @ '' tokens. Given: '' @ show_word b"
| "validation_error_text EmptyInput = ''`inputs` cannot be empty''"
| "validation_error_text (StopSequence a b) = ''`stop` supports up to '' @ show_word a @ '' stop sequences. Given: '' @ show_word b"
| "validation_error_text (Tokenizer e) = ''tokenizer error '' @ e"

fun infer_error_text :: "infer_error \<Rightarrow> string" where
  "infer_error_text (GenerationError e) = ''Request failed during generation: '' @ e"
| "infer_error_text (Overloaded _) = ''Model is overloaded''"
| "infer_error_text (ValidationError e) = ''Input validation error: '' @ validation_error_text e"
| "infer_error_text IncompleteGeneration = ''Incomplete generation''"

section \<open>Requests and answers\<close>

datatype chat_completion_stop = Single string | Multiple "string list"

fun into_vec :: "chat_completion_stop \<Rightarrow> string list" where
  "into_vec (Single s) = [s]"
| "into_vec (Multiple v) = v"

record chat_completion_request =
  cr_model :: "string option"
  cr_messages :: "chat_message list"
  cr_temperature :: "real option"
  cr_top_p :: "real option"
  cr_max_tokens :: "u32 option"
  cr_stream :: "bool option"
  cr_stop :: "chat_completion_stop option"
  cr_seed :: "u64 option"
  cr_repetition_penalty :: "real option"

record error_response =
  er_error :: string
  er_error_type :: string

record chat_completion_choice =
  cc_index :: u32
  cc_message :: chat_message
  cc_finish_reason :: "string option"

record chat_completion_usage =
  prompt_tokens :: u32
  completion_tokens :: u32
  total_tokens :: u32

record chat_completion_response =
  cp_id :: string
  cp_object :: string
  cp_created :: nat
  cp_model :: string
  cp_choices :: "chat_completion_choice list"
  cp_usage :: chat_completion_usage

record chat_completion_delta =
  delta_role :: "string option"
  delta_content :: "string option"

record chat_completion_chunk_choice =
  ck_index :: u32
  ck_delta :: chat_completion_delta
  ck_finish_reason :: "string option"

record chat_completion_chunk =
  ch_id :: string
  ch_object :: string
  ch_created :: nat
  ch_model :: string
  ch_choices :: "chat_completion_chunk_choice list"

text \<open>\<^verbatim>\<open>types.rs\<close>: the finish reason arrives as an \<^verbatim>\<open>i32\<close>.\<close>

datatype finish_reason_kind = Length | EosToken | StopSeq

definition finish_reason_try_from :: "32 word \<Rightarrow> 32 word + finish_reason_kind" where
  "finish_reason_try_from v =
     (if v = 0 then Inr Length else if v = 1 then Inr EosToken else if v = 2 then Inr StopSeq else Inl v)"

definition finish_reason_to_openai :: "32 word \<Rightarrow> string" where
  "finish_reason_to_openai v = (case finish_reason_try_from v of Inr Length \<Rightarrow> ''length'' | _ \<Rightarrow> ''stop'')"

text \<open>The first part of \<^verbatim>\<open>chat_completions\<close>.\<close>

definition chat_generate_request :: "chat_completion_request \<Rightarrow> generate_request" where
  "chat_generate_request req =
     \<lparr>gr_inputs = (case cr_messages req of [] \<Rightarrow> '''' | m # ms \<Rightarrow> content (List.last (m # ms))),
      gr_parameters = default_parameters\<lparr>gp_temperature := cr_temperature req, gp_repetition_penalty := cr_repetition_penalty req,
        gp_top_p := cr_top_p req, gp_max_new_tokens := cr_max_tokens req,
        gp_stop := (case cr_stop req of None \<Rightarrow> [] | Some s \<Rightarrow> into_vec s), gp_seed := cr_seed req\<rparr>,
      gr_chat_messages = Some (cr_messages req)\<rparr>"

definition chat_model :: "string \<Rightarrow> chat_completion_request \<Rightarrow> string" where
  "chat_model info_model_id req = or_default (cr_model req) info_model_id"

section \<open>Errors\<close>

definition error_response_of :: "infer_error \<Rightarrow> error_response" where
  "error_response_of err = \<lparr>er_error = infer_error_text err, er_error_type = error_type err\<rparr>"

text \<open>\<^verbatim>\<open>FAILED_DEPENDENCY\<close>, \<^verbatim>\<open>TOO_MANY_REQUESTS\<close>, \<^verbatim>\<open>UNPROCESSABLE_ENTITY\<close>, \<^verbatim>\<open>INTERNAL_SERVER_ERROR\<close>.\<close>

definition status_of :: "infer_error \<Rightarrow> nat" where
  "status_of err = (case err of
     GenerationError _ \<Rightarrow> 424 | Overloaded _ \<Rightarrow> 429 | ValidationError _ \<Rightarrow> 422 | IncompleteGeneration \<Rightarrow> 500)"

definition error_into_http :: "infer_error \<Rightarrow> nat \<times> error_response" where
  "error_into_http err = (status_of err, error_response_of err)"

section \<open>The non-streaming answer\<close>

definition chat_id :: "u64 \<Rightarrow> string" where
  "chat_id rid = ''chatcmpl-'' @ show_word rid"

text \<open>The header \<^verbatim>\<open>x-request-id\<close> and the body, or a status with an error.\<close>

definition chat_completions_non_stream ::
    "string \<Rightarrow> nat \<Rightarrow> infer_error + infer_response \<Rightarrow> (nat \<times> error_response) + (string \<times> chat_completion_response)" where
  "chat_completions_non_stream model_id created res =
     (case res of
        Inl err \<Rightarrow> Inl (error_into_http err)
      | Inr r \<Rightarrow>
          (let completion = generated_tokens (ir_generated_text r)
           in Inr (show_word (ir_request_id r),
              \<lparr>cp_id = chat_id (ir_request_id r), cp_object = ''chat.completion'', cp_created = created, cp_model = model_id,
               cp_choices = [\<lparr>cc_index = 0, cc_message = \<lparr>role = ''assistant'', content = gt_text (ir_generated_text r)\<rparr>,
                 cc_finish_reason = Some (finish_reason_to_openai (finish_reason (ir_generated_text r)))\<rparr>],
               cp_usage = \<lparr>prompt_tokens = of_nat (ir_input_length r), completion_tokens = completion,
                 total_tokens = of_nat (ir_input_length r) + completion\<rparr>\<rparr>)))"

section \<open>The streaming answer\<close>

datatype sse_event =
    ChunkEvent chat_completion_chunk
  | ErrorEvent error_response
  | DataEvent string

text \<open>\<open>chunk role content reason\<close> fills in what all chunks of a stream share.\<close>

definition chunk :: "string \<Rightarrow> nat \<Rightarrow> string \<Rightarrow> string option \<Rightarrow> string option \<Rightarrow> string option \<Rightarrow> sse_event" where
  "chunk cid created model_id r c reason =
     ChunkEvent \<lparr>ch_id = cid, ch_object = ''chat.completion.chunk'', ch_created = created, ch_model = model_id,
       ch_choices = [\<lparr>ck_index = 0, ck_delta = \<lparr>delta_role = r, delta_content = c\<rparr>, ck_finish_reason = reason\<rparr>]\<rparr>"

text \<open>The loop over the messages: the events yielded, and whether the end marker or an error was met.\<close>

fun chat_stream_loop ::
    "(string option \<Rightarrow> string option \<Rightarrow> string option \<Rightarrow> sse_event) \<Rightarrow> (infer_error + infer_stream_response) list \<Rightarrow>
       sse_event list \<times> bool \<times> bool" where
  "chat_stream_loop mk [] = ([], False, False)"
| "chat_stream_loop mk (Inl err # ms) = ([ErrorEvent (error_response_of err)], False, True)"
| "chat_stream_loop mk (Inr Prefill # ms) = chat_stream_loop mk ms"
| "chat_stream_loop mk (Inr (Intermediate tok tops) # ms) =
     (let (evs, flags) = chat_stream_loop mk ms in (mk None (Some (tok_text tok)) None # evs, flags))"
| "chat_stream_loop mk (Inr (End tok tops txt start queued mx) # ms) =
     ((if tok_text tok \<noteq> '''' then [mk None (Some (tok_text tok)) None] else []) @
       [mk None None (Some (finish_reason_to_openai (finish_reason txt))), DataEvent ''[DONE]''], True, False)"

definition chat_completions_stream ::
    "string \<Rightarrow> nat \<Rightarrow> infer_error + u64 \<Rightarrow> (infer_error + infer_stream_response) list \<Rightarrow> sse_event list" where
  "chat_completions_stream model_id created opened ms =
     (let (evs, end_reached, error) =
        (case opened of
           Inl err \<Rightarrow> ([ErrorEvent (error_response_of err)], False, True)
         | Inr rid \<Rightarrow>
             (let mk = chunk (chat_id rid) created model_id; (evs, flags) = chat_stream_loop mk ms
              in (mk (Some ''assistant'') (Some '''') None # evs, flags)))
      in if \<not> end_reached \<and> \<not> error then evs @ [ErrorEvent (error_response_of IncompleteGeneration)] else evs)"

section \<open>Routes\<close>

datatype handler = TgiDeprecated | GetModelInfo | ChatCompletions | HealthCheck | Metrics

definition route :: "string \<Rightarrow> string \<Rightarrow> handler option" where
  "route method path =
     (if method = ''POST'' \<and> path \<in> {''/'', ''/generate'', ''/generate_stream'', ''/invocations''} then Some TgiDeprecated
      else if method = ''POST'' \<and> path = ''/v1/chat/completions'' then Some ChatCompletions
      else if method = ''GET'' \<and> path = ''/info'' then Some GetModelInfo
      else if method = ''GET'' \<and> path \<in> {''/'', ''/health'', ''/ping''} then Some HealthCheck
      else if method = ''GET'' \<and> path = ''/metrics'' then Some Metrics
      else None)"

definition health_check :: bool where
  "health_check = True"

definition health :: "(nat \<times> error_response) + unit" where
  "health = (if health_check then Inr () else Inl (503, \<lparr>er_error = ''unhealthy'', er_error_type = ''healthcheck''\<rparr>))"

text \<open>The section sign of the text is its two bytes in UTF-8.\<close>

definition tgi_deprecated :: "nat \<times> error_response" where
  "tgi_deprecated = (410,
     \<lparr>er_error = ''This endpoint is deprecated and no longer served. '' @
        ''Use `POST /v1/chat/completions` (OpenAI-compatible) instead. '' @
        ''See `docs/architecture/README.md` '' @ [char_of (194 :: nat), char_of (167 :: nat)] @ ''1 for the supported API surface.'',
      er_error_type = ''deprecated_endpoint''\<rparr>)"

section \<open>Every stream ends properly\<close>

definition data_message :: "infer_error + infer_stream_response \<Rightarrow> bool" where
  "data_message m = (case m of Inr Prefill \<Rightarrow> True | Inr (Intermediate _ _) \<Rightarrow> True | _ \<Rightarrow> False)"

definition message_texts :: "(infer_error + infer_stream_response) list \<Rightarrow> string list" where
  "message_texts ms = concat (map (\<lambda>m. case m of Inr (Intermediate tok _) \<Rightarrow> [tok_text tok] | _ \<Rightarrow> []) ms)"

lemma message_texts_simps [simp]:
  "message_texts [] = []" "message_texts (Inr Prefill # ms) = message_texts ms"
  "message_texts (Inr (Intermediate tok tops) # ms) = tok_text tok # message_texts ms"
  "message_texts (ms @ ms') = message_texts ms @ message_texts ms'"
  by (simp_all add: message_texts_def)

lemma chat_stream_loop_data:
  assumes "\<forall>m\<in>set pre. data_message m"
  shows "chat_stream_loop mk (pre @ ms) =
    (map (\<lambda>t. mk None (Some t) None) (message_texts pre) @ fst (chat_stream_loop mk ms), snd (chat_stream_loop mk ms))"
  using assms
proof (induction pre)
  case (Cons m pre)
  then consider "m = Inr Prefill" | tok tops where "m = Inr (Intermediate tok tops)"
    by (auto simp: data_message_def split: sum.splits infer_stream_response.splits)
  then show ?case using Cons by cases simp_all
qed simp

text \<open>How a stream of messages begins: data, then nothing, an error or the end marker.\<close>

lemma message_split:
  obtains (open_end) pre where "ms = pre" "\<forall>m\<in>set pre. data_message m"
  | (failed) pre err rest where "ms = pre @ Inl err # rest" "\<forall>m\<in>set pre. data_message m"
  | (ended) pre tok tops gtx st q mx rest where "ms = pre @ Inr (End tok tops gtx st q mx) # rest" "\<forall>m\<in>set pre. data_message m"
proof (cases "dropWhile data_message ms")
  case Nil
  then show ?thesis by (intro open_end) (auto simp: dropWhile_eq_Nil_conv)
next
  case (Cons m rest)
  have data: "\<forall>m\<in>set (takeWhile data_message ms). data_message m" by (auto dest: set_takeWhileD)
  have ms: "ms = takeWhile data_message ms @ m # rest" using Cons by (metis takeWhile_dropWhile_id)
  have "\<not> data_message m" using Cons by (metis hd_dropWhile list.sel(1) list.distinct(1))
  show ?thesis
  proof (cases m)
    case (Inl err)
    then show ?thesis using failed[OF _ data] ms by blast
  next
    case (Inr r)
    with \<open>\<not> data_message m\<close> obtain tok tops gtx st q mx where "r = End tok tops gtx st q mx"
      by (cases r) (auto simp: data_message_def)
    then show ?thesis using ended[OF _ data] ms Inr by blast
  qed
qed

definition content_events :: "string \<Rightarrow> nat \<Rightarrow> string \<Rightarrow> string list \<Rightarrow> sse_event list" where
  "content_events cid created model ts = map (\<lambda>t. chunk cid created model None (Some t) None) ts"

text \<open>C30: what a streaming client receives, whatever the messages of its request: the role announcement, one
  chunk per intermediate token in order, also for a token with an empty text, one more for the token of the end
  marker unless its text is empty, and then exactly one terminal event: the finish chunk with
  \<^verbatim>\<open>[DONE]\<close> when the end marker came, the error when one came first, and \<^verbatim>\<open>IncompleteGeneration\<close>
  when the stream just stopped; a request that was refused gets its error only.\<close>

theorem chat_stream_events:
  assumes "\<forall>m\<in>set pre. data_message m"
  shows "chat_completions_stream model created (Inl err) ms = [ErrorEvent (error_response_of err)] \<and>
    chat_completions_stream model created (Inr rid) pre =
      chunk (chat_id rid) created model (Some ''assistant'') (Some '''') None #
      content_events (chat_id rid) created model (message_texts pre) @ [ErrorEvent (error_response_of IncompleteGeneration)] \<and>
    chat_completions_stream model created (Inr rid) (pre @ Inl err # rest) =
      chunk (chat_id rid) created model (Some ''assistant'') (Some '''') None #
      content_events (chat_id rid) created model (message_texts pre) @ [ErrorEvent (error_response_of err)] \<and>
    chat_completions_stream model created (Inr rid) (pre @ Inr (End tok tops gtx st q mx) # rest) =
      chunk (chat_id rid) created model (Some ''assistant'') (Some '''') None #
      content_events (chat_id rid) created model (message_texts pre @ (if tok_text tok = '''' then [] else [tok_text tok])) @
      [chunk (chat_id rid) created model None None (Some (finish_reason_to_openai (finish_reason gtx))), DataEvent ''[DONE]'']"
  using chat_stream_loop_data[OF assms, of "chunk (chat_id rid) created model"]
    chat_stream_loop_data[OF assms, of "chunk (chat_id rid) created model" "[]"]
  by (simp add: chat_completions_stream_def content_events_def Let_def)

theorem chat_stream_events_witness:
  "chat_completions_stream ''m'' 0 (Inr 7) [Inr Prefill, Inr (Intermediate (token_default\<lparr>tok_text := ''a''\<rparr>) [])] =
     chunk (chat_id 7) 0 ''m'' (Some ''assistant'') (Some '''') None #
     content_events (chat_id 7) 0 ''m'' [''a''] @ [ErrorEvent (error_response_of IncompleteGeneration)]"
  using chat_stream_events[of "[Inr Prefill, Inr (Intermediate (token_default\<lparr>tok_text := ''a''\<rparr>) [])]" "''m''" 0 IncompleteGeneration "[]" 7]
  by (simp add: data_message_def)

definition terminal :: "sse_event \<Rightarrow> bool" where
  "terminal ev = (case ev of ChunkEvent _ \<Rightarrow> False | _ \<Rightarrow> True)"

lemma terminal_simps [simp]:
  "\<not> terminal (chunk cid created model r c reason)" "terminal (ErrorEvent e)" "terminal (DataEvent d)"
  by (simp_all add: terminal_def chunk_def)

lemma chat_stream_terminates_once:
  "\<exists>evs ev. chat_completions_stream model created opened ms = evs @ [ev] \<and> terminal ev \<and> (\<forall>e\<in>set evs. \<not> terminal e)"
proof (cases opened)
  case (Inl err)
  then show ?thesis by (intro exI[of _ "[]"]) (simp add: chat_completions_stream_def)
next
  case (Inr rid)
  let ?mk = "chunk (chat_id rid) created model"
  have "\<exists>evs ev. chat_completions_stream model created (Inr rid) ms = (evs @ [ev]) \<and> terminal ev \<and> (\<forall>e\<in>set evs. \<not> terminal e)"
  proof (cases rule: message_split[of ms])
    case (open_end pre)
    show ?thesis using chat_stream_loop_data[OF open_end(2), of ?mk "[]"] open_end(1)
      by (intro exI[of _ "?mk (Some ''assistant'') (Some '''') None # content_events (chat_id rid) created model (message_texts pre)"] exI)
        (auto simp: chat_completions_stream_def content_events_def Let_def)
  next
    case (failed pre err rest)
    show ?thesis using chat_stream_loop_data[OF failed(2), of ?mk] failed(1)
      by (intro exI[of _ "?mk (Some ''assistant'') (Some '''') None # content_events (chat_id rid) created model (message_texts pre)"] exI)
        (auto simp: chat_completions_stream_def content_events_def Let_def)
  next
    case (ended pre tok tops gtx st q mx rest)
    show ?thesis using chat_stream_loop_data[OF ended(2), of ?mk] ended(1)
      by (intro exI[of _ "?mk (Some ''assistant'') (Some '''') None # content_events (chat_id rid) created model
            (message_texts pre @ (if tok_text tok = '''' then [] else [tok_text tok])) @
            [?mk None None (Some (finish_reason_to_openai (finish_reason gtx)))]"] exI)
        (auto simp: chat_completions_stream_def content_events_def Let_def)
  qed
  with Inr show ?thesis by simp
qed

section \<open>From the engine to the client\<close>

lemma slow_known_frame:
  assumes "slow_known h rid' fin e s = Inr s'" "rid \<noteq> rid'"
  shows "cq_entries s' rid = cq_entries s rid \<and> (rid \<notin> set (cancel_req_ids s) \<longrightarrow> rid \<notin> set (cancel_req_ids s')) \<and>
    set (retired s) \<subseteq> set (retired s')"
  using assms by (auto simp: slow_known_def Let_def split: prod.splits if_splits sum.splits dest: in_set_butlastD)

lemma slow_output_frame:
  assumes "slow_output out s = Inr s'" "rid \<noteq> request_id out"
  shows "cq_entries s' rid = cq_entries s rid \<and> (rid \<notin> set (cancel_req_ids s) \<longrightarrow> rid \<notin> set (cancel_req_ids s')) \<and>
    set (retired s) \<subseteq> set (retired s')"
proof -
  obtain s1 where s1: "track_phase out s = Inr s1" using assms(1) by (auto simp: slow_output_def split: sum.splits)
  have eq: "cq_entries s1 = cq_entries s \<and> cancel_req_ids s1 = cancel_req_ids s \<and> retired s1 = retired s"
    using track_phase_effect[OF s1] by simp
  from assms(1) s1 have "s' = s1 \<or> (\<exists>h e. slow_known h (request_id out) (is_finished out) e s1 = Inr s')"
    by (auto simp: slow_output_def Let_def split: if_splits option.splits)
  with eq show ?thesis using slow_known_frame[OF _ assms(2), of _ "is_finished out" _ s1 s'] by auto
qed

lemma slow_outputs_frame:
  assumes "fold_outcome slow_output outs s = Inr s'" "\<forall>out\<in>set outs. rid \<noteq> request_id out"
  shows "cq_entries s' rid = cq_entries s rid \<and> set (retired s) \<subseteq> set (retired s')"
  using assms
proof (induction outs arbitrary: s)
  case (Cons out outs)
  then obtain s1 where s1: "slow_output out s = Inr s1" "fold_outcome slow_output outs s1 = Inr s'"
    by (auto split: sum.splits)
  with slow_output_frame[OF s1(1)] Cons show ?case by fastforce
qed simp

lemma slow_output_states:
  assumes "slow_output out s = Inr s'" shows "state out \<in> {''PREFILL'', ''DECODE''}"
  using assms by (auto simp: slow_output_def Let_def split: sum.splits if_splits)

lemma slow_outputs_deliver:
  assumes "fold_outcome slow_output outs s = Inr s'" "filter (\<lambda>out. request_id out = rid) outs = us @ [fin]"
    "\<forall>out\<in>set us. \<not> is_finished out" "is_finished fin"
    "cq_entries s rid = Some e" "open_channel e" "batch_time e \<noteq> None" "rid \<notin> set (cancel_req_ids s)"
  shows "sent_more e (concat (map step_responses (us @ [fin])) @ [REnd]) \<in> set (retired s')"
  using assms
proof (induction outs arbitrary: s e us)
  case (Cons out outs)
  then obtain s1 where s1: "slow_output out s = Inr s1" "fold_outcome slow_output outs s1 = Inr s'"
    by (auto split: sum.splits)
  show ?case
  proof (cases "request_id out = rid")
    case False
    with slow_output_frame[OF s1(1), of rid] Cons.prems
    have "cq_entries s1 rid = Some e" "rid \<notin> set (cancel_req_ids s1)" by auto
    with Cons.IH[OF s1(2), of us e] Cons.prems False show ?thesis by simp
  next
    case True
    then have r: "request_id out = rid" .
    from slow_output_sends[of s out e] slow_output_states[OF s1(1)] Cons.prems r s1(1)
    have eff: "cancel_req_ids s1 = cancel_req_ids s \<and>
      (if is_finished out then retired s1 = retired s @ [sent_more e (step_responses out @ [REnd])]
       else cq_entries s1 = (cq_entries s)(rid \<mapsto> sent_more e (step_responses out)))" by (auto split: if_splits)
    show ?thesis
    proof (cases us)
      case Nil
      with Cons.prems True have "out = fin" "filter (\<lambda>out. request_id out = rid) outs = []" by auto
      moreover from this(2) have "\<forall>out\<in>set outs. rid \<noteq> request_id out" by (auto simp: filter_empty_conv)
      ultimately show ?thesis using slow_outputs_frame[OF s1(2), of rid] eff Cons.prems(4) Nil by auto
    next
      case (Cons u us')
      with Cons.prems True have u: "u = out" "filter (\<lambda>out. request_id out = rid) outs = us' @ [fin]" by auto
      with Cons.prems Cons have "\<not> is_finished out" by auto
      with Cons.IH[OF s1(2) u(2), of "sent_more e (step_responses out)"] eff Cons.prems Cons u show ?thesis by simp
    qed
  qed
qed simp

lemma wire_texts:
  "message_texts (map (wire tk b q) (concat (map step_responses us))) = map (token_text tk) (concat (map new_token_ids us))"
  "\<forall>m\<in>set (map (wire tk b q) (concat (map step_responses us))). data_message m"
proof -
  have toks: "message_texts (map (wire tk b q) (map RIntermediate ts)) = map (token_text tk) ts" for ts
    by (induction ts) (simp_all add: wire_def)
  have step: "message_texts (map (wire tk b q) (step_responses u)) = map (token_text tk) (new_token_ids u)" for u
    using toks[of "new_token_ids u"] by (auto simp: step_responses_def wire_def comp_def)
  show "message_texts (map (wire tk b q) (concat (map step_responses us))) = map (token_text tk) (concat (map new_token_ids us))"
    by (induction us) (simp_all add: step)
  show "\<forall>m\<in>set (map (wire tk b q) (concat (map step_responses us))). data_message m"
    by (auto simp: step_responses_def wire_def data_message_def split: if_splits)
qed

text \<open>C9: from the engine to the client of a streaming request: let the event loop pass on any outputs, of
  any requests interleaved, in which the request is reported unfinished a number of times and then
  finished, and let its client read on. What the gateway makes of the messages is the role announcement,
  one chunk with the decoded text of every token the engine generated for this request, in order, the
  finish chunk (whose reason is always \<^verbatim>\<open>length\<close>) and \<^verbatim>\<open>[DONE]\<close>.\<close>

theorem engine_to_client:
  assumes "fold_outcome slow_output outs s = Inr s'" "filter (\<lambda>out. request_id out = rid) outs = us @ [fin]"
    "\<forall>out\<in>set us. \<not> is_finished out" "is_finished fin"
    "cq_entries s rid = Some e" "open_channel e" "batch_time e \<noteq> None" "sent (response_tx e) = []" "rid \<notin> set (cancel_req_ids s)"
  shows "\<exists>e'\<in>set (retired s'). entry_id e' = entry_id e \<and>
    chat_completions_stream model created (Inr rid) (map (wire tk (the (batch_time e')) (queue_time e')) (sent (response_tx e'))) =
      chunk (chat_id rid) created model (Some ''assistant'') (Some '''') None #
      content_events (chat_id rid) created model (map (token_text tk) (concat (map new_token_ids (us @ [fin])))) @
      [chunk (chat_id rid) created model None None (Some ''length''), DataEvent ''[DONE]'']"
proof -
  let ?e = "sent_more e (concat (map step_responses (us @ [fin])) @ [REnd])"
  let ?pre = "map (wire tk (the (batch_time ?e)) (queue_time ?e)) (concat (map step_responses (us @ [fin])))"
  note d = slow_outputs_deliver[OF assms(1-7,9)]
  have "sent (response_tx ?e) = concat (map step_responses (us @ [fin])) @ [REnd]" using assms(8) by (simp add: sent_more_def)
  moreover have "wire tk (the (batch_time ?e)) (queue_time ?e) REnd =
      Inr (End token_default [] generated_text_default (the (batch_time ?e)) (queue_time ?e) 0)" by (simp add: wire_def)
  ultimately have eq: "map (wire tk (the (batch_time ?e)) (queue_time ?e)) (sent (response_tx ?e)) =
      ?pre @ [Inr (End token_default [] generated_text_default (the (batch_time ?e)) (queue_time ?e) 0)]" by simp
  have loop: "chat_stream_loop mk (?pre @ ms) =
    (map (\<lambda>t. mk None (Some t) None) (map (token_text tk) (concat (map new_token_ids (us @ [fin])))) @ fst (chat_stream_loop mk ms),
     snd (chat_stream_loop mk ms))" for mk ms
    using chat_stream_loop_data[OF wire_texts(2)[of tk "the (batch_time ?e)" "queue_time ?e" "us @ [fin]"], of mk ms]
    by (simp only: wire_texts(1))
  show ?thesis
    by (rule bexI[OF _ d], unfold eq chat_completions_stream_def loop)
      (simp add: Let_def content_events_def token_default_def generated_text_default_def finish_reason_to_openai_def
        finish_reason_try_from_def)
qed

theorem engine_to_client_witness:
  "\<exists>s'. fold_outcome slow_output [(output_of 1 ''PREFILL'' False)\<lparr>new_token_ids := [4]\<rparr>, (output_of 1 ''DECODE'' True)\<lparr>new_token_ids := [5]\<rparr>]
     (completion_new\<lparr>cq_entries := [1 \<mapsto> batched_entry 1 [7]]\<rparr>) = Inr s' \<and>
     (\<exists>e'\<in>set (retired s'). entry_id e' = 1)"
proof -
  let ?outs = "[(output_of 1 ''PREFILL'' False)\<lparr>new_token_ids := [4]\<rparr>, (output_of 1 ''DECODE'' True)\<lparr>new_token_ids := [5]\<rparr>]"
  let ?s = "completion_new\<lparr>cq_entries := [1 \<mapsto> batched_entry 1 [7]]\<rparr>"
  obtain s' where r: "fold_outcome slow_output ?outs ?s = Inr s'"
    by (simp add: slow_output_def track_phase_def slow_known_def on_prefill_def on_decode_def send_resp_def chan_send_def
        on_finish_request_def output_of_def completion_new_def batched_entry_def example_entry_def Let_def)
  let ?us = "[(output_of 1 ''PREFILL'' False)\<lparr>new_token_ids := [4]\<rparr>]" and ?fin = "(output_of 1 ''DECODE'' True)\<lparr>new_token_ids := [5]\<rparr>"
  have "filter (\<lambda>out. request_id out = 1) ?outs = ?us @ [?fin]" "\<forall>out\<in>set ?us. \<not> is_finished out" "is_finished ?fin"
    "cq_entries ?s 1 = Some (batched_entry 1 [7])" "open_channel (batched_entry 1 [7])" "batch_time (batched_entry 1 [7]) \<noteq> None"
    "sent (response_tx (batched_entry 1 [7])) = []" "1 \<notin> set (cancel_req_ids ?s)"
    by (simp_all add: output_of_def completion_new_def open_channel_def batched_entry_def example_entry_def)
  from engine_to_client[OF r this] have "\<exists>e'\<in>set (retired s'). entry_id e' = entry_id (batched_entry 1 [7])" by blast
  moreover have "entry_id (batched_entry 1 [7]) = 1" by (simp add: batched_entry_def example_entry_def entry_id_def)
  ultimately show ?thesis using r by auto
qed

section \<open>A chat request\<close>

text \<open>C31: a chat request without \<^verbatim>\<open>max_tokens\<close> gets whatever its prompt leaves of the context: once
  validated, prompt and new tokens together are exactly the total limit (the default of 100 tokens of
  \<^verbatim>\<open>GenerateParameters\<close> does not apply); with \<^verbatim>\<open>max_tokens\<close> it gets what it asked for.\<close>

theorem chat_budget:
  assumes "tokenizer_ok tk" "resolve_limits a b c = Some (max_total_tokens cfg, max_input_length cfg)"
    "unat (max_total_tokens cfg) < 2 ^ 32"
    "validate (Some (prepare_input tk render)) cfg rng (chat_generate_request req) rid = (Inr r, rid')"
  shows "case cr_max_tokens req of Some m \<Rightarrow> max_new_tokens r = m
    | None \<Rightarrow> length (input_tokens r) + unat (max_new_tokens r) = unat (max_total_tokens cfg)"
proof -
  let ?g = "chat_generate_request req"
  note lt = resolve_limits_less[OF assms(2)]
  from assms(4) obtain ms s n ids where v:
    "prepare_input tk render (gr_inputs ?g) (gp_truncate (gr_parameters ?g)) (gr_chat_messages ?g) = Inr (ms, s, n, ids)"
    "n \<le> max_input_length cfg"
    "max_new_tokens r = or_default (gp_max_new_tokens (gr_parameters ?g)) (ucast (sat_sub (max_total_tokens cfg) n))"
    "input_tokens r = ids"
    by (rule validate_worker_Inr)
  have mx: "gp_max_new_tokens (gr_parameters ?g) = cr_max_tokens req" by (simp add: chat_generate_request_def)
  have "n \<le> max_total_tokens cfg" using v(2) lt by simp
  with default_new_tokens[OF this assms(3)] prepare_input_Inr[OF assms(1) v(1)] v(3,4) show ?thesis
    by (auto simp: mx or_default_def word_le_nat_alt split: option.split)
qed

definition demo_chat :: chat_completion_request where
  "demo_chat = \<lparr>cr_model = None, cr_messages = [\<lparr>role = ''user'', content = ''abc''\<rparr>], cr_temperature = None, cr_top_p = None,
     cr_max_tokens = None, cr_stream = None, cr_stop = None, cr_seed = None, cr_repetition_penalty = None\<rparr>"

theorem chat_budget_witness:
  "\<exists>r rid'. validate (Some (prepare_input demo_tokenizer render_none)) demo_limits 0 (chat_generate_request demo_chat) 5 = (Inr r, rid') \<and>
     length (input_tokens r) + unat (max_new_tokens r) = 10"
proof -
  obtain r rid' where r: "validate (Some (prepare_input demo_tokenizer render_none)) demo_limits 0 (chat_generate_request demo_chat) 5 = (Inr r, rid')"
    by (simp add: validate_def validate_params_def validate_input_def prepare_input_def reject_if_def check_or_def or_default_def
      demo_tokenizer_def demo_limits_def demo_chat_def chat_generate_request_def default_parameters_def render_none_def map_error_def
      sat_sub_def Let_def unat_word_ariths)
  have "resolve_limits (Some 10) None None = Some (max_total_tokens demo_limits, max_input_length demo_limits)"
    by (simp add: resolve_limits_def demo_limits_def sat_sub_def)
  from chat_budget[OF demo_tokenizer_ok this _ r] r show ?thesis by (simp add: demo_limits_def demo_chat_def)
qed

text \<open>
  The answer to a request that does not stream, made of the messages of the event loop, is an empty
  message, without tokens, that claims to have run into the length limit.
\<close>

lemma non_stream_answer_is_empty:
  assumes "generate rid req t0 ms = Inr (Inr r)" "\<forall>m\<in>set ms. \<exists>x. snd m = wire tk start queued x"
  shows "\<exists>h b. chat_completions_non_stream model created (Inr r) = Inr (h, b) \<and>
    cp_choices b = [\<lparr>cc_index = 0, cc_message = \<lparr>role = ''assistant'', content = ''''\<rparr>, cc_finish_reason = Some ''length''\<rparr>] \<and>
    cp_usage b = \<lparr>prompt_tokens = 0, completion_tokens = 0, total_tokens = 0\<rparr>"
  using generate_of_loop_is_empty[OF assms]
  by (simp add: chat_completions_non_stream_def Let_def generated_text_default_def finish_reason_to_openai_def finish_reason_try_from_def)

end
