(* ===== verification/EngineClients.thy ===== *)
theory EngineClients
  imports ChatApi
begin

text \<open>
  The clients of the inference engines behind the trait \<^verbatim>\<open>EngineClient\<close> (\<^verbatim>\<open>engine/client.rs\<close>): the
  HTTP and SSE client (\<^verbatim>\<open>engine/vllm_http.rs\<close>) and the ZMQ client (\<^verbatim>\<open>engine/zmq.rs\<close>). Sockets,
  HTTP and the encodings (\<^verbatim>\<open>serde_json\<close>, \<^verbatim>\<open>rmp_serde\<close>) are arguments: a stream is the list of what it
  yields, a request the outcome of its POST. The ZMQ adapter reads a field \<^verbatim>\<open>step_id\<close> that its message type
  lacks and leaves out \<^verbatim>\<open>prev_computed_tokens\<close>, so that feature does not compile; both are zero here.
\<close>

datatype engine_client_error =
    Http string
  | Sse string
  | Json string
  | Zmq string
  | Msgpack string
  | NotConnected
  | ApiError string
  | StreamEnded

section \<open>Messages of the HTTP engine\<close>

record vllm_request_status =
  vs_request_id :: u64
  vs_new_token_ids :: "u32 list"
  vs_state :: string
  vs_is_finished :: bool
  vs_hit_token_cnt :: u64
  vs_prev_computed_tokens :: u32

definition default_state :: string where
  "default_state = ''DECODE''"

record vllm_metric =
  vm_prefill_tokens :: usize
  vm_prefill_token_budget :: usize
  vm_latency :: u64
  vm_outputs :: "vllm_request_status list"
  vm_new_block_hashes :: "backend_block_hash list"
  vm_evicted_block_hashes :: "backend_block_hash list"
  vm_evicted_block_ids :: "u64 list"
  vm_cur_used_block_ids :: "u64 \<rightharpoonup> u64 list"
  vm_new_block_hashes_ids :: "u64 \<rightharpoonup> u64 list"
  vm_op_exec_log :: "string option"
  vm_preempted_ids :: "u64 list"
  vm_aborted_requests :: "u64 list"
  vm_step_id :: u64

definition vllm_output :: "vllm_request_status \<Rightarrow> request_step_output" where
  "vllm_output s = \<lparr>request_id = vs_request_id s, new_token_ids = vs_new_token_ids s, state = vs_state s,
     is_finished = vs_is_finished s, hit_token_cnt = vs_hit_token_cnt s, prev_computed_tokens = vs_prev_computed_tokens s\<rparr>"

definition vllm_metric_to_step_output :: "vllm_metric \<Rightarrow> engine_step_output" where
  "vllm_metric_to_step_output m =
     \<lparr>prefill_tokens = vm_prefill_tokens m, prefill_token_budget = vm_prefill_token_budget m, latency = vm_latency m,
      outputs = map vllm_output (vm_outputs m), new_block_hashes = vm_new_block_hashes m,
      evicted_block_hashes = vm_evicted_block_hashes m, evicted_block_ids = vm_evicted_block_ids m,
      cur_used_block_ids = vm_cur_used_block_ids m, new_block_hashes_ids = vm_new_block_hashes_ids m,
      op_exec_log = vm_op_exec_log m, preempted_ids = vm_preempted_ids m, aborted_requests = vm_aborted_requests m,
      step_id = vm_step_id m\<rparr>"

section \<open>The SSE stream\<close>

datatype sse_item = Connected nat | Event string | Comment string

type_synonym sse_stream = "(string + sse_item) list"

text \<open>
  \<^verbatim>\<open>ensure_sse_connected\<close>: \<open>init\<close> is the result of opening the stream; the connection is kept only
  when the first item is not an error.
\<close>

definition ensure_sse_connected ::
    "string + sse_stream \<Rightarrow> sse_stream option \<Rightarrow> (engine_client_error + unit) \<times> sse_stream option" where
  "ensure_sse_connected init st =
     (case st of
        Some _ \<Rightarrow> (Inr (), st)
      | None \<Rightarrow>
          (case init of
             Inl e \<Rightarrow> (Inl (Sse e), None)
           | Inr [] \<Rightarrow> (Inl StreamEnded, None)
           | Inr (Inl e # items) \<Rightarrow> (Inl (Sse (''SSE connection error: '' @ e)), None)
           | Inr (Inr (Connected status) # items) \<Rightarrow>
               if status \<noteq> 200 then (Inl (Sse (''SSE connection returned status '' @ decimal status)), None)
               else (Inr (), Some items)
           | Inr (Inr _ # items) \<Rightarrow> (Inr (), Some items)))"

text \<open>The loop of \<^verbatim>\<open>recv_step\<close>: comments and reconnections are skipped.\<close>

fun next_step :: "(string \<Rightarrow> string + vllm_metric) \<Rightarrow> sse_stream \<Rightarrow> (engine_client_error + engine_step_output) \<times> sse_stream" where
  "next_step parse [] = (Inl StreamEnded, [])"
| "next_step parse (Inl e # items) = (Inl (Sse (''SSE stream error: '' @ e)), items)"
| "next_step parse (Inr (Comment c) # items) = next_step parse items"
| "next_step parse (Inr (Connected s) # items) = next_step parse items"
| "next_step parse (Inr (Event d) # items) =
     (case parse d of
        Inl e \<Rightarrow> (Inl (Json (''Failed to parse SSE event data: '' @ e @ '' (raw: '' @ debug_string d @ '')'')), items)
      | Inr m \<Rightarrow> (Inr (vllm_metric_to_step_output m), items))"

definition recv_step ::
    "(string \<Rightarrow> string + vllm_metric) \<Rightarrow> string + sse_stream \<Rightarrow> sse_stream option \<Rightarrow>
       (engine_client_error + engine_step_output) \<times> sse_stream option" where
  "recv_step parse init st =
     (case ensure_sse_connected init st of
        (Inl e, st') \<Rightarrow> (Inl e, st')
      | (Inr _, None) \<Rightarrow> (Inl StreamEnded, None)
      | (Inr _, Some items) \<Rightarrow> map_prod id Some (next_step parse items))"

lemma next_step_shorter:
  "next_step parse items = (r, items') \<Longrightarrow> r \<noteq> Inl StreamEnded \<Longrightarrow> length items' < length items"
proof (induction parse items rule: next_step.induct)
  case (5 parse d items)
  then show ?case by (auto split: sum.splits)
qed (auto dest: less_SucI)

text \<open>
  How the completion loop treats what it receives: it leaves on the end of the stream and receives
  again after any other error. The steps the loop sees of one connection.
\<close>

function steps_of_stream :: "(string \<Rightarrow> string + vllm_metric) \<Rightarrow> sse_stream \<Rightarrow> engine_step_output list" where
  "steps_of_stream parse items =
     (case next_step parse items of
        (Inl StreamEnded, _) \<Rightarrow> []
      | (Inl _, items') \<Rightarrow> steps_of_stream parse items'
      | (Inr m, items') \<Rightarrow> m # steps_of_stream parse items')"
  by pat_completeness auto

termination
  by (relation "measure (length \<circ> snd)") (auto dest: next_step_shorter[OF sym])

declare steps_of_stream.simps [simp del]

section \<open>Sending over HTTP\<close>

record vllm_client =
  base_url :: string
  model_name :: string
  error_rx :: bool

definition vllm_client_new :: "string \<Rightarrow> string \<Rightarrow> vllm_client" where
  "vllm_client_new url model = \<lparr>base_url = url, model_name = model, error_rx = True\<rparr>"

definition get_error_rx :: "vllm_client \<Rightarrow> vllm_client outcome" where
  "get_error_rx c = (if error_rx c then Inr (c\<lparr>error_rx := False\<rparr>) else Inl ExpectFailed)"

definition vllm_client_clone :: "vllm_client \<Rightarrow> vllm_client outcome" where
  "vllm_client_clone c = (if error_rx c then Inl AssertFailed else Inr (c\<lparr>error_rx := False\<rparr>))"

definition take_step_receiver :: "vllm_client \<Rightarrow> (vllm_client \<times> sse_stream option) outcome" where
  "take_step_receiver c = map_sum id (\<lambda>inner. (inner, None)) (vllm_client_clone c)"

record request2vllm =
  rv_prompt :: "u32 list"
  rv_model :: string
  rv_stream :: bool
  rv_max_tokens :: "u32 option"
  rv_min_tokens :: "u32 option"
  rv_temperature :: "real option"

definition request2vllm_of :: "vllm_client \<Rightarrow> valid_generate_request \<Rightarrow> request2vllm" where
  "request2vllm_of c r = \<lparr>rv_prompt = input_tokens r, rv_model = model_name c, rv_stream = False,
     rv_max_tokens = Some (max_new_tokens r), rv_min_tokens = Some (max_new_tokens r), rv_temperature = None\<rparr>"

definition endpoint_url :: "vllm_client \<Rightarrow> string \<Rightarrow> string" where
  "endpoint_url c endpoint = base_url c @ ''/'' @ dropWhile (\<lambda>ch. ch = CHR ''/'') endpoint"

record http_post =
  post_url :: string
  post_request_id :: u64
  post_body :: request2vllm

datatype vllm_client_error = RequestError string | JsonError string | VllmApiError string

text \<open>
  The task that posts a request: \<open>reply\<close> is the status and the body (or the failure to read it).
  Every failure is told to the frontend through the error channel, \<open>errs\<close>.
\<close>

definition post_outcome ::
    "u64 \<Rightarrow> string + (nat \<times> (string + string)) \<Rightarrow> u64 list \<Rightarrow> (vllm_client_error + nat) \<times> u64 list" where
  "post_outcome rid reply errs =
     (case reply of
        Inr (status, body) \<Rightarrow>
          if \<not> (200 \<le> status \<and> status < 300)
          then (Inl (VllmApiError (case body of Inl _ \<Rightarrow> ''Unknown error'' | Inr t \<Rightarrow> t)), errs @ [rid])
          else (Inr status, errs)
      | Inl e \<Rightarrow> (Inl (RequestError e), errs @ [rid]))"

definition vllm_add_request :: "vllm_client \<Rightarrow> u64 \<Rightarrow> valid_generate_request \<Rightarrow> http_post" where
  "vllm_add_request c rid r =
     \<lparr>post_url = endpoint_url c ''/v1/completions'', post_request_id = rid, post_body = request2vllm_of c r\<rparr>"

definition metrics_url :: "vllm_client \<Rightarrow> string" where
  "metrics_url c = base_url c @ ''/v1/metrics''"

text \<open>\<^verbatim>\<open>VllmEngineClient::abort_request\<close> does nothing.\<close>

definition vllm_abort_request :: "u64 \<Rightarrow> engine_client_error + unit" where
  "vllm_abort_request rid = Inr ()"

section \<open>The ZMQ client\<close>

datatype request_type = AddRequest | AbortRequest | Profile

definition request_type_code :: "request_type \<Rightarrow> 8 word" where
  "request_type_code t = (case t of AddRequest \<Rightarrow> 0 | AbortRequest \<Rightarrow> 1 | Profile \<Rightarrow> 2)"

record sampling_params =
  sp_max_tokens :: u32
  sp_temperature :: real
  sp_top_p :: real
  sp_top_k :: int
  sp_repetition_penalty :: real
  sp_min_tokens :: u32
  sp_skip_special_tokens :: bool
  sp_include_stop_str_in_output :: bool
  sp_stop_token_ids :: "u32 list"
  sp_detokenize :: bool

definition sampling_params_default :: sampling_params where
  "sampling_params_default = \<lparr>sp_max_tokens = 256, sp_temperature = 0, sp_top_p = 1, sp_top_k = -1, sp_repetition_penalty = 1,
     sp_min_tokens = 0, sp_skip_special_tokens = True, sp_include_stop_str_in_output = False, sp_stop_token_ids = [],
     sp_detokenize = True\<rparr>"

text \<open>The fields for multimodal inputs and adapters are always empty and not modelled.\<close>

record engine_core_request =
  ec_request_id :: string
  ec_prompt_token_ids :: "u32 list"
  ec_sampling_params :: sampling_params
  ec_eos_token_id :: "u32 option"
  ec_arrival_time :: real

datatype core_finish_reason = FinLength | FinStop | FinAbort

record engine_core_output =
  eo_request_id :: string
  eo_new_token_ids :: "u32 list"
  eo_num_cached_tokens :: u32
  eo_state :: "string option"
  eo_finish_reason :: "core_finish_reason option"
  eo_new_text :: "string option"

record scheduler_stats =
  num_running_reqs :: u32
  num_waiting_reqs :: u32
  gpu_cache_usage :: real

record engine_core_outputs =
  es_outputs :: "engine_core_output list"
  es_latency :: "real option"
  es_scheduler_stats :: "scheduler_stats option"
  es_timestamp :: real
  es_prefill_token_budget :: "u32 option"
  es_prefill_tokens :: "u32 option"

datatype zmq_error = ZmqSocket string | MsgpackEncode string | MsgpackDecode string | ZmqNotConnected

definition from_zmq_error :: "zmq_error \<Rightarrow> engine_client_error" where
  "from_zmq_error e = (case e of
     ZmqSocket m \<Rightarrow> Zmq m | MsgpackEncode m \<Rightarrow> Msgpack m | MsgpackDecode m \<Rightarrow> Msgpack m | ZmqNotConnected \<Rightarrow> NotConnected)"

text \<open>
  The client: the messages (lists of frames) sent on the DEALER socket, the messages waiting on the
  PULL socket, when they are connected; the end of that list is the error of a closed socket.
\<close>

record zmq_client =
  input_socket :: "string list list option"
  output_socket :: "(string + string list) list option"
  input_addr :: "string option"
  output_addr :: "string option"

definition zmq_new :: zmq_client where
  "zmq_new = \<lparr>input_socket = None, output_socket = None, input_addr = None, output_addr = None\<rparr>"

definition zmq_connect ::
    "string + unit \<Rightarrow> string + (string + string list) list \<Rightarrow> string \<Rightarrow> string \<Rightarrow> zmq_client \<Rightarrow> (zmq_error + unit) \<times> zmq_client" where
  "zmq_connect dealer pull in_addr out_addr c =
     (case (dealer, pull) of
        (Inl e, _) \<Rightarrow> (Inl (ZmqSocket e), c)
      | (Inr _, Inl e) \<Rightarrow> (Inl (ZmqSocket e), c)
      | (Inr _, Inr msgs) \<Rightarrow>
          (Inr (), \<lparr>input_socket = Some [], output_socket = Some msgs, input_addr = Some in_addr, output_addr = Some out_addr\<rparr>))"

definition is_connected :: "zmq_client \<Rightarrow> bool" where
  "is_connected c \<longleftrightarrow> input_socket c \<noteq> None \<and> output_socket c \<noteq> None"

definition take_output_socket :: "zmq_client \<Rightarrow> (string + string list) list option \<times> zmq_client" where
  "take_output_socket c = (output_socket c, c\<lparr>output_socket := None\<rparr>)"

text \<open>
  A message of two frames, the type and the payload; the encodings of both and the result of the
  socket's send are arguments.
\<close>

definition zmq_send :: "(8 word \<Rightarrow> string + string) \<Rightarrow> request_type \<Rightarrow> string + string \<Rightarrow> string + unit \<Rightarrow> zmq_client \<Rightarrow>
    (zmq_error + unit) \<times> zmq_client" where
  "zmq_send enc_u8 t payload send c =
     (case input_socket c of
        None \<Rightarrow> (Inl ZmqNotConnected, c)
      | Some msgs \<Rightarrow>
          (case (enc_u8 (request_type_code t), payload) of
             (Inl e, _) \<Rightarrow> (Inl (MsgpackEncode e), c)
           | (Inr _, Inl e) \<Rightarrow> (Inl (MsgpackEncode e), c)
           | (Inr tb, Inr body) \<Rightarrow>
               (case send of
                  Inl e \<Rightarrow> (Inl (ZmqSocket e), c)
                | Inr _ \<Rightarrow> (Inr (), c\<lparr>input_socket := Some (msgs @ [[tb, body]])\<rparr>))))"

definition zmq_add_request ::
    "(8 word \<Rightarrow> string + string) \<Rightarrow> (engine_core_request \<Rightarrow> string + string) \<Rightarrow> string + unit \<Rightarrow> engine_core_request \<Rightarrow> zmq_client \<Rightarrow>
       (zmq_error + unit) \<times> zmq_client" where
  "zmq_add_request enc_u8 enc send r c = zmq_send enc_u8 AddRequest (enc r) send c"

definition zmq_abort_request ::
    "(8 word \<Rightarrow> string + string) \<Rightarrow> (string \<Rightarrow> string + string) \<Rightarrow> string + unit \<Rightarrow> string \<Rightarrow> zmq_client \<Rightarrow>
       (zmq_error + unit) \<times> zmq_client" where
  "zmq_abort_request enc_u8 enc send rid c = zmq_send enc_u8 AbortRequest (enc rid) send c"

definition recv_outputs ::
    "(string \<Rightarrow> string + engine_core_outputs) \<Rightarrow> zmq_client \<Rightarrow> (zmq_error + engine_core_outputs) \<times> zmq_client" where
  "recv_outputs dec c =
     (case output_socket c of
        None \<Rightarrow> (Inl ZmqNotConnected, c)
      | Some [] \<Rightarrow> (Inl (ZmqSocket ''closed''), c)
      | Some (msg # msgs) \<Rightarrow>
          (let c' = c\<lparr>output_socket := Some msgs\<rparr>
           in case msg of
                Inl e \<Rightarrow> (Inl (ZmqSocket e), c')
              | Inr [] \<Rightarrow> (Inl (MsgpackDecode ''Empty ZMQ message received''), c')
              | Inr (frame # _) \<Rightarrow> (map_error MsgpackDecode (dec frame), c')))"

definition default_ipc_addrs :: "16 word \<Rightarrow> string \<times> string" where
  "default_ipc_addrs port =
     (''ipc:///tmp/vllm-engine-'' @ show_word port @ ''-input'', ''ipc:///tmp/vllm-engine-'' @ show_word port @ ''-output'')"

definition default_tcp_addrs :: "string \<Rightarrow> 16 word \<Rightarrow> string \<times> string" where
  "default_tcp_addrs host port =
     (''tcp://'' @ host @ '':'' @ show_word port, ''tcp://'' @ host @ '':'' @ show_word (port + 1))"

section \<open>The adapter of the ZMQ client\<close>

definition valid_request_to_engine_core :: "real \<Rightarrow> u64 \<Rightarrow> valid_generate_request \<Rightarrow> engine_core_request" where
  "valid_request_to_engine_core now rid r =
     \<lparr>ec_request_id = show_word rid, ec_prompt_token_ids = input_tokens r,
      ec_sampling_params = sampling_params_default\<lparr>sp_max_tokens := max_new_tokens r, sp_temperature := 0,
        sp_min_tokens := max_new_tokens r\<rparr>,
      ec_eos_token_id = None, ec_arrival_time = now\<rparr>"

definition core_output :: "engine_core_output \<Rightarrow> request_step_output" where
  "core_output out =
     \<lparr>request_id = or_default (parse_u64 (eo_request_id out)) 0, new_token_ids = eo_new_token_ids out,
      state = or_default (eo_state out) ''DECODE'', is_finished = (eo_finish_reason out \<noteq> None),
      hit_token_cnt = ucast (eo_num_cached_tokens out), prev_computed_tokens = 0\<rparr>"

text \<open>\<^verbatim>\<open>(l * 1000.0) as u64\<close>: truncated, and clamped to the range.\<close>

definition millis :: "real \<Rightarrow> u64" where
  "millis l = (if l \<le> 0 then 0 else if 2 ^ 64 \<le> l * 1000 then - 1 else of_int \<lfloor>l * 1000\<rfloor>)"

definition core_outputs_to_step :: "engine_core_outputs \<Rightarrow> engine_step_output" where
  "core_outputs_to_step m = empty_step\<lparr>
     prefill_tokens := ucast (or_default (es_prefill_tokens m) 0),
     prefill_token_budget := ucast (or_default (es_prefill_token_budget m) 0),
     latency := (case es_latency m of None \<Rightarrow> 0 | Some l \<Rightarrow> millis l),
     outputs := map core_output (es_outputs m)\<rparr>"

text \<open>The adapter: the client and whether its error channel is still there.\<close>

record zmq_adapter =
  inner :: zmq_client
  adapter_error_rx :: bool

definition adapter_new :: "zmq_client \<Rightarrow> zmq_adapter" where
  "adapter_new c = \<lparr>inner = c, adapter_error_rx = True\<rparr>"

definition adapter_get_error_rx :: "zmq_adapter \<Rightarrow> zmq_adapter outcome" where
  "adapter_get_error_rx a = (if adapter_error_rx a then Inr (a\<lparr>adapter_error_rx := False\<rparr>) else Inl ExpectFailed)"

definition adapter_take_step_receiver :: "zmq_adapter \<Rightarrow> (zmq_adapter \<times> (string + string list) list) outcome" where
  "adapter_take_step_receiver a =
     (case take_output_socket (inner a) of
        (None, _) \<Rightarrow> Inl ExpectFailed
      | (Some socket, c) \<Rightarrow> Inr (a\<lparr>inner := c\<rparr>, socket))"

definition adapter_add_request ::
    "(8 word \<Rightarrow> string + string) \<Rightarrow> (engine_core_request \<Rightarrow> string + string) \<Rightarrow> string + unit \<Rightarrow> real \<Rightarrow> u64 \<Rightarrow>
       valid_generate_request \<Rightarrow> zmq_adapter \<Rightarrow> (engine_client_error + unit) \<times> zmq_adapter" where
  "adapter_add_request enc_u8 enc send now rid r a =
     (let (res, c) = zmq_add_request enc_u8 enc send (valid_request_to_engine_core now rid r) (inner a)
      in (map_error from_zmq_error res, a\<lparr>inner := c\<rparr>))"

definition adapter_abort_request ::
    "(8 word \<Rightarrow> string + string) \<Rightarrow> (string \<Rightarrow> string + string) \<Rightarrow> string + unit \<Rightarrow> u64 \<Rightarrow> zmq_adapter \<Rightarrow>
       (engine_client_error + unit) \<times> zmq_adapter" where
  "adapter_abort_request enc_u8 enc send rid a =
     (let (res, c) = zmq_abort_request enc_u8 enc send (show_word rid) (inner a)
      in (map_error from_zmq_error res, a\<lparr>inner := c\<rparr>))"

text \<open>The step receiver of the adapter, on the socket it has taken.\<close>

definition adapter_recv_step ::
    "(string \<Rightarrow> string + engine_core_outputs) \<Rightarrow> (string + string list) list \<Rightarrow>
       (engine_client_error + engine_step_output) \<times> (string + string list) list" where
  "adapter_recv_step dec socket =
     (case socket of
        [] \<Rightarrow> (Inl (Zmq ''closed''), [])
      | Inl e # msgs \<Rightarrow> (Inl (Zmq e), msgs)
      | Inr [] # msgs \<Rightarrow> (Inl (Zmq ''Empty ZMQ message received''), msgs)
      | Inr (frame # _) # msgs \<Rightarrow>
          (map_error Msgpack (obind (dec frame) (\<lambda>m. Inr (core_outputs_to_step m))), msgs))"

section \<open>Request ids survive the text protocol\<close>

text \<open>C33: the id of a request survives its trip through the text protocol of the ZMQ engine: the decimal id it
  is submitted under is read back, in any step that mentions it, as the same request, and an abort names it
  the same way; different requests never share an id.\<close>

theorem zmq_request_id_roundtrip:
  assumes "eo_request_id out = ec_request_id (valid_request_to_engine_core now rid r)"
  shows "request_id (core_output out) = rid \<and>
    (show_word rid' = ec_request_id (valid_request_to_engine_core now rid r) \<longleftrightarrow> rid' = rid)"
proof -
  have "show_word rid' = show_word rid \<longleftrightarrow> rid' = rid" for rid' :: u64
    by (metis option.inject parse_show)
  then show ?thesis using assms by (simp add: core_output_def valid_request_to_engine_core_def or_default_def)
qed

theorem zmq_request_id_roundtrip_witness:
  "request_id (core_output \<lparr>eo_request_id = ''907'', eo_new_token_ids = [], eo_num_cached_tokens = 0, eo_state = None,
     eo_finish_reason = None, eo_new_text = None\<rparr>) = 907"
proof -
  have "show_word (907 :: u64) = ''907''" by code_simp
  then show ?thesis
    using zmq_request_id_roundtrip[of "\<lparr>eo_request_id = ''907'', eo_new_token_ids = [], eo_num_cached_tokens = 0, eo_state = None,
      eo_finish_reason = None, eo_new_text = None\<rparr>" 0 907] by (simp add: valid_request_to_engine_core_def)
qed

section \<open>What the loop sees of an SSE stream\<close>

definition event_step :: "(string \<Rightarrow> string + vllm_metric) \<Rightarrow> string + sse_item \<Rightarrow> engine_step_output option" where
  "event_step parse x = (case x of
     Inr (Event d) \<Rightarrow> (case parse d of Inr m \<Rightarrow> Some (vllm_metric_to_step_output m) | Inl _ \<Rightarrow> None)
   | _ \<Rightarrow> None)"

lemma next_step_cons:
  "next_step parse (x # items) = (case x of
     Inl e \<Rightarrow> (Inl (Sse (''SSE stream error: '' @ e)), items)
   | Inr (Event d) \<Rightarrow> (case parse d of
        Inl e \<Rightarrow> (Inl (Json (''Failed to parse SSE event data: '' @ e @ '' (raw: '' @ debug_string d @ '')'')), items)
      | Inr m \<Rightarrow> (Inr (vllm_metric_to_step_output m), items))
   | _ \<Rightarrow> next_step parse items)"
  by (cases x rule: sum.exhaust) (auto split: sse_item.split)

text \<open>C32: of one connection to the HTTP engine the event loop sees exactly the events that decode, each once and
  in order: comments, reconnections, transport errors and undecodable events are skipped, and nothing but the
  end of the stream stops it.\<close>

theorem sse_steps_exact: "steps_of_stream parse items = List.map_filter (event_step parse) items"
proof (induction items)
  case Nil
  show ?case by (simp add: steps_of_stream.simps map_filter_simps)
next
  case (Cons x items)
  have skip: "steps_of_stream parse (x # items) = steps_of_stream parse items"
    if "next_step parse (x # items) = next_step parse items"
    by (subst (1 2) steps_of_stream.simps) (simp add: that)
  show ?case
  proof (cases "event_step parse x")
    case None
    have "steps_of_stream parse (x # items) = steps_of_stream parse items"
    proof (cases "next_step parse (x # items) = next_step parse items")
      case False
      with None obtain e where "next_step parse (x # items) = (Inl e, items)" "e \<noteq> StreamEnded"
        by (auto simp: next_step_cons event_step_def split: sum.splits sse_item.splits)
      then show ?thesis by (subst steps_of_stream.simps) (auto split: engine_client_error.split)
    qed (rule skip)
    then show ?thesis using Cons.IH None by (simp add: map_filter_simps)
  next
    case (Some m)
    then have "next_step parse (x # items) = (Inr m, items)"
      by (auto simp: next_step_cons event_step_def split: sum.splits sse_item.splits)
    then show ?thesis using Cons.IH Some by (subst steps_of_stream.simps) (simp add: map_filter_simps)
  qed
qed

section \<open>The contract of a client\<close>

text \<open>The work loop takes the error receiver, then the step receiver: a client of this contract lets it.\<close>

locale engine_client =
  fixes fresh :: "'c \<Rightarrow> bool" and get_rx :: "'c \<Rightarrow> 'c outcome" and take_rx :: "'c \<Rightarrow> ('c \<times> 'r) outcome"
  assumes get_once: "fresh c \<Longrightarrow> \<exists>c'. get_rx c = Inr c' \<and> get_rx c' = Inl ExpectFailed \<and> (\<exists>x. take_rx c' = Inr x)"
begin

lemma setup_total: "fresh c \<Longrightarrow> \<exists>c' r. obind (get_rx c) take_rx = Inr (c', r)"
  using get_once[of c] by fastforce

end

interpretation vllm: engine_client "\<lambda>c. error_rx c" get_error_rx take_step_receiver
  by unfold_locales (auto simp: get_error_rx_def take_step_receiver_def vllm_client_clone_def)

interpretation zmqc: engine_client "\<lambda>a. adapter_error_rx a \<and> is_connected (inner a)" adapter_get_error_rx adapter_take_step_receiver
  by unfold_locales (auto simp: adapter_get_error_rx_def adapter_take_step_receiver_def take_output_socket_def is_connected_def)

text \<open>What a backend reports is passed on output by output.\<close>

locale step_source =
  fixes to_step :: "'m \<Rightarrow> engine_step_output" and reports :: "'m \<Rightarrow> 's list" and
    rid_of :: "'s \<Rightarrow> u64" and tokens_of :: "'s \<Rightarrow> u32 list"
  assumes ids: "map request_id (outputs (to_step m)) = map rid_of (reports m)"
    and tokens: "map new_token_ids (outputs (to_step m)) = map tokens_of (reports m)"
begin

lemma outputs_distinct: "distinct (map rid_of (reports m)) \<Longrightarrow> distinct (map request_id (outputs (to_step m)))"
  by (simp add: ids)

lemma outputs_length: "length (outputs (to_step m)) = length (reports m)"
  using arg_cong[OF ids, of length] by simp

end

interpretation vllm_steps: step_source vllm_metric_to_step_output vm_outputs vs_request_id vs_new_token_ids
  by unfold_locales (simp_all add: vllm_metric_to_step_output_def vllm_output_def comp_def)

interpretation zmq_steps: step_source core_outputs_to_step es_outputs
    "\<lambda>out. or_default (parse_u64 (eo_request_id out)) 0" eo_new_token_ids
  by unfold_locales (simp_all add: core_outputs_to_step_def core_output_def comp_def)

text \<open>setting up a replica in the order of the work loop never panics, for a new HTTP client and for a new
  adapter of a connected ZMQ client, and leaves nothing to take a second time; the other order panics for the
  HTTP client.\<close>

theorem engine_setup_total:
  "(\<exists>x. obind (get_error_rx (vllm_client_new url model)) take_step_receiver = Inr x) \<and>
   take_step_receiver (vllm_client_new url model) = Inl AssertFailed \<and>
   (\<forall>c'. get_error_rx (vllm_client_new url model) = Inr c' \<longrightarrow> get_error_rx c' = Inl ExpectFailed) \<and>
   (is_connected c \<longrightarrow> (\<exists>a socket. obind (adapter_get_error_rx (adapter_new c)) adapter_take_step_receiver = Inr (a, socket) \<and>
      fst (recv_outputs dec (inner a)) = Inl ZmqNotConnected))"
proof (intro conjI impI allI)
  show "\<exists>x. obind (get_error_rx (vllm_client_new url model)) take_step_receiver = Inr x"
    using vllm.setup_total[of "vllm_client_new url model"] by (auto simp: vllm_client_new_def)
  show "take_step_receiver (vllm_client_new url model) = Inl AssertFailed"
    by (simp add: take_step_receiver_def vllm_client_clone_def vllm_client_new_def)
  show "get_error_rx c' = Inl ExpectFailed" if "get_error_rx (vllm_client_new url model) = Inr c'" for c'
    using vllm.get_once[of "vllm_client_new url model"] that by (auto simp: vllm_client_new_def)
  assume "is_connected c"
  then show "\<exists>a socket. obind (adapter_get_error_rx (adapter_new c)) adapter_take_step_receiver = Inr (a, socket) \<and>
      fst (recv_outputs dec (inner a)) = Inl ZmqNotConnected"
    by (auto simp: is_connected_def adapter_get_error_rx_def adapter_take_step_receiver_def take_output_socket_def adapter_new_def
        recv_outputs_def)
qed

theorem engine_setup_total_witness:
  "\<exists>a socket. obind (adapter_get_error_rx (adapter_new (snd (zmq_connect (Inr ()) (Inr []) ''i'' ''o'' zmq_new)))) adapter_take_step_receiver =
     Inr (a, socket)"
  using engine_setup_total[of "''u''" "''m''" "snd (zmq_connect (Inr ()) (Inr []) ''i'' ''o'' zmq_new)" "\<lambda>_. Inl ''''"]
  by (auto simp: zmq_connect_def is_connected_def)

section \<open>Failures and the event loop\<close>

lemma post_outcome_reports: "snd (post_outcome rid reply errs) = (case fst (post_outcome rid reply errs) of Inl _ \<Rightarrow> errs @ [rid] | Inr _ \<Rightarrow> errs)"
  by (auto simp: post_outcome_def split: sum.split prod.split)

text \<open>
  A request is posted before its entry reaches the completion loop. When the post fails while the loop
  is in the middle of a turn, the loop finds the error of a request it does not know and panics.
\<close>

lemma early_fault_panics:
  assumes "cq_entries s rid = None" "rid \<notin> set (skipped_fault s)"
  shows "on_backend_fault (snd (post_outcome rid (Inl ''connection refused'') [])) s = Inl ExpectFailed"
  using assms by (simp add: on_backend_fault_def fault_one_def post_outcome_def)

text \<open>The state the engine core documents for a running request stops the event loop.\<close>

lemma zmq_running_panics:
  "fast_output xxh dt (core_output \<lparr>eo_request_id = rid, eo_new_token_ids = toks, eo_num_cached_tokens = n, eo_state = Some ''RUNNING'',
     eo_finish_reason = None, eo_new_text = None\<rparr>) sd = Inl ExplicitPanic"
  by (simp add: fast_output_def core_output_def or_default_def)

end
