(* ===== verification/Startup.thy ===== *)
theory Startup
  imports EngineClients Simulator
begin

text \<open>
  Start-up: \<^verbatim>\<open>main.rs\<close> from the options to the arguments of \<^verbatim>\<open>server::run\<close>, the policy parameters of
  \<^verbatim>\<open>scheduler/state.rs\<close> it installs, \<^verbatim>\<open>gateway/model_config.rs\<close>, the loader of
  \<^verbatim>\<open>gateway/chat_template.rs\<close> and the \<^verbatim>\<open>/info\<close> endpoint. What is read from outside (files, the JSON
  parser, the Python renderer, the model hub) is a record of arguments. The backend is the HTTP engine. Logging,
  CORS, ngrok and the statistics path are not modelled.
\<close>

section \<open>JSON values\<close>

text \<open>\<^verbatim>\<open>serde_json::Value\<close>; an object keeps one value per key.\<close>

datatype json =
    JNull
  | JBool bool
  | JInt int
  | JFloat real
  | JString string
  | JArray "json list"
  | JObject "(string \<times> json) list"

definition json_get :: "json \<Rightarrow> string \<Rightarrow> json option" where
  "json_get j k = (case j of JObject kvs \<Rightarrow> map_of kvs k | _ \<Rightarrow> None)"

definition json_index :: "json \<Rightarrow> string \<Rightarrow> json" where
  "json_index j k = (case json_get j k of None \<Rightarrow> JNull | Some v \<Rightarrow> v)"

definition as_str :: "json \<Rightarrow> string option" where
  "as_str j = (case j of JString s \<Rightarrow> Some s | _ \<Rightarrow> None)"

definition as_u64 :: "json \<Rightarrow> u64 option" where
  "as_u64 j = (case j of JInt i \<Rightarrow> if 0 \<le> i \<and> i < 2 ^ 64 then Some (of_int i) else None | _ \<Rightarrow> None)"

section \<open>The chat template\<close>

text \<open>The loop over an array of templates: the first one named \<^verbatim>\<open>default\<close> that has a template text.\<close>

fun default_template :: "json list \<Rightarrow> string option" where
  "default_template [] = None"
| "default_template (item # rest) =
     (if Option.bind (json_get item ''name'') as_str = Some ''default''
      then case Option.bind (json_get item ''template'') as_str of
             Some tmpl \<Rightarrow> Some tmpl
           | None \<Rightarrow> default_template rest
      else default_template rest)"

text \<open>\<open>path\<close> is the path of the file as displayed, \<open>file\<close> what reading it gives.\<close>

definition load_chat_template :: "string \<Rightarrow> string + string \<Rightarrow> (string \<Rightarrow> string + json) \<Rightarrow> string + string" where
  "load_chat_template path file parse =
     obind (map_error (\<lambda>e. ''Cannot read '' @ path @ '': '' @ e) file) (\<lambda>txt.
     obind (map_error (\<lambda>e. ''Invalid JSON in '' @ path @ '': '' @ e) (parse txt)) (\<lambda>j.
       case json_index j ''chat_template'' of
         JString s \<Rightarrow> Inr s
       | JArray (first # rest) \<Rightarrow>
           (case default_template (first # rest) of
              Some tmpl \<Rightarrow> Inr tmpl
            | None \<Rightarrow>
                (case Option.bind (json_get first ''template'') as_str of
                   Some s \<Rightarrow> Inr s
                 | None \<Rightarrow> Inl (path @ '': chat_template array entry has no '' @ [char_of (39 :: nat)] @ ''template'' @
                     [char_of (39 :: nat)] @ '' field'')))
       | _ \<Rightarrow> Inl (path @ '' has no chat_template field'')))"

section \<open>The model configuration\<close>

record model_config =
  max_position_embeddings :: usize
  model_type :: string

definition load_model_config :: "string + string \<Rightarrow> (string \<Rightarrow> string + json) \<Rightarrow> model_config option" where
  "load_model_config file parse =
     (case file of
        Inl _ \<Rightarrow> None
      | Inr txt \<Rightarrow>
          (case parse txt of
             Inl _ \<Rightarrow> None
           | Inr j \<Rightarrow>
               (case as_u64 (json_index j ''max_position_embeddings'') of
                  None \<Rightarrow> None
                | Some v \<Rightarrow> Some \<lparr>max_position_embeddings = v,
                    model_type = or_default (as_str (json_index j ''model_type'')) ''unknown''\<rparr>)))"

section \<open>Policy parameters\<close>

text \<open>The once-cells of \<^verbatim>\<open>scheduler/state.rs\<close>; setting one twice keeps the first value.\<close>

record policy_params =
  bailian_alpha :: "real option"
  bailian_beta :: "real option"
  bailian_gamma :: "real option"
  preble_match_ratio_t :: "real option"
  preble_window_secs :: "u64 option"
  preble_idle_tps :: "real option"

definition no_params :: policy_params where
  "no_params = \<lparr>bailian_alpha = None, bailian_beta = None, bailian_gamma = None, preble_match_ratio_t = None,
     preble_window_secs = None, preble_idle_tps = None\<rparr>"

definition once_set :: "'a \<Rightarrow> 'a option \<Rightarrow> 'a option" where
  "once_set v cell = (case cell of None \<Rightarrow> Some v | Some w \<Rightarrow> Some w)"

definition init_bailian_params :: "real \<Rightarrow> real \<Rightarrow> real \<Rightarrow> policy_params \<Rightarrow> policy_params" where
  "init_bailian_params a b c p = p\<lparr>bailian_alpha := once_set a (bailian_alpha p),
     bailian_beta := once_set b (bailian_beta p), bailian_gamma := once_set c (bailian_gamma p)\<rparr>"

definition init_preble_params :: "real \<Rightarrow> u64 \<Rightarrow> policy_params \<Rightarrow> policy_params" where
  "init_preble_params t secs p = p\<lparr>preble_match_ratio_t := once_set t (preble_match_ratio_t p),
     preble_window_secs := once_set secs (preble_window_secs p)\<rparr>"

definition init_preble_idle_tps :: "real \<Rightarrow> policy_params \<Rightarrow> policy_params" where
  "init_preble_idle_tps r p = p\<lparr>preble_idle_tps := once_set r (preble_idle_tps p)\<rparr>"

section \<open>Options and environment\<close>

record args =
  arg_max_concurrent_requests :: usize
  arg_max_best_of :: usize
  arg_max_stop_sequences :: usize
  arg_max_top_n_tokens :: u32
  arg_max_input_length :: "usize option"
  arg_max_total_tokens :: "usize option"
  arg_bailian_alpha :: real
  arg_bailian_beta :: real
  arg_bailian_gamma :: real
  arg_preble_match_ratio_threshold :: real
  arg_preble_window_secs :: u64
  arg_preble_idle_tps :: real
  arg_hostname :: string
  arg_port :: "16 word"
  arg_client_config :: string
  arg_tokenizer_name :: string
  arg_use_tokenizer :: bool
  arg_revision :: "string option"
  arg_validation_workers :: usize
  arg_json_output :: bool
  arg_otlp_endpoint :: "string option"
  arg_cors_allow_origin :: "string list option"
  arg_ngrok :: bool
  arg_ngrok_authtoken :: "string option"
  arg_ngrok_edge :: "string option"
  arg_log_path :: "string option"
  arg_statistic_path :: "string option"
  arg_model_name :: string
  arg_kvcache_block_size :: usize
  arg_chat_template_mode :: string
  arg_enable_simulator :: bool
  arg_simulator_cache_dir :: string
  arg_simulator_model_hash :: string
  arg_simulator_num_layers :: usize
  arg_simulator_moe :: bool
  arg_simulator_learning_rate :: real
  arg_simulator_outlier_threshold_ms :: real

text \<open>The defaults of the command line; the file of addresses and the model's name have none.\<close>

definition default_args :: "string \<Rightarrow> string \<Rightarrow> args" where
  "default_args config name = \<lparr>arg_max_concurrent_requests = 128, arg_max_best_of = 2, arg_max_stop_sequences = 4, arg_max_top_n_tokens = 5,
     arg_max_input_length = None, arg_max_total_tokens = None, arg_bailian_alpha = 7 / 10, arg_bailian_beta = 15 / 100,
     arg_bailian_gamma = 15 / 100, arg_preble_match_ratio_threshold = 1 / 2, arg_preble_window_secs = 180,
     arg_preble_idle_tps = 120, arg_hostname = ''0.0.0.0'', arg_port = 3000, arg_client_config = config, arg_tokenizer_name = ''bigscience/bloom'',
     arg_use_tokenizer = False, arg_revision = None, arg_validation_workers = 2, arg_json_output = False,
     arg_otlp_endpoint = None, arg_cors_allow_origin = None, arg_ngrok = False, arg_ngrok_authtoken = None, arg_ngrok_edge = None,
     arg_log_path = None, arg_statistic_path = None, arg_model_name = name, arg_kvcache_block_size = 16,
     arg_chat_template_mode = ''none'', arg_enable_simulator = False, arg_simulator_cache_dir = ''/nvme/zkx/Modified_vidur/cache'',
     arg_simulator_model_hash = ''9f4b3b9a'', arg_simulator_num_layers = 28, arg_simulator_moe = False,
     arg_simulator_learning_rate = 1 / 1000000, arg_simulator_outlier_threshold_ms = 10000\<rparr>"

record hub_model_info =
  hub_model_id :: string
  hub_sha :: "string option"
  hub_pipeline_tag :: "string option"

text \<open>
  What the process finds: whether the tokenizer's name is a directory, its tokenizer (\<open>None\<close>: not
  loadable), its \<^verbatim>\<open>config.json\<close>, the result of starting the Python renderer, the file of engine addresses by its name
  (\<open>None\<close>: unreadable) and its decoder, the simulator's tables, the answers of the model hub to a URL and a token (\<open>None\<close>: no
  answer, else the status and the decoded body), its token, the parser of addresses and the build features.
\<close>

record environment =
  env_local_model :: bool
  env_tokenizer :: "tokenizer option"
  env_config_json :: "string + string"
  env_parse_json :: "string \<Rightarrow> string + json"
  env_python_renderer :: "string + (chat_message list \<Rightarrow> validation_error + string)"
  env_client_config :: "string \<Rightarrow> string option"
  env_parse_uris :: "string \<Rightarrow> string list option"
  env_parse_f32 :: "string \<Rightarrow> real option"
  env_files :: file_system
  env_hub :: "string \<Rightarrow> string option \<Rightarrow> (nat \<times> hub_model_info option) option"
  env_hub_token :: "string option"
  env_parse_ip :: "string \<Rightarrow> string option"
  feature_simulator :: bool
  feature_python :: bool
  feature_bailian :: bool
  feature_preble :: bool
  feature_preble_tps :: bool

datatype router_error = ArgumentValidation string | Tokio string | Axum string

text \<open>The payload of \<^verbatim>\<open>/info\<close>; the fields of the shard are always empty, the last three are constants of the build.\<close>

record info =
  in_model_id :: string
  in_model_sha :: "string option"
  in_model_dtype :: string
  in_model_device_type :: string
  in_model_pipeline_tag :: "string option"
  in_max_concurrent_requests :: usize
  in_max_best_of :: usize
  in_max_stop_sequences :: usize
  in_max_input_length :: usize
  in_max_total_tokens :: usize
  in_validation_workers :: usize
  in_version :: string
  in_sha :: "string option"
  in_docker_label :: "string option"

record server =
  srv_limits :: validation
  srv_worker :: "worker option"
  srv_tokenizer :: "tokenizer option"
  srv_max_concurrent_requests :: usize
  srv_engines :: "vllm_client list"
  srv_block_size :: usize
  srv_addr :: "string \<times> 16 word"
  srv_model_info :: hub_model_info
  srv_validation_workers :: usize
  srv_simulator :: "runtime option"
  srv_params :: policy_params

section \<open>The steps of main\<close>

definition install_params :: "args \<Rightarrow> environment \<Rightarrow> policy_params" where
  "install_params a env =
     (let p1 = (if feature_bailian env
                then init_bailian_params (arg_bailian_alpha a) (arg_bailian_beta a) (arg_bailian_gamma a) no_params else no_params);
          p2 = (if feature_preble env
                then init_preble_params (arg_preble_match_ratio_threshold a) (arg_preble_window_secs a) p1 else p1)
      in if feature_preble_tps env then init_preble_idle_tps (arg_preble_idle_tps a) p2 else p2)"

definition load_tokenizer :: "args \<Rightarrow> environment \<Rightarrow> (router_error + tokenizer option) outcome" where
  "load_tokenizer a env =
     (if arg_use_tokenizer a
      then if env_local_model env
           then case env_tokenizer env of None \<Rightarrow> Inl ExpectFailed | Some tk \<Rightarrow> Inr (Inr (Some tk))
           else Inr (Inl (ArgumentValidation (''Tokenizer path does not exist: '' @ arg_tokenizer_name a)))
      else Inr (Inr None))"

definition quoted :: "string \<Rightarrow> string" where
  "quoted s = [char_of (39 :: nat)] @ s @ [char_of (39 :: nat)]"

definition chat_renderer :: "args \<Rightarrow> environment \<Rightarrow> router_error + (chat_message list \<Rightarrow> validation_error + string)" where
  "chat_renderer a env =
     (if arg_chat_template_mode a = ''none'' then Inr render_none
      else if arg_chat_template_mode a = ''python''
      then if \<not> feature_python env
           then Inl (ArgumentValidation ''chat_template_mode=python requires building with --features python-chat-template'')
           else if \<not> env_local_model env
           then Inl (ArgumentValidation ''chat_template_mode=python requires a valid --tokenizer-name path'')
           else map_error (\<lambda>e. ArgumentValidation (''Failed to initialize Python chat template renderer: '' @ e)) (env_python_renderer env)
      else Inl (ArgumentValidation (''Invalid chat_template_mode: '' @ quoted (arg_chat_template_mode a) @
             ''. Must be '' @ quoted ''none'' @ '' or '' @ quoted ''python'')))"

text \<open>The model hub is asked for the revision, \<^verbatim>\<open>main\<close> when none is given, with slashes encoded.\<close>

definition hub_url :: "string \<Rightarrow> string option \<Rightarrow> string" where
  "hub_url model revision =
     ''https://huggingface.co/api/models/'' @ model @ ''/revision/'' @
     concat (map (\<lambda>ch. if ch = CHR ''/'' then ''%2F'' else [ch]) (or_default revision ''main''))"

definition get_model_info :: "environment \<Rightarrow> string \<Rightarrow> string option \<Rightarrow> string option \<Rightarrow> hub_model_info option" where
  "get_model_info env model revision tok =
     (case env_hub env (hub_url model revision) tok of
        None \<Rightarrow> None
      | Some (status, body) \<Rightarrow> if 200 \<le> status \<and> status < 300 then body else None)"

definition model_info :: "args \<Rightarrow> environment \<Rightarrow> hub_model_info" where
  "model_info a env =
     (let plain = \<lparr>hub_model_id = arg_tokenizer_name a, hub_sha = None, hub_pipeline_tag = None\<rparr>
      in if env_local_model env then plain
         else or_default (get_model_info env (arg_tokenizer_name a) (arg_revision a) (env_hub_token env)) plain)"

text \<open>The engine clients; a missing or malformed file is a panic.\<close>

definition connect_engines :: "args \<Rightarrow> environment \<Rightarrow> vllm_client list outcome" where
  "connect_engines a env =
     (case Option.bind (env_client_config env (arg_client_config a)) (env_parse_uris env) of
        None \<Rightarrow> Inl ExpectFailed
      | Some uris \<Rightarrow> Inr (map (\<lambda>uri. vllm_client_new uri (arg_model_name a)) uris))"

definition simulator_config_of :: "args \<Rightarrow> simulator_config" where
  "simulator_config_of a = simulator_config_default\<lparr>cf_cache_dir := arg_simulator_cache_dir a,
     model_hash := arg_simulator_model_hash a, num_layers := arg_simulator_num_layers a,
     cf_model_kind := (if arg_simulator_moe a then Moe else Llama), cf_learning_rate := arg_simulator_learning_rate a,
     outlier_threshold_ms := arg_simulator_outlier_threshold_ms a, cf_block_size := arg_kvcache_block_size a\<rparr>"

definition start_simulator :: "args \<Rightarrow> environment \<Rightarrow> nat \<Rightarrow> router_error + runtime option" where
  "start_simulator a env n =
     (if \<not> arg_enable_simulator a then Inr None
      else if feature_simulator env
      then (case init_vidur_rf (env_parse_f32 env) (env_files env) n (simulator_config_of a) None of
              (Inl e, _) \<Rightarrow> Inl (ArgumentValidation (''simulator init failed: '' @ e))
            | (Inr _, sim) \<Rightarrow> Inr sim)
      else Inl (ArgumentValidation ''--enable-simulator requires --features simulator at build time''))"

definition server_addr :: "args \<Rightarrow> environment \<Rightarrow> string \<times> 16 word" where
  "server_addr a env = (or_default (env_parse_ip env (arg_hostname a)) ''0.0.0.0'', arg_port a)"

definition scale_concurrency :: "usize \<Rightarrow> nat \<Rightarrow> usize" where
  "scale_concurrency requested num_engines = (if requested = 128 then of_nat num_engines * 64 else requested)"

text \<open>\<^verbatim>\<open>main\<close> up to the call of \<^verbatim>\<open>server::run\<close>, whose first step builds the validation.\<close>

definition startup :: "args \<Rightarrow> environment \<Rightarrow> (router_error + server) outcome" where
  "startup a env =
     (if arg_validation_workers a = 0 then Inr (Inl (ArgumentValidation ''`validation_workers` must be > 0''))
      else obind (load_tokenizer a env) (\<lambda>tokenizer_result.
        case obind tokenizer_result (\<lambda>tk. obind (chat_renderer a env) (\<lambda>render. Inr (tk, render))) of
          Inl err \<Rightarrow> Inr (Inl err)
        | Inr (tk, render) \<Rightarrow>
            obind (connect_engines a env) (\<lambda>engines.
              Inr (obind (start_simulator a env (length engines)) (\<lambda>sim.
                case resolve_limits (arg_max_total_tokens a) (arg_max_input_length a)
                       (map_option max_position_embeddings (load_model_config (env_config_json env) (env_parse_json env))) of
                  None \<Rightarrow> Inl (ArgumentValidation ''`max_input_length` must be < `max_total_tokens`'')
                | Some (mt, mi) \<Rightarrow>
                    Inr \<lparr>srv_limits = \<lparr>max_best_of = arg_max_best_of a, max_stop_sequences = arg_max_stop_sequences a,
                           max_top_n_tokens = arg_max_top_n_tokens a, max_input_length = mi, max_total_tokens = mt\<rparr>,
                         srv_worker = map_option (\<lambda>t. prepare_input t render) tk, srv_tokenizer = tk,
                         srv_max_concurrent_requests = scale_concurrency (arg_max_concurrent_requests a) (length engines),
                         srv_engines = engines, srv_block_size = arg_kvcache_block_size a, srv_addr = server_addr a env,
                         srv_model_info = model_info a env, srv_validation_workers = arg_validation_workers a,
                         srv_simulator = sim, srv_params = install_params a env\<rparr>)))))"

text \<open>The answer of \<^verbatim>\<open>/info\<close>, whose model id is also the default model name of the chat endpoint.\<close>

definition info_of :: "string \<Rightarrow> string option \<Rightarrow> string option \<Rightarrow> server \<Rightarrow> info" where
  "info_of version sha docker_label srv = \<lparr>in_model_id = hub_model_id (srv_model_info srv), in_model_sha = hub_sha (srv_model_info srv), in_model_dtype = '''',
     in_model_device_type = '''', in_model_pipeline_tag = hub_pipeline_tag (srv_model_info srv),
     in_max_concurrent_requests = srv_max_concurrent_requests srv, in_max_best_of = max_best_of (srv_limits srv),
     in_max_stop_sequences = max_stop_sequences (srv_limits srv), in_max_input_length = max_input_length (srv_limits srv),
     in_max_total_tokens = max_total_tokens (srv_limits srv), in_validation_workers = srv_validation_workers srv,
     in_version = version, in_sha = sha, in_docker_label = docker_label\<rparr>"

section \<open>Properties\<close>

lemma load_chat_template_array:
  assumes "parse txt = Inr j" "json_index j ''chat_template'' = JArray (first # rest)"
  shows "load_chat_template path (Inr txt) parse =
    (case filter (\<lambda>t. t \<noteq> None) (map (\<lambda>item. Option.bind (json_get item ''template'') as_str)
        (filter (\<lambda>item. Option.bind (json_get item ''name'') as_str = Some ''default'') (first # rest))) of
       Some tmpl # _ \<Rightarrow> Inr tmpl
     | _ \<Rightarrow> (case Option.bind (json_get first ''template'') as_str of
         Some s \<Rightarrow> Inr s
       | None \<Rightarrow> Inl (path @ '': chat_template array entry has no '' @ quoted ''template'' @ '' field'')))"
proof -
  have "default_template items = (case filter (\<lambda>t. t \<noteq> None) (map (\<lambda>item. Option.bind (json_get item ''template'') as_str)
      (filter (\<lambda>item. Option.bind (json_get item ''name'') as_str = Some ''default'') items)) of t # _ \<Rightarrow> t | [] \<Rightarrow> None)" for items
    by (induction items) (auto split: option.splits)
  note * = this[of "first # rest"]
  let ?l = "filter (\<lambda>t. t \<noteq> None) (map (\<lambda>item. Option.bind (json_get item ''template'') as_str)
      (filter (\<lambda>item. Option.bind (json_get item ''name'') as_str = Some ''default'') (first # rest)))"
  have "\<forall>t\<in>set ?l. t \<noteq> None" by auto
  then show ?thesis unfolding load_chat_template_def using assms *
    by (cases ?l) (auto simp: map_error_def quoted_def split: option.splits)
qed

lemma startup_Inr:
  assumes "startup a env = Inr (Inr srv)"
  obtains tk render where "arg_validation_workers a \<noteq> 0" "load_tokenizer a env = Inr (Inr tk)" "chat_renderer a env = Inr render"
    "connect_engines a env = Inr (srv_engines srv)" "start_simulator a env (length (srv_engines srv)) = Inr (srv_simulator srv)"
    "resolve_limits (arg_max_total_tokens a) (arg_max_input_length a)
       (map_option max_position_embeddings (load_model_config (env_config_json env) (env_parse_json env))) =
       Some (max_total_tokens (srv_limits srv), max_input_length (srv_limits srv))"
    "srv_worker srv = map_option (\<lambda>t. prepare_input t render) tk" "srv_tokenizer srv = tk"
    "srv_max_concurrent_requests srv = scale_concurrency (arg_max_concurrent_requests a) (length (srv_engines srv))"
    "srv_block_size srv = arg_kvcache_block_size a"
  using assms unfolding startup_def obind_def
  by (auto split: if_splits sum.splits option.splits)

lemma startup_measured:
  assumes "startup a env = Inr (Inr srv)" "arg_use_tokenizer a" "\<forall>tk. env_tokenizer env = Some tk \<longrightarrow> tokenizer_ok tk"
    "unat (max_total_tokens (srv_limits srv)) < 2 ^ 32"
  shows "measured (srv_worker srv) (srv_limits srv)"
proof -
  from assms(1) obtain tk render where st: "load_tokenizer a env = Inr (Inr tk)"
    "resolve_limits (arg_max_total_tokens a) (arg_max_input_length a)
       (map_option max_position_embeddings (load_model_config (env_config_json env) (env_parse_json env))) =
       Some (max_total_tokens (srv_limits srv), max_input_length (srv_limits srv))"
    "srv_worker srv = map_option (\<lambda>t. prepare_input t render) tk"
    by (rule startup_Inr)
  have "tk = env_tokenizer env" "env_tokenizer env \<noteq> None"
    using st(1) assms(2) by (cases "env_tokenizer env"; simp add: load_tokenizer_def split: if_splits)+
  with assms(3) obtain t where "tk = Some t" "tokenizer_ok t" by (cases tk) auto
  with st assms(4) show ?thesis unfolding measured_def by auto
qed

lemma start_simulator_ok:
  assumes "start_simulator a env n = Inr sim"
  shows "if arg_enable_simulator a then sim_inv n (\<lambda>_. {}) sim else sim = None"
proof -
  have "\<lbrakk>init_vidur_rf pf files n cfg None = (Inr u, sim)\<rbrakk> \<Longrightarrow> sim_inv n (\<lambda>_. {}) sim" for pf files cfg u
    by (cases "vidur_new pf files cfg") (auto simp: init_vidur_rf_def dest: sim_inv_init)
  then show ?thesis using assms by (auto simp: start_simulator_def split: if_splits prod.splits sum.splits)
qed

text \<open>C26: a server that starts is consistent with what it was given: the context is the one asked for, else that
  of the model's configuration, else 2048; the input limit is below it; every engine has a client that has
  not given away its error channel, and the simulator, when asked for, tracks one idle context per engine.
  With a block size other than 0, whatever clients then do, nothing panics at the front, at most the
  configured number of streams is open, and, with a tokenizer whose answers are as documented and a context
  below \<open>2 ^ 32\<close>, every request handed to the scheduler fits into the context with its generation. A block
  size of 0 is accepted too: then, if any stream is allowed at all, the first valid request panics.\<close>

theorem started_server:
  assumes "startup a env = Inr (Inr srv)"
  shows "max_total_tokens (srv_limits srv) =
      (case (arg_max_total_tokens a, load_model_config (env_config_json env) (env_parse_json env)) of
         (Some n, _) \<Rightarrow> n | (None, Some mc) \<Rightarrow> max_position_embeddings mc | (None, None) \<Rightarrow> 2048) \<and>
    max_input_length (srv_limits srv) < max_total_tokens (srv_limits srv) \<and>
    (\<forall>c\<in>set (srv_engines srv). error_rx c \<and> model_name c = arg_model_name a) \<and>
    (if arg_enable_simulator a then sim_inv (length (srv_engines srv)) (\<lambda>_. {}) (srv_simulator srv) else srv_simulator srv = None) \<and>
    (arg_kvcache_block_size a \<noteq> 0 \<longrightarrow>
       (\<exists>s k. fold_outcome (front_step xxh (unat (srv_block_size srv)) (srv_worker srv) (srv_limits srv)) evs
          (infer_new (unat (srv_max_concurrent_requests srv)), 0) = Inr (s, k) \<and>
        k \<le> unat (srv_max_concurrent_requests srv) \<and>
        (arg_use_tokenizer a \<and> (\<forall>tk. env_tokenizer env = Some tk \<longrightarrow> tokenizer_ok tk) \<and>
           unat (max_total_tokens (srv_limits srv)) < 2 ^ 32 \<longrightarrow> (\<forall>e\<in>set (appended s). fits_context (srv_limits srv) e)))) \<and>
    (arg_kvcache_block_size a = 0 \<and> fst (validate (srv_worker srv) (srv_limits srv) rng req 0) = Inr r \<and>
       srv_max_concurrent_requests srv \<noteq> 0 \<longrightarrow>
       generate_stream xxh (unat (srv_block_size srv)) (srv_worker srv) (srv_limits srv) rng now m req
         (infer_new (unat (srv_max_concurrent_requests srv))) = Inl ExplicitPanic)"
proof -
  from assms obtain tk render where st: "connect_engines a env = Inr (srv_engines srv)"
    "start_simulator a env (length (srv_engines srv)) = Inr (srv_simulator srv)"
    "resolve_limits (arg_max_total_tokens a) (arg_max_input_length a)
       (map_option max_position_embeddings (load_model_config (env_config_json env) (env_parse_json env))) =
       Some (max_total_tokens (srv_limits srv), max_input_length (srv_limits srv))"
    "srv_block_size srv = arg_kvcache_block_size a"
    by (rule startup_Inr)
  show ?thesis
  proof (intro conjI impI)
    show "max_total_tokens (srv_limits srv) =
      (case (arg_max_total_tokens a, load_model_config (env_config_json env) (env_parse_json env)) of
         (Some n, _) \<Rightarrow> n | (None, Some mc) \<Rightarrow> max_position_embeddings mc | (None, None) \<Rightarrow> 2048)"
      using st(3) by (auto simp: resolve_limits_def Let_def split: option.splits if_splits)
    show "\<forall>c\<in>set (srv_engines srv). error_rx c \<and> model_name c = arg_model_name a"
      using st(1) by (auto simp: connect_engines_def vllm_client_new_def simp del: map_eq_conv split: option.splits dest!: sym[of "map _ _"])
    assume "arg_kvcache_block_size a \<noteq> 0"
    then have pos: "0 < unat (srv_block_size srv)" using st(4) by (simp add: unat_gt_0)
    show "\<exists>s k. fold_outcome (front_step xxh (unat (srv_block_size srv)) (srv_worker srv) (srv_limits srv)) evs
        (infer_new (unat (srv_max_concurrent_requests srv)), 0) = Inr (s, k) \<and>
      k \<le> unat (srv_max_concurrent_requests srv) \<and>
      (arg_use_tokenizer a \<and> (\<forall>tk. env_tokenizer env = Some tk \<longrightarrow> tokenizer_ok tk) \<and>
         unat (max_total_tokens (srv_limits srv)) < 2 ^ 32 \<longrightarrow> (\<forall>e\<in>set (appended s). fits_context (srv_limits srv) e))"
      using admission_limits[OF pos, of xxh "srv_worker srv" "srv_limits srv" evs "unat (srv_max_concurrent_requests srv)"]
        startup_measured[OF assms] by (elim exE conjE) (intro exI conjI impI, assumption, simp, simp)
  next
    assume z: "arg_kvcache_block_size a = 0 \<and> fst (validate (srv_worker srv) (srv_limits srv) rng req 0) = Inr r \<and>
       srv_max_concurrent_requests srv \<noteq> 0"
    then have "validate (srv_worker srv) (srv_limits srv) rng req (rid_generator (infer_new (unat (srv_max_concurrent_requests srv)))) =
        (Inr r, snd (validate (srv_worker srv) (srv_limits srv) rng req 0))"
      by (simp add: infer_new_def prod_eq_iff)
    from zero_blocks_panic[OF this] z st(4)
    show "generate_stream xxh (unat (srv_block_size srv)) (srv_worker srv) (srv_limits srv) rng now m req
         (infer_new (unat (srv_max_concurrent_requests srv))) = Inl ExplicitPanic"
      by (simp add: infer_new_def unat_eq_0)
  qed (rule resolve_limits_less[OF st(3)] start_simulator_ok[OF st(2)])+
qed

definition demo_env :: environment where
  "demo_env = \<lparr>env_local_model = True, env_tokenizer = Some demo_tokenizer, env_config_json = Inr '''',
     env_parse_json = (\<lambda>_. Inr (JObject [(''max_position_embeddings'', JInt 40)])), env_python_renderer = Inl '''',
     env_client_config = (\<lambda>_. Some ''''), env_parse_uris = (\<lambda>_. Some [''http://a'']), env_parse_f32 = (\<lambda>_. Some 1),
     env_files = (\<lambda>_. Inr []), env_hub = (\<lambda>_ _. None), env_hub_token = None, env_parse_ip = Some, feature_simulator = True,
     feature_python = False, feature_bailian = False, feature_preble = False, feature_preble_tps = False\<rparr>"

definition demo_args :: args where
  "demo_args = (default_args ''c'' ''m'')\<lparr>arg_use_tokenizer := True, arg_enable_simulator := True\<rparr>"

lemma demo_simulator: "\<exists>sim. start_simulator demo_args demo_env 1 = Inr sim"
  by (simp add: start_simulator_def demo_args_def demo_env_def default_args_def init_vidur_rf_def vidur_new_def vidur_ops_def
      simulator_config_of_def simulator_config_default_def load_csv_def init_with_predictor_def Let_def)

lemma demo_startup: "\<exists>srv. startup demo_args demo_env = Inr (Inr srv) \<and>
    max_total_tokens (srv_limits srv) = 40 \<and> srv_max_concurrent_requests srv = 64"
  using demo_simulator
  by (auto simp: startup_def load_tokenizer_def chat_renderer_def resolve_limits_def load_model_config_def connect_engines_def
      demo_env_def demo_args_def default_args_def json_index_def json_get_def as_u64_def as_str_def or_default_def sat_sub_def
      scale_concurrency_def Let_def)

theorem started_server_witness:
  "\<exists>srv s k. startup demo_args demo_env = Inr (Inr srv) \<and> is_active (srv_simulator srv) \<and>
     fold_outcome (front_step (\<lambda>_ h. h) (unat (srv_block_size srv)) (srv_worker srv) (srv_limits srv)) [Open 0 0 None demo_request]
        (infer_new (unat (srv_max_concurrent_requests srv)), 0) = Inr (s, k) \<and> k \<le> 64 \<and>
     (\<forall>e\<in>set (appended s). fits_context (srv_limits srv) e)"
proof -
  obtain srv where srv: "startup demo_args demo_env = Inr (Inr srv)"
    "max_total_tokens (srv_limits srv) = 40" "srv_max_concurrent_requests srv = 64" using demo_startup by blast
  have a: "arg_use_tokenizer demo_args" "\<forall>tk. env_tokenizer demo_env = Some tk \<longrightarrow> tokenizer_ok tk"
    "unat (max_total_tokens (srv_limits srv)) < 2 ^ 32" "arg_kvcache_block_size demo_args \<noteq> 0"
    using demo_tokenizer_ok srv(2) by (simp_all add: demo_env_def default_args_def demo_args_def)
  note t = started_server[OF srv(1), of "\<lambda>_ h. h" "[Open 0 0 None demo_request]"]
  have "arg_enable_simulator demo_args" by (simp add: demo_args_def)
  with t have "sim_inv (length (srv_engines srv)) (\<lambda>_. {}) (srv_simulator srv)" by simp
  then have "is_active (srv_simulator srv)" by (auto simp: sim_inv_def is_active_def)
  moreover from t a obtain s k where
    "fold_outcome (front_step (\<lambda>_ h. h) (unat (srv_block_size srv)) (srv_worker srv) (srv_limits srv)) [Open 0 0 None demo_request]
        (infer_new (unat (srv_max_concurrent_requests srv)), 0) = Inr (s, k)"
    "k \<le> unat (srv_max_concurrent_requests srv)" "\<forall>e\<in>set (appended s). fits_context (srv_limits srv) e" by blast
  ultimately show ?thesis using srv by auto
qed

text \<open>Which parameters the policies read is decided by the build features; a second installation changes nothing.\<close>

lemma params_keep_first: "init_bailian_params a2 b2 c2 (init_bailian_params a1 b1 c1 p) = init_bailian_params a1 b1 c1 p"
  by (auto simp: init_bailian_params_def once_set_def split: option.splits)

text \<open>An explicit limit of 128 concurrent requests cannot be told from the default and is replaced.\<close>

lemma explicit_128_is_replaced: "scale_concurrency 128 1 = 64"
  by (simp add: scale_concurrency_def)

end
