(* ===== verification/Router.thy ===== *)
theory Router
  imports PolicyContracts Startup
begin

text \<open>
  From the command line to the running router: \<^verbatim>\<open>server::run\<close> builds the validation and the inference front
  from what \<^verbatim>\<open>main\<close> has prepared (theory \<open>Startup\<close>) and starts the tasks of theory \<open>Fleet\<close>. The empty prefix
  matcher and the policy are those of the build features, here arguments.
\<close>

section \<open>Assembly\<close>

definition run_server ::
    "(u32 list \<Rightarrow> u64 \<Rightarrow> u64) \<Rightarrow> ('b, 'g) schedule_fn \<Rightarrow> ('b \<Rightarrow> u64 list \<Rightarrow> u64 list \<Rightarrow> ('b \<times> nat) outcome) \<Rightarrow>
       ('b \<Rightarrow> u64 list \<Rightarrow> 'b outcome) \<Rightarrow> 'b \<Rightarrow> 'g \<Rightarrow> server \<Rightarrow> ('b, 'g) deployment \<times> ('b, 'g) fleet" where
  "run_server xxh sched bh_insert bh_remove bh g srv =
     (\<lparr>dp_xxh = xxh, dp_block_size = unat (srv_block_size srv), dp_worker = srv_worker srv, dp_limits = srv_limits srv,
       dp_sched = sched, dp_insert = bh_insert, dp_remove = bh_remove\<rparr>,
      fleet_new (length (srv_engines srv)) (unat (srv_max_concurrent_requests srv)) bh g (srv_simulator srv))"

section \<open>What the front guarantees holds in every reachable state\<close>

lemma fleet_step_front:
  assumes "fleet_step d ev s = Inr s'"
  shows "(fl_front s', fl_open s') = (fl_front s, fl_open s) \<or>
    (\<exists>op. front_step (dp_xxh d) (dp_block_size d) (dp_worker d) (dp_limits d) op (fl_front s, fl_open s) = Inr (fl_front s', fl_open s'))"
proof (cases ev)
  case (Front op)
  with assms show ?thesis by (auto simp: fleet_step_def front_event_def obind_eq_Inr)
next
  case (Receive k m)
  with assms show ?thesis
    by (auto simp: fleet_step_def receive_event_def turn_event_def obind_eq_Inr split: received.splits if_splits)
qed (use assms in \<open>auto simp: fleet_step_def append_event_def fetch_event_def submit_event_def publish_event_def query_event_def
       obind_eq_Inr split: list.splits if_splits\<close>)

lemma fleet_reachable_front:
  assumes "fleet_reachable d s0 s" "front_inv limit P (fl_front s0, fl_open s0)" "0 < dp_block_size d"
    and "\<And>rng req rid r b tx now. validate (dp_worker d) (dp_limits d) rng req rid = (Inr r, rid + 1) \<Longrightarrow>
      bhs_new (dp_xxh d) (input_tokens r) (dp_block_size d) = Inr b \<Longrightarrow> P (entry_new r b tx now)"
  shows "front_inv limit P (fl_front s, fl_open s)"
  using assms(1)
proof (induction rule: fleet_reachable.induct)
  case (step s ev s')
  from fleet_step_front[OF step.hyps(2)] show ?case
  proof
    assume "\<exists>op. front_step (dp_xxh d) (dp_block_size d) (dp_worker d) (dp_limits d) op (fl_front s, fl_open s) = Inr (fl_front s', fl_open s')"
    then obtain op where op: "front_step (dp_xxh d) (dp_block_size d) (dp_worker d) (dp_limits d) op (fl_front s, fl_open s) =
      Inr (fl_front s', fl_open s')" by blast
    have "\<exists>sk'. front_step (dp_xxh d) (dp_block_size d) (dp_worker d) (dp_limits d) op (fl_front s, fl_open s) = Inr sk' \<and> front_inv limit P sk'"
      by (rule front_step_inv[OF assms(3) step.IH]) (rule assms(4))
    with op show ?thesis by simp
  qed (use step.IH in simp)
qed (rule assms(2))

lemma start_simulator_fleet:
  assumes "start_simulator a env n = Inr sim"
  shows "fleet_start n limit sim (fleet_new n limit bh g sim)"
proof -
  have "\<exists>inner. init_with_predictor n cfg inner None = (Inr (), sim)" if "init_vidur_rf pf files n cfg None = (Inr u, sim)" for pf files cfg u
    using that by (cases "vidur_new pf files cfg") (auto simp: init_vidur_rf_def)
  then show ?thesis using assms
    by (fastforce simp: fleet_start_def start_simulator_def split: if_splits prod.splits sum.splits)
qed

section \<open>Properties\<close>

lemma fleet_new_front: "front_inv limit P (fl_front (fleet_new n limit bh g sim), fl_open (fleet_new n limit bh g sim))"
  by (simp add: fleet_new_def front_inv_def infer_new_def)

text \<open>C2: a router started from options that \<^verbatim>\<open>main\<close> accepts, with a block size other than 0, at least one engine and one of
  the policies of \<open>policy_bodies\<close>, in every state that clients, engines and its own tasks can reach without a
  panic and with fewer than \<open>2 ^ 64\<close> accepted requests: every request it accepted is in exactly one place, the
  requests are distinct, at most the configured number of streams is open, and the simulator, when it was
  asked for, takes only requests admitted to an engine to be in flight there. With a tokenizer whose answers are as
  documented and a context below \<open>2 ^ 32\<close>, every accepted request also fits into the context of the model with
  its generation.\<close>

theorem started_router:
  assumes "startup a env = Inr (Inr srv)" "arg_kvcache_block_size a \<noteq> 0" "srv_engines srv \<noteq> []"
    "body \<in> set (policy_bodies alpha beta gamma u)"
    "run_server xxh (lowered get epoch_of body no_extra) bh_insert bh_remove bh () srv = (d, s0)"
    "fleet_reachable d s0 s" "length (appended (fl_front s)) < 2 ^ 64"
  shows "places s = mset (map entry_id (appended (fl_front s))) \<and> distinct (map entry_id (appended (fl_front s))) \<and>
    fl_open s \<le> unat (srv_max_concurrent_requests srv) \<and>
    (\<forall>k<length (srv_engines srv). \<forall>rt. fl_sim s = Some rt \<longrightarrow>
       in_flight (pc_sched (pctxs rt ! k)) \<subseteq> set (admitted_to k (admit_log (fl_queue s)))) \<and>
    (arg_use_tokenizer a \<and> (\<forall>tk. env_tokenizer env = Some tk \<longrightarrow> tokenizer_ok tk) \<and>
       unat (max_total_tokens (srv_limits srv)) < 2 ^ 32 \<longrightarrow>
       (\<forall>e\<in>set (appended (fl_front s)). fits_context (srv_limits srv) e))"
proof -
  from assms(1) obtain tk render where st: "start_simulator a env (length (srv_engines srv)) = Inr (srv_simulator srv)"
    "srv_block_size srv = arg_kvcache_block_size a"
    by (rule startup_Inr)
  have d: "dp_sched d = lowered get epoch_of body no_extra" "0 < dp_block_size d" "dp_worker d = srv_worker srv"
    "dp_limits d = srv_limits srv"
    and s0: "s0 = fleet_new (length (srv_engines srv)) (unat (srv_max_concurrent_requests srv)) bh () (srv_simulator srv)"
    using assms(2,5) st(2) by (auto simp: run_server_def unat_gt_0)
  have n: "0 < length (srv_engines srv)" using assms(3) by simp
  have start: "fleet_start (length (srv_engines srv)) (unat (srv_max_concurrent_requests srv)) (srv_simulator srv) s0"
    unfolding s0 by (rule start_simulator_fleet[OF st(1)])
  have "total_policy body" using policies_total assms(4) by blast
  note c = total_policy.policy_fleet_conserves[OF this start n d(1,2) assms(6) assms(7)[folded ids_fit_def]]
  let ?P = "\<lambda>e. measured (srv_worker srv) (srv_limits srv) \<longrightarrow> fits_context (srv_limits srv) e"
  have "front_inv (unat (srv_max_concurrent_requests srv)) ?P (fl_front s, fl_open s)"
  proof (rule fleet_reachable_front[OF assms(6) _ d(2)])
    show "front_inv (unat (srv_max_concurrent_requests srv)) ?P (fl_front s0, fl_open s0)"
      unfolding s0 by (rule fleet_new_front)
    fix rng req rid r b tx now
    assume v: "validate (dp_worker d) (dp_limits d) rng req rid = (Inr r, rid + 1)"
    show "?P (entry_new r b tx now)" using measured_fits[OF _ v[unfolded d(3,4)]] by blast
  qed
  then have f: "\<forall>e\<in>set (appended (fl_front s)). ?P e" "fl_open s \<le> unat (srv_max_concurrent_requests srv)"
    by (auto simp: front_inv_def)
  have "arg_use_tokenizer a \<and> (\<forall>tk. env_tokenizer env = Some tk \<longrightarrow> tokenizer_ok tk) \<and>
      unat (max_total_tokens (srv_limits srv)) < 2 ^ 32 \<longrightarrow> (\<forall>e\<in>set (appended (fl_front s)). fits_context (srv_limits srv) e)"
    using f(1) startup_measured[OF assms(1)] by blast
  with c f(2) show ?thesis by blast
qed

text \<open>The first request of a client, whatever becomes of it.\<close>

lemma first_request:
  assumes "0 < dp_block_size d"
  shows "\<exists>s. fleet_step d (Front (Open rng now m req)) (fleet_new n limit bh g sim) = Inr s \<and> length (appended (fl_front s)) \<le> 1"
  by (rule generate_stream_cases[OF assms, of "infer_new limit" "dp_xxh d" "dp_worker d" "dp_limits d" rng now m req])
    (auto simp: fleet_step_def front_event_def front_step_def fleet_new_def infer_new_def)

theorem started_router_witness:
  "\<exists>srv d s0 s. startup demo_args demo_env = Inr (Inr srv) \<and>
     run_server (\<lambda>_ h. h) (lowered ht_get ht_epoch lmetric_q no_extra) ht_insert ht_remove (ht_new 83001) () srv = (d, s0) \<and>
     fleet_step d (Front (Open 0 0 None demo_request)) s0 = Inr s \<and> places s = mset (map entry_id (appended (fl_front s))) \<and>
     fl_open s \<le> 64 \<and> (\<forall>e\<in>set (appended (fl_front s)). fits_context (srv_limits srv) e)"
proof -
  obtain srv where srv: "startup demo_args demo_env = Inr (Inr srv)"
    "max_total_tokens (srv_limits srv) = 40" "srv_max_concurrent_requests srv = 64" using demo_startup by blast
  have a: "arg_kvcache_block_size demo_args \<noteq> 0" "arg_use_tokenizer demo_args"
    "\<forall>tk. env_tokenizer demo_env = Some tk \<longrightarrow> tokenizer_ok tk" "unat (max_total_tokens (srv_limits srv)) < 2 ^ 32"
    using demo_tokenizer_ok srv(2) by (simp_all add: demo_env_def default_args_def demo_args_def)
  from srv(1) have st: "connect_engines demo_args demo_env = Inr (srv_engines srv)" "srv_block_size srv = arg_kvcache_block_size demo_args"
    by (rule startup_Inr, simp)+
  have e: "srv_engines srv \<noteq> []" using st(1) by (auto simp: connect_engines_def demo_env_def demo_args_def default_args_def)
  obtain d s0 where r: "run_server (\<lambda>_ h. h) (lowered ht_get ht_epoch lmetric_q no_extra) ht_insert ht_remove (ht_new 83001) () srv = (d, s0)"
    by force
  then have pos: "0 < dp_block_size d" using st(2) a(1) by (auto simp: run_server_def unat_gt_0)
  have s0: "s0 = fleet_new (length (srv_engines srv)) (unat (srv_max_concurrent_requests srv)) (ht_new 83001) () (srv_simulator srv)"
    using r by (simp add: run_server_def)
  obtain s where s: "fleet_step d (Front (Open 0 0 None demo_request)) s0 = Inr s" "length (appended (fl_front s)) \<le> 1"
    unfolding s0
    using first_request[OF pos, of 0 0 None demo_request "length (srv_engines srv)" "unat (srv_max_concurrent_requests srv)" "ht_new 83001" "()"
      "srv_simulator srv"] by (elim exE conjE)
  have "length (appended (fl_front s)) < 2 ^ 64" using s(2) by simp
  note t = started_router[OF srv(1) a(1) e demo_deployment_facts(1) r fleet_reachable.step[OF fleet_reachable.start s(1)] this]
  from t have "places s = mset (map entry_id (appended (fl_front s)))" "fl_open s \<le> 64" by (simp_all only: srv(3)) simp_all
  moreover from t a(2-4) have "\<forall>e\<in>set (appended (fl_front s)). fits_context (srv_limits srv) e" by blast
  ultimately show ?thesis using srv(1) r s(1) by (intro exI conjI)
qed

end
