(* ===== verification/PolicyMacro.thy ===== *)
theory PolicyMacro
  imports Prelude
begin

text \<open>
  The front end of the policy macro: \<^verbatim>\<open>policy-dsl/src/ast.rs\<close>, \<^verbatim>\<open>parse.rs\<close>, \<^verbatim>\<open>check.rs\<close> and
  \<^verbatim>\<open>lib.rs\<close>. The parsers of identifiers, types, expressions and blocks (crate \<^verbatim>\<open>syn\<close>) are
  arguments, as is the generator, whose output is the subject of theory \<open>Policies\<close>. Spans are not modelled:
  errors are in the order they are found.
\<close>

section \<open>Syntax\<close>

text \<open>
  A Rust expression as the visitor sees it: the constructs the lint looks at, and every other one
  (\<open>Node\<close>, named by its kind) with its parts in the order they are visited. A macro call is a node
  without parts: its tokens are not expressions. \<open>func\<close> and its arguments are the parts of a call.
\<close>

datatype expr =
    Path "string list"
  | Call expr "expr list"
  | ForLoop "expr list"
  | While "expr list"
  | Loop "expr list"
  | Unsafe "expr list"
  | Match "expr list"
  | Node string "expr list"

record policy_input =
  pi_name :: string
  pi_gctx :: string
  pi_body :: expr
  pi_after_extra :: "expr list option"

section \<open>Parsing\<close>

datatype parse_error =
    UnknownField string
  | MissingField string
  | SynError string

record partial_input =
  pa_name :: "string option"
  pa_gctx :: "string option"
  pa_body :: "expr option"
  pa_after :: "expr list option"

record 't syn_parsers =
  parse_ident :: "'t \<Rightarrow> string + string"
  parse_type :: "'t \<Rightarrow> string + string"
  parse_expr :: "'t \<Rightarrow> string + expr"
  parse_block :: "'t \<Rightarrow> string + expr list"

definition syn_error :: "string + 'a \<Rightarrow> parse_error + 'a" where
  "syn_error x = map_sum SynError id x"

text \<open>One turn of the loop: a key with the tokens of its value; a later field overwrites an earlier one.\<close>

definition parse_field :: "'t syn_parsers \<Rightarrow> string \<Rightarrow> 't \<Rightarrow> partial_input \<Rightarrow> parse_error + partial_input" where
  "parse_field syn key v p =
     (if key = ''name'' then obind (syn_error (parse_ident syn v)) (\<lambda>x. Inr (p\<lparr>pa_name := Some x\<rparr>))
      else if key = ''gctx'' then obind (syn_error (parse_type syn v)) (\<lambda>x. Inr (p\<lparr>pa_gctx := Some x\<rparr>))
      else if key = ''body'' then obind (syn_error (parse_expr syn v)) (\<lambda>x. Inr (p\<lparr>pa_body := Some x\<rparr>))
      else if key = ''after_extra'' then obind (syn_error (parse_block syn v)) (\<lambda>x. Inr (p\<lparr>pa_after := Some x\<rparr>))
      else Inl (UnknownField key))"

fun parse_fields :: "'t syn_parsers \<Rightarrow> (string \<times> 't) list \<Rightarrow> partial_input \<Rightarrow> parse_error + partial_input" where
  "parse_fields syn [] p = Inr p"
| "parse_fields syn ((k, v) # fs) p = obind (parse_field syn k v p) (parse_fields syn fs)"

definition need :: "string \<Rightarrow> 'a option \<Rightarrow> parse_error + 'a" where
  "need field x = (case x of None \<Rightarrow> Inl (MissingField field) | Some v \<Rightarrow> Inr v)"

definition parse_policy :: "'t syn_parsers \<Rightarrow> (string \<times> 't) list \<Rightarrow> parse_error + policy_input" where
  "parse_policy syn inp =
     obind (parse_fields syn inp \<lparr>pa_name = None, pa_gctx = None, pa_body = None, pa_after = None\<rparr>) (\<lambda>p.
     obind (need ''name'' (pa_name p)) (\<lambda>nm.
     obind (need ''gctx'' (pa_gctx p)) (\<lambda>g.
     obind (need ''body'' (pa_body p)) (\<lambda>b.
       Inr \<lparr>pi_name = nm, pi_gctx = g, pi_body = b, pi_after_extra = pa_after p\<rparr>))))"

section \<open>The lint\<close>

definition allowed_fns :: "string list" where
  "allowed_fns =
    [''filter_then'', ''select_min_by'', ''select_max_by'', ''select_rand_by'',
     ''mean_of_usize'', ''std_of_usize'', ''sum_of_usize'', ''min_of_usize'', ''max_of_usize'',
     ''mean_of_f32'', ''std_of_f32'', ''min_of_f32'', ''max_of_f32'',
     ''new_tokens'', ''new_blocks'', ''queued_tokens'', ''prefill_tokens'', ''hit_blocks'', ''match_blocks'', ''hit_pct'',
     ''decode_blocks'', ''preble_cost'', ''preble_load'', ''preble_bs_sum'', ''preble_tps_count'',
     ''preble_global_match_blocks'', ''preble_owned_match_blocks'', ''preble_update_after'', ''preble_bs_update_after'',
     ''preble_tps_compensate_idle'',
     ''root_target'', ''weighted_pick'']"

datatype lint_error =
    NotAllowed string
  | IndirectCall
  | ForbiddenFor
  | ForbiddenWhile
  | ForbiddenLoop
  | ForbiddenUnsafe
  | ForbiddenMatch

text \<open>What \<^verbatim>\<open>visit_expr_call\<close> says of the callee; a path always has a segment.\<close>

definition check_callee :: "expr \<Rightarrow> lint_error list" where
  "check_callee func = (case func of
     Path segs \<Rightarrow> (if segs \<noteq> [] \<and> List.last segs \<notin> set allowed_fns then [NotAllowed (List.last segs)] else [])
   | _ \<Rightarrow> [IndirectCall])"

text \<open>The visitor: an error before the errors of the parts.\<close>

fun lint_expr :: "expr \<Rightarrow> lint_error list" where
  "lint_expr (Path segs) = []"
| "lint_expr (Call func args) = check_callee func @ lint_expr func @ concat (map lint_expr args)"
| "lint_expr (ForLoop es) = ForbiddenFor # concat (map lint_expr es)"
| "lint_expr (While es) = ForbiddenWhile # concat (map lint_expr es)"
| "lint_expr (Loop es) = ForbiddenLoop # concat (map lint_expr es)"
| "lint_expr (Unsafe es) = ForbiddenUnsafe # concat (map lint_expr es)"
| "lint_expr (Match es) = ForbiddenMatch # concat (map lint_expr es)"
| "lint_expr (Node k es) = concat (map lint_expr es)"

definition lint_policy :: "policy_input \<Rightarrow> lint_error list + unit" where
  "lint_policy p =
     (let errs = lint_expr (pi_body p) @
                 (case pi_after_extra p of None \<Rightarrow> [] | Some after \<Rightarrow> concat (map lint_expr after))
      in if errs = [] then Inr () else Inl errs)"

section \<open>The macro\<close>

datatype compile_error = ParseFailed parse_error | LintFailed "lint_error list"

definition policy_macro :: "'t syn_parsers \<Rightarrow> (policy_input \<Rightarrow> 'code) \<Rightarrow> (string \<times> 't) list \<Rightarrow> compile_error + 'code" where
  "policy_macro syn lower_to inp =
     obind (map_sum ParseFailed id (parse_policy syn inp)) (\<lambda>p.
     obind (map_sum LintFailed id (lint_policy p)) (\<lambda>_. Inr (lower_to p)))"

section \<open>What the lint lets through\<close>

fun subexprs :: "expr \<Rightarrow> expr list" where
  "subexprs (Path segs) = [Path segs]"
| "subexprs (Call func args) = Call func args # subexprs func @ concat (map subexprs args)"
| "subexprs (ForLoop es) = ForLoop es # concat (map subexprs es)"
| "subexprs (While es) = While es # concat (map subexprs es)"
| "subexprs (Loop es) = Loop es # concat (map subexprs es)"
| "subexprs (Unsafe es) = Unsafe es # concat (map subexprs es)"
| "subexprs (Match es) = Match es # concat (map subexprs es)"
| "subexprs (Node k es) = Node k es # concat (map subexprs es)"

text \<open>The error of one expression by itself.\<close>

definition offence :: "expr \<Rightarrow> lint_error list" where
  "offence e = (case e of
     Call func args \<Rightarrow> check_callee func
   | ForLoop _ \<Rightarrow> [ForbiddenFor] | While _ \<Rightarrow> [ForbiddenWhile] | Loop _ \<Rightarrow> [ForbiddenLoop]
   | Unsafe _ \<Rightarrow> [ForbiddenUnsafe] | Match _ \<Rightarrow> [ForbiddenMatch] | _ \<Rightarrow> [])"

lemma concat_map_concat: "\<forall>x\<in>set xs. f x = concat (map g (h x)) \<Longrightarrow> concat (map f xs) = concat (map g (concat (map h xs)))"
  by (induction xs) auto

lemma lint_expr_offences: "lint_expr e = concat (map offence (subexprs e))"
  by (induction e rule: lint_expr.induct) (simp_all add: offence_def concat_map_concat)

text \<open>What the lint lets pass: every call names an allowed function; no loop, match or unsafe block.\<close>

definition legal :: "expr \<Rightarrow> bool" where
  "legal e = (case e of
     Call func args \<Rightarrow> (case func of Path segs \<Rightarrow> segs \<noteq> [] \<longrightarrow> List.last segs \<in> set allowed_fns | _ \<Rightarrow> False)
   | ForLoop _ \<Rightarrow> False | While _ \<Rightarrow> False | Loop _ \<Rightarrow> False | Unsafe _ \<Rightarrow> False | Match _ \<Rightarrow> False | _ \<Rightarrow> True)"

lemma offence_legal: "offence e = [] \<longleftrightarrow> legal e"
  by (auto simp: offence_def legal_def check_callee_def split: expr.split)

definition all_subexprs :: "policy_input \<Rightarrow> expr list" where
  "all_subexprs p = subexprs (pi_body p) @
     (case pi_after_extra p of None \<Rightarrow> [] | Some after \<Rightarrow> concat (map subexprs after))"

lemma lint_policy_offences:
  "lint_policy p = (let errs = concat (map offence (all_subexprs p)) in if errs = [] then Inr () else Inl errs)"
  by (cases "pi_after_extra p")
    (simp_all add: lint_policy_def all_subexprs_def lint_expr_offences concat_map_concat[where f = lint_expr and g = offence and h = subexprs])

text \<open>C34: the macro generates code for exactly the inputs whose fields parse and are complete and in which
  every sub-expression of the body and of the extra statements, at any depth, passes the lint of
  \<^verbatim>\<open>check.rs\<close> (\<open>legal\<close>: calls by an allowed name only, no loop, \<^verbatim>\<open>match\<close> or \<^verbatim>\<open>unsafe\<close>); and when it rejects a
  parsed input, it reports exactly one error for every offending sub-expression, in the order of a
  traversal from the outside in. Every other kind of expression passes by itself, \<^verbatim>\<open>return\<close>, \<^verbatim>\<open>break\<close>,
  \<^verbatim>\<open>continue\<close> and macro calls among them: \<^verbatim>\<open>docs/dsl/implementation.md\<close>, section 2.2, lists these as rejected,
  but the visitor has no case for them, as its last comment says.\<close>

theorem policy_macro_accepts:
  "((\<exists>code. policy_macro syn lower_to inp = Inr code) \<longleftrightarrow>
     (\<exists>p. parse_policy syn inp = Inr p \<and> (\<forall>e\<in>set (all_subexprs p). legal e))) \<and>
   (policy_macro syn lower_to inp = Inl (LintFailed errs) \<longleftrightarrow>
     (\<exists>p. parse_policy syn inp = Inr p \<and> errs = concat (map offence (all_subexprs p)) \<and> errs \<noteq> [])) \<and>
   (parse_policy syn inp = Inr \<lparr>pi_name = name, pi_gctx = gctx, pi_body = Node kind [], pi_after_extra = None\<rparr> \<longrightarrow>
     (\<exists>code. policy_macro syn lower_to inp = Inr code))"
proof (cases "parse_policy syn inp")
  case (Inl e)
  then show ?thesis by (simp add: policy_macro_def)
next
  case (Inr p)
  have "lint_policy \<lparr>pi_name = name, pi_gctx = gctx, pi_body = Node kind [], pi_after_extra = None\<rparr> = Inr ()"
    by (simp add: lint_policy_def)
  then show ?thesis using Inr lint_policy_offences[of p]
    by (auto simp: policy_macro_def offence_legal[symmetric])
qed

text \<open>An instance: tokens are names or expressions.\<close>

definition demo_syn :: "(string + expr) syn_parsers" where
  "demo_syn = \<lparr>parse_ident = (\<lambda>t. case t of Inl s \<Rightarrow> Inr s | Inr _ \<Rightarrow> Inl ''expected identifier''),
     parse_type = (\<lambda>t. case t of Inl s \<Rightarrow> Inr s | Inr _ \<Rightarrow> Inl ''expected type''),
     parse_expr = (\<lambda>t. case t of Inl s \<Rightarrow> Inr (Path [s]) | Inr e \<Rightarrow> Inr e),
     parse_block = (\<lambda>t. case t of Inl s \<Rightarrow> Inr [Path [s]] | Inr e \<Rightarrow> Inr [e])\<rparr>"

definition demo_policy :: "expr \<Rightarrow> (string \<times> (string + expr)) list" where
  "demo_policy b = [(''name'', Inl ''RandomQ''), (''gctx'', Inl ''()''), (''body'', Inr b)]"

lemma demo_policy_parses: "parse_policy demo_syn (demo_policy b) =
    Inr \<lparr>pi_name = ''RandomQ'', pi_gctx = ''()'', pi_body = b, pi_after_extra = None\<rparr>"
  by (simp add: parse_policy_def demo_policy_def demo_syn_def parse_field_def syn_error_def need_def)

theorem policy_macro_accepts_witness:
  "(\<exists>code. policy_macro demo_syn pi_name (demo_policy (Call (Path [''select_rand_by'']) [Path [''o'']])) = Inr code) \<and>
   policy_macro demo_syn pi_name (demo_policy (Match [Loop []])) = Inl (LintFailed [ForbiddenMatch, ForbiddenLoop]) \<and>
   (\<exists>code. policy_macro demo_syn pi_name (demo_policy (Node ''return'' [])) = Inr code)"
  using policy_macro_accepts[of demo_syn pi_name "demo_policy (Call (Path [''select_rand_by'']) [Path [''o'']])" "[]"]
    policy_macro_accepts[of demo_syn pi_name "demo_policy (Match [Loop []])" "[ForbiddenMatch, ForbiddenLoop]"]
    policy_macro_accepts[of demo_syn pi_name "demo_policy (Node ''return'' [])" "[]"]
  by (simp add: demo_policy_parses all_subexprs_def legal_def allowed_fns_def offence_def)

text \<open>
  Constructs the visitor has no case for pass: a macro call or a \<^verbatim>\<open>return\<close>, although the
  documentation lists them as rejected, and a function passed by name.
\<close>

definition select_by_name :: policy_input where
  "select_by_name = \<lparr>pi_name = ''P'', pi_gctx = ''()'',
     pi_body = Node ''block'' [Node ''return'' [], Node ''macro panic'' [],
       Call (Path [''select_min_by'']) [Path [''t''], Path [''std'', ''process'', ''exit'']]],
     pi_after_extra = None\<rparr>"

lemma lint_gaps: "lint_policy select_by_name = Inr ()"
  by (simp add: lint_policy_def select_by_name_def check_callee_def allowed_fns_def)

lemma lint_rejects_loop: "lint_policy (select_by_name\<lparr>pi_body := Call (Path [''exit'']) [Loop []]\<rparr>) = Inl [NotAllowed ''exit'', ForbiddenLoop]"
  by (simp add: lint_policy_def select_by_name_def check_callee_def allowed_fns_def)

end
