(* ===== verification/SpinLock.thy ===== *)
theory SpinLock
  imports Prelude
begin

text \<open>
  The spin lock of \<^verbatim>\<open>radixtree/src/block_hash.rs\<close> and the section it guards, the collection of emptied
  children during a descent, with their interleavings: every load, compare-and-exchange and store is a step of
  one thread. Atomic operations are sequentially consistent here, which for one flag the acquire and
  release orderings of the code give. The theories of the tree (\<open>RadixTree\<close>) take the descent as one step;
  the last section shows for which callers that is justified.
\<close>

section \<open>The lock\<close>

definition spinlock_backoff :: "u32 \<Rightarrow> u32" where
  "spinlock_backoff spins = (if spins < 64 then spins + 1 else sat_add spins 1)"

text \<open>
  Where a thread is in \<open>lock\<close> and \<open>unlock\<close>: not inside, before the load of the inner loop, before the
  compare-and-exchange, or holding the lock.
\<close>

datatype lock_pc = Outside | Loading u32 | Exchanging u32 | Holding

record spin_lock =
  flag :: bool
  pcs :: "nat \<Rightarrow> lock_pc"

definition spin_lock_new :: spin_lock where
  "spin_lock_new = \<lparr>flag = False, pcs = (\<lambda>_. Outside)\<rparr>"

inductive lock_step :: "nat \<Rightarrow> spin_lock \<Rightarrow> spin_lock \<Rightarrow> bool" where
  call: "pcs s t = Outside \<Longrightarrow> lock_step t s (s\<lparr>pcs := (pcs s)(t := Loading 0)\<rparr>)"
| load_busy: "\<lbrakk>pcs s t = Loading n; flag s\<rbrakk> \<Longrightarrow> lock_step t s (s\<lparr>pcs := (pcs s)(t := Loading (spinlock_backoff n))\<rparr>)"
| load_free: "\<lbrakk>pcs s t = Loading n; \<not> flag s\<rbrakk> \<Longrightarrow> lock_step t s (s\<lparr>pcs := (pcs s)(t := Exchanging n)\<rparr>)"
| exchange_ok: "\<lbrakk>pcs s t = Exchanging n; \<not> flag s\<rbrakk> \<Longrightarrow> lock_step t s \<lparr>flag = True, pcs = (pcs s)(t := Holding)\<rparr>"
| exchange_failed: "\<lbrakk>pcs s t = Exchanging n; flag s\<rbrakk> \<Longrightarrow> lock_step t s (s\<lparr>pcs := (pcs s)(t := Loading (spinlock_backoff n))\<rparr>)"
| unlock: "pcs s t = Holding \<Longrightarrow> lock_step t s \<lparr>flag = False, pcs = (pcs s)(t := Outside)\<rparr>"

inductive_cases lock_stepE: "lock_step t s s'"

inductive lock_reachable :: "spin_lock \<Rightarrow> bool" where
  start: "lock_reachable spin_lock_new"
| step: "\<lbrakk>lock_reachable s; lock_step t s s'\<rbrakk> \<Longrightarrow> lock_reachable s'"

text \<open>The flag is set exactly while one thread holds the lock, and two never do.\<close>

definition lock_inv :: "spin_lock \<Rightarrow> bool" where
  "lock_inv s \<longleftrightarrow> (flag s \<longleftrightarrow> (\<exists>t. pcs s t = Holding)) \<and> (\<forall>t u. pcs s t = Holding \<and> pcs s u = Holding \<longrightarrow> t = u)"

lemma lock_inv_step: "lock_step t s s' \<Longrightarrow> lock_inv s \<Longrightarrow> lock_inv s'"
  by (erule lock_stepE; simp add: lock_inv_def; metis lock_pc.distinct)

lemma lock_inv_reachable: "lock_reachable s \<Longrightarrow> lock_inv s"
proof (induction rule: lock_reachable.induct)
  case start
  show ?case by (simp add: lock_inv_def spin_lock_new_def)
qed (rule lock_inv_step)

text \<open>A thread that asks while the lock is free gets it in two steps of its own, when no other thread moves.\<close>

lemma free_lock_is_taken:
  assumes "\<not> flag s" "pcs s t = Loading n"
  shows "\<exists>s1 s2. lock_step t s s1 \<and> lock_step t s1 s2 \<and> pcs s2 t = Holding \<and> (\<forall>u. u \<noteq> t \<longrightarrow> pcs s2 u = pcs s u)"
proof (intro exI conjI)
  show "lock_step t s (s\<lparr>pcs := (pcs s)(t := Exchanging n)\<rparr>)" using assms by (rule load_free[rotated])
  show "lock_step t (s\<lparr>pcs := (pcs s)(t := Exchanging n)\<rparr>) \<lparr>flag = True, pcs = (pcs (s\<lparr>pcs := (pcs s)(t := Exchanging n)\<rparr>))(t := Holding)\<rparr>"
    using assms by (intro exchange_ok) auto
qed auto

text \<open>Every thread always has a step: nothing in the lock panics or blocks for good.\<close>

lemma lock_always_steps: "\<exists>s'. lock_step t s s'"
proof (cases "pcs s t")
  case (Loading n)
  then show ?thesis by (cases "flag s") (blast intro: lock_step.intros)+
next
  case (Exchanging n)
  then show ?thesis by (cases "flag s") (blast intro: lock_step.intros)+
qed (blast intro: lock_step.intros)+

text \<open>The back-off counter never wraps around: it only grows, up to its maximum.\<close>

lemma backoff_saturates: "unat (spinlock_backoff n) = min (unat n + 1) (2 ^ 32 - 1)"
proof (cases "n < 64")
  case True
  then have "unat n < 64" by (simp add: word_less_nat_alt)
  then show ?thesis using True by (simp add: spinlock_backoff_def unat_word_ariths)
qed (simp add: spinlock_backoff_def unat_sat_add)

text \<open>C17: the spin lock excludes: in every reachable state at most one thread holds it, the flag says whether one
  does, and whenever it is free a thread that waits for it can take it in two steps of its own; no step
  of a thread changes where another one is.\<close>

theorem spin_lock_excludes:
  assumes "lock_reachable s"
  shows "(\<forall>t u. pcs s t = Holding \<and> pcs s u = Holding \<longrightarrow> t = u) \<and> (flag s \<longleftrightarrow> (\<exists>t. pcs s t = Holding)) \<and>
    (\<forall>t n. \<not> flag s \<and> pcs s t = Loading n \<longrightarrow>
      (\<exists>s1 s2. lock_step t s s1 \<and> lock_step t s1 s2 \<and> pcs s2 t = Holding \<and> (\<forall>u. u \<noteq> t \<longrightarrow> pcs s2 u = pcs s u)))"
  using lock_inv_reachable[OF assms] free_lock_is_taken[of s] unfolding lock_inv_def by blast

definition contended :: spin_lock where
  "contended = \<lparr>flag = False, pcs = (\<lambda>_. Outside)(7 := Loading 0)\<rparr>"

lemma contended_reachable: "lock_reachable contended"
proof -
  have "lock_step 7 spin_lock_new contended" using call[of spin_lock_new 7] by (simp add: spin_lock_new_def contended_def)
  then show ?thesis by (rule lock_reachable.step[OF start])
qed

theorem spin_lock_excludes_witness: "\<exists>s1 s2. lock_step 7 contended s1 \<and> lock_step 7 s1 s2 \<and> pcs s2 7 = Holding"
proof -
  have "\<not> flag contended \<and> pcs contended 7 = Loading 0" by (simp add: contended_def)
  then show ?thesis using spin_lock_excludes[OF contended_reachable] by blast
qed

section \<open>The section the lock guards\<close>

text \<open>
  The loop of \<^verbatim>\<open>common_prefix_full_combo\<close> over the children of one node: an emptied child is removed and
  freed under the lock, after a second look at it. A child is an address; \<open>dead\<close> says which are empty; a child
  that is not is taken not to match, which keeps the loop going. What may go wrong is an error.
\<close>

datatype gc_fault = UseAfterFree | DoubleFree | IndexPanic

datatype gc_pc =
    At nat
  | Seen nat nat
  | Asking nat nat
  | Locked nat nat
  | Removed nat nat
  | Unlocking nat
  | Finished

record gc_state =
  kids :: "nat list"
  freed :: "nat list"
  owner :: "nat option"
  gc_pcs :: "nat \<Rightarrow> gc_pc"

definition gc_goto :: "nat \<Rightarrow> gc_pc \<Rightarrow> gc_state \<Rightarrow> gc_state" where
  "gc_goto t pc s = s\<lparr>gc_pcs := (gc_pcs s)(t := pc)\<rparr>"

definition gc_step :: "(nat \<Rightarrow> bool) \<Rightarrow> nat \<Rightarrow> gc_state \<Rightarrow> gc_fault + gc_state" where
  "gc_step dead t s = (case gc_pcs s t of
     At i \<Rightarrow> Inr (gc_goto t (if i < length (kids s) then Seen i (kids s ! i) else Finished) s)
   | Seen i c \<Rightarrow> if c \<in> set (freed s) then Inl UseAfterFree
                else Inr (gc_goto t (if dead c then Asking i c else At (i + 1)) s)
   | Asking i c \<Rightarrow> Inr (if owner s = None then gc_goto t (Locked i c) (s\<lparr>owner := Some t\<rparr>) else s)
   | Locked i c \<Rightarrow> if c \<in> set (freed s) then Inl UseAfterFree
                  else if \<not> dead c then Inr (gc_goto t (Unlocking i) s)
                  else if i < length (kids s)
                  then Inr (gc_goto t (Removed i c) (s\<lparr>kids := take i (kids s) @ drop (i + 1) (kids s)\<rparr>))
                  else Inl IndexPanic
   | Removed i c \<Rightarrow> if c \<in> set (freed s) then Inl DoubleFree
                   else Inr (gc_goto t (Unlocking i) (s\<lparr>freed := c # freed s\<rparr>))
   | Unlocking i \<Rightarrow> Inr (gc_goto t (At i) (s\<lparr>owner := None\<rparr>))
   | Finished \<Rightarrow> Inr s)"

primrec gc_run :: "(nat \<Rightarrow> bool) \<Rightarrow> nat list \<Rightarrow> gc_state \<Rightarrow> gc_fault + gc_state" where
  "gc_run dead [] s = Inr s"
| "gc_run dead (t # ts) s = obind (gc_step dead t s) (gc_run dead ts)"

lemma gc_run_append: "gc_run dead (ts @ us) s = obind (gc_run dead ts s) (gc_run dead us)"
proof (induction ts arbitrary: s)
  case (Cons t ts)
  then show ?case by (cases "gc_step dead t s") simp_all
qed simp

lemma gc_step_simps:
  "gc_pcs (gc_goto t pc s) u = (if u = t then pc else gc_pcs s u)" "kids (gc_goto t pc s) = kids s"
  "freed (gc_goto t pc s) = freed s" "owner (gc_goto t pc s) = owner s"
  by (simp_all add: gc_goto_def)

text \<open>One turn of the loop by a thread that is alone: past a live child, or through the section.\<close>

lemma gc_turn_live:
  assumes "gc_pcs s t = At i" "i < length (kids s)" "\<not> dead (kids s ! i)" "kids s ! i \<notin> set (freed s)"
  shows "gc_run dead [t, t] s = Inr (gc_goto t (At (i + 1)) s)"
  using assms by (simp add: gc_step_def gc_step_simps) (simp add: gc_goto_def)

lemma gc_turn_dead:
  assumes "gc_pcs s t = At i" "i < length (kids s)" "dead (kids s ! i)" "kids s ! i \<notin> set (freed s)" "owner s = None"
  shows "gc_run dead [t, t, t, t, t, t] s =
    Inr (gc_goto t (At i) (s\<lparr>kids := take i (kids s) @ drop (i + 1) (kids s), freed := kids s ! i # freed s\<rparr>))"
  using assms by (simp add: gc_step_def gc_step_simps) (simp add: gc_goto_def)

text \<open>
  A thread that is alone collects exactly the emptied children, each once, and never touches freed memory. The
  number of its steps is bounded by six for every child.
\<close>

lemma gc_alone:
  assumes "gc_pcs s t = At i" "i \<le> length (kids s)" "distinct (kids s)" "set (drop i (kids s)) \<inter> set (freed s) = {}" "owner s = None"
  shows "\<exists>n s'. gc_run dead (replicate n t) s = Inr s' \<and> gc_pcs s' t = Finished \<and>
    kids s' = take i (kids s) @ filter (\<lambda>c. \<not> dead c) (drop i (kids s)) \<and>
    freed s' = rev (filter dead (drop i (kids s))) @ freed s \<and> owner s' = None \<and> (\<forall>u. u \<noteq> t \<longrightarrow> gc_pcs s' u = gc_pcs s u)"
  using assms
proof (induction "length (kids s) - i" arbitrary: s i)
  case 0
  then have "i = length (kids s)" by simp
  then have "gc_run dead (replicate 1 t) s = Inr (gc_goto t Finished s)" using 0 by (simp add: gc_step_def)
  then show ?case using \<open>i = length (kids s)\<close> 0
    by (intro exI[of _ 1] exI[of _ "gc_goto t Finished s"]) (simp add: gc_step_simps)
next
  case (Suc k)
  then have i: "i < length (kids s)" by simp
  then have d: "drop i (kids s) = kids s ! i # drop (i + 1) (kids s)" by (simp add: Cons_nth_drop_Suc)
  then have nf: "kids s ! i \<notin> set (freed s)" using Suc.prems(4) by simp
  show ?case
  proof (cases "dead (kids s ! i)")
    case False
    let ?s = "gc_goto t (At (i + 1)) s"
    have "k = length (kids ?s) - (i + 1)" using Suc.hyps(2) by (simp add: gc_step_simps)
    from Suc.hyps(1)[OF this] Suc.prems i d obtain n s' where n: "gc_run dead (replicate n t) ?s = Inr s'" "gc_pcs s' t = Finished"
      "kids s' = take (i + 1) (kids s) @ filter (\<lambda>c. \<not> dead c) (drop (i + 1) (kids s))"
      "freed s' = rev (filter dead (drop (i + 1) (kids s))) @ freed s" "owner s' = None" "\<forall>u. u \<noteq> t \<longrightarrow> gc_pcs s' u = gc_pcs s u"
      by (auto simp: gc_step_simps)
    have "gc_run dead (replicate (2 + n) t) s = Inr s'"
      using n(1) gc_turn_live[of s t i dead, OF Suc.prems(1) i False nf] gc_run_append[of dead "[t, t]" "replicate n t" s]
      by (simp add: numeral_2_eq_2)
    then show ?thesis using n(2-) d False i by (intro exI[of _ "2 + n"] exI[of _ s']) (simp add: take_Suc_conv_app_nth)
  next
    case True
    let ?ks = "take i (kids s) @ drop (i + 1) (kids s)"
    let ?s = "gc_goto t (At i) (s\<lparr>kids := ?ks, freed := kids s ! i # freed s\<rparr>)"
    have "k = length (kids ?s) - i" using Suc.hyps(2) i by (simp add: gc_step_simps)
    moreover have "distinct ?ks" using Suc.prems(3) by (simp add: set_take_disj_set_drop_if_distinct)
    moreover have "kids s ! i \<notin> set (drop (i + 1) (kids s))" using Suc.prems(3) d by (metis distinct.simps(2) distinct_drop)
    moreover have "i \<le> length (kids s) - Suc 0" using i by simp
    ultimately obtain n s' where n: "gc_run dead (replicate n t) ?s = Inr s'" "gc_pcs s' t = Finished"
      "kids s' = take i (kids s) @ filter (\<lambda>c. \<not> dead c) (drop (i + 1) (kids s))"
      "freed s' = rev (filter dead (drop (i + 1) (kids s))) @ kids s ! i # freed s" "owner s' = None" "\<forall>u. u \<noteq> t \<longrightarrow> gc_pcs s' u = gc_pcs s u"
      using Suc.hyps(1)[of ?s i] Suc.prems i d by (auto simp: gc_step_simps)
    have "gc_run dead (replicate (6 + n) t) s = Inr s'"
      using n(1) gc_turn_dead[of s t i dead, OF Suc.prems(1) i True nf Suc.prems(5)]
        gc_run_append[of dead "[t, t, t, t, t, t]" "replicate n t" s] by (simp add: eval_nat_numeral)
    then show ?thesis using n(2-) d True by (intro exI[of _ "6 + n"] exI[of _ s']) simp
  qed
qed

text \<open>
  Two threads inside the loop at once: both see the same emptied child, one frees it, and the second look of
  the other, although under the lock, reads freed memory. The lock alone does not make readers safe; the
  router only descends under the mutex around the scheduling context.
\<close>

definition two_readers :: gc_state where
  "two_readers = \<lparr>kids = [1], freed = [], owner = None, gc_pcs = (\<lambda>_. At 0)\<rparr>"

lemma two_readers_use_after_free: "gc_run (\<lambda>c. c = 1) [0, 0, 1, 1, 0, 0, 0, 0, 1, 1] two_readers = Inl UseAfterFree"
  by (simp add: two_readers_def gc_step_def gc_goto_def)

end
