(* ===== verification/Spec2Isabelle.thy ===== *)
theory Spec2Isabelle
  imports VerifiedTrie ReqIdTrie PCtx BlockHashState RadixMatcher Router
    PolicyMacro SpinLock
begin

text \<open>
  Verification of the blitz LLM request router.

  The router (\<^verbatim>\<open>router/src/\<close>) receives generation requests over HTTP, chooses a replica of an LLM
  engine for each, passes them on and streams the answers back. Its parts, and the theories that
  model them:

  \<^item> Start-up (\<^verbatim>\<open>main.rs\<close>, \<^verbatim>\<open>gateway/model_config.rs\<close>): theory \<open>Startup\<close>. From the options and the files to
    the limits, clients, policy parameters and simulator of the server.
  \<^item> The gateway (\<^verbatim>\<open>gateway/\<close>): \<open>Validation\<close> (request types, every check, the tokenizer workers) and
    \<open>ChatApi\<close> (the chat endpoint in both modes, errors, routes). Between them the inference front
    \<^verbatim>\<open>scheduler/infer.rs\<close>, theory \<open>Infer\<close>: admission, the stream of a request, its aggregation.
    Decimal numerals and text helpers are in \<open>Decimal\<close>.
  \<^item> Queue entries (\<^verbatim>\<open>scheduler/policies/mod.rs\<close>: \<^verbatim>\<open>Entry\<close>): theory \<open>Entry\<close>. An entry carries its
    request, its response channel and the state of its block hashes
    (\<^verbatim>\<open>scheduler/kvcache.rs\<close>: \<^verbatim>\<open>BlockHashState\<close>), theory \<open>BlockHashState\<close>.
  \<^item> The prefix matcher of a replica, behind the trait \<^verbatim>\<open>BlockHash\<close>. The production matcher
    is the raw-pointer radix tree of \<^verbatim>\<open>radixtree/src/core.rs\<close> and \<^verbatim>\<open>radixtree/src/block_hash.rs\<close>:
    \<open>RadixTree\<close> (nodes with explicit addresses, the table from blocks to nodes, all operations),
    \<open>RadixTreeInv\<close> (well-formedness, cells, lookup), \<open>RadixTreeOps\<close> (descents with garbage
    collection, root scan, clearing), \<open>RadixTreeBlockHash\<close> (insertion), \<open>RadixTreeRemove\<close>
    (removal), \<open>RadixMatcher\<close> (locale \<open>path_matcher\<close>: a matcher is a set of pairs of key path
    and block). Its alternative \<^verbatim>\<open>HashTableBlockHash\<close>, theory \<open>HashTable\<close> (locale
    \<open>block_hash\<close>), agrees with it on chained histories. The epoch of a matcher counts its
    mutations (locale \<open>epoch_counter\<close>). Its spin lock and the section it guards: \<open>SpinLock\<close>.
  \<^item> The load metrics of a replica (\<^verbatim>\<open>scheduler/state.rs\<close>): theory \<open>LMetric\<close>, over the sliding
    window of \<^verbatim>\<open>radixtree/src/types/sliding_window.rs\<close>, theory \<open>SlidingWindow\<close> (locale
    \<open>aggregate\<close>).
  \<^item> The policies: the front end of the policy macro (\<^verbatim>\<open>policy-dsl/src/\<close>: parser and lint), theory
    \<open>PolicyMacro\<close>; the runtime of the policy language (\<^verbatim>\<open>policies/dsl_runtime.rs\<close>), theory
    \<open>DslRuntime\<close>; the function the macro emits (\<^verbatim>\<open>policy-dsl/src/lower.rs\<close>) and the stateless
    policies with round robin and least-TTFT, theory \<open>Policies\<close> (locale \<open>total_policy\<close>, interpreted for every
    stateless body and round robin; \<open>policy_bodies\<close> lists the 16 stateless bodies). The Preble policies
    (\<^verbatim>\<open>policies/preble/\<close>) with their matchers over sliding windows: \<open>PrebleCost\<close> (the cost model),
    \<open>PrebleBlockHash\<close> (the matchers, interpretations of \<open>path_matcher\<close>), \<open>PrebleTps\<close> (throughput and idle
    gaps), \<open>Preble\<close> (decisions).
  \<^item> The queue task (\<^verbatim>\<open>policies/policy_runner.rs\<close>): theory \<open>PolicyRunner\<close>, over the contract
    of a policy (locales \<open>scheduler\<close> and \<open>total_scheduler\<close>; every total policy meets them).
  \<^item> The event loop of a replica (\<^verbatim>\<open>engine/colocation.rs\<close>): theories \<open>ExceptMgmt\<close> (phases and
    exception context), \<open>EventLoop\<close> (one turn and the loop), \<open>LoopInvariant\<close> (where every request
    is), \<open>LoopAccounting\<close> (batch size, deliveries, absence of panics). The step an engine reports
    (\<^verbatim>\<open>engine/client.rs\<close>) is in \<open>EngineTypes\<close>; the clients that send requests and receive steps, over
    HTTP (\<^verbatim>\<open>engine/vllm_http.rs\<close>) and ZMQ (\<^verbatim>\<open>engine/zmq.rs\<close>), in \<open>EngineClients\<close> (locales
    \<open>engine_client\<close> and \<open>step_source\<close>, interpreted for both).
  \<^item> The whole router, as \<^verbatim>\<open>Infer::create_vllm_colocation\<close> puts it together: \<open>Fleet\<close> (front, queue task, work
    and completion loop of every replica and simulator as one transition system, and its invariant) and \<open>FleetRuns\<close>
    (every reachable state: conservation of requests, delivery to the work queues, ended replicas).
    \<open>PolicyContracts\<close> shows that the policies that are not in \<open>policy_bodies\<close>, and those that draw random numbers, meet the
    contract too (the throughput policy of Preble while its rate is \<open>rate_ok\<close>), and states for every policy what a
    decision does (\<open>counted_on\<close>) and what the queue task promises (\<open>serves_fifo\<close>). \<open>Router\<close> starts that system from the command line
    (\<^verbatim>\<open>server::run\<close> on what \<open>startup\<close> prepares).
  \<^item> The latency simulator (\<^verbatim>\<open>scheduler/simulator/\<close>): \<open>SchedSnapshot\<close> (\<^verbatim>\<open>sched.rs\<close>),
    \<open>Mirror\<close> (\<^verbatim>\<open>mirror.rs\<close>) over the request trie of \<^verbatim>\<open>radixtree/src/req_id_hash.rs\<close>
    (\<open>ReqIdTrie\<close>, locales \<open>claim_index\<close> and \<open>evictable_index\<close>), \<open>Predictor\<close> (\<^verbatim>\<open>batch.rs\<close>,
    \<^verbatim>\<open>predictor.rs\<close>), \<open>VidurRf\<close> (the table-driven predictor \<^verbatim>\<open>vidur_rf.rs\<close>), \<open>Rollout\<close> and \<open>PCtx\<close>
    (\<^verbatim>\<open>rollout.rs\<close>, \<^verbatim>\<open>pctx.rs\<close>), \<open>Simulator\<close> (the registry of contexts, \<^verbatim>\<open>mod.rs\<close>).
  \<^item> The reference radix tree \<^verbatim>\<open>radixtree/src/verified.rs\<close>: \<open>VerifiedTrie\<close>.

  How the code is modelled. A request enters at the chat endpoint (\<open>chat_generate_request\<close>), is admitted
  and validated (\<open>generate_stream\<close>, \<open>validate\<close>) and becomes an entry (\<open>entry_new\<close>). It goes from
  \<^verbatim>\<open>Append\<close> (\<open>run_append\<close>) through a policy (\<open>lowered\<close>) to the buffer of a replica, is taken by
  \<^verbatim>\<open>NextRequest\<close> (\<open>run_next\<close>), sent to the engine (\<open>vllm_add_request\<close>), handed to the
  event loop (\<open>drain_wqe\<close>), answered by its turns (\<open>completion_step\<close>) and leaves by finishing, by
  an acknowledged abort or by a dropped fault; what its channel carries becomes the events of the client
  (\<open>wire\<close>, \<open>chat_completions_stream\<close>). State is a record passed explicitly; a panic is a
  value of \<open>outcome\<close>; maps are partial functions, finite maps or association lists where their order
  matters; the iteration order of a hash map is an argument. Machine integers are words and wrap as
  in a release build; vector lengths are natural numbers; floating point numbers are reals. Outside
  \<open>SpinLock\<close> locks are not modelled: what a lock protects is one step. The tasks taken one by one are sequences of
  commands or of turns, with what other tasks change in between as an argument (\<open>queue_task\<close>: the scheduling
  contexts before every command); together they are the relation \<open>fleet_reachable\<close>, over the events of
  \<open>fleet_step\<close> in any order. A turn is one event there, and the event \<open>Publish\<close> stands for what the queue
  task may see of a scheduling context between the lock sections of a turn.

  Parameters. The hash function \<^verbatim>\<open>xxh3\<close>, the tokenizer and the Python template renderer, the decoders
  of JSON and msgpack, the parsers of the crate \<^verbatim>\<open>syn\<close>, the contents of files, what sockets and HTTP
  connections yield, random numbers, clocks and the engine's reports are arguments; the theorems
  about the event loop hold for any report.

  Bounds. A rollout has at most 256 slots (\<open>max_slots\<close>), which makes its loop total. All other
  loops are structural recursions or decrease a length; no fuel is used. The spin lock may wait for ever and is
  a step relation; the distribution over no tokenizer workers is the value \<open>None\<close>.

  What the lemmas show. Each component has an invariant (\<open>forest_ok\<close>, \<open>trie_ok\<close>, \<open>sched_ok\<close>,
  \<open>mirror_ok\<close>, \<open>pctx_ok\<close>, \<open>sim_inv\<close>, \<open>ht_ok\<close>, \<open>rt_ok\<close>, \<open>tracks\<close>, \<open>ext_inv\<close>, \<open>runner_inv\<close>, \<open>loop_inv\<close>,
  \<open>front_inv\<close>, \<open>lock_inv\<close>, \<open>fleet_inv\<close>) that every operation preserves, and an abstraction through which its operations are
  stated (a request of a server that can measure it, \<open>measured\<close>, fits into the context, \<open>fits_context\<close>): stored prefixes, claims of requests, occupied blocks, a map of tracked requests, permits in use. The
  properties C1 to C40 rest on them. Beside the properties the theories keep lemmas about behaviour that
  departs from the comments and documents, such as \<open>non_stream_answer_is_empty\<close>, \<open>early_fault_panics\<close>,
  \<open>two_readers_use_after_free\<close>, \<open>ended_replica_starves\<close>, \<open>faulted_exited_never_dropped\<close>, \<open>canary_exceeds\<close>,
  \<open>zero_blocks_panic\<close>, \<open>params_ok_lax\<close>, \<open>no_tokenizer_limit_wraps\<close>, \<open>last_slot_consumed\<close> and \<open>lint_gaps\<close>.

  Not modelled: sockets, HTTP, TLS and the encodings themselves; logging, tracing and the histograms of the
  metrics endpoint (but for the figures the simulator publishes); CORS, ngrok and the shutdown signals of the
  HTTP server; the writer of statistics; the Python renderer; the deprecated response parser of
  \<^verbatim>\<open>vllm_http.rs\<close>, which nothing calls; the benchmarks.
\<close>

end
